(* ===== verification/Flint_Prelude.thy ===== *)
theory Flint_Prelude
  imports Main "HOL-Library.Word" "HOL-Library.List_Lexorder" "HOL-Library.Stream"
    "HOL-Library.Sublist"
begin

unbundle bit_operations_syntax

text \<open>
  Shared vocabulary of the development: the machine integers and byte strings of the Rust
  code, the big-endian encodings that every row and key layout is built from, Rust's slice
  and saturating operations, and the lemmas on them that the components rest on.

  Bytes are \<open>8 word\<close>; \<open>Vec<u8>\<close> and \<open>&[u8]\<close> are lists of bytes, ordered lexicographically
  as Rust orders slices (the order of \<open>HOL-Library.List_Lexorder\<close>). Signed 64-bit integers
  are \<open>64 word\<close> read through \<^const>\<open>sint\<close>.
\<close>

named_theorems flint_eval \<open>equations that evaluate the model on concrete inputs\<close>
named_theorems flint_len \<open>lengths of encoded keys and rows\<close>

type_synonym u8 = "8 word"
type_synonym u16 = "16 word"
type_synonym u32 = "32 word"
type_synonym u64 = "64 word"
type_synonym i64 = "64 word"
type_synonym bytes = "u8 list"
type_synonym row = "bytes \<times> bytes"

section \<open>Big-endian encodings\<close>

text \<open>Rust's \<open>to_be_bytes\<close> at the three widths the code uses.\<close>

definition to_be16 :: "u16 \<Rightarrow> bytes" where
  [flint_eval]: "to_be16 w = [ucast (drop_bit 8 w), ucast w]"

definition to_be32 :: "u32 \<Rightarrow> bytes" where
  [flint_eval]: "to_be32 w =
     [ucast (drop_bit 24 w), ucast (drop_bit 16 w), ucast (drop_bit 8 w), ucast w]"

definition to_be64 :: "u64 \<Rightarrow> bytes" where
  [flint_eval]: "to_be64 w =
     [ucast (drop_bit 56 w), ucast (drop_bit 48 w), ucast (drop_bit 40 w), ucast (drop_bit 32 w),
      ucast (drop_bit 24 w), ucast (drop_bit 16 w), ucast (drop_bit 8 w), ucast w]"

text \<open>Rust's \<open>from_be_bytes\<close>; its callers have already cut the slice to the word's width.\<close>

definition of_be :: "bytes \<Rightarrow> 'a::len word" where
  [flint_eval]: "of_be bs = foldl (\<lambda>a b. a * 256 + ucast b) 0 bs"

text \<open>The generic \<open>n\<close>-byte encoding, on natural numbers, that the three are instances of.\<close>

primrec be_nat :: "nat \<Rightarrow> nat \<Rightarrow> bytes" where
  "be_nat 0 x = []"
| "be_nat (Suc n) x = word_of_nat (x div 256 ^ n) # be_nat n x"

definition nat_be :: "bytes \<Rightarrow> nat" where
  "nat_be bs = foldl (\<lambda>a b. a * 256 + unat b) 0 bs"

lemma length_be_nat [simp]: "length (be_nat n x) = n"
  by (induction n) simp_all

lemma nat_be_Nil [simp]: "nat_be [] = 0"
  by (simp add: nat_be_def)

lemma foldl_be_acc:
  "foldl (\<lambda>a b. a * 256 + unat (b::u8)) k bs = k * 256 ^ length bs + nat_be bs"
proof (induction bs arbitrary: k)
  case Nil
  then show ?case by simp
next
  case (Cons b bs)
  have "foldl (\<lambda>a b. a * 256 + unat (b::u8)) k (b # bs)
      = (k * 256 + unat b) * 256 ^ length bs + nat_be bs"
    using Cons.IH[of "k * 256 + unat b"] by simp
  moreover have "nat_be (b # bs) = unat b * 256 ^ length bs + nat_be bs"
    using Cons.IH[of "unat b"] by (simp add: nat_be_def)
  ultimately show ?case by (simp add: algebra_simps)
qed

lemma nat_be_Cons: "nat_be (b # bs) = unat b * 256 ^ length bs + nat_be bs"
  using foldl_be_acc[of "unat b" bs] by (simp add: nat_be_def)

lemma nat_be_bound: "nat_be bs < 256 ^ length bs"
proof (induction bs)
  case Nil
  then show ?case by simp
next
  case (Cons b bs)
  have "unat b \<le> 255" using unsigned_less[of b, where 'a = nat] by simp
  then have "unat b * 256 ^ length bs \<le> 255 * 256 ^ length bs" by (rule mult_right_mono) simp
  with Cons have "unat b * 256 ^ length bs + nat_be bs < 256 * 256 ^ length bs" by linarith
  then show ?case by (simp only: nat_be_Cons list.size power_add One_nat_def power_Suc) simp
qed

lemma unat_byte_of_nat: "unat (word_of_nat x :: u8) = x mod 256"
  by (simp add: unat_of_nat)

lemma nat_be_be_nat: "nat_be (be_nat n x) = x mod 256 ^ n"
proof (induction n)
  case 0
  then show ?case by simp
next
  case (Suc n)
  have "x mod (256 ^ n * 256) = 256 ^ n * (x div 256 ^ n mod 256) + x mod 256 ^ n"
    by (rule mod_mult2_eq)
  with Suc show ?case by (simp add: nat_be_Cons unat_byte_of_nat algebra_simps)
qed

lemma be_nat_mod: "be_nat n (x mod 256 ^ (n + k)) = be_nat n x"
proof (induction n arbitrary: k)
  case 0
  then show ?case by simp
next
  case (Suc n)
  have "x mod 256 ^ (Suc n + k) div 256 ^ n mod 256 = x div 256 ^ n mod 256"
  proof -
    have "x mod (256 ^ n * 256 ^ Suc k) = 256 ^ n * (x div 256 ^ n mod 256 ^ Suc k) + x mod 256 ^ n"
      by (rule mod_mult2_eq)
    then have "x mod 256 ^ (Suc n + k) div 256 ^ n = x div 256 ^ n mod 256 ^ Suc k"
      by (simp add: power_add algebra_simps)
    then show ?thesis by (simp add: mod_mod_cancel)
  qed
  then have "(word_of_nat (x mod 256 ^ (Suc n + k) div 256 ^ n) :: u8) = word_of_nat (x div 256 ^ n)"
    by (simp add: word_of_nat_eq_iff take_bit_eq_mod)
  moreover have "be_nat n (x mod 256 ^ (Suc n + k)) = be_nat n x"
    using Suc.IH[of "Suc k"] by simp
  ultimately show ?case by simp
qed

lemma be_nat_nat_be: "length bs = n \<Longrightarrow> be_nat n (nat_be bs) = bs"
proof (induction bs arbitrary: n)
  case Nil
  then show ?case by simp
next
  case (Cons b bs)
  then obtain m where m: "n = Suc m" and l: "length bs = m" by (cases n) auto
  have "nat_be (b # bs) div 256 ^ m = unat b"
    using nat_be_bound[of bs] l by (simp add: nat_be_Cons)
  moreover have "be_nat m (nat_be (b # bs)) = be_nat m (nat_be bs)"
    using be_nat_mod[of m "nat_be (b # bs)" 0] be_nat_mod[of m "nat_be bs" 0] l
    by (simp add: nat_be_Cons)
  ultimately show ?case using Cons.IH[OF l] m by simp
qed

lemma nat_be_inj: "length bs = length cs \<Longrightarrow> nat_be bs = nat_be cs \<Longrightarrow> bs = cs"
  by (metis be_nat_nat_be)

lemma nat_be_less: "length bs = length cs \<Longrightarrow> bs < cs \<longleftrightarrow> nat_be bs < nat_be cs"
proof (induction bs cs rule: list_induct2)
  case Nil
  then show ?case by simp
next
  case (Cons b bs c cs)
  let ?m = "256 ^ length cs :: nat"
  have lt: "nat_be bs < ?m" "nat_be cs < ?m"
    using nat_be_bound[of bs] nat_be_bound[of cs] Cons.hyps by simp_all
  consider (lt) "b < c" | (eq) "b = c" | (gt) "c < b" by (rule linorder_cases)
  then show ?case
  proof cases
    case lt
    then have "(unat b + 1) * ?m \<le> unat c * ?m"
      by (intro mult_right_mono) (simp_all add: word_less_nat_alt)
    with lt show ?thesis using \<open>nat_be bs < ?m\<close> Cons.hyps by (simp add: nat_be_Cons)
  next
    case eq
    then show ?thesis using Cons by (simp add: nat_be_Cons)
  next
    case gt
    then have "(unat c + 1) * ?m \<le> unat b * ?m"
      by (intro mult_right_mono) (simp_all add: word_less_nat_alt)
    with gt show ?thesis using \<open>nat_be cs < ?m\<close> Cons.hyps by (auto simp: nat_be_Cons)
  qed
qed

lemma of_be_eq: "(of_be bs :: 'a::len word) = word_of_nat (nat_be bs)"
proof -
  have "foldl (\<lambda>a b. a * 256 + ucast b) (word_of_nat k) bs
      = (word_of_nat (foldl (\<lambda>a b. a * 256 + unat (b::u8)) k bs) :: 'a word)" for k
  proof (induction bs arbitrary: k)
    case Nil
    then show ?case by simp
  next
    case (Cons b bs)
    have "word_of_nat k * 256 + ucast b = (word_of_nat (k * 256 + unat b) :: 'a word)" by simp
    then show ?case using Cons.IH[of "k * 256 + unat b"] by (simp del: of_nat_add of_nat_mult)
  qed
  from this[of 0] show ?thesis by (simp add: of_be_def nat_be_def)
qed

lemma be_nat_2: "be_nat 2 x = [word_of_nat (x div 2 ^ 8), word_of_nat x]"
proof -
  have "be_nat (Suc (Suc 0)) x = [word_of_nat (x div 2 ^ 8), word_of_nat x]" by simp
  then show ?thesis by (simp only: numeral_2_eq_2)
qed

lemma be_nat_4: "be_nat 4 x = [word_of_nat (x div 2 ^ 24), word_of_nat (x div 2 ^ 16),
    word_of_nat (x div 2 ^ 8), word_of_nat x]"
proof -
  have "4 = Suc (Suc (Suc (Suc 0)))" by simp
  then show ?thesis by (simp only: be_nat.simps) simp
qed

lemma be_nat_8: "be_nat 8 x = [word_of_nat (x div 2 ^ 56), word_of_nat (x div 2 ^ 48),
    word_of_nat (x div 2 ^ 40), word_of_nat (x div 2 ^ 32), word_of_nat (x div 2 ^ 24),
    word_of_nat (x div 2 ^ 16), word_of_nat (x div 2 ^ 8), word_of_nat x]"
proof -
  have "8 = Suc (Suc (Suc (Suc (Suc (Suc (Suc (Suc 0)))))))" by simp
  then show ?thesis by (simp only: be_nat.simps) simp
qed

lemma ucast_drop_bit_byte: "(ucast (drop_bit k w) :: u8) = word_of_nat (unat w div 2 ^ k)"
  by (metis of_nat_unat unat_drop_bit_eq drop_bit_eq_div)

lemma to_be16_be_nat: "to_be16 w = be_nat 2 (unat w)"
  by (simp add: to_be16_def be_nat_2 ucast_drop_bit_byte)

lemma to_be32_be_nat: "to_be32 w = be_nat 4 (unat w)"
  by (simp add: to_be32_def be_nat_4 ucast_drop_bit_byte)

lemma to_be64_be_nat: "to_be64 w = be_nat 8 (unat w)"
  by (simp add: to_be64_def be_nat_8 ucast_drop_bit_byte)

lemma length_to_be [simp, flint_len]:
  "length (to_be16 a) = 2" "length (to_be32 b) = 4" "length (to_be64 c) = 8"
  by (simp_all add: to_be16_def to_be32_def to_be64_def)

lemma of_be_to_be16 [simp]: "of_be (to_be16 w) = w"
  using unsigned_less[of w, where 'a = nat]
  by (simp add: of_be_eq to_be16_be_nat nat_be_be_nat)

lemma of_be_to_be32 [simp]: "of_be (to_be32 w) = w"
  using unsigned_less[of w, where 'a = nat]
  by (simp add: of_be_eq to_be32_be_nat nat_be_be_nat)

lemma of_be_to_be64 [simp]: "of_be (to_be64 w) = w"
  using unsigned_less[of w, where 'a = nat]
  by (simp add: of_be_eq to_be64_be_nat nat_be_be_nat)

lemma to_be16_of_be [simp]: "length bs = 2 \<Longrightarrow> to_be16 (of_be bs) = bs"
  using nat_be_bound[of bs]
  by (simp add: of_be_eq to_be16_be_nat unat_of_nat be_nat_nat_be)

lemma to_be32_of_be [simp]: "length bs = 4 \<Longrightarrow> to_be32 (of_be bs) = bs"
  using nat_be_bound[of bs]
  by (simp add: of_be_eq to_be32_be_nat unat_of_nat be_nat_nat_be)

lemma to_be64_of_be [simp]: "length bs = 8 \<Longrightarrow> to_be64 (of_be bs) = bs"
  using nat_be_bound[of bs]
  by (simp add: of_be_eq to_be64_be_nat unat_of_nat be_nat_nat_be)

lemma to_be16_inject [simp]: "to_be16 a = to_be16 b \<longleftrightarrow> a = b"
  by (metis of_be_to_be16)

lemma to_be32_inject [simp]: "to_be32 a = to_be32 b \<longleftrightarrow> a = b"
  by (metis of_be_to_be32)

lemma to_be64_inject [simp]: "to_be64 a = to_be64 b \<longleftrightarrow> a = b"
  by (metis of_be_to_be64)

text \<open>The byte order of an encoding is the numeric order of what it encodes.\<close>

lemma to_be16_less: "to_be16 a < to_be16 b \<longleftrightarrow> a < b"
  using unsigned_less[of a, where 'a = nat] unsigned_less[of b, where 'a = nat]
  by (subst nat_be_less) (simp_all add: to_be16_be_nat nat_be_be_nat word_less_nat_alt)

lemma to_be64_less: "to_be64 a < to_be64 b \<longleftrightarrow> a < b"
  using unsigned_less[of a, where 'a = nat] unsigned_less[of b, where 'a = nat]
  by (subst nat_be_less) (simp_all add: to_be64_be_nat nat_be_be_nat word_less_nat_alt)

lemma lex_append_less:
  fixes xs ys :: "'a::linorder list"
  assumes "length xs = length ys"
  shows "xs @ us < ys @ vs \<longleftrightarrow> xs < ys \<or> xs = ys \<and> us < vs"
  using assms by (induction xs ys rule: list_induct2) auto

lemma lex_append_left [simp]: "(xs::'a::linorder list) @ us < xs @ vs \<longleftrightarrow> us < vs"
  by (simp add: lex_append_less)

lemma to_be64_append_less:
  "to_be64 a @ us < to_be64 b @ vs \<longleftrightarrow> a < b \<or> a = b \<and> us < vs"
  by (simp add: lex_append_less to_be64_less)

lemma to_be16_append_less:
  "to_be16 a @ us < to_be16 b @ vs \<longleftrightarrow> a < b \<or> a = b \<and> us < vs"
  by (simp add: lex_append_less to_be16_less)

section \<open>Slices, saturating and checked arithmetic\<close>

text \<open>Rust's \<open>xs.get(a..b)\<close>: \<open>None\<close> where the range leaves the slice.\<close>

definition slice_get :: "'a list \<Rightarrow> nat \<Rightarrow> nat \<Rightarrow> 'a list option" where
  [flint_eval]: "slice_get xs a b =
     (if a \<le> b \<and> b \<le> length xs then Some (take (b - a) (drop a xs)) else None)"

text \<open>Rust's \<open>xs.get(i)\<close>.\<close>

definition elem_get :: "'a list \<Rightarrow> nat \<Rightarrow> 'a option" where
  [flint_eval]: "elem_get xs i = (if i < length xs then Some (xs ! i) else None)"

definition saturating_sub :: "'a::len word \<Rightarrow> 'a word \<Rightarrow> 'a word" where
  [flint_eval]: "saturating_sub a b = (if b \<le> a then a - b else 0)"

lemma unat_saturating_sub: "unat (saturating_sub a b) = unat a - unat b"
  by (simp add: saturating_sub_def unat_sub word_le_nat_alt)

definition checked_add_i64 :: "i64 \<Rightarrow> i64 \<Rightarrow> i64 option" where
  [flint_eval]: "checked_add_i64 a b =
     (if - (2 ^ 63) \<le> sint a + sint b \<and> sint a + sint b < 2 ^ 63 then Some (a + b) else None)"

definition saturating_mul :: "u64 \<Rightarrow> u64 \<Rightarrow> u64" where
  [flint_eval]: "saturating_mul a b = (if unat a * unat b < 2 ^ 64 then a * b else - 1)"

text \<open>Rust's \<open>iter().position(p)\<close>: the index of the first element that satisfies \<open>p\<close>.\<close>

fun iter_position :: "('a \<Rightarrow> bool) \<Rightarrow> 'a list \<Rightarrow> nat option" where
  "iter_position p [] = None"
| "iter_position p (x # xs) = (if p x then Some 0 else map_option Suc (iter_position p xs))"

text \<open>The lengths of byte strings summed in 64 bits.\<close>

definition lens :: "bytes list \<Rightarrow> u64" where
  [flint_eval]: "lens ms = foldl (\<lambda>acc m. acc + word_of_nat (length m)) 0 ms"

section \<open>Word counters\<close>

lemma word_of_unat: "unat w = n \<Longrightarrow> w = word_of_nat n"
  by auto

lemma ucast_of_unat: "unat (s::u32) = n \<Longrightarrow> (ucast s :: u64) = word_of_nat n"
  by (auto simp: of_nat_unat)

lemma u64_len_add:
  "unat (b::u64) + n < 2 ^ 64 \<Longrightarrow> unat (b + word_of_nat n) = unat b + n"
  by (simp add: unat_word_ariths(1) unat_of_nat)

lemma u64_len_sub: "n \<le> unat (b::u64) \<Longrightarrow> unat (saturating_sub b (word_of_nat n)) = unat b - n"
  using unsigned_less[of b, where 'a = nat] by (simp add: unat_saturating_sub unat_of_nat)

lemma u32_size_add:
  assumes "unat (s::u32) + n < 2 ^ 32" "unat (a::u64) = n"
  shows "unat (s + ucast a) = unat s + n"
proof -
  have "unat (ucast a :: u32) = n" using assms by (simp add: unsigned_ucast_eq take_bit_eq_mod)
  then show ?thesis using assms(1) by (simp add: unat_word_ariths(1))
qed

lemma i64_of_int: "- (2 ^ 63) \<le> n \<Longrightarrow> n < 2 ^ 63 \<Longrightarrow> sint (word_of_int n :: i64) = n"
  by (simp add: signed_of_int signed_take_bit_int_eq_self)

lemma i64_bounds: "- (2 ^ 63) \<le> sint (i::i64)" "sint (i::i64) < 2 ^ 63"
  using sint_greater_eq[of i] sint_less[of i] by simp_all

lemma sint_small: "unat (c::u64) < 2 ^ 63 \<Longrightarrow> sint c = int (unat c)"
proof -
  assume c: "unat c < 2 ^ 63"
  have "sint (word_of_int (int n) :: u64) = int n" if "n < 2 ^ 63" for n
    using that by (intro i64_of_int) simp_all
  from this[OF c] have "sint (word_of_int (int (unat c)) :: u64) = int (unat c)" .
  then show ?thesis by simp
qed

lemma lens_unat:
  assumes "sum_list (map length ms) < 2 ^ 64" shows "unat (lens ms) = sum_list (map length ms)"
proof -
  have "unat (foldl (\<lambda>acc m. acc + word_of_nat (length m)) a ms) = unat a + sum_list (map length ms)"
    if "unat (a::u64) + sum_list (map length ms) < 2 ^ 64" for a
    using that
  proof (induction ms arbitrary: a)
    case (Cons m ms)
    then show ?case using Cons.IH[of "a + word_of_nat (length m)"] u64_len_add[of a "length m"] by simp
  qed simp
  from this[of 0] assms show ?thesis by (simp add: lens_def)
qed

lemma iter_position_Some:
  "iter_position p xs = Some i \<longleftrightarrow> i < length xs \<and> p (xs ! i) \<and> (\<forall>j < i. \<not> p (xs ! j))"
proof (induction xs arbitrary: i)
  case (Cons x xs)
  then show ?case by (cases i) (auto simp: less_Suc_eq_0_disj)
qed simp

lemma iter_position_None: "iter_position p xs = None \<longleftrightarrow> (\<forall>x \<in> set xs. \<not> p x)"
  by (induction xs) auto

end
