(* ===== verification/Flint_Slot.thy ===== *)
theory Flint_Slot
  imports Flint_Prelude
begin

text \<open>
  The key-to-slot mapping of \<open>crates/flint-slot/src/lib.rs\<close>: CRC-16/XMODEM over the
  hash-tag part of a key, modulo the fixed number of slots. The lemmas characterise the hash
  tag by the shape of the key, and the checksum as the remainder of the message by the generator
  polynomial over the two-element field, with polynomials as natural numbers read in binary.
\<close>

section \<open>Definitions\<close>

definition SLOT_COUNT :: u16 where
  [flint_eval]: "SLOT_COUNT = 16384"

text \<open>One turn of the inner loop: shift, and reduce by the polynomial on a carry.\<close>

definition crc16_bit :: "u16 \<Rightarrow> u16" where
  "crc16_bit crc = (if crc AND 0x8000 \<noteq> 0 then push_bit 1 crc XOR 0x1021 else push_bit 1 crc)"

definition crc16_byte :: "u16 \<Rightarrow> u8 \<Rightarrow> u16" where
  "crc16_byte crc byte = (crc16_bit ^^ 8) (crc XOR push_bit 8 (ucast byte))"

definition crc16 :: "bytes \<Rightarrow> u16" where
  "crc16 data = foldl crc16_byte 0 data"

text \<open>Rust's \<open>iter().position(|&b| b == c)\<close>.\<close>

fun position :: "u8 \<Rightarrow> bytes \<Rightarrow> nat option" where
  "position c [] = None"
| "position c (b # bs) = (if b = c then Some 0 else map_option Suc (position c bs))"

definition hash_tag :: "bytes \<Rightarrow> bytes" where
  "hash_tag key =
     (case position 0x7B key of
        None \<Rightarrow> key
      | Some open_at \<Rightarrow>
          (case position 0x7D (drop (open_at + 1) key) of
             None \<Rightarrow> key
           | Some close_rel \<Rightarrow>
               if close_rel > 0 then take close_rel (drop (open_at + 1) key) else key))"

definition slot_for_key :: "bytes \<Rightarrow> u16" where
  "slot_for_key key = crc16 (hash_tag key) mod SLOT_COUNT"

section \<open>Notions the lemmas use\<close>

text \<open>The part of a key that is hashed: what is between the first open brace and the next closing one, or the whole key.\<close>

definition tagged :: "bytes \<Rightarrow> bytes \<Rightarrow> bool" where
  "tagged key tag \<longleftrightarrow> (\<exists>pre rest. key = pre @ 0x7B # tag @ 0x7D # rest \<and> 0x7B \<notin> set pre \<and> 0x7D \<notin> set tag \<and> tag \<noteq> [])"

definition hashed_part :: "bytes \<Rightarrow> bytes \<Rightarrow> bool" where
  "hashed_part key part \<longleftrightarrow> tagged key part \<or> (\<nexists>tag. tagged key tag) \<and> part = key"

text \<open>
  Polynomials over the two-element field as numbers in binary: the product without carries, and the remainder
  of a message, shifted by sixteen places, by the generator \<open>x^16 + x^12 + x^5 + 1\<close>.
\<close>

fun clmul :: "nat \<Rightarrow> nat \<Rightarrow> nat" where
  "clmul a b = (if a = 0 then 0 else (if odd a then b else 0) XOR 2 * clmul (a div 2) b)"

declare clmul.simps [simp del]

definition message :: "bytes \<Rightarrow> nat" where
  "message data = foldl (\<lambda>n b. n * 256 + unat b) 0 data"

definition xmodem_crc :: "bytes \<Rightarrow> u16 \<Rightarrow> bool" where
  "xmodem_crc data c \<longleftrightarrow> (\<exists>q. message data * 2 ^ 16 = clmul q 0x11021 XOR unat c)"

section \<open>Lemmas\<close>

lemma position_None [simp]: "position c bs = None \<longleftrightarrow> c \<notin> set bs"
  by (induction bs) auto

lemma position_absent [simp]: "c \<notin> set bs \<Longrightarrow> position c bs = None"
  by simp

lemma position_first [simp]: "c \<notin> set xs \<Longrightarrow> position c (xs @ c # ys) = Some (length xs)"
  by (induction xs) auto

lemma position_Some:
  assumes "position c bs = Some i"
  shows "bs = take i bs @ c # drop (Suc i) bs" and "c \<notin> set (take i bs)" and "i < length bs"
proof -
  have "bs = take i bs @ c # drop (Suc i) bs \<and> c \<notin> set (take i bs) \<and> i < length bs"
    using assms
  proof (induction bs arbitrary: i)
    case Nil
    then show ?case by simp
  next
    case (Cons b bs)
    then show ?case by (cases i) (auto split: if_splits)
  qed
  then show "bs = take i bs @ c # drop (Suc i) bs" and "c \<notin> set (take i bs)" and "i < length bs"
    by auto
qed

lemma hash_tag_tagged:
  assumes "0x7B \<notin> set pre" and "0x7D \<notin> set tag" and "tag \<noteq> []"
  shows "hash_tag (pre @ 0x7B # tag @ 0x7D # rest) = tag"
  using assms by (simp add: hash_tag_def)

lemma hash_tag_no_open: "0x7B \<notin> set key \<Longrightarrow> hash_tag key = key"
  by (simp add: hash_tag_def)

lemma hash_tag_no_close:
  assumes "0x7B \<notin> set pre" and "0x7D \<notin> set rest"
  shows "hash_tag (pre @ 0x7B # rest) = pre @ 0x7B # rest"
  using assms by (simp add: hash_tag_def)

lemma hash_tag_empty_tag:
  assumes "0x7B \<notin> set pre"
  shows "hash_tag (pre @ 0x7B # 0x7D # rest) = pre @ 0x7B # 0x7D # rest"
  using assms by (simp add: hash_tag_def)

text \<open>The three shapes above and a tagged key are all the shapes there are.\<close>

lemma hash_tag_tagged_key: "tagged key tag \<Longrightarrow> hash_tag key = tag"
  using hash_tag_tagged by (auto simp: tagged_def)

lemma hash_tag_untagged:
  assumes "\<nexists>tag. tagged key tag"
  shows "hash_tag key = key"
proof (rule ccontr)
  assume ne: "hash_tag key \<noteq> key"
  then obtain i where i: "position 0x7B key = Some i"
    by (cases "position 0x7B key") (auto simp: hash_tag_def)
  with ne obtain j where j: "position 0x7D (drop (i + 1) key) = Some j" and "j > 0"
    by (auto simp: hash_tag_def split: option.splits if_splits)
  let ?r = "drop (i + 1) key"
  have "key = take i key @ 0x7B # take j ?r @ 0x7D # drop (Suc j) ?r"
    using position_Some(1)[OF i] position_Some(1)[OF j] by simp
  moreover have "take j ?r \<noteq> []" using \<open>j > 0\<close> position_Some(3)[OF j] by auto
  ultimately have "tagged key (take j ?r)"
    unfolding tagged_def using position_Some(2)[OF i] position_Some(2)[OF j] by blast
  with assms show False by blast
qed

lemma hashed_part_hash_tag: "hashed_part key part \<longleftrightarrow> part = hash_tag key"
  using hash_tag_tagged_key hash_tag_untagged by (cases "\<exists>tag. tagged key tag") (auto simp: hashed_part_def)

text \<open>The multiples of the generator are closed under sum and shift.\<close>

definition multiple :: "nat \<Rightarrow> bool" where
  "multiple n \<longleftrightarrow> (\<exists>q. n = clmul q 0x11021)"

lemma clmul_0 [simp]: "clmul 0 b = 0"
  by (simp add: clmul.simps)

lemma clmul_double: "clmul (2 * a) b = 2 * clmul a b"
  by (cases "a = 0") (simp_all add: clmul.simps[of "2 * a"])

lemma clmul_half: "clmul a b = (if odd a then b else 0) XOR 2 * clmul (a div 2) b"
  by (cases "a = 0") (simp_all add: clmul.simps[of a])

lemma double_xor: "2 * (a XOR b) = (2 * a) XOR (2 * b :: nat)"
  using push_bit_xor[of 1 a b] by (simp add: push_bit_eq_mult mult.commute)

lemma xor_cancel [simp]: "a XOR (a XOR b) = (b :: nat)"
  by (simp flip: xor.assoc)

lemma half_xor: "(a XOR b) div 2 = (a div 2) XOR (b div 2 :: nat)"
  using drop_bit_xor[of 1 a b] by (simp add: drop_bit_eq_div)

lemma clmul_xor: "clmul (a XOR c) b = clmul a b XOR clmul c b"
proof (induction a arbitrary: c rule: less_induct)
  case (less a)
  show ?case
  proof (cases "a = 0")
    case False
    then have "clmul ((a XOR c) div 2) b = clmul (a div 2) b XOR clmul (c div 2) b"
      using less.IH[of "a div 2" "c div 2"] by (simp add: half_xor)
    then show ?thesis
      unfolding clmul_half[of "a XOR c"] clmul_half[of a] clmul_half[of c] double_xor even_xor_iff
      by (simp add: double_xor xor.assoc xor.left_commute)
  qed simp
qed

lemma multiple_xor: "multiple a \<Longrightarrow> multiple b \<Longrightarrow> multiple (a XOR b)"
  unfolding multiple_def by (metis clmul_xor)

lemma multiple_shift: "multiple a \<Longrightarrow> multiple (a * 2 ^ n)"
  unfolding multiple_def by (induction n) (auto, metis clmul_double mult.assoc mult.commute)

text \<open>Two messages are congruent when they differ by a multiple; each step of the loop keeps the congruence.\<close>

definition congruent :: "nat \<Rightarrow> nat \<Rightarrow> bool" where
  "congruent a b \<longleftrightarrow> multiple (a XOR b)"

lemma congruent_trans: "congruent a b \<Longrightarrow> congruent b c \<Longrightarrow> congruent a c"
  using multiple_xor[of "a XOR b" "b XOR c"] by (simp add: congruent_def xor.assoc xor.left_commute)

lemma congruent_xor: "congruent a b \<Longrightarrow> congruent (a XOR c) (b XOR c)"
  by (simp add: congruent_def xor.assoc xor.left_commute xor.commute)

lemma congruent_shift: "congruent a b \<Longrightarrow> congruent (a * 2 ^ n) (b * 2 ^ n)"
  using multiple_shift[of "a XOR b" n] push_bit_xor[of n a b] by (simp add: congruent_def push_bit_eq_mult)

lemma congruent_refl: "congruent a a"
  unfolding congruent_def multiple_def by (intro exI[of _ 0]) simp

lemma congruent_bit: "congruent (unat c * 2) (unat (crc16_bit c))"
proof -
  have top: "(c AND 0x8000 \<noteq> 0) = bit c 15" using and_exp_eq_0_iff_not_bit[of c 15] by simp
  have shift: "push_bit 1 (unat c) XOR unat (push_bit 1 c) = (if bit c 15 then push_bit 16 1 else 0)"
  proof (rule bit_eqI)
    fix n :: nat
    have "bit c m \<Longrightarrow> m < 16" for m using bit_imp_le_length[of c m] by simp
    from this[of "n - 1"]
    show "bit (push_bit 1 (unat c) XOR unat (push_bit 1 c)) n = bit (if bit c 15 then push_bit 16 1 else 0 :: nat) n"
      unfolding if_distrib[of "\<lambda>x. bit x n"] bit_xor_iff bit_unsigned_iff bit_push_bit_iff bit_1_iff
      by (cases "n = 16") auto
  qed
  have g: "(0x11021 :: nat) = push_bit 16 1 XOR 0x1021" by (simp add: push_bit_eq_mult)
  have "unat c * 2 XOR unat (crc16_bit c) = (if bit c 15 then 0x11021 else 0)"
    using shift unfolding g crc16_bit_def top
    by (auto simp: unsigned_xor_eq push_bit_eq_mult simp flip: xor.assoc)
  moreover have "multiple 0x11021" "multiple 0"
    unfolding multiple_def by (rule exI[of _ 1], simp add: clmul.simps) (rule exI[of _ 0], simp)
  ultimately show ?thesis by (simp add: congruent_def)
qed

lemma congruent_bits: "congruent (unat c * 2 ^ n) (unat ((crc16_bit ^^ n) c))"
proof (induction n)
  case (Suc n)
  have "congruent (unat c * 2 ^ n * 2 ^ 1) (unat ((crc16_bit ^^ n) c) * 2 ^ 1)" by (rule congruent_shift[OF Suc.IH])
  from congruent_trans[OF this] congruent_bit[of "(crc16_bit ^^ n) c"]
  have "congruent (unat c * 2 ^ n * 2 ^ 1) (unat ((crc16_bit ^^ Suc n) c))" by simp
  moreover have "unat c * 2 ^ n * 2 ^ 1 = unat c * 2 ^ Suc n" by simp
  ultimately show ?case by (simp only:)
qed (simp add: congruent_refl)

lemma congruent_byte: "congruent (unat c * 2 ^ 8 XOR unat b * 2 ^ 16) (unat (crc16_byte c b))"
proof -
  have "unat (push_bit 8 (ucast b) :: u16) = push_bit 8 (unat b)"
  proof (rule bit_eqI)
    fix n :: nat
    have "n - 8 < 8" if "bit b (n - 8)" using bit_imp_le_length[OF that] by simp
    then show "bit (unat (push_bit 8 (ucast b) :: u16)) n = bit (push_bit 8 (unat b)) n"
      by (auto simp: bit_unsigned_iff bit_push_bit_iff)
  qed
  then have "unat (c XOR push_bit 8 (ucast b)) = unat c XOR unat b * 2 ^ 8"
    by (simp add: unsigned_xor_eq push_bit_eq_mult)
  moreover have "(unat c XOR unat b * 2 ^ 8) * 2 ^ 8 = unat c * 2 ^ 8 XOR unat b * 2 ^ 16"
    using push_bit_xor[of 8 "unat c" "unat b * 2 ^ 8"] by (simp add: push_bit_eq_mult mult.commute)
  ultimately show ?thesis using congruent_bits[of "c XOR push_bit 8 (ucast b)" 8] by (simp add: crc16_byte_def)
qed

lemma message_snoc: "message (data @ [b]) = message data * 2 ^ 8 XOR unat b"
proof -
  have "bit b n \<Longrightarrow> n < 8" for n using bit_imp_le_length[of b n] by simp
  then have "push_bit 8 (message data) AND unat b = 0"
    by (intro bit_eqI) (fastforce simp: bit_and_iff bit_push_bit_iff bit_unsigned_iff not_le[symmetric])
  then have "message data * 2 ^ 8 + unat b = message data * 2 ^ 8 XOR unat b"
    using disjunctive_add_eq_xor[of "push_bit 8 (message data)" "unat b"] by (simp add: push_bit_eq_mult)
  then show ?thesis by (simp add: message_def)
qed

lemma congruent_message: "congruent (message data * 2 ^ 16) (unat (crc16 data))"
proof (induction data rule: rev_induct)
  case Nil
  then show ?case by (simp add: message_def crc16_def congruent_refl)
next
  case (snoc b data)
  have "congruent (message data * 2 ^ 16 * 2 ^ 8 XOR unat b * 2 ^ 16) (unat (crc16 data) * 2 ^ 8 XOR unat b * 2 ^ 16)"
    by (rule congruent_xor[OF congruent_shift[OF snoc.IH]])
  moreover have "message (data @ [b]) * 2 ^ 16 = message data * 2 ^ 16 * 2 ^ 8 XOR unat b * 2 ^ 16"
    unfolding message_snoc using push_bit_xor[of 16 "message data * 2 ^ 8" "unat b"] by (simp add: push_bit_eq_mult mult.commute mult.left_commute)
  ultimately show ?case
    using congruent_trans congruent_byte[of "crc16 data" b] by (simp add: crc16_def)
qed

text \<open>A multiple below the generator's degree is zero, so the remainder is unique.\<close>

lemma clmul_large: "q \<noteq> 0 \<Longrightarrow> 2 ^ 16 \<le> clmul q 0x11021"
proof (induction q rule: less_induct)
  case (less q)
  show ?case
  proof (cases "q div 2 = 0")
    case True
    then have "q = 1" using less.prems by simp
    then show ?thesis by (simp add: clmul.simps)
  next
    case False
    let ?x = "2 * clmul (q div 2) 0x11021" and ?y = "if odd q then 0x11021 else (0 :: nat)"
    have "2 ^ 17 \<le> ?x" using less.IH[of "q div 2"] False less.prems by simp
    then have "drop_bit 17 ?x \<noteq> 0" by (simp add: drop_bit_eq_div div_eq_0_iff not_less)
    moreover have "drop_bit 17 ?y = 0" by (simp add: drop_bit_eq_div)
    ultimately have "drop_bit 17 (?y XOR ?x) \<noteq> 0" by (simp only: drop_bit_xor) simp
    then have "2 ^ 17 \<le> (?y XOR ?x)" by (simp add: drop_bit_eq_div div_eq_0_iff not_less)
    then show ?thesis by (simp add: clmul_half[of q])
  qed
qed

lemma xmodem_crc16: "xmodem_crc data c \<longleftrightarrow> c = crc16 data"
proof
  assume "xmodem_crc data c"
  then obtain q where q: "message data * 2 ^ 16 = clmul q 0x11021 XOR unat c" by (auto simp: xmodem_crc_def)
  obtain r where r: "message data * 2 ^ 16 XOR unat (crc16 data) = clmul r 0x11021"
    using congruent_message[of data] by (auto simp: congruent_def multiple_def)
  have "clmul (q XOR r) 0x11021 = unat c XOR unat (crc16 data)"
    unfolding clmul_xor r[symmetric] q by (simp add: xor.assoc xor.left_commute xor.commute)
  moreover have "unat c XOR unat (crc16 data) < 2 ^ 16"
    using unsigned_less[of "c XOR crc16 data", where 'a = nat] by (simp add: unsigned_xor_eq)
  ultimately have "q XOR r = 0" using clmul_large[of "q XOR r"] by force
  then have "unat c XOR unat (crc16 data) = 0" using \<open>clmul (q XOR r) 0x11021 = _\<close> by simp
  then have "unat (crc16 data) = unat c" by (metis xor_cancel xor.right_neutral)
  then show "c = crc16 data" by (metis unsigned_word_eqI)
next
  assume "c = crc16 data"
  then show "xmodem_crc data c"
    using congruent_message[of data] by (auto simp: xmodem_crc_def congruent_def multiple_def) (metis xor.commute xor_cancel)
qed

lemma crc16_byte_eval [flint_eval]:
  "crc16_byte crc byte = crc16_bit (crc16_bit (crc16_bit (crc16_bit (crc16_bit (crc16_bit
     (crc16_bit (crc16_bit (crc XOR push_bit 8 (ucast byte)))))))))"
proof -
  have "8 = Suc (Suc (Suc (Suc (Suc (Suc (Suc (Suc 0)))))))" by simp
  then show ?thesis by (simp only: crc16_byte_def funpow.simps o_apply id_apply)
qed

text \<open>The canonical XMODEM check value the source's own test quotes.\<close>

lemma crc16_check_value: "crc16 [0x31, 0x32, 0x33, 0x34, 0x35, 0x36, 0x37, 0x38, 0x39] = 0x31C3"
  by (simp add: crc16_def crc16_byte_eval crc16_bit_def)

section \<open>Properties\<close>

text \<open>
  C39. The slot of a key is the CRC-16/XMODEM of its hashed part modulo the slot count. The hashed part is
  what stands between the first open brace and the next closing one when that is not empty, and the whole key
  otherwise. The checksum is the one remainder of the message, shifted by sixteen places, by the
  generator polynomial. So keys with the same tag are on one slot, whatever surrounds the tag,
  and the slot is below the slot count.
\<close>

theorem slot_is_crc_of_tag:
  assumes "hashed_part key part"
  shows "(\<exists>!c. xmodem_crc part c) \<and> (\<forall>c. xmodem_crc part c \<longrightarrow> slot_for_key key = c mod 16384) \<and>
    (\<forall>key'. hashed_part key' part \<longrightarrow> slot_for_key key' = slot_for_key key) \<and> slot_for_key key < 16384"
proof -
  have "slot_for_key key < 16384"
    by (simp add: slot_for_key_def SLOT_COUNT_def word_mod_less_divisor)
  then show ?thesis
    using assms by (simp add: hashed_part_hash_tag xmodem_crc16 slot_for_key_def SLOT_COUNT_def)
qed

text \<open>The key \<open>foo{{bar}}zap\<close> is on the slot of \<open>{bar\<close>.\<close>

theorem slot_is_crc_of_tag_witness:
  "slot_for_key [0x66, 0x6F, 0x6F, 0x7B, 0x7B, 0x62, 0x61, 0x72, 0x7D, 0x7D, 0x7A, 0x61, 0x70] =
     crc16 [0x7B, 0x62, 0x61, 0x72] mod 16384"
proof -
  let ?tag = "[0x7B, 0x62, 0x61, 0x72] :: bytes"
  let ?key = "[0x66, 0x6F, 0x6F] @ 0x7B # ?tag @ 0x7D # [0x7D, 0x7A, 0x61, 0x70]"
  have "tagged ?key ?tag"
    unfolding tagged_def by (intro exI[of _ "[0x66, 0x6F, 0x6F]"] exI[of _ "[0x7D, 0x7A, 0x61, 0x70]"]) simp
  then have "hashed_part ?key ?tag" unfolding hashed_part_def by (rule disjI1)
  from slot_is_crc_of_tag[OF this] show ?thesis by (simp add: xmodem_crc16)
qed

end
