(* ===== verification/Flint_Encoding.thy ===== *)
theory Flint_Encoding
  imports Flint_Prelude
begin

text \<open>
  The encoding layer, \<open>crates/flint-storage/src/encoding.rs\<close>: the flags byte, the metadata
  row layouts (string, collection, list, stream, Bloom filter), the key envelopes of the three
  column families, the order-preserving encodings of list indices and scores, stream IDs and
  the version generator.

  A row is a byte string. Decoders return \<open>None\<close> where the code does. The two places where the
  code panics rather than answers are partial: \<open>subkey_prefix\<close> and \<open>zscore_prefix\<close> assert that
  the key fits its two-byte length frame, which is the predicate \<open>key_framed\<close> here, and the
  in-place writers index a row that its caller has decoded. A double is represented by its bit
  pattern.
\<close>

section \<open>Flags\<close>

datatype Cf = Metadata | Subkey | ZScore

fun cf_byte :: "Cf \<Rightarrow> u8" where
  "cf_byte Metadata = 0x4D"
| "cf_byte Subkey = 0x53"
| "cf_byte ZScore = 0x5A"

datatype ValueType = StringT | Hash | Set | ZSet | List | Json | Bloom | Stream | ChunkedString

definition ALL_types :: "ValueType list" where
  "ALL_types = [StringT, Hash, Set, ZSet, List, Json, Bloom, Stream, ChunkedString]"

fun vt_byte :: "ValueType \<Rightarrow> u8" where
  "vt_byte StringT = 0"
| "vt_byte Hash = 1"
| "vt_byte Set = 2"
| "vt_byte ZSet = 3"
| "vt_byte List = 4"
| "vt_byte Json = 5"
| "vt_byte Bloom = 6"
| "vt_byte Stream = 7"
| "vt_byte ChunkedString = 8"

definition from_flags :: "u8 \<Rightarrow> ValueType option" where
  [flint_eval]: "from_flags flags =
     (let t = flags AND 0x0F in
      if t = 0 then Some StringT else if t = 1 then Some Hash else if t = 2 then Some Set
      else if t = 3 then Some ZSet else if t = 4 then Some List else if t = 5 then Some Json
      else if t = 6 then Some Bloom else if t = 7 then Some Stream
      else if t = 8 then Some ChunkedString else None)"

fun type_name :: "ValueType \<Rightarrow> string" where
  "type_name StringT = ''string''"
| "type_name Hash = ''hash''"
| "type_name Set = ''set''"
| "type_name ZSet = ''zset''"
| "type_name List = ''list''"
| "type_name Json = ''ReJSON-RL''"
| "type_name Bloom = ''MBbloom--''"
| "type_name Stream = ''stream''"
| "type_name ChunkedString = ''string''"

definition ENCODING_V1 :: u8 where
  [flint_eval]: "ENCODING_V1 = 0"

definition ENCODING_V2 :: u8 where
  [flint_eval]: "ENCODING_V2 = 1"

definition HEADER_LEN :: nat where
  [flint_eval]: "HEADER_LEN = 9"

definition encoding_of :: "u8 \<Rightarrow> u8" where
  [flint_eval]: "encoding_of flags = drop_bit 4 flags AND 0x03"

definition make_flags :: "ValueType \<Rightarrow> u8 \<Rightarrow> u8" where
  [flint_eval]: "make_flags t encoding = vt_byte t OR push_bit 4 encoding"

definition head_len :: "u8 \<Rightarrow> nat" where
  [flint_eval]: "head_len flags =
     (if encoding_of flags = ENCODING_V2 then HEADER_LEN + 8 else HEADER_LEN)"

definition written_ms_of :: "bytes \<Rightarrow> u64" where
  [flint_eval]: "written_ms_of row =
     (case row of
        [] \<Rightarrow> 0
      | f # _ \<Rightarrow>
          if encoding_of f = ENCODING_V2 then
            (case slice_get row HEADER_LEN (HEADER_LEN + 8) of
               Some b \<Rightarrow> of_be b
             | None \<Rightarrow> 0)
          else 0)"

section \<open>Envelopes\<close>

definition envelope :: "Cf \<Rightarrow> bytes \<Rightarrow> u16 \<Rightarrow> bytes \<Rightarrow> bytes" where
  [flint_eval]: "envelope cf ns slot user_key =
     [cf_byte cf, word_of_nat (length ns)] @ ns @ to_be16 slot @ user_key"

definition slot_prefix :: "Cf \<Rightarrow> bytes \<Rightarrow> u16 \<Rightarrow> bytes" where
  [flint_eval]: "slot_prefix cf ns slot = envelope cf ns slot []"

text \<open>The assertion of \<open>subkey_prefix\<close> and \<open>zscore_prefix\<close>.\<close>

definition key_framed :: "bytes \<Rightarrow> bool" where
  [flint_eval]: "key_framed user_key \<longleftrightarrow> length user_key \<le> 65535"

definition subkey_prefix :: "bytes \<Rightarrow> u16 \<Rightarrow> bytes \<Rightarrow> u64 \<Rightarrow> bytes" where
  [flint_eval]: "subkey_prefix ns slot user_key version =
     [cf_byte Subkey, word_of_nat (length ns)] @ ns @ to_be16 slot @
     to_be16 (word_of_nat (length user_key)) @ user_key @ to_be64 version"

definition subkey_envelope :: "bytes \<Rightarrow> u16 \<Rightarrow> bytes \<Rightarrow> u64 \<Rightarrow> bytes \<Rightarrow> bytes" where
  [flint_eval]: "subkey_envelope ns slot user_key version field =
     subkey_prefix ns slot user_key version @ field"

definition zscore_prefix :: "bytes \<Rightarrow> u16 \<Rightarrow> bytes \<Rightarrow> u64 \<Rightarrow> bytes" where
  [flint_eval]: "zscore_prefix ns slot user_key version =
     [cf_byte ZScore, word_of_nat (length ns)] @ ns @ to_be16 slot @
     to_be16 (word_of_nat (length user_key)) @ user_key @ to_be64 version"

text \<open>A row key back into its namespace, for any of the three column families.\<close>

definition ns_of_envelope :: "bytes \<Rightarrow> bytes option" where
  [flint_eval]: "ns_of_envelope k =
     (case k of
        [] \<Rightarrow> None
      | cf # _ \<Rightarrow>
          if cf \<noteq> cf_byte Metadata \<and> cf \<noteq> cf_byte Subkey \<and> cf \<noteq> cf_byte ZScore then None
          else (case elem_get k 1 of
                  None \<Rightarrow> None
                | Some l \<Rightarrow> slice_get k 2 (2 + unat l)))"

definition parse_subkey_envelope :: "bytes \<Rightarrow> (bytes \<times> u16 \<times> bytes \<times> u64) option" where
  [flint_eval]: "parse_subkey_envelope k =
     (if length k < 2 \<or> (k ! 0 \<noteq> cf_byte Subkey \<and> k ! 0 \<noteq> cf_byte ZScore) then None
      else
        let ns_len = unat (k ! 1); off = 2 in
        (case slice_get k off (off + ns_len) of
           None \<Rightarrow> None
         | Some ns \<Rightarrow>
             let off = off + ns_len in
             (case slice_get k off (off + 2) of
                None \<Rightarrow> None
              | Some sl \<Rightarrow>
                  let off = off + 2 in
                  (case slice_get k off (off + 2) of
                     None \<Rightarrow> None
                   | Some kl \<Rightarrow>
                       let key_len = unat (of_be kl :: u16); off = off + 2 in
                       (case slice_get k off (off + key_len) of
                          None \<Rightarrow> None
                        | Some user_key \<Rightarrow>
                            let off = off + key_len in
                            (case slice_get k off (off + 8) of
                               None \<Rightarrow> None
                             | Some v \<Rightarrow> Some (ns, of_be sl, user_key, of_be v)))))))"

section \<open>Metadata rows\<close>

record MetaHeader =
  mh_flags :: u8
  mh_expire_ms :: u64

definition mh_decode :: "bytes \<Rightarrow> MetaHeader option" where
  [flint_eval]: "mh_decode row =
     (if length row < HEADER_LEN then None
      else Some \<lparr>mh_flags = row ! 0, mh_expire_ms = of_be (take 8 (drop 1 row))\<rparr>)"

definition mh_encode :: "MetaHeader \<Rightarrow> bytes" where
  [flint_eval]: "mh_encode h = mh_flags h # to_be64 (mh_expire_ms h)"

definition write_expire :: "bytes \<Rightarrow> u64 \<Rightarrow> bytes" where
  [flint_eval]: "write_expire row expire_ms = take 1 row @ to_be64 expire_ms @ drop 9 row"

definition mh_is_expired :: "MetaHeader \<Rightarrow> u64 \<Rightarrow> bool" where
  [flint_eval]: "mh_is_expired h now_ms \<longleftrightarrow> mh_expire_ms h \<noteq> 0 \<and> mh_expire_ms h \<le> now_ms"

definition mh_value_type :: "MetaHeader \<Rightarrow> ValueType option" where
  [flint_eval]: "mh_value_type h = from_flags (mh_flags h)"

record ComplexMeta =
  cm_header :: MetaHeader
  cm_written_ms :: u64
  cm_version :: u64
  cm_size :: u32
  cm_bytes :: u64

definition COMPLEX_TAIL_LEN :: nat where
  [flint_eval]: "COMPLEX_TAIL_LEN = 8 + 4 + 8"

definition cm_new :: "ValueType \<Rightarrow> u64 \<Rightarrow> ComplexMeta" where
  [flint_eval]: "cm_new t version =
     \<lparr>cm_header = \<lparr>mh_flags = make_flags t ENCODING_V2, mh_expire_ms = 0\<rparr>,
      cm_written_ms = drop_bit 20 version, cm_version = version, cm_size = 0, cm_bytes = 0\<rparr>"

text \<open>The flags an encoder writes: the type the flags name, or a hash, under encoding v2.\<close>

definition v2_flags :: "u8 \<Rightarrow> u8" where
  [flint_eval]: "v2_flags flags =
     make_flags (case from_flags flags of Some t \<Rightarrow> t | None \<Rightarrow> Hash) ENCODING_V2"

definition cm_touch :: "ComplexMeta \<Rightarrow> u64 \<Rightarrow> ComplexMeta" where
  [flint_eval]: "cm_touch m now_ms =
     m\<lparr>cm_header := (cm_header m)\<lparr>mh_flags := v2_flags (mh_flags (cm_header m))\<rparr>,
       cm_written_ms := now_ms\<rparr>"

definition cm_encode :: "ComplexMeta \<Rightarrow> bytes" where
  [flint_eval]: "cm_encode m =
     mh_encode \<lparr>mh_flags = v2_flags (mh_flags (cm_header m)),
                mh_expire_ms = mh_expire_ms (cm_header m)\<rparr> @
     to_be64 (cm_written_ms m) @ to_be64 (cm_version m) @ to_be32 (cm_size m) @ to_be64 (cm_bytes m)"

definition write_version :: "bytes \<Rightarrow> u64 \<Rightarrow> bytes" where
  [flint_eval]: "write_version row version =
     (let off = head_len (row ! 0) in take off row @ to_be64 version @ drop (off + 8) row)"

definition cm_decode :: "bytes \<Rightarrow> ComplexMeta option" where
  [flint_eval]: "cm_decode row =
     (case mh_decode row of
        None \<Rightarrow> None
      | Some header \<Rightarrow>
          let off = head_len (mh_flags header) in
          if length row < off + COMPLEX_TAIL_LEN then None
          else Some \<lparr>cm_header = header, cm_written_ms = written_ms_of row,
                     cm_version = of_be (take 8 (drop off row)),
                     cm_size = of_be (take 4 (drop (off + 8) row)),
                     cm_bytes = of_be (take 8 (drop (off + 12) row))\<rparr>)"

record StringMeta =
  sm_flags :: u8
  sm_expire_ms :: u64
  sm_written_ms :: u64
  sm_payload :: bytes

definition sm_new :: "bytes \<Rightarrow> u64 \<Rightarrow> u64 \<Rightarrow> StringMeta" where
  [flint_eval]: "sm_new payload expire_ms written_ms =
     \<lparr>sm_flags = make_flags StringT ENCODING_V2, sm_expire_ms = expire_ms,
      sm_written_ms = written_ms, sm_payload = payload\<rparr>"

definition sm_new_typed :: "ValueType \<Rightarrow> bytes \<Rightarrow> u64 \<Rightarrow> u64 \<Rightarrow> StringMeta" where
  [flint_eval]: "sm_new_typed t payload expire_ms written_ms =
     \<lparr>sm_flags = make_flags t ENCODING_V2, sm_expire_ms = expire_ms,
      sm_written_ms = written_ms, sm_payload = payload\<rparr>"

definition sm_encode :: "StringMeta \<Rightarrow> bytes" where
  [flint_eval]: "sm_encode m =
     sm_flags m # to_be64 (sm_expire_ms m) @
     (if encoding_of (sm_flags m) = ENCODING_V2 then to_be64 (sm_written_ms m) else []) @
     sm_payload m"

definition sm_decode :: "bytes \<Rightarrow> StringMeta option" where
  [flint_eval]: "sm_decode row =
     (case row of
        [] \<Rightarrow> None
      | f # _ \<Rightarrow>
          let off = head_len f in
          if length row < off then None
          else Some \<lparr>sm_flags = f, sm_expire_ms = of_be (take 8 (drop 1 row)),
                     sm_written_ms = written_ms_of row, sm_payload = drop off row\<rparr>)"

definition sm_is_expired :: "StringMeta \<Rightarrow> u64 \<Rightarrow> bool" where
  [flint_eval]: "sm_is_expired m now_ms \<longleftrightarrow> sm_expire_ms m \<noteq> 0 \<and> sm_expire_ms m \<le> now_ms"

section \<open>Order-preserving encodings\<close>

definition bias_index :: "i64 \<Rightarrow> u64" where
  [flint_eval]: "bias_index i = i XOR push_bit 63 1"

definition unbias_index :: "u64 \<Rightarrow> i64" where
  [flint_eval]: "unbias_index b = b XOR push_bit 63 1"

text \<open>A score is the bit pattern of a double (\<open>f64::to_bits\<close>).\<close>

type_synonym f64_bits = u64

definition encode_score :: "f64_bits \<Rightarrow> u64" where
  [flint_eval]: "encode_score bits =
     (if bits AND push_bit 63 1 \<noteq> 0 then NOT bits else bits OR push_bit 63 1)"

definition decode_score :: "u64 \<Rightarrow> f64_bits" where
  [flint_eval]: "decode_score e =
     (if e AND push_bit 63 1 \<noteq> 0 then e AND NOT (push_bit 63 1) else NOT e)"

definition zscore_envelope :: "bytes \<Rightarrow> u16 \<Rightarrow> bytes \<Rightarrow> u64 \<Rightarrow> f64_bits \<Rightarrow> bytes \<Rightarrow> bytes" where
  [flint_eval]: "zscore_envelope ns slot user_key version score member =
     zscore_prefix ns slot user_key version @ to_be64 (encode_score score) @ member"

section \<open>List, stream and Bloom metadata\<close>

record ListMeta =
  lm_base :: ComplexMeta
  lm_head :: i64
  lm_tail :: i64

definition lm_new :: "u64 \<Rightarrow> ListMeta" where
  [flint_eval]: "lm_new version = \<lparr>lm_base = cm_new List version, lm_head = 0, lm_tail = 0\<rparr>"

definition lm_encode :: "ListMeta \<Rightarrow> bytes" where
  [flint_eval]: "lm_encode m =
     cm_encode (lm_base m) @ to_be64 (bias_index (lm_head m)) @ to_be64 (bias_index (lm_tail m))"

definition lm_decode :: "bytes \<Rightarrow> ListMeta option" where
  [flint_eval]: "lm_decode row =
     (case cm_decode row of
        None \<Rightarrow> None
      | Some base \<Rightarrow>
          let off = head_len (row ! 0) + COMPLEX_TAIL_LEN in
          if length row < off + 16 then None
          else Some \<lparr>lm_base = base,
                     lm_head = unbias_index (of_be (take 8 (drop off row))),
                     lm_tail = unbias_index (of_be (take 8 (drop (off + 8) row)))\<rparr>)"

record StreamId =
  sid_ms :: u64
  sid_seq :: u64

text \<open>The derived \<open>Ord\<close> of \<open>StreamId\<close>: the pair, milliseconds first.\<close>

definition sid_less :: "StreamId \<Rightarrow> StreamId \<Rightarrow> bool" where
  [flint_eval]: "sid_less a b \<longleftrightarrow>
     sid_ms a < sid_ms b \<or> sid_ms a = sid_ms b \<and> sid_seq a < sid_seq b"

definition sid_MIN :: StreamId where
  [flint_eval]: "sid_MIN = \<lparr>sid_ms = 0, sid_seq = 0\<rparr>"

definition sid_MAX :: StreamId where
  [flint_eval]: "sid_MAX = \<lparr>sid_ms = - 1, sid_seq = - 1\<rparr>"

definition sid_to_bytes :: "StreamId \<Rightarrow> bytes" where
  [flint_eval]: "sid_to_bytes s = to_be64 (sid_ms s) @ to_be64 (sid_seq s)"

definition sid_from_bytes :: "bytes \<Rightarrow> StreamId option" where
  [flint_eval]: "sid_from_bytes b =
     (case slice_get b 0 8 of
        None \<Rightarrow> None
      | Some m \<Rightarrow>
          (case slice_get b 8 16 of
             None \<Rightarrow> None
           | Some q \<Rightarrow> Some \<lparr>sid_ms = of_be m, sid_seq = of_be q\<rparr>))"

definition sid_next :: "StreamId \<Rightarrow> StreamId option" where
  [flint_eval]: "sid_next s =
     (if sid_seq s \<noteq> - 1 then Some \<lparr>sid_ms = sid_ms s, sid_seq = sid_seq s + 1\<rparr>
      else if sid_ms s \<noteq> - 1 then Some \<lparr>sid_ms = sid_ms s + 1, sid_seq = 0\<rparr>
      else None)"

definition sid_prev :: "StreamId \<Rightarrow> StreamId option" where
  [flint_eval]: "sid_prev s =
     (if sid_seq s \<noteq> 0 then Some \<lparr>sid_ms = sid_ms s, sid_seq = sid_seq s - 1\<rparr>
      else if sid_ms s \<noteq> 0 then Some \<lparr>sid_ms = sid_ms s - 1, sid_seq = - 1\<rparr>
      else None)"

text \<open>The leading byte of the field of a stream entry's row; a stream's rows are its entries, tag and ID.\<close>

definition STREAM_ENTRY_TAG :: u8 where
  [flint_eval]: "STREAM_ENTRY_TAG = 0"

definition entry_key :: "bytes \<Rightarrow> u16 \<Rightarrow> bytes \<Rightarrow> u64 \<Rightarrow> StreamId \<Rightarrow> bytes" where
  [flint_eval]: "entry_key ns slot key version sid = subkey_envelope ns slot key version (STREAM_ENTRY_TAG # sid_to_bytes sid)"

record StreamMeta =
  stm_base :: ComplexMeta
  stm_last_id :: StreamId
  stm_max_deleted_id :: StreamId
  stm_entries_added :: u64

definition stm_new :: "u64 \<Rightarrow> StreamMeta" where
  [flint_eval]: "stm_new version =
     \<lparr>stm_base = cm_new Stream version, stm_last_id = sid_MIN, stm_max_deleted_id = sid_MIN,
      stm_entries_added = 0\<rparr>"

definition stm_encode :: "StreamMeta \<Rightarrow> bytes" where
  [flint_eval]: "stm_encode m =
     cm_encode (stm_base m) @ sid_to_bytes (stm_last_id m) @ sid_to_bytes (stm_max_deleted_id m) @
     to_be64 (stm_entries_added m)"

definition stm_decode :: "bytes \<Rightarrow> StreamMeta option" where
  [flint_eval]: "stm_decode row =
     (case cm_decode row of
        None \<Rightarrow> None
      | Some base \<Rightarrow>
          let off = head_len (row ! 0) + COMPLEX_TAIL_LEN in
          (case slice_get row off (off + 40) of
             None \<Rightarrow> None
           | Some tl_bytes \<Rightarrow>
               (case sid_from_bytes (take 16 tl_bytes) of
                  None \<Rightarrow> None
                | Some last_id \<Rightarrow>
                    (case sid_from_bytes (take 16 (drop 16 tl_bytes)) of
                       None \<Rightarrow> None
                     | Some max_deleted_id \<Rightarrow>
                         Some \<lparr>stm_base = base, stm_last_id = last_id,
                               stm_max_deleted_id = max_deleted_id,
                               stm_entries_added = of_be (take 8 (drop 32 tl_bytes))\<rparr>))))"

definition BLOOM_HASH_MURMUR3_X64_128 :: u8 where
  [flint_eval]: "BLOOM_HASH_MURMUR3_X64_128 = 1"

definition BLOOM_LAYOUT_BLOCKED_V1 :: u8 where
  [flint_eval]: "BLOOM_LAYOUT_BLOCKED_V1 = 1"

record BloomLink =
  bl_k :: u8
  bl_block_bits_log2 :: u8
  bl_blocks :: u64
  bl_items :: u64
  bl_capacity :: u64

record BloomMeta =
  bm_base :: ComplexMeta
  bm_hash_id :: u8
  bm_layout :: u8
  bm_capacity :: u64
  bm_error :: f64_bits
  bm_expansion :: u8
  bm_links :: "BloomLink list"

definition BLOOM_TAIL_HEAD_LEN :: nat where
  [flint_eval]: "BLOOM_TAIL_HEAD_LEN = 1 + 1 + 8 + 8 + 1 + 1"

definition BLOOM_LINK_LEN :: nat where
  [flint_eval]: "BLOOM_LINK_LEN = 1 + 1 + 8 + 8 + 8"

definition bm_new :: "u64 \<Rightarrow> u64 \<Rightarrow> f64_bits \<Rightarrow> u8 \<Rightarrow> BloomLink \<Rightarrow> BloomMeta" where
  [flint_eval]: "bm_new version capacity error expansion first_link =
     \<lparr>bm_base = cm_new Bloom version, bm_hash_id = BLOOM_HASH_MURMUR3_X64_128,
      bm_layout = BLOOM_LAYOUT_BLOCKED_V1, bm_capacity = capacity, bm_error = error,
      bm_expansion = expansion, bm_links = [first_link]\<rparr>"

definition bm_card :: "BloomMeta \<Rightarrow> u64" where
  [flint_eval]: "bm_card m = sum_list (map bl_items (bm_links m))"

definition bl_encode :: "BloomLink \<Rightarrow> bytes" where
  [flint_eval]: "bl_encode l =
     [bl_k l, bl_block_bits_log2 l] @ to_be64 (bl_blocks l) @ to_be64 (bl_items l) @
     to_be64 (bl_capacity l)"

definition bm_encode :: "BloomMeta \<Rightarrow> bytes" where
  [flint_eval]: "bm_encode m =
     cm_encode (bm_base m) @ [bm_hash_id m, bm_layout m] @ to_be64 (bm_capacity m) @
     to_be64 (bm_error m) @
     [bm_expansion m,
      if length (bm_links m) \<le> 255 then word_of_nat (length (bm_links m)) else - 1] @
     concat (map bl_encode (bm_links m))"

text \<open>The loop over the links, \<open>n\<close> of them from offset \<open>p\<close>.\<close>

fun bl_decode_from :: "bytes \<Rightarrow> nat \<Rightarrow> nat \<Rightarrow> BloomLink list option" where
  "bl_decode_from row 0 p = Some []"
| "bl_decode_from row (Suc n) p =
     (if length row < p + BLOOM_LINK_LEN then None
      else
        (case bl_decode_from row n (p + BLOOM_LINK_LEN) of
           None \<Rightarrow> None
         | Some ls \<Rightarrow>
             Some (\<lparr>bl_k = row ! p, bl_block_bits_log2 = row ! (p + 1),
                    bl_blocks = of_be (take 8 (drop (p + 2) row)),
                    bl_items = of_be (take 8 (drop (p + 10) row)),
                    bl_capacity = of_be (take 8 (drop (p + 18) row))\<rparr> # ls)))"

definition bm_decode :: "bytes \<Rightarrow> BloomMeta option" where
  [flint_eval]: "bm_decode row =
     (case cm_decode row of
        None \<Rightarrow> None
      | Some base \<Rightarrow>
          let off = head_len (row ! 0) + COMPLEX_TAIL_LEN in
          if length row < off + BLOOM_TAIL_HEAD_LEN then None
          else
            (case bl_decode_from row (unat (row ! (off + 19))) (off + BLOOM_TAIL_HEAD_LEN) of
               None \<Rightarrow> None
             | Some links \<Rightarrow>
                 Some \<lparr>bm_base = base, bm_hash_id = row ! off, bm_layout = row ! (off + 1),
                       bm_capacity = of_be (take 8 (drop (off + 2) row)),
                       bm_error = of_be (take 8 (drop (off + 10) row)),
                       bm_expansion = row ! (off + 18), bm_links = links\<rparr>))"

section \<open>Versions\<close>

text \<open>
  \<open>VersionGen::next\<close> over its process-wide \<open>LAST\<close>: the new value of \<open>LAST\<close> is the version
  returned. The atomic \<open>fetch_update\<close> never fails, its closure always answering \<open>Some\<close>.
\<close>

definition version_next :: "u64 \<Rightarrow> u64 \<Rightarrow> u64" where
  [flint_eval]: "version_next prev now_ms = (let floor = push_bit 20 now_ms in max prev floor + 1)"

section \<open>Notions the lemmas use\<close>

text \<open>What an encoded row decodes to: the same metadata under the v2 flags.\<close>

definition cm_v2 :: "ComplexMeta \<Rightarrow> ComplexMeta" where
  "cm_v2 m = m\<lparr>cm_header := (cm_header m)\<lparr>mh_flags := v2_flags (mh_flags (cm_header m))\<rparr>\<rparr>"

definition f64_order :: "f64_bits \<Rightarrow> int" where
  "f64_order b = (if bit b 63 then - (uint b - 2 ^ 63) - 1 else uint b)"

text \<open>The position of an ID in the order, as one number.\<close>

definition sid_pos :: "StreamId \<Rightarrow> nat" where
  "sid_pos s = unat (sid_ms s) * 2 ^ 64 + unat (sid_seq s)"

definition ns_ok :: "bytes \<Rightarrow> bool" where
  "ns_ok ns \<longleftrightarrow> length ns \<le> 255"

section \<open>Lemmas: flags and headers\<close>

lemma vt_byte_nibble [simp]: "vt_byte t AND 15 = vt_byte t" "drop_bit 4 (vt_byte t) = 0"
  by (cases t; simp)+

lemma push_bit_nibble: "push_bit 4 (e::u8) AND 15 = 0"
proof -
  have "push_bit 4 e AND 15 = take_bit 4 (push_bit 4 e)" by (simp add: take_bit_eq_mask mask_numeral)
  then show ?thesis by (simp add: take_bit_push_bit)
qed

lemma and_or_distrib_left: "(a OR b) AND c = (a AND c) OR (b AND (c::'a::len word))"
  by (simp add: bit_eq_iff bit_simps) blast

lemma make_flags_type [simp]: "make_flags t e AND 15 = vt_byte t"
  by (simp add: make_flags_def and_or_distrib_left push_bit_nibble)

lemma from_flags_make_flags [simp]: "from_flags (make_flags t e) = Some t"
  by (cases t) (simp_all add: from_flags_def)

lemma encoding_of_make_flags: "encoding_of (make_flags t e) = e AND 3"
proof -
  have "drop_bit 4 (push_bit 4 e) AND mask 2 = e AND mask 2"
    by (auto intro!: bit_word_eqI simp: bit_simps)
  then have "drop_bit 4 (push_bit 4 e) AND 3 = e AND 3" by (simp add: mask_numeral)
  then show ?thesis by (simp add: encoding_of_def make_flags_def drop_bit_or)
qed

lemma encoding_of_v2 [simp]: "encoding_of (make_flags t ENCODING_V2) = ENCODING_V2"
  by (simp add: encoding_of_make_flags ENCODING_V2_def)

lemma encoding_of_v1 [simp]: "encoding_of (make_flags t ENCODING_V1) = ENCODING_V1"
  by (simp add: encoding_of_make_flags ENCODING_V1_def)

lemma head_len_v2 [simp]: "head_len (make_flags t ENCODING_V2) = 17"
  by (simp add: head_len_def HEADER_LEN_def)

lemma head_len_v1 [simp]: "head_len (make_flags t ENCODING_V1) = 9"
  by (simp add: head_len_def HEADER_LEN_def ENCODING_V1_def ENCODING_V2_def encoding_of_make_flags)

lemma head_len_bounds: "9 \<le> head_len f" "head_len f \<le> 17"
  by (simp_all add: head_len_def HEADER_LEN_def)

lemma v2_flags_make_flags [simp]: "v2_flags (make_flags t e) = make_flags t ENCODING_V2"
  by (simp add: v2_flags_def)

lemma from_flags_v2_flags: "from_flags f = Some t \<Longrightarrow> from_flags (v2_flags f) = Some t"
  by (simp add: v2_flags_def)

lemma v2_flags_exists: "\<exists>t. v2_flags f = make_flags t ENCODING_V2"
  by (auto simp: v2_flags_def)

lemma head_len_v2_flags [simp]: "head_len (v2_flags f) = 17"
  using v2_flags_exists[of f] by auto

lemma encoding_of_v2_flags [simp]: "encoding_of (v2_flags f) = ENCODING_V2"
  using v2_flags_exists[of f] by auto

lemma v2_flags_idem [simp]: "v2_flags (v2_flags f) = v2_flags f"
  using v2_flags_exists[of f] by auto

lemma mh_decode_encode: "mh_decode (mh_encode h @ rest) = Some h"
  by (simp add: mh_decode_def mh_encode_def HEADER_LEN_def)

lemma mh_decode_length: "mh_decode row = Some h \<Longrightarrow> 9 \<le> length row \<and> mh_flags h = row ! 0"
  by (auto simp: mh_decode_def HEADER_LEN_def split: if_splits)

lemma mh_decode_write_expire:
  assumes "mh_decode row = Some h"
  shows "mh_decode (write_expire row e) = Some (h\<lparr>mh_expire_ms := e\<rparr>)"
  using assms by (cases row) (auto simp: mh_decode_def write_expire_def HEADER_LEN_def split: if_splits)

section \<open>Lemmas: collection metadata\<close>

lemma length_cm_encode [simp, flint_len]: "length (cm_encode m) = 37"
  by (simp add: cm_encode_def mh_encode_def)

lemma cm_encode_0 [simp]: "cm_encode m ! 0 = v2_flags (mh_flags (cm_header m))"
  by (simp add: cm_encode_def mh_encode_def)

lemma cm_encode_append_0 [simp]: "(cm_encode m @ rest) ! 0 = v2_flags (mh_flags (cm_header m))"
  by (simp add: cm_encode_def mh_encode_def)

lemma cm_decode_encode: "cm_decode (cm_encode m @ rest) = Some (cm_v2 m)"
proof -
  have h: "mh_decode (cm_encode m @ rest) = Some \<lparr>mh_flags = v2_flags (mh_flags (cm_header m)),
      mh_expire_ms = mh_expire_ms (cm_header m)\<rparr>"
    by (simp add: cm_encode_def mh_decode_encode)
  have w: "written_ms_of (cm_encode m @ rest) = cm_written_ms m"
    by (simp add: written_ms_of_def cm_encode_def mh_encode_def slice_get_def HEADER_LEN_def)
  show ?thesis
    unfolding cm_decode_def h w
    by (simp add: Let_def COMPLEX_TAIL_LEN_def cm_v2_def)
      (simp add: cm_encode_def mh_encode_def)
qed

lemma cm_v2_touch [simp]: "cm_v2 (cm_touch m t) = cm_touch m t"
  by (simp add: cm_v2_def cm_touch_def)

lemma cm_v2_new [simp]: "cm_v2 (cm_new t v) = cm_new t v"
  by (simp add: cm_v2_def cm_new_def)

lemma cm_v2_sel [simp]:
  "cm_written_ms (cm_v2 m) = cm_written_ms m" "cm_version (cm_v2 m) = cm_version m"
  "cm_size (cm_v2 m) = cm_size m" "cm_bytes (cm_v2 m) = cm_bytes m"
  "mh_expire_ms (cm_header (cm_v2 m)) = mh_expire_ms (cm_header m)"
  "mh_flags (cm_header (cm_v2 m)) = v2_flags (mh_flags (cm_header m))"
  by (simp_all add: cm_v2_def)

lemma cm_touch_sel [simp]:
  "cm_written_ms (cm_touch m t) = t" "cm_version (cm_touch m t) = cm_version m"
  "cm_size (cm_touch m t) = cm_size m" "cm_bytes (cm_touch m t) = cm_bytes m"
  "mh_expire_ms (cm_header (cm_touch m t)) = mh_expire_ms (cm_header m)"
  "mh_flags (cm_header (cm_touch m t)) = v2_flags (mh_flags (cm_header m))"
  by (simp_all add: cm_touch_def)

lemma cm_new_sel [simp]:
  "cm_version (cm_new t v) = v" "cm_size (cm_new t v) = 0" "cm_bytes (cm_new t v) = 0"
  "mh_expire_ms (cm_header (cm_new t v)) = 0"
  "mh_flags (cm_header (cm_new t v)) = make_flags t ENCODING_V2"
  by (simp_all add: cm_new_def)

lemma cm_decode_length:
  assumes "cm_decode row = Some m"
  shows "head_len (row ! 0) + 20 \<le> length row" and "mh_decode row = Some (cm_header m)"
    and "mh_flags (cm_header m) = row ! 0" and "row \<noteq> []"
  using assms
  by (auto simp: cm_decode_def Let_def COMPLEX_TAIL_LEN_def split: option.splits if_splits
      dest: mh_decode_length)

lemma written_ms_of_cong:
  assumes "take 17 r = take 17 r'" and "length r = length r'"
  shows "written_ms_of r = written_ms_of r'"
proof (cases r)
  case Nil
  with assms show ?thesis by simp
next
  case (Cons f fs)
  with assms obtain fs' where r': "r' = f # fs'" by (cases r') auto
  have "take 8 (drop 9 r) = take 8 (drop 9 r')"
    using arg_cong[OF assms(1), of "drop 9"] by (simp add: drop_take)
  with assms Cons r' show ?thesis
    by (auto simp: written_ms_of_def slice_get_def HEADER_LEN_def)
qed

lemma length_write_version:
  "head_len (row ! 0) + 8 \<le> length row \<Longrightarrow> length (write_version row v) = length row"
  by (simp add: write_version_def Let_def)

lemma cm_decode_write_version:
  assumes "cm_decode row = Some m"
  shows "cm_decode (write_version row v) = Some (m\<lparr>cm_version := v\<rparr>)"
    and "drop (head_len (row ! 0) + 8) (write_version row v) = drop (head_len (row ! 0) + 8) row"
    and "take (head_len (row ! 0)) (write_version row v) = take (head_len (row ! 0)) row"
    and "length (write_version row v) = length row"
proof -
  let ?off = "head_len (row ! 0)" and ?r = "write_version row v"
  note len = cm_decode_length(1)[OF assms]
  show tk: "take ?off ?r = take ?off row" and dr: "drop (?off + 8) ?r = drop (?off + 8) row"
    using len by (simp_all add: write_version_def Let_def)
  show l: "length ?r = length row" using len by (simp add: length_write_version)
  have t9: "take 9 ?r = take 9 row"
    using arg_cong[OF tk, of "take 9"] head_len_bounds(1)[of "row ! 0"] by (simp add: min_absorb1)
  have h: "mh_decode ?r = mh_decode row"
  proof -
    have "?r ! 0 = row ! 0" using arg_cong[OF t9, of "\<lambda>x. x ! 0"] by simp
    moreover have "take 8 (drop 1 ?r) = take 8 (drop 1 row)"
      using arg_cong[OF t9, of "drop 1"] by (simp add: drop_take)
    ultimately show ?thesis using l by (simp add: mh_decode_def)
  qed
  have w: "written_ms_of ?r = written_ms_of row"
  proof (cases "encoding_of (row ! 0) = ENCODING_V2")
    case True
    then have "take 17 ?r = take 17 row" using tk by (simp add: head_len_def HEADER_LEN_def)
    then show ?thesis using l by (rule written_ms_of_cong)
  next
    case False
    moreover have "?r ! 0 = row ! 0" using arg_cong[OF t9, of "\<lambda>x. x ! 0"] by simp
    moreover have "?r \<noteq> []" "row \<noteq> []" using l len by auto
    ultimately show ?thesis by (auto simp: written_ms_of_def neq_Nil_conv)
  qed
  have v: "take 8 (drop ?off ?r) = to_be64 v"
    using len by (simp add: write_version_def Let_def)
  have d: "drop (?off + k) ?r = drop (?off + k) row" if "8 \<le> k" for k
    using arg_cong[OF dr, of "drop (k - 8)"] that by (simp add: add.commute)
  show "cm_decode ?r = Some (m\<lparr>cm_version := v\<rparr>)"
    using assms cm_decode_length(3)[OF assms]
    by (auto simp: cm_decode_def h Let_def l w v d split: option.splits if_splits
        dest: mh_decode_length)
qed


section \<open>Lemmas: string rows\<close>

lemma sm_decode_encode_v2:
  assumes "encoding_of (sm_flags m) = ENCODING_V2"
  shows "sm_decode (sm_encode m) = Some m"
  using assms
  by (simp add: sm_decode_def sm_encode_def head_len_def HEADER_LEN_def Let_def written_ms_of_def
      slice_get_def)

lemma sm_decode_encode_v1:
  assumes "encoding_of (sm_flags m) \<noteq> ENCODING_V2"
  shows "sm_decode (sm_encode m) = Some (m\<lparr>sm_written_ms := 0\<rparr>)"
  using assms
  by (simp add: sm_decode_def sm_encode_def head_len_def HEADER_LEN_def Let_def written_ms_of_def
      slice_get_def)

lemma sm_decode_new [simp]: "sm_decode (sm_encode (sm_new p e w)) = Some (sm_new p e w)"
  by (rule sm_decode_encode_v2) (simp add: sm_new_def)

lemma mh_decode_sm_encode:
  "mh_decode (sm_encode m) = Some \<lparr>mh_flags = sm_flags m, mh_expire_ms = sm_expire_ms m\<rparr>"
  by (simp add: mh_decode_def sm_encode_def HEADER_LEN_def)

lemma mh_decode_cm_encode:
  "mh_decode (cm_encode m @ rest) = Some (cm_header (cm_v2 m))"
  using cm_decode_length(2)[OF cm_decode_encode] .

section \<open>Lemmas: list, stream and Bloom rows\<close>

lemma unbias_bias [simp]: "unbias_index (bias_index i) = i"
  by (simp add: bias_index_def unbias_index_def xor.assoc)

lemma bias_unbias [simp]: "bias_index (unbias_index i) = i"
  by (simp add: bias_index_def unbias_index_def xor.assoc)

lemma lm_decode_encode:
  "lm_decode (lm_encode m) = Some (m\<lparr>lm_base := cm_v2 (lm_base m)\<rparr>)"
  by (simp add: lm_decode_def lm_encode_def cm_decode_encode Let_def COMPLEX_TAIL_LEN_def)

lemma sid_from_to_bytes [simp]: "sid_from_bytes (sid_to_bytes s) = Some s"
  by (simp add: sid_from_bytes_def sid_to_bytes_def slice_get_def)

lemma length_sid_to_bytes [simp, flint_len]: "length (sid_to_bytes s) = 16"
  by (simp add: sid_to_bytes_def)

lemma sid_from_bytes_length: "length b = 16 \<Longrightarrow> \<exists>s. sid_from_bytes b = Some s \<and> sid_to_bytes s = b"
  by (simp add: sid_from_bytes_def slice_get_def sid_to_bytes_def)

lemma stm_decode_encode:
  "stm_decode (stm_encode m) = Some (m\<lparr>stm_base := cm_v2 (stm_base m)\<rparr>)"
  by (simp add: stm_decode_def stm_encode_def cm_decode_encode Let_def COMPLEX_TAIL_LEN_def
      slice_get_def)

lemma length_bl_encode [simp, flint_len]: "length (bl_encode l) = 26"
  by (simp add: bl_encode_def)

lemma nth_append_plus: "(xs @ ys) ! (length xs + n) = ys ! n"
  by (simp add: nth_append)

lemma bl_decode_encode:
  assumes "length pre = p"
  shows "bl_decode_from (pre @ concat (map bl_encode ls) @ post) (length ls) p = Some ls"
  using assms
proof (induction ls arbitrary: pre p)
  case Nil
  then show ?case by simp
next
  case (Cons l ls)
  let ?row = "pre @ concat (map bl_encode (l # ls)) @ post"
  have IH: "bl_decode_from ?row (length ls) (p + 26) = Some ls"
    using Cons.IH[of "pre @ bl_encode l" "p + 26"] Cons.prems by simp
  have "?row ! p = bl_k l" "?row ! (p + 1) = bl_block_bits_log2 l"
    using Cons.prems by (auto simp: bl_encode_def nth_append_plus nth_append)
  moreover have "take 8 (drop (p + 2) ?row) = to_be64 (bl_blocks l)"
    "take 8 (drop (p + 10) ?row) = to_be64 (bl_items l)"
    "take 8 (drop (p + 18) ?row) = to_be64 (bl_capacity l)"
    using Cons.prems by (simp_all add: bl_encode_def)
  moreover have "p + 26 \<le> length ?row" using Cons.prems by simp
  ultimately show ?case using IH by (simp add: BLOOM_LINK_LEN_def)
qed

lemma bm_decode_encode:
  assumes "length (bm_links m) \<le> 255"
  shows "bm_decode (bm_encode m) = Some (m\<lparr>bm_base := cm_v2 (bm_base m)\<rparr>)"
proof -
  let ?row = "bm_encode m"
  let ?pre = "cm_encode (bm_base m) @ [bm_hash_id m, bm_layout m] @ to_be64 (bm_capacity m) @
     to_be64 (bm_error m) @ [bm_expansion m, word_of_nat (length (bm_links m))]"
  have row: "?row = ?pre @ concat (map bl_encode (bm_links m)) @ []"
    using assms by (simp add: bm_encode_def)
  have base: "cm_decode ?row = Some (cm_v2 (bm_base m))"
    unfolding bm_encode_def by (rule cm_decode_encode)
  have links: "bl_decode_from ?row (length (bm_links m)) 57 = Some (bm_links m)"
    unfolding row by (rule bl_decode_encode) simp
  have n: "unat (word_of_nat (length (bm_links m)) :: u8) = length (bm_links m)"
    using assms by (simp add: unat_of_nat)
  have idx: "?row ! 37 = bm_hash_id m" "?row ! 38 = bm_layout m" "?row ! 55 = bm_expansion m"
    "?row ! 56 = word_of_nat (length (bm_links m))"
    using assms by (simp_all add: bm_encode_def nth_append)
  have f: "?row ! 0 = v2_flags (mh_flags (cm_header (bm_base m)))"
    by (simp add: bm_encode_def)
  have len: "57 \<le> length ?row" by (simp add: bm_encode_def)
  have sl: "take 8 (drop 39 ?row) = to_be64 (bm_capacity m)" "take 8 (drop 47 ?row) = to_be64 (bm_error m)"
    by (simp_all add: bm_encode_def)
  show ?thesis
    unfolding bm_decode_def base
    using len by (simp add: Let_def f COMPLEX_TAIL_LEN_def BLOOM_TAIL_HEAD_LEN_def idx n links sl)
qed

section \<open>Lemmas: order-preserving encodings\<close>

text \<open>The three encodings as single-bit operations on bit 63.\<close>

lemma high_bit_set: "(w AND push_bit 63 1 \<noteq> 0) = bit (w::u64) 63"
  using and_exp_eq_0_iff_not_bit[of w 63] by (simp add: push_bit_eq_mult)

lemma bias_index_flip: "bias_index i = flip_bit 63 i"
  by (simp only: bias_index_def flip_bit_def)

lemma encode_score_bit: "encode_score b = (if bit b 63 then NOT b else set_bit 63 b)"
  by (simp only: encode_score_def high_bit_set set_bit_def)

lemma decode_score_bit: "decode_score e = (if bit e 63 then unset_bit 63 e else NOT e)"
  by (simp only: decode_score_def high_bit_set unset_bit_eq_and_not)

lemma decode_encode_score [simp]: "decode_score (encode_score s) = s"
  by (rule bit_word_eqI) (auto simp: encode_score_bit decode_score_bit bit_simps)

lemma encode_decode_score [simp]: "encode_score (decode_score e) = e"
  by (rule bit_word_eqI) (auto simp: encode_score_bit decode_score_bit bit_simps)

lemma bit63_iff: "bit (w::u64) 63 \<longleftrightarrow> 2 ^ 63 \<le> uint w"
proof -
  have "0 \<le> uint w" "uint w < 2 ^ 64" using unsigned_less[of w, where 'a = int] by simp_all
  then have d: "uint w div 2 ^ 63 = (if 2 ^ 63 \<le> uint w then 1 else 0)" by auto
  have "bit w 63 = odd (uint w div 2 ^ 63)"
    using bit_uint_iff[of w 63] bit_iff_odd[of "uint w" 63] by simp
  then show ?thesis unfolding d by simp
qed

lemma uint_u64_bounds: "0 \<le> uint (w::u64)" "uint w < 2 ^ 64"
  using unsigned_less[of w, where 'a = int] by simp_all

lemma sint_bit63: "sint (i::u64) = uint i - (if bit i 63 then 2 ^ 64 else 0)"
proof -
  have "sint i = signed_take_bit 63 (uint i)" by (simp add: sint_uint)
  then show ?thesis
    by (simp add: signed_take_bit_eq_take_bit_minus bit_uint_iff bintr_uint)
qed

lemma uint_set_bit63: "\<not> bit (w::u64) 63 \<Longrightarrow> uint (set_bit 63 w) = uint w + 2 ^ 63"
  using uint_u64_bounds[of w] by (simp add: set_bit_eq bit63_iff uint_word_ariths)

lemma uint_unset_bit63: "bit (w::u64) 63 \<Longrightarrow> uint (unset_bit 63 w) = uint w - 2 ^ 63"
  using uint_u64_bounds[of w] by (simp add: unset_bit_eq bit63_iff uint_word_ariths)

lemma uint_max64: "uint (- 1 :: u64) = 2 ^ 64 - 1"
  by (simp add: unsigned_minus_1_eq_mask mask_eq_exp_minus_1)

lemma uint_not64: "uint (NOT (w::u64)) = 2 ^ 64 - 1 - uint w"
proof -
  have "uint w \<le> uint (- 1 :: u64)" using uint_u64_bounds[of w] unfolding uint_max64 by simp
  then have "uint (- 1 - w) = uint (- 1 :: u64) - uint w" using uint_sub_lem by blast
  moreover have "NOT w = - 1 - w" by (simp add: not_eq_complement)
  ultimately show ?thesis by (simp only: uint_max64)
qed

lemma uint_bias_index: "uint (bias_index i) = sint i + 2 ^ 63"
  by (simp add: bias_index_flip flip_bit_eq_if sint_bit63 uint_set_bit63 uint_unset_bit63)

lemma bias_index_less: "bias_index i < bias_index j \<longleftrightarrow> sint i < sint j"
  by (simp add: word_less_def uint_bias_index)

text \<open>
  The order of doubles by their bit patterns (IEEE 754 total order): the sign bit, then the
  magnitude, which is the lower 63 bits read as an integer. On numbers it is the numeric
  order, with \<open>-0.0\<close> below \<open>0.0\<close>.
\<close>

lemma uint_encode_score: "uint (encode_score b) = f64_order b + 2 ^ 63"
  by (simp add: encode_score_bit f64_order_def uint_set_bit63 uint_not64)

lemma encode_score_less: "encode_score a < encode_score b \<longleftrightarrow> f64_order a < f64_order b"
  by (simp add: word_less_def uint_encode_score)

section \<open>Lemmas: stream IDs\<close>

lemma sid_to_bytes_less: "sid_to_bytes a < sid_to_bytes b \<longleftrightarrow> sid_less a b"
  by (simp add: sid_to_bytes_def sid_less_def to_be64_append_less to_be64_less)

lemma pair_pos_less:
  "(a::nat) * k + b < c * k + d \<longleftrightarrow> a < c \<or> a = c \<and> b < d" if "b < k" "d < k"
proof -
  have "a * k + b < c * k + d" if "a < c"
  proof -
    have "(a + 1) * k \<le> c * k" using that by (intro mult_right_mono) simp_all
    with \<open>b < k\<close> show ?thesis by simp
  qed
  moreover have "c * k + d < a * k + b" if "c < a"
  proof -
    have "(c + 1) * k \<le> a * k" using that by (intro mult_right_mono) simp_all
    with \<open>d < k\<close> show ?thesis by simp
  qed
  ultimately show ?thesis by (cases a c rule: linorder_cases) auto
qed

lemma unat_u64_bound: "unat (w::u64) < 2 ^ 64"
  using unsigned_less[of w, where 'a = nat] by simp

lemma sid_less_pos: "sid_less a b \<longleftrightarrow> sid_pos a < sid_pos b"
  unfolding sid_less_def sid_pos_def pair_pos_less[OF unat_u64_bound unat_u64_bound]
  by (simp add: word_less_nat_alt word_eq_iff_unsigned[where 'a = nat])

lemma sid_pos_inject: "sid_pos a = sid_pos b \<longleftrightarrow> a = b"
proof
  assume "sid_pos a = sid_pos b"
  then have "\<not> sid_less a b" "\<not> sid_less b a" by (simp_all add: sid_less_pos)
  then show "a = b" by (auto simp: sid_less_def intro: StreamId.equality)
qed simp

lemma unat_max64: "unat (- 1 :: u64) = 2 ^ 64 - 1"
  by (simp add: unsigned_minus_1_eq_mask mask_eq_exp_minus_1)

lemma unat_plus_1: "(w::u64) \<noteq> - 1 \<Longrightarrow> unat (w + 1) = unat w + 1"
  using unat_u64_bound[of w] unat_max64 word_eq_iff_unsigned[of w "- 1", where 'a = nat]
  by (simp add: unat_word_ariths)

lemma unat_minus_1: "(w::u64) \<noteq> 0 \<Longrightarrow> unat (w - 1) + 1 = unat w"
  using unat_plus_1[of "w - 1"] by (auto simp: eq_neg_iff_add_eq_0)

lemma sid_next_pos: "sid_next a = Some b \<longleftrightarrow> sid_pos b = sid_pos a + 1"
proof -
  have "sid_pos b = sid_pos a + 1" if "sid_next a = Some b" for b
    using that by (auto simp: sid_next_def sid_pos_def unat_plus_1 unat_max64 split: if_splits)
  moreover have "\<exists>b'. sid_next a = Some b'" if "sid_pos b = sid_pos a + 1"
  proof (rule ccontr)
    assume "\<nexists>b'. sid_next a = Some b'"
    then have "sid_ms a = - 1" "sid_seq a = - 1" by (auto simp: sid_next_def split: if_splits)
    then have "sid_pos a = (2 ^ 64 - 1) * 2 ^ 64 + (2 ^ 64 - 1)" by (simp add: sid_pos_def unat_max64)
    moreover have "sid_pos b \<le> (2 ^ 64 - 1) * 2 ^ 64 + (2 ^ 64 - 1)"
      unfolding sid_pos_def using unat_u64_bound[of "sid_ms b"] unat_u64_bound[of "sid_seq b"]
      by (intro add_mono mult_right_mono) simp_all
    ultimately show False using that by simp
  qed
  ultimately show ?thesis by (metis sid_pos_inject)
qed

lemma sid_prev_pos: "sid_prev b = Some a \<longleftrightarrow> sid_pos b = sid_pos a + 1"
proof -
  have "sid_pos b = sid_pos a + 1" if "sid_prev b = Some a" for a
    using that unat_minus_1[of "sid_ms b"] unat_minus_1[of "sid_seq b"]
    by (auto simp: sid_prev_def sid_pos_def unat_max64 split: if_splits)
  moreover have "\<exists>a'. sid_prev b = Some a'" if "sid_pos b = sid_pos a + 1"
    using that by (auto simp: sid_prev_def sid_pos_def)
  ultimately show ?thesis by (metis sid_pos_inject add_right_cancel)
qed

section \<open>Lemmas: versions\<close>

lemma version_next_greater:
  assumes "unat prev < 2 ^ 64 - 1" and "unat (push_bit 20 now) < 2 ^ 64 - 1"
  shows "prev < version_next prev now" and "push_bit 20 now < version_next prev now"
proof -
  have "max prev (push_bit 20 now) \<noteq> - 1"
    using assms unat_max64 by (auto simp: max_def)
  then have "unat (version_next prev now) = unat (max prev (push_bit 20 now)) + 1"
    by (simp add: version_next_def unat_plus_1)
  then show "prev < version_next prev now" and "push_bit 20 now < version_next prev now"
    by (auto simp: word_less_nat_alt max_def word_le_nat_alt split: if_splits)
qed

section \<open>Lemmas: envelopes\<close>

lemma cf_byte_inject [simp]: "cf_byte a = cf_byte b \<longleftrightarrow> a = b"
  by (cases a; cases b) simp_all

lemma word_of_nat_u8_inject: "n \<le> 255 \<Longrightarrow> m \<le> 255 \<Longrightarrow> (word_of_nat n :: u8) = word_of_nat m \<longleftrightarrow> n = m"
  by (simp add: word_of_nat_eq_iff take_bit_eq_mod)

lemma word_of_nat_u16_inject:
  "n \<le> 65535 \<Longrightarrow> m \<le> 65535 \<Longrightarrow> (word_of_nat n :: u16) = word_of_nat m \<longleftrightarrow> n = m"
  by (simp add: word_of_nat_eq_iff take_bit_eq_mod)

lemma unat_u8_of_nat: "n \<le> 255 \<Longrightarrow> unat (word_of_nat n :: u8) = n"
  by (simp add: unat_of_nat)

lemma unat_u16_of_nat: "n \<le> 65535 \<Longrightarrow> unat (word_of_nat n :: u16) = n"
  by (simp add: unat_of_nat)

lemma envelope_inject:
  assumes "ns_ok ns" and "ns_ok ns'"
  shows "envelope cf ns slot k = envelope cf' ns' slot' k' \<longleftrightarrow>
     cf = cf' \<and> ns = ns' \<and> slot = slot' \<and> k = k'"
proof
  assume eq: "envelope cf ns slot k = envelope cf' ns' slot' k'"
  then have "cf = cf'" and "length ns = length ns'"
    using assms by (auto simp: envelope_def word_of_nat_u8_inject ns_ok_def)
  with eq show "cf = cf' \<and> ns = ns' \<and> slot = slot' \<and> k = k'"
    by (auto simp: envelope_def)
qed auto

lemma slot_prefix_envelope:
  assumes "ns_ok ns" and "ns_ok ns'"
  shows "prefix (slot_prefix cf ns slot) (envelope cf' ns' slot' k) \<longleftrightarrow>
     cf = cf' \<and> ns = ns' \<and> slot = slot'"
proof
  assume "prefix (slot_prefix cf ns slot) (envelope cf' ns' slot' k)"
  then obtain zs where "envelope cf' ns' slot' k = slot_prefix cf ns slot @ zs" by (auto simp: prefix_def)
  then have "envelope cf' ns' slot' k = envelope cf ns slot zs"
    by (simp add: slot_prefix_def envelope_def)
  with assms show "cf = cf' \<and> ns = ns' \<and> slot = slot'" by (auto simp: envelope_inject)
qed (auto simp: slot_prefix_def envelope_def)

text \<open>Within one column family and namespace, the rows of a lower slot sort first.\<close>

lemma envelope_slot_less: "slot < slot' \<Longrightarrow> envelope cf ns slot k < envelope cf ns slot' k'"
  by (simp add: envelope_def to_be16_append_less)

lemma subkey_envelope_inject:
  assumes "ns_ok ns" "ns_ok ns'" "key_framed k" "key_framed k'"
  shows "subkey_envelope ns slot k v f = subkey_envelope ns' slot' k' v' f' \<longleftrightarrow>
     ns = ns' \<and> slot = slot' \<and> k = k' \<and> v = v' \<and> f = f'"
proof
  assume eq: "subkey_envelope ns slot k v f = subkey_envelope ns' slot' k' v' f'"
  then have l: "length ns = length ns'"
    using assms by (auto simp: subkey_envelope_def subkey_prefix_def word_of_nat_u8_inject ns_ok_def)
  with eq have "ns = ns'" "slot = slot'" and lk: "length k = length k'"
    using assms by (auto simp: subkey_envelope_def subkey_prefix_def word_of_nat_u16_inject key_framed_def)
  with eq show "ns = ns' \<and> slot = slot' \<and> k = k' \<and> v = v' \<and> f = f'"
    by (auto simp: subkey_envelope_def subkey_prefix_def)
qed auto

lemma prefix_subkey_envelope:
  assumes "ns_ok ns" "ns_ok ns'" "key_framed k" "key_framed k'"
  shows "prefix (subkey_prefix ns slot k v) (subkey_envelope ns' slot' k' v' f) \<longleftrightarrow>
     ns = ns' \<and> slot = slot' \<and> k = k' \<and> v = v'"
proof
  assume "prefix (subkey_prefix ns slot k v) (subkey_envelope ns' slot' k' v' f)"
  then obtain zs where "subkey_envelope ns' slot' k' v' f = subkey_prefix ns slot k v @ zs"
    by (auto simp: prefix_def)
  then have "subkey_envelope ns' slot' k' v' f = subkey_envelope ns slot k v zs"
    by (simp add: subkey_envelope_def)
  with assms show "ns = ns' \<and> slot = slot' \<and> k = k' \<and> v = v'"
    by (auto simp: subkey_envelope_inject)
qed (auto simp: subkey_envelope_def)

lemma prefix_subkey_prefix_iff:
  "prefix (subkey_prefix ns slot k v) x \<longleftrightarrow> (\<exists>f. x = subkey_envelope ns slot k v f)"
  by (auto simp: prefix_def subkey_envelope_def)

lemma envelope_not_subkey [simp]:
  "envelope Metadata ns slot k \<noteq> subkey_envelope ns' slot' k' v f"
  "subkey_envelope ns' slot' k' v f \<noteq> envelope Metadata ns slot k"
  by (simp_all add: envelope_def subkey_envelope_def subkey_prefix_def)

lemma zscore_not_subkey [simp]:
  "zscore_envelope ns slot k v sc m \<noteq> subkey_envelope ns' slot' k' v' f"
  "subkey_envelope ns' slot' k' v' f \<noteq> zscore_envelope ns slot k v sc m"
  by (simp_all add: zscore_envelope_def zscore_prefix_def subkey_envelope_def subkey_prefix_def)

lemma zscore_not_envelope [simp]:
  "zscore_envelope ns slot k v sc m \<noteq> envelope Metadata ns' slot' k'"
  "envelope Metadata ns' slot' k' \<noteq> zscore_envelope ns slot k v sc m"
  by (simp_all add: zscore_envelope_def zscore_prefix_def envelope_def)

lemma zscore_envelope_inject:
  assumes "ns_ok ns" "ns_ok ns'" "key_framed k" "key_framed k'"
  shows "zscore_envelope ns slot k v sc m = zscore_envelope ns' slot' k' v' sc' m' \<longleftrightarrow>
     ns = ns' \<and> slot = slot' \<and> k = k' \<and> v = v' \<and> sc = sc' \<and> m = m'"
proof
  assume eq: "zscore_envelope ns slot k v sc m = zscore_envelope ns' slot' k' v' sc' m'"
  then have l: "length ns = length ns'"
    using assms by (auto simp: zscore_envelope_def zscore_prefix_def word_of_nat_u8_inject ns_ok_def)
  with eq have "ns = ns'" "slot = slot'" and lk: "length k = length k'"
    using assms by (auto simp: zscore_envelope_def zscore_prefix_def word_of_nat_u16_inject key_framed_def)
  with eq have "ns = ns' \<and> slot = slot' \<and> k = k' \<and> v = v' \<and> encode_score sc = encode_score sc' \<and> m = m'"
    by (auto simp: zscore_envelope_def zscore_prefix_def)
  then show "ns = ns' \<and> slot = slot' \<and> k = k' \<and> v = v' \<and> sc = sc' \<and> m = m'"
    by (metis decode_encode_score)
qed auto

text \<open>The parser inverts both builders, whatever follows the version.\<close>

lemma slice_get_mid: "slice_get (xs @ ys @ zs) (length xs) (length xs + length ys) = Some ys"
  by (simp add: slice_get_def)

lemma parse_tagged:
  assumes "ns_ok ns" "key_framed k" and "t = cf_byte Subkey \<or> t = cf_byte ZScore"
  shows "parse_subkey_envelope ([t, word_of_nat (length ns)] @ ns @ to_be16 slot @
       to_be16 (word_of_nat (length k)) @ k @ to_be64 v @ rest) = Some (ns, slot, k, v)"
    (is "parse_subkey_envelope ?e = _")
proof -
  let ?l = "length ns" and ?kl = "length k"
  have a: "slice_get ?e 2 (2 + ?l) = Some ns"
    "slice_get ?e (2 + ?l) (2 + ?l + 2) = Some (to_be16 slot)"
    "slice_get ?e (2 + ?l + 2) (2 + ?l + 2 + 2) = Some (to_be16 (word_of_nat ?kl))"
    "slice_get ?e (2 + ?l + 2 + 2) (2 + ?l + 2 + 2 + ?kl) = Some k"
    "slice_get ?e (2 + ?l + 2 + 2 + ?kl) (2 + ?l + 2 + 2 + ?kl + 8) = Some (to_be64 v)"
    by (simp_all add: slice_get_def)
  have b: "unat (?e ! 1) = ?l" using assms(1) by (simp add: unat_u8_of_nat ns_ok_def)
  have c: "unat (of_be (to_be16 (word_of_nat ?kl)) :: u16) = ?kl"
    using assms(2) by (simp add: unat_u16_of_nat key_framed_def)
  have d: "\<not> (length ?e < 2 \<or> (?e ! 0 \<noteq> cf_byte Subkey \<and> ?e ! 0 \<noteq> cf_byte ZScore))"
    using assms(3) by auto
  show ?thesis
    unfolding parse_subkey_envelope_def Let_def if_not_P[OF d] b a option.case c
    by simp
qed

lemma parse_subkey_envelope_subkey [simp]:
  "ns_ok ns \<Longrightarrow> key_framed k \<Longrightarrow>
   parse_subkey_envelope (subkey_envelope ns slot k v f) = Some (ns, slot, k, v)"
  using parse_tagged[of ns k "cf_byte Subkey" slot v f]
  by (simp add: subkey_envelope_def subkey_prefix_def)

lemma parse_subkey_envelope_zscore [simp]:
  "ns_ok ns \<Longrightarrow> key_framed k \<Longrightarrow>
   parse_subkey_envelope (zscore_envelope ns slot k v sc m) = Some (ns, slot, k, v)"
  using parse_tagged[of ns k "cf_byte ZScore" slot v "to_be64 (encode_score sc) @ m"]
  by (simp add: zscore_envelope_def zscore_prefix_def)

lemma parse_subkey_envelope_zprefix [simp]:
  "ns_ok ns \<Longrightarrow> key_framed k \<Longrightarrow> parse_subkey_envelope (zscore_prefix ns slot k v @ r) = Some (ns, slot, k, v)"
  using parse_tagged[of ns k "cf_byte ZScore" slot v r] by (simp add: zscore_prefix_def)

text \<open>And nothing else parses: what parses is one of the two builders' keys.\<close>

lemma slice_get_SomeD:
  "slice_get xs a b = Some ys \<Longrightarrow> drop a xs = ys @ drop b xs \<and> length ys = b - a \<and> a \<le> b"
  by (auto simp: slice_get_def split: if_splits)
    (metis append_take_drop_id drop_drop le_add_diff_inverse2 add.commute)

lemma parse_subkey_envelope_Some:
  assumes "parse_subkey_envelope k = Some (ns, slot, key, v)"
  obtains rest where "ns_ok ns" "key_framed key"
    and "k = subkey_prefix ns slot key v @ rest \<or> k = zscore_prefix ns slot key v @ rest"
proof -
  let ?l = "unat (k ! 1)"
  from assms have len: "2 \<le> length k" and tag: "k ! 0 = cf_byte Subkey \<or> k ! 0 = cf_byte ZScore"
    by (auto simp: parse_subkey_envelope_def split: if_splits)
  from assms obtain sl kl vb where
    s1: "slice_get k 2 (2 + ?l) = Some ns" and
    s2: "slice_get k (2 + ?l) (2 + ?l + 2) = Some sl" and
    s3: "slice_get k (2 + ?l + 2) (2 + ?l + 2 + 2) = Some kl" and
    s4: "slice_get k (2 + ?l + 2 + 2) (2 + ?l + 2 + 2 + unat (of_be kl :: u16)) = Some key" and
    s5: "slice_get k (2 + ?l + 2 + 2 + unat (of_be kl :: u16))
         (2 + ?l + 2 + 2 + unat (of_be kl :: u16) + 8) = Some vb" and
    eq: "slot = of_be sl" "v = of_be vb"
    unfolding parse_subkey_envelope_def Let_def
    by (auto split: if_splits option.splits)
  note d = s1[THEN slice_get_SomeD] s2[THEN slice_get_SomeD] s3[THEN slice_get_SomeD]
    s4[THEN slice_get_SomeD] s5[THEN slice_get_SomeD]
  let ?rest = "drop (2 + ?l + 2 + 2 + unat (of_be kl :: u16) + 8) k"
  have k: "k = k ! 0 # k ! 1 # drop 2 k"
    using len by (cases k; cases "tl k") auto
  have ln: "length ns = ?l" "length key = unat (of_be kl :: u16)" "length sl = 2" "length kl = 2"
    "length vb = 8"
    using d by simp_all
  have nsok: "ns_ok ns" using unsigned_less[of "k ! 1", where 'a = nat] ln(1) by (simp add: ns_ok_def)
  have framed: "key_framed key"
    using unsigned_less[of "of_be kl :: u16", where 'a = nat] ln(2) by (simp add: key_framed_def)
  have b1: "word_of_nat (length ns) = k ! 1" using ln(1) by simp
  have kl: "to_be16 (word_of_nat (length key)) = kl" using ln by simp
  have "drop 2 k = ns @ sl @ kl @ key @ vb @ ?rest" using d by simp
  with k have "k = k ! 0 # word_of_nat (length ns) # ns @ to_be16 slot @
      to_be16 (word_of_nat (length key)) @ key @ to_be64 v @ ?rest"
    using kl b1 eq ln by simp
  with tag have "k = subkey_prefix ns slot key v @ ?rest \<or> k = zscore_prefix ns slot key v @ ?rest"
    by (auto simp: subkey_prefix_def zscore_prefix_def)
  then show ?thesis using that nsok framed by blast
qed

lemma ns_of_envelope_envelope [simp]: "ns_ok ns \<Longrightarrow> ns_of_envelope (envelope cf ns slot k) = Some ns"
  by (cases cf) (simp_all add: ns_of_envelope_def envelope_def elem_get_def slice_get_def
      unat_u8_of_nat ns_ok_def)

lemma ns_of_envelope_subkey [simp]:
  "ns_ok ns \<Longrightarrow> ns_of_envelope (subkey_envelope ns slot k v f) = Some ns"
  by (simp add: ns_of_envelope_def subkey_envelope_def subkey_prefix_def elem_get_def slice_get_def
      unat_u8_of_nat ns_ok_def)

section \<open>Properties\<close>

text \<open>
  C28. No two rows of the store collide: a metadata, subkey or sorted-set index envelope
  determines its namespace, slot, key, version and field (or score and member), and envelopes of
  different families differ. Hypotheses: the two assertions of the code, that a namespace fits
  its length byte and a key its length field.
\<close>

theorem envelopes_never_collide:
  assumes "ns_ok ns" and "ns_ok ns'" and "key_framed k" and "key_framed k'"
  shows "(envelope Metadata ns slot k = envelope Metadata ns' slot' k' \<longleftrightarrow>
       ns = ns' \<and> slot = slot' \<and> k = k') \<and>
    (subkey_envelope ns slot k v f = subkey_envelope ns' slot' k' v' f' \<longleftrightarrow>
       ns = ns' \<and> slot = slot' \<and> k = k' \<and> v = v' \<and> f = f') \<and>
    (zscore_envelope ns slot k v sc f = zscore_envelope ns' slot' k' v' sc' f' \<longleftrightarrow>
       ns = ns' \<and> slot = slot' \<and> k = k' \<and> v = v' \<and> sc = sc' \<and> f = f') \<and>
    envelope Metadata ns slot k \<noteq> subkey_envelope ns' slot' k' v' f' \<and>
    envelope Metadata ns slot k \<noteq> zscore_envelope ns' slot' k' v' sc' f' \<and>
    subkey_envelope ns slot k v f \<noteq> zscore_envelope ns' slot' k' v' sc' f'"
  using assms by (simp add: envelope_inject subkey_envelope_inject zscore_envelope_inject)

theorem envelopes_never_collide_witness:
  "subkey_envelope [1] 5 [2, 3] 7 [4] \<noteq> subkey_envelope [1] 5 [2] 7 [3, 4]"
  using envelopes_never_collide[of "[1]" "[1]" "[2, 3]" "[2]" 5 5 7 "[4]" 7 "[3, 4]" 0 0]
  by (simp add: ns_ok_def key_framed_def)

text \<open>
  A subkey row's key gives back the collection it belongs to, and only keys that one of the
  two builders made for that collection and version parse: the sweeper never attributes a row to
  a collection that does not own it.
\<close>

theorem parse_subkey_envelope_iff:
  "parse_subkey_envelope row = Some (ns, slot, key, v) \<longleftrightarrow>
     ns_ok ns \<and> key_framed key \<and>
     (\<exists>rest. row = subkey_prefix ns slot key v @ rest \<or> row = zscore_prefix ns slot key v @ rest)"
proof
  assume "parse_subkey_envelope row = Some (ns, slot, key, v)"
  then show "ns_ok ns \<and> key_framed key \<and>
      (\<exists>rest. row = subkey_prefix ns slot key v @ rest \<or> row = zscore_prefix ns slot key v @ rest)"
    using parse_subkey_envelope_Some by blast
next
  assume "ns_ok ns \<and> key_framed key \<and>
      (\<exists>rest. row = subkey_prefix ns slot key v @ rest \<or> row = zscore_prefix ns slot key v @ rest)"
  then show "parse_subkey_envelope row = Some (ns, slot, key, v)"
    using parse_tagged[of ns key _ slot v] by (auto simp: subkey_prefix_def zscore_prefix_def)
qed

text \<open>
  C29. Every metadata row reads back as what was written, for the collection, list, stream and
  Bloom layouts. A row is always written in the current encoding, so the flags come back with
  the current encoding's bits; a Bloom filter's link count fits its byte. The generic header of
  any of them is readable on its own, and an in-place change of the expiry changes nothing else.
\<close>

theorem meta_round_trip:
  assumes "length (bm_links b) \<le> 255" and "mh_decode row = Some h"
  shows "cm_decode (cm_encode m @ rest) = Some (cm_v2 m) \<and>
    lm_decode (lm_encode l) = Some (l\<lparr>lm_base := cm_v2 (lm_base l)\<rparr>) \<and>
    stm_decode (stm_encode s) = Some (s\<lparr>stm_base := cm_v2 (stm_base s)\<rparr>) \<and>
    bm_decode (bm_encode b) = Some (b\<lparr>bm_base := cm_v2 (bm_base b)\<rparr>) \<and>
    sm_decode (sm_encode (sm_new p e w)) = Some (sm_new p e w) \<and>
    mh_decode (write_expire row x) = Some (h\<lparr>mh_expire_ms := x\<rparr>)"
  using assms by (simp add: cm_decode_encode lm_decode_encode stm_decode_encode bm_decode_encode
      mh_decode_write_expire)

theorem meta_round_trip_witness:
  "bm_decode (bm_encode (bm_new 7 100 0 2 \<lparr>bl_k = 3, bl_block_bits_log2 = 9, bl_blocks = 2, bl_items = 1, bl_capacity = 100\<rparr>))
     \<noteq> None \<and>
   mh_decode (write_expire (sm_encode (sm_new [1, 2] 5 6)) 9) =
     Some \<lparr>mh_flags = make_flags StringT ENCODING_V2, mh_expire_ms = 9\<rparr>"
  using meta_round_trip[where b = "bm_new 7 100 0 2 \<lparr>bl_k = 3, bl_block_bits_log2 = 9, bl_blocks = 2, bl_items = 1, bl_capacity = 100\<rparr>"
      and row = "sm_encode (sm_new [1, 2] 5 6)" and x = 9
      and h = "\<lparr>mh_flags = make_flags StringT ENCODING_V2, mh_expire_ms = 5\<rparr>"]
  by (simp add: bm_new_def mh_decode_sm_encode sm_new_def)

text \<open>
  A rename stamps a new version into a metadata row in place: the row decodes to the same
  metadata with the version replaced, and no byte outside the version's eight changes, so the
  type-specific tail of a list, stream or Bloom row survives.
\<close>

theorem write_version_only_version:
  assumes "cm_decode row = Some m"
  shows "cm_decode (write_version row v) = Some (m\<lparr>cm_version := v\<rparr>) \<and>
    take (head_len (row ! 0)) (write_version row v) = take (head_len (row ! 0)) row \<and>
    drop (head_len (row ! 0) + 8) (write_version row v) = drop (head_len (row ! 0) + 8) row \<and>
    length (write_version row v) = length row"
  using cm_decode_write_version[OF assms] by simp

theorem write_version_only_version_witness:
  "cm_decode (write_version (cm_encode (cm_new Hash 3) @ [1, 2, 3]) 9) = Some (cm_v2 (cm_new Hash 3)\<lparr>cm_version := 9\<rparr>)"
  using write_version_only_version[OF cm_decode_encode[of "cm_new Hash 3" "[1, 2, 3]"], of 9] by simp

text \<open>
  The successor and predecessor of a stream ID are the adjacent IDs in the order of the
  store, with carry between the two halves, and exist except at the two ends: an exclusive range
  bound is the inclusive bound one step in.
\<close>

theorem stream_id_adjacent:
  "(sid_next a = Some b \<longleftrightarrow> sid_less a b \<and> (\<nexists>c. sid_less a c \<and> sid_less c b)) \<and>
   (sid_prev b = Some a \<longleftrightarrow> sid_next a = Some b) \<and>
   (sid_next a = None \<longleftrightarrow> a = sid_MAX) \<and> (sid_prev a = None \<longleftrightarrow> a = sid_MIN)"
proof -
  have next_None: "sid_next x = None \<longleftrightarrow> x = sid_MAX" for x by (cases x) (auto simp: sid_next_def sid_MAX_def)
  have prev_None: "sid_prev x = None \<longleftrightarrow> x = sid_MIN" for x by (cases x) (auto simp: sid_prev_def sid_MIN_def)
  have "sid_next a = Some b" if less: "sid_less a b" and gap: "\<nexists>c. sid_less a c \<and> sid_less c b"
  proof -
    have "sid_pos b \<le> sid_pos sid_MAX"
      using unat_u64_bound[of "sid_ms b"] unat_u64_bound[of "sid_seq b"]
      by (auto simp: sid_pos_def sid_MAX_def unat_max64)
    with less obtain c where c: "sid_next a = Some c"
      using next_None[of a] by (cases "sid_next a") (auto simp: sid_less_pos)
    then have "sid_pos c = sid_pos a + 1" by (simp add: sid_next_pos)
    moreover have "\<not> sid_pos c < sid_pos b" "sid_pos a < sid_pos b"
      using gap less spec[where x = c, of "\<lambda>c. sid_less a c \<longrightarrow> \<not> sid_less c b"] \<open>sid_pos c = sid_pos a + 1\<close>
      by (simp_all add: sid_less_pos)
    ultimately have "sid_pos b = sid_pos c" by linarith
    with c show ?thesis by (simp add: sid_pos_inject)
  qed
  moreover have "sid_less a b \<and> (\<nexists>c. sid_less a c \<and> sid_less c b)" if "sid_next a = Some b"
    using that by (auto simp: sid_next_pos sid_less_pos)
  moreover have "sid_prev b = Some a \<longleftrightarrow> sid_next a = Some b" by (simp only: sid_next_pos sid_prev_pos)
  ultimately show ?thesis using next_None[of a] prev_None[of a] by blast
qed

text \<open>
  Versions are strictly increasing and above the millisecond they are taken in, so a version
  is never handed out twice and, after a restart, a new version exceeds every one issued before
  the clock's current millisecond. Hypothesis: the counter is not at the end of its 64 bits.
\<close>

theorem version_next_increases:
  assumes "unat prev < 2 ^ 64 - 1" and "unat (push_bit 20 now) < 2 ^ 64 - 1"
  shows "prev < version_next prev now \<and> push_bit 20 now < version_next prev now"
  using version_next_greater[OF assms] by simp

theorem version_next_increases_witness:
  "(7::u64) < version_next 7 1700000000000 \<and> push_bit 20 1700000000000 < version_next 7 1700000000000"
  by (rule version_next_increases) simp_all

end
