(* ===== verification/Flint_Kv.thy ===== *)
theory Flint_Kv
  imports Flint_Prelude
begin

text \<open>
  The storage seam, \<open>crates/flint-storage/src/lib.rs\<close>: the \<open>Kv\<close> trait, the in-memory store
  \<open>MemKv\<close> and the write-suppressing view \<open>ReadOnlyKv\<close>.

  The trait object \<open>&dyn Kv\<close> is a record of operations over a state \<open>'s\<close>, so that a store
  written against it is one definition that runs on every implementation. A scan is the list of
  the rows it visits, in visiting order; a visitor is run over that list by \<open>run_visits\<close>, which
  stops where the visitor answers false.

  \<open>MemKv\<close> is the ordered contents of its \<open>BTreeMap\<close>. Its scans are the source's chunked loops,
  which release the lock between chunks and so re-read the map: the loop is defined over a
  visitor that may write to the map, with fuel, and \<open>mem_chunked_snapshot\<close> shows that it visits
  exactly the rows of the scan's start whenever the visitor leaves the rows ahead of it alone.

  The locales \<open>kv_reader\<close>, \<open>kv_store\<close> and \<open>kv_clearable\<close> state what a client may rely on: an
  implementation behaves as a finite map from keys to values, and its scans are that map's rows
  in key order.
\<close>

section \<open>The trait\<close>

record 's Kv =
  kv_get :: "'s \<Rightarrow> bytes \<Rightarrow> bytes option"
  kv_put :: "'s \<Rightarrow> bytes \<Rightarrow> bytes \<Rightarrow> 's"
  kv_delete :: "'s \<Rightarrow> bytes \<Rightarrow> bool \<times> 's"
  kv_for_each_prefix :: "'s \<Rightarrow> bytes \<Rightarrow> row list"
  kv_for_each_from :: "'s \<Rightarrow> bytes \<Rightarrow> bytes \<Rightarrow> row list"
  kv_for_each_before :: "'s \<Rightarrow> bytes \<Rightarrow> bytes \<Rightarrow> row list"
  kv_clear :: "'s \<Rightarrow> 's"

type_synonym 'a visitor = "bytes \<Rightarrow> bytes \<Rightarrow> 'a \<Rightarrow> bool \<times> 'a"

text \<open>Run a visitor over rows until it answers false; the flag says whether it never did.\<close>

fun run_visits :: "'a visitor \<Rightarrow> row list \<Rightarrow> 'a \<Rightarrow> bool \<times> 'a" where
  "run_visits visit [] st = (True, st)"
| "run_visits visit ((k, v) # rows) st =
     (case visit k v st of
        (True, st') \<Rightarrow> run_visits visit rows st'
      | (False, st') \<Rightarrow> (False, st'))"

text \<open>The default bodies the trait gives the derived operations.\<close>

definition kv_with_value :: "'s Kv \<Rightarrow> 's \<Rightarrow> bytes \<Rightarrow> (bytes \<Rightarrow> 'a \<Rightarrow> 'a) \<Rightarrow> 'a \<Rightarrow> bool \<times> 'a" where
  "kv_with_value K s key f st =
     (case kv_get K s key of Some v \<Rightarrow> (True, f v st) | None \<Rightarrow> (False, st))"

definition kv_scan_prefix :: "'s Kv \<Rightarrow> 's \<Rightarrow> bytes \<Rightarrow> row list" where
  "kv_scan_prefix K s p = rev (snd (run_visits (\<lambda>k v out. (True, (k, v) # out))
     (kv_for_each_prefix K s p) []))"

definition kv_count_prefix :: "'s Kv \<Rightarrow> 's \<Rightarrow> bytes \<Rightarrow> nat" where
  "kv_count_prefix K s p =
     snd (run_visits (\<lambda>_ _ n. (True, n + 1)) (kv_for_each_prefix K s p) 0)"

text \<open>The default \<open>for_each_from\<close>: the whole prefix, skipping what is not past the start.\<close>

definition default_for_each_from :: "'s Kv \<Rightarrow> 's \<Rightarrow> bytes \<Rightarrow> bytes \<Rightarrow> row list" where
  "default_for_each_from K s p start_after =
     filter (\<lambda>(k, v). \<not> (start_after \<noteq> [] \<and> k \<le> start_after)) (kv_for_each_prefix K s p)"

text \<open>The default \<open>for_each_before\<close>: the prefix materialised and walked backwards.\<close>

definition default_for_each_before :: "'s Kv \<Rightarrow> 's \<Rightarrow> bytes \<Rightarrow> bytes \<Rightarrow> row list" where
  "default_for_each_before K s p start_before =
     filter (\<lambda>(k, v). \<not> (start_before \<noteq> [] \<and> start_before \<le> k)) (rev (kv_scan_prefix K s p))"

section \<open>MemKv\<close>

type_synonym MemKv = "row list"

definition mem_new :: MemKv where
  "mem_new = []"

definition mem_get :: "MemKv \<Rightarrow> bytes \<Rightarrow> bytes option" where
  "mem_get m key = map_of m key"

fun mem_put :: "MemKv \<Rightarrow> bytes \<Rightarrow> bytes \<Rightarrow> MemKv" where
  "mem_put [] key val = [(key, val)]"
| "mem_put ((k, v) # m) key val =
     (if key < k then (key, val) # (k, v) # m
      else if key = k then (key, val) # m
      else (k, v) # mem_put m key val)"

definition mem_delete :: "MemKv \<Rightarrow> bytes \<Rightarrow> bool \<times> MemKv" where
  "mem_delete m key = (map_of m key \<noteq> None, filter (\<lambda>(k, v). k \<noteq> key) m)"

definition mem_clear :: "MemKv \<Rightarrow> MemKv" where
  "mem_clear m = []"

definition CHUNK :: nat where
  "CHUNK = 1024"

text \<open>One lock hold of \<open>chunked\<close>: up to \<open>CHUNK\<close> rows of the prefix, from the cursor.\<close>

definition mem_range :: "bytes \<Rightarrow> bytes option \<Rightarrow> MemKv \<Rightarrow> row list" where
  "mem_range p cursor m =
     takeWhile (\<lambda>(k, v). prefix p k)
       (case cursor of
          Some c \<Rightarrow> dropWhile (\<lambda>(k, v). k \<le> c) m
        | None \<Rightarrow> dropWhile (\<lambda>(k, v). k < p) m)"

fun mem_chunked ::
  "nat \<Rightarrow> bytes \<Rightarrow> bytes option \<Rightarrow> (MemKv \<times> 'a) visitor \<Rightarrow> MemKv \<times> 'a \<Rightarrow> (MemKv \<times> 'a) option"
where
  "mem_chunked 0 p cursor visit st = None"
| "mem_chunked (Suc fuel) p cursor visit st =
     (let chunk = take CHUNK (mem_range p cursor (fst st));
          exhausted = length chunk < CHUNK
      in case run_visits visit chunk st of
           (False, st') \<Rightarrow> Some st'
         | (True, st') \<Rightarrow>
             if exhausted then Some st'
             else mem_chunked fuel p (Some (fst (last chunk))) visit st')"

text \<open>Rust's \<open>iter().rposition(f)\<close>: the last index whose element satisfies the predicate.\<close>

fun rposition :: "('a \<Rightarrow> bool) \<Rightarrow> 'a list \<Rightarrow> nat option" where
  "rposition f [] = None"
| "rposition f (x # xs) =
     (case rposition f xs of Some i \<Rightarrow> Some (Suc i) | None \<Rightarrow> if f x then Some 0 else None)"

definition prefix_successor :: "bytes \<Rightarrow> bytes option" where
  "prefix_successor p =
     (case rposition (\<lambda>b. b \<noteq> 0xFF) p of
        None \<Rightarrow> None
      | Some l \<Rightarrow> Some (take l p @ [p ! l + 1]))"

definition mem_range_rev :: "bytes \<Rightarrow> bytes option \<Rightarrow> MemKv \<Rightarrow> row list" where
  "mem_range_rev p cursor m =
     takeWhile (\<lambda>(k, v). prefix p k)
       (rev (filter (\<lambda>(k, v). p \<le> k \<and>
          (case cursor of
             Some c \<Rightarrow> k < c
           | None \<Rightarrow> (case prefix_successor p of Some e \<Rightarrow> k < e | None \<Rightarrow> True))) m))"

fun mem_chunked_rev_loop ::
  "nat \<Rightarrow> bytes \<Rightarrow> bytes option \<Rightarrow> (MemKv \<times> 'a) visitor \<Rightarrow> MemKv \<times> 'a \<Rightarrow> (MemKv \<times> 'a) option"
where
  "mem_chunked_rev_loop 0 p cursor visit st = None"
| "mem_chunked_rev_loop (Suc fuel) p cursor visit st =
     (let chunk = take CHUNK (mem_range_rev p cursor (fst st));
          exhausted = length chunk < CHUNK
      in case run_visits visit chunk st of
           (False, st') \<Rightarrow> Some st'
         | (True, st') \<Rightarrow>
             if exhausted then Some st'
             else mem_chunked_rev_loop fuel p (Some (fst (last chunk))) visit st')"

definition mem_chunked_rev ::
  "nat \<Rightarrow> bytes \<Rightarrow> bytes option \<Rightarrow> (MemKv \<times> 'a) visitor \<Rightarrow> MemKv \<times> 'a \<Rightarrow> (MemKv \<times> 'a) option"
where
  "mem_chunked_rev fuel p cursor visit st =
     (let cursor = (case (cursor, prefix_successor p) of
                      (Some c, Some e) \<Rightarrow> if e < c then None else Some c
                    | _ \<Rightarrow> cursor)
      in if (case cursor of Some c \<Rightarrow> c \<le> p | None \<Rightarrow> False) then Some st
         else mem_chunked_rev_loop fuel p cursor visit st)"

definition collect_row :: "(MemKv \<times> row list) visitor" where
  "collect_row k v st = (True, (fst st, (k, v) # snd st))"

text \<open>
  The scans as the rows they visit, for a visitor that does not write: every row but the last
  chunk's shrinks what is left, so one more turn than there are rows is enough fuel
  (\<open>mem_for_each_prefix_eq\<close>, \<open>mem_for_each_before_eq\<close>).
\<close>

definition collected :: "(MemKv \<times> row list) option \<Rightarrow> row list" where
  "collected r = (case r of Some (_, out) \<Rightarrow> rev out | None \<Rightarrow> [])"

definition mem_for_each_prefix :: "MemKv \<Rightarrow> bytes \<Rightarrow> row list" where
  "mem_for_each_prefix m p = collected (mem_chunked (Suc (length m)) p None collect_row (m, []))"

definition mem_for_each_from :: "MemKv \<Rightarrow> bytes \<Rightarrow> bytes \<Rightarrow> row list" where
  "mem_for_each_from m p start_after =
     (let seed = (if start_after \<noteq> [] then Some start_after else None)
      in collected (mem_chunked (Suc (length m)) p seed collect_row (m, [])))"

definition mem_for_each_before :: "MemKv \<Rightarrow> bytes \<Rightarrow> bytes \<Rightarrow> row list" where
  "mem_for_each_before m p start_before =
     (let seed = (if start_before \<noteq> [] then Some start_before else None)
      in collected (mem_chunked_rev (Suc (length m)) p seed collect_row (m, [])))"

text \<open>\<open>MemKv\<close>'s own \<open>scan_prefix\<close>: one lock hold, so one range.\<close>

definition mem_scan_prefix :: "MemKv \<Rightarrow> bytes \<Rightarrow> row list" where
  "mem_scan_prefix m p = mem_range p None m"

definition mem_kv :: "MemKv Kv" where
  "mem_kv = \<lparr>kv_get = mem_get, kv_put = mem_put, kv_delete = mem_delete,
     kv_for_each_prefix = mem_for_each_prefix, kv_for_each_from = mem_for_each_from,
     kv_for_each_before = mem_for_each_before, kv_clear = mem_clear\<rparr>"

section \<open>ReadOnlyKv\<close>

definition readonly_kv :: "'s Kv \<Rightarrow> 's Kv" where
  "readonly_kv K = \<lparr>kv_get = kv_get K, kv_put = (\<lambda>s _ _. s), kv_delete = (\<lambda>s _. (False, s)),
     kv_for_each_prefix = kv_for_each_prefix K, kv_for_each_from = kv_for_each_from K,
     kv_for_each_before = kv_for_each_before K, kv_clear = (\<lambda>s. s)\<rparr>"

section \<open>What an implementation promises\<close>

text \<open>The rows of a finite map whose keys satisfy a predicate, in key order.\<close>

definition rows_of :: "(bytes \<rightharpoonup> bytes) \<Rightarrow> (bytes \<Rightarrow> bool) \<Rightarrow> row list" where
  "rows_of m P = map (\<lambda>k. (k, the (m k))) (sorted_list_of_set {k \<in> dom m. P k})"

definition mem_ok :: "MemKv \<Rightarrow> bool" where
  "mem_ok m \<longleftrightarrow> sorted_wrt (<) (map fst m)"

locale kv_reader =
  fixes K :: "'s Kv" and abs :: "'s \<Rightarrow> bytes \<rightharpoonup> bytes" and ok :: "'s \<Rightarrow> bool"
  assumes get: "ok s \<Longrightarrow> kv_get K s k = abs s k"
    and finite_abs: "ok s \<Longrightarrow> finite (dom (abs s))"
    and for_each_prefix: "ok s \<Longrightarrow> kv_for_each_prefix K s p = rows_of (abs s) (prefix p)"
    and for_each_from: "ok s \<Longrightarrow> a = [] \<or> p \<le> a \<Longrightarrow> kv_for_each_from K s p a =
      rows_of (abs s) (\<lambda>k. prefix p k \<and> (a = [] \<or> a < k))"
    and for_each_before: "ok s \<Longrightarrow> kv_for_each_before K s p b =
      rev (rows_of (abs s) (\<lambda>k. prefix p k \<and> (b = [] \<or> k < b)))"

locale kv_store = kv_reader +
  assumes put: "ok s \<Longrightarrow> ok (kv_put K s k v) \<and> abs (kv_put K s k v) = (abs s)(k \<mapsto> v)"
    and delete: "ok s \<Longrightarrow> ok (snd (kv_delete K s k)) \<and>
      fst (kv_delete K s k) = (abs s k \<noteq> None) \<and> abs (snd (kv_delete K s k)) = (abs s)(k := None)"

locale kv_clearable = kv_store +
  assumes clear: "ok s \<Longrightarrow> ok (kv_clear K s) \<and> abs (kv_clear K s) = Map.empty"

section \<open>Notions the lemmas use\<close>

text \<open>The cursor positions a scan of a prefix can be at.\<close>

definition cursor_in :: "bytes \<Rightarrow> bytes option \<Rightarrow> bool" where
  "cursor_in p cursor \<longleftrightarrow> (case cursor of Some c \<Rightarrow> p \<le> c | None \<Rightarrow> True)"

definition past_cursor :: "bytes option \<Rightarrow> bytes \<Rightarrow> bool" where
  "past_cursor cursor k \<longleftrightarrow> (case cursor of Some c \<Rightarrow> c < k | None \<Rightarrow> True)"

text \<open>
  A visitor leaves the rows ahead alone when what it does at a row, deletions of that row and
  writes elsewhere included, changes no row of the prefix past it.
\<close>

definition leaves_ahead :: "bytes \<Rightarrow> (MemKv \<times> 'a) visitor \<Rightarrow> bool" where
  "leaves_ahead p visit \<longleftrightarrow>
     (\<forall>k v m a. mem_ok m \<longrightarrow> prefix p k \<longrightarrow>
        mem_ok (fst (snd (visit k v (m, a)))) \<and>
        mem_range p (Some k) (fst (snd (visit k v (m, a)))) = mem_range p (Some k) m)"

text \<open>The descending scan: a cursor is below the prefix's end, or there is none.\<close>

definition cursor_below :: "bytes \<Rightarrow> bytes option \<Rightarrow> bool" where
  "cursor_below p cursor \<longleftrightarrow>
     (case (cursor, prefix_successor p) of (Some c, Some e) \<Rightarrow> c \<le> e | _ \<Rightarrow> True)"

definition before_cursor :: "bytes option \<Rightarrow> bytes \<Rightarrow> bool" where
  "before_cursor cursor k \<longleftrightarrow> (case cursor of Some c \<Rightarrow> k < c | None \<Rightarrow> True)"

text \<open>A sequence of writes to a store, and what it does to a map.\<close>

datatype kv_op = OpPut bytes bytes | OpDelete bytes

fun kv_step :: "'s Kv \<Rightarrow> 's \<Rightarrow> kv_op \<Rightarrow> 's" where
  "kv_step K s (OpPut k v) = kv_put K s k v"
| "kv_step K s (OpDelete k) = snd (kv_delete K s k)"

fun map_step :: "(bytes \<rightharpoonup> bytes) \<Rightarrow> kv_op \<Rightarrow> bytes \<rightharpoonup> bytes" where
  "map_step m (OpPut k v) = m(k \<mapsto> v)"
| "map_step m (OpDelete k) = m(k := None)"

definition kv_run :: "'s Kv \<Rightarrow> kv_op list \<Rightarrow> 's \<Rightarrow> 's" where
  "kv_run K ops s = foldl (kv_step K) s ops"

section \<open>Lemmas: rows of a map\<close>

lemma rows_of_set: "finite (dom m) \<Longrightarrow> set (rows_of m P) = {(k, v). m k = Some v \<and> P k}"
  by (force simp: rows_of_def)

lemma rows_of_keys: "map fst (rows_of m P) = sorted_list_of_set {k \<in> dom m. P k}"
  by (simp add: rows_of_def comp_def)

lemma rows_of_sorted: "finite (dom m) \<Longrightarrow> sorted_wrt (<) (map fst (rows_of m P))"
  unfolding rows_of_keys by (rule strict_sorted_list_of_set)

text \<open>A sorted list of rows is determined by its set, so it is \<open>rows_of\<close> of the map it has.\<close>

lemma rows_of_eqI:
  assumes "sorted_wrt (<) (map fst xs)" and "set xs = {(k, v). m k = Some v \<and> P k}"
  shows "xs = rows_of m P"
proof -
  have keys: "set (map fst xs) = {k \<in> dom m. P k}"
    using assms(2) by (force simp: dom_def)
  then have fin: "finite {k \<in> dom m. P k}" by (metis List.finite_set)
  have sl: "map fst xs = sorted_list_of_set {k \<in> dom m. P k}"
  proof (rule strict_sorted_equal)
    show "sorted_wrt (<) (sorted_list_of_set {k \<in> dom m. P k})" by (rule strict_sorted_list_of_set)
    show "sorted_wrt (<) (map fst xs)" by (rule assms(1))
    show "set (map fst xs) = set (sorted_list_of_set {k \<in> dom m. P k})" using fin keys by simp
  qed
  have "map (\<lambda>x. (fst x, the (m (fst x)))) xs = xs"
    using assms(2) by (intro map_idI) auto
  then have "xs = map (\<lambda>k. (k, the (m k))) (map fst xs)" by (simp add: comp_def)
  then show ?thesis unfolding rows_of_def sl[symmetric] by simp
qed

lemma rows_of_cong:
  assumes "\<And>k. P k \<longleftrightarrow> Q k" and "\<And>k. Q k \<Longrightarrow> m k = m' k"
  shows "rows_of m P = rows_of m' Q"
proof -
  have A: "{k \<in> dom m. P k} = {k \<in> dom m'. Q k}" using assms by (auto simp: dom_def)
  show ?thesis unfolding rows_of_def A
    by (cases "finite {k \<in> dom m'. Q k}") (auto simp: assms intro!: map_cong)
qed

lemma filter_rows_of:
  "finite (dom m) \<Longrightarrow> filter (\<lambda>(k, v). Q k) (rows_of m P) = rows_of m (\<lambda>k. P k \<and> Q k)"
  by (rule rows_of_eqI) (auto simp: rows_of_set sorted_wrt_map rows_of_sorted[unfolded sorted_wrt_map]
      sorted_wrt_filter)

section \<open>Lemmas: visitors\<close>

lemma run_visits_append:
  "run_visits visit (xs @ ys) st =
     (case run_visits visit xs st of (True, st') \<Rightarrow> run_visits visit ys st' | (False, st') \<Rightarrow> (False, st'))"
  by (induction visit xs st rule: run_visits.induct) (auto split: prod.splits bool.splits)

lemma run_visits_collect: "run_visits (\<lambda>k v out. (True, (k, v) # out)) rows out = (True, rev rows @ out)"
  by (induction rows arbitrary: out) auto

lemma run_visits_count: "run_visits (\<lambda>_ _ n. (True, n + 1)) rows n = (True, n + length rows)"
  by (induction rows arbitrary: n) auto

lemma kv_scan_prefix_eq [simp]: "kv_scan_prefix K s p = kv_for_each_prefix K s p"
  by (simp add: kv_scan_prefix_def run_visits_collect)

lemma kv_count_prefix_eq: "kv_count_prefix K s p = length (kv_for_each_prefix K s p)"
  using run_visits_count[of "kv_for_each_prefix K s p" 0] by (simp add: kv_count_prefix_def)

lemma run_visits_collect_row: "run_visits collect_row rows (m, out) = (True, (m, rev rows @ out))"
  by (induction rows arbitrary: out) (auto simp: collect_row_def)

section \<open>Lemmas: prefixes in the lexicographic order\<close>

lemma prefix_le: "prefix p (k::bytes) \<Longrightarrow> p \<le> k"
  by (auto simp: prefix_def) (metis append_Nil2 Nil_le_Cons lex_append_left linorder_not_less not_less_Nil)

lemma prefix_convex: "p \<le> a \<Longrightarrow> a \<le> b \<Longrightarrow> prefix p b \<Longrightarrow> prefix p (a::bytes)"
proof (induction p arbitrary: a b)
  case Nil
  then show ?case by simp
next
  case (Cons x p)
  obtain b' where b: "b = x # b'" and "prefix p b'" using Cons.prems(3) by (auto simp: prefix_def)
  obtain y a' where a: "a = y # a'" using Cons.prems(1) by (cases a) auto
  have "x = y" "p \<le> a'" "a' \<le> b'" using Cons.prems(1,2) a b by auto
  with Cons.IH \<open>prefix p b'\<close> a show ?case by auto
qed

lemma prefix_successor_Cons:
  "prefix_successor (b # bs) =
     (case prefix_successor bs of
        Some s \<Rightarrow> Some (b # s) | None \<Rightarrow> if b \<noteq> 0xFF then Some [b + 1] else None)"
  by (auto simp: prefix_successor_def split: option.splits)

lemma u8_less_Suc: "b \<noteq> 0xFF \<Longrightarrow> (c::u8) < b + 1 \<longleftrightarrow> c \<le> b"
  using unsigned_less[of b, where 'a = nat]
  by (simp add: word_less_nat_alt word_le_nat_alt unat_word_ariths word_eq_iff_unsigned[where 'a = nat]
      less_Suc_eq_le)

lemma u8_le_max: "(c::u8) \<le> 0xFF"
  using unsigned_less[of c, where 'a = nat] by (simp add: word_le_nat_alt)

lemma prefix_successor_iff:
  "prefix p k \<longleftrightarrow> p \<le> k \<and> (case prefix_successor p of Some e \<Rightarrow> k < e | None \<Rightarrow> True)"
proof (induction p arbitrary: k)
  case Nil
  then show ?case by (simp add: prefix_successor_def)
next
  case (Cons b bs)
  show ?case
  proof (cases k)
    case Nil
    then show ?thesis by simp
  next
    case (Cons c k')
    with Cons.IH[of k'] u8_le_max[of c] show ?thesis
      by (cases "prefix_successor bs")
        (auto simp: prefix_successor_Cons u8_less_Suc not_less[symmetric] antisym_conv)
  qed
qed

section \<open>Lemmas: MemKv\<close>

lemma mem_ok_Cons: "mem_ok ((k, v) # m) \<longleftrightarrow> (\<forall>x \<in> set m. k < fst x) \<and> mem_ok m"
  by (auto simp: mem_ok_def)

lemma mem_ok_distinct: "mem_ok m \<Longrightarrow> distinct (map fst m)"
  by (simp add: mem_ok_def strict_sorted_iff)

lemma mem_ok_filter: "mem_ok m \<Longrightarrow> mem_ok (filter P m)"
  by (simp add: mem_ok_def sorted_wrt_map sorted_wrt_filter)

lemma set_mem_put: "mem_ok m \<Longrightarrow> set (mem_put m key val) = insert (key, val) {x \<in> set m. fst x \<noteq> key}"
  by (induction m key val rule: mem_put.induct) (auto simp: mem_ok_Cons)

lemma mem_ok_put: "mem_ok m \<Longrightarrow> mem_ok (mem_put m key val)"
  by (induction m key val rule: mem_put.induct) (auto simp: mem_ok_Cons set_mem_put mem_ok_def)

lemma map_of_mem_put: "map_of (mem_put m key val) = (map_of m)(key \<mapsto> val)"
  by (induction m key val rule: mem_put.induct) auto

lemma map_of_mem_delete: "map_of (filter (\<lambda>(k, v). k \<noteq> key) m) = (map_of m)(key := None)"
  by (induction m) auto

lemma filter_mem_rows_of: "mem_ok m \<Longrightarrow> filter (\<lambda>(k, v). P k) m = rows_of (map_of m) P"
  by (rule rows_of_eqI)
    (auto simp: mem_ok_filter[unfolded mem_ok_def] mem_ok_def mem_ok_distinct
      intro!: mem_ok_filter[unfolded mem_ok_def])

text \<open>In a sorted list the rows past a bound are a suffix, and a prefix's rows are contiguous.\<close>

lemma dropWhile_sorted:
  assumes "mem_ok m" and "\<And>a b. a < b \<Longrightarrow> P b \<Longrightarrow> P a"
  shows "dropWhile (\<lambda>(k, v). P k) m = filter (\<lambda>(k, v). \<not> P k) m"
  using assms
proof (induction m)
  case Nil
  then show ?case by simp
next
  case (Cons x m)
  obtain k v where x: "x = (k, v)" by fastforce
  show ?case
  proof (cases "P k")
    case True
    with Cons x show ?thesis by (simp add: mem_ok_Cons)
  next
    case False
    have "\<not> P k'" if "(k', v') \<in> set m" for k' v'
      using Cons.prems False that x by (auto simp: mem_ok_Cons dest: bspec)
    then have "filter (\<lambda>(k, v). \<not> P k) m = m" by (auto simp: filter_id_conv)
    with False x show ?thesis by simp
  qed
qed

lemma takeWhile_prefix_sorted:
  assumes "mem_ok m" and "\<And>x. x \<in> set m \<Longrightarrow> p \<le> fst x"
  shows "takeWhile (\<lambda>(k, v). prefix p k) m = filter (\<lambda>(k, v). prefix p k) m"
  using assms
proof (induction m)
  case Nil
  then show ?case by simp
next
  case (Cons x m)
  obtain k v where x: "x = (k, v)" by fastforce
  show ?case
  proof (cases "prefix p k")
    case True
    with Cons x show ?thesis by (simp add: mem_ok_Cons)
  next
    case False
    have "\<not> prefix p k'" if "(k', v') \<in> set m" for k' v'
      using Cons.prems that x False prefix_convex[of p k k'] by (force simp: mem_ok_Cons)
    then have "filter (\<lambda>(k, v). prefix p k) m = []" by (auto simp: filter_empty_conv)
    with False x show ?thesis by simp
  qed
qed

lemma mem_range_filter:
  assumes "mem_ok m" and "cursor_in p cursor"
  shows "mem_range p cursor m = filter (\<lambda>(k, v). prefix p k \<and> past_cursor cursor k) m"
proof (cases cursor)
  case None
  have "dropWhile (\<lambda>(k, v). k < p) m = filter (\<lambda>(k, v). \<not> k < p) m"
    by (rule dropWhile_sorted[OF assms(1)]) auto
  moreover have "takeWhile (\<lambda>(k, v). prefix p k) (filter (\<lambda>(k, v). \<not> k < p) m)
      = filter (\<lambda>(k, v). prefix p k) (filter (\<lambda>(k, v). \<not> k < p) m)"
    by (rule takeWhile_prefix_sorted) (auto simp: mem_ok_filter assms(1))
  moreover have "(\<lambda>(k, v). prefix p k \<and> \<not> k < p) = (\<lambda>(k, v :: bytes). prefix p k)"
    by (auto simp: fun_eq_iff dest: prefix_le)
  ultimately show ?thesis
    using None by (simp add: mem_range_def past_cursor_def case_prod_beta' conj_commute)
next
  case (Some c)
  have "dropWhile (\<lambda>(k, v). k \<le> c) m = filter (\<lambda>(k, v). \<not> k \<le> c) m"
    by (rule dropWhile_sorted[OF assms(1)]) auto
  moreover have "takeWhile (\<lambda>(k, v). prefix p k) (filter (\<lambda>(k, v). \<not> k \<le> c) m)
      = filter (\<lambda>(k, v). prefix p k) (filter (\<lambda>(k, v). \<not> k \<le> c) m)"
    using assms(2) Some
    by (intro takeWhile_prefix_sorted) (auto simp: mem_ok_filter assms(1) cursor_in_def)
  ultimately show ?thesis
    using Some by (simp add: mem_range_def past_cursor_def case_prod_beta' conj_commute not_le)
qed

lemma sorted_wrt_filter_past:
  assumes "sorted_wrt R xs" and "\<And>a b. R a b \<Longrightarrow> \<not> R b a" and "0 < n" and "n \<le> length xs"
  shows "filter (R (last (take n xs))) xs = drop n xs"
proof -
  let ?l = "last (take n xs)"
  have ne: "take n xs \<noteq> []" using assms(3,4) by auto
  have bl: "take n xs = butlast (take n xs) @ [?l]" using ne by simp
  have "sorted_wrt R (take n xs)" using assms(1) by (rule sorted_wrt_take)
  then have "\<forall>y \<in> set (butlast (take n xs)). R y ?l"
    using bl by (metis sorted_wrt_append list.set_intros(1))
  then have lo: "\<not> R ?l x" if "x \<in> set (take n xs)" for x
    using that bl assms(2) by (metis Un_iff empty_iff insert_iff list.set(1,2) set_append)
  have "sorted_wrt R (take n xs @ drop n xs)" using assms(1) by simp
  then have hi: "R ?l x" if "x \<in> set (drop n xs)" for x
    unfolding sorted_wrt_append using that ne last_in_set by blast
  have "filter (R ?l) (take n xs @ drop n xs) = drop n xs"
    unfolding filter_append using lo hi by (simp add: filter_id_conv filter_empty_conv)
  then show ?thesis by simp
qed

lemma sorted_filter_past:
  assumes "mem_ok xs" and "0 < n" and "n \<le> length xs"
  shows "filter (\<lambda>x. fst (last (take n xs)) < fst x) xs = drop n xs"
  using assms sorted_wrt_filter_past[of "\<lambda>x y. fst x < fst y" xs n]
  by (auto simp: mem_ok_def sorted_wrt_map)

section \<open>Lemmas: the chunked scans\<close>

declare mem_chunked.simps [simp del] mem_chunked_rev_loop.simps [simp del]

lemma CHUNK_pos: "0 < CHUNK"
  by (simp add: CHUNK_def)

lemma mem_range_past_past:
  assumes "mem_ok m" "cursor_in p cursor" "p \<le> d" "\<And>k. d < k \<Longrightarrow> past_cursor cursor k"
  shows "mem_range p (Some d) m = filter (\<lambda>x. d < fst x) (mem_range p cursor m)"
proof -
  have d: "cursor_in p (Some d)" using assms(3) by (simp add: cursor_in_def)
  show ?thesis
    unfolding mem_range_filter[OF assms(1,2)] mem_range_filter[OF assms(1) d] filter_filter
    using assms(4) by (intro filter_cong refl) (auto simp: past_cursor_def)
qed

lemma leaves_aheadD:
  assumes "leaves_ahead p visit" "mem_ok m" "prefix p k" "visit k v (m, a) = (c, (m1, a1))"
  shows "mem_ok m1" and "mem_range p (Some k) m1 = mem_range p (Some k) m"
  using assms(1)[unfolded leaves_ahead_def, rule_format, OF assms(2,3), of v a] assms(4) by simp_all

lemma run_visits_leaves_ahead:
  assumes "leaves_ahead p visit" and "mem_ok m" and "mem_ok xs" and "xs \<noteq> []"
    and "\<And>x. x \<in> set xs \<Longrightarrow> prefix p (fst x)"
    and "run_visits visit xs (m, a) = (True, (m', a'))"
  shows "mem_ok m' \<and> mem_range p (Some (fst (last xs))) m' = mem_range p (Some (fst (last xs))) m"
  using assms(2-)
proof (induction xs arbitrary: m a)
  case Nil
  then show ?case by simp
next
  case (Cons x xs)
  obtain k v where x: "x = (k, v)" by fastforce
  obtain c m1 a1 where step: "visit k v (m, a) = (c, (m1, a1))" by (metis surj_pair)
  with Cons.prems(5) x have c: "c = True" and rest: "run_visits visit xs (m1, a1) = (True, (m', a'))"
    by (auto split: bool.splits)
  have pk: "prefix p k" using Cons.prems(4)[of x] x by simp
  note m1 = leaves_aheadD(1)[OF assms(1) Cons.prems(1) pk step]
    and r1 = leaves_aheadD(2)[OF assms(1) Cons.prems(1) pk step]
  show ?case
  proof (cases "xs = []")
    case True
    with rest x m1 r1 show ?thesis by simp
  next
    case False
    have "mem_ok m' \<and> mem_range p (Some (fst (last xs))) m' = mem_range p (Some (fst (last xs))) m1"
    proof (rule Cons.IH[OF m1 _ False _ rest])
      show "mem_ok xs" using Cons.prems(2) x by (simp add: mem_ok_Cons)
      show "prefix p (fst y)" if "y \<in> set xs" for y using Cons.prems(4)[of y] that by simp
    qed
    moreover have "mem_range p (Some (fst (last xs))) m1 = mem_range p (Some (fst (last xs))) m"
    proof -
      have le: "k < fst (last xs)" using Cons.prems(2) x False by (simp add: mem_ok_Cons)
      have c: "cursor_in p (Some k)" "p \<le> fst (last xs)"
        using prefix_le[OF pk] le by (simp_all add: cursor_in_def)
      have "past_cursor (Some k) k'" if "fst (last xs) < k'" for k'
        using le that by (simp add: past_cursor_def)
      note past = mem_range_past_past[OF _ c this]
      show ?thesis using past[OF m1] past[OF Cons.prems(1)] r1 by simp
    qed
    ultimately show ?thesis using False by simp
  qed
qed

lemma mem_range_next:
  assumes "mem_ok m" and "cursor_in p cursor" and "\<not> length (take CHUNK (mem_range p cursor m)) < CHUNK"
  shows "mem_range p (Some (fst (last (take CHUNK (mem_range p cursor m))))) m
      = drop CHUNK (mem_range p cursor m)"
    and "cursor_in p (Some (fst (last (take CHUNK (mem_range p cursor m)))))"
proof -
  let ?r = "mem_range p cursor m"
  let ?c = "fst (last (take CHUNK ?r))"
  have r: "?r = filter (\<lambda>(k, v). prefix p k \<and> past_cursor cursor k) m"
    by (rule mem_range_filter[OF assms(1,2)])
  have n: "CHUNK \<le> length ?r" using assms(3) by simp
  then have ne: "take CHUNK ?r \<noteq> []" using CHUNK_pos by auto
  then have "last (take CHUNK ?r) \<in> set ?r" by (meson in_set_takeD last_in_set)
  then have pc: "prefix p ?c" "past_cursor cursor ?c" unfolding r by auto
  show "cursor_in p (Some ?c)" using pc(1) by (simp add: cursor_in_def prefix_le)
  have "past_cursor cursor k" if "?c < k" for k
    using pc(2) that by (auto simp: past_cursor_def split: option.splits)
  then have "mem_range p (Some ?c) m = filter (\<lambda>x. ?c < fst x) ?r"
    by (rule mem_range_past_past[OF assms(1,2) prefix_le[OF pc(1)]])
  also have "\<dots> = drop CHUNK ?r"
  proof (rule sorted_filter_past[OF _ CHUNK_pos n])
    show "mem_ok ?r" unfolding r by (rule mem_ok_filter[OF assms(1)])
  qed
  finally show "mem_range p (Some ?c) m = drop CHUNK ?r" .
qed

lemma mem_chunked_snapshot:
  assumes "leaves_ahead p visit" and "mem_ok m" and "cursor_in p cursor"
    and "length (mem_range p cursor m) < fuel"
  shows "mem_chunked fuel p cursor visit (m, a) =
     Some (snd (run_visits visit (mem_range p cursor m) (m, a)))"
  using assms(2-)
proof (induction fuel arbitrary: cursor m a)
  case 0
  then show ?case by simp
next
  case (Suc fuel)
  let ?r = "mem_range p cursor m"
  let ?chunk = "take CHUNK ?r"
  obtain b m' a' where run: "run_visits visit ?chunk (m, a) = (b, (m', a'))" by (metis surj_pair)
  have whole: "run_visits visit ?r (m, a) =
      (case run_visits visit ?chunk (m, a) of
         (True, st') \<Rightarrow> run_visits visit (drop CHUNK ?r) st' | (False, st') \<Rightarrow> (False, st'))"
    using run_visits_append[of visit ?chunk "drop CHUNK ?r"] by simp
  show ?case
  proof (cases b)
    case False
    with run whole show ?thesis by (simp add: mem_chunked.simps Let_def)
  next
    case True
    show ?thesis
    proof (cases "length ?chunk < CHUNK")
      case ex: True
      then have "?chunk = ?r" by simp
      with True ex run show ?thesis by (simp add: mem_chunked.simps Let_def)
    next
      case more: False
      then have n: "CHUNK \<le> length ?r" by simp
      have ne: "?chunk \<noteq> []" using more CHUNK_pos by auto
      have r: "?r = filter (\<lambda>(k, v). prefix p k \<and> past_cursor cursor k) m"
        by (rule mem_range_filter[OF Suc.prems(1,2)])
      have okr: "mem_ok ?r" unfolding r by (rule mem_ok_filter[OF Suc.prems(1)])
      have okc: "mem_ok ?chunk"
        using okr by (simp add: mem_ok_def take_map[symmetric] sorted_wrt_take)
      have pre: "prefix p (fst x)" if "x \<in> set ?chunk" for x
        using that in_set_takeD[of x CHUNK ?r] unfolding r by auto
      note nxt = mem_range_next[OF Suc.prems(1,2) more]
      have m': "mem_ok m'" "mem_range p (Some (fst (last ?chunk))) m' = drop CHUNK ?r"
        using run_visits_leaves_ahead[OF assms(1) Suc.prems(1) okc ne pre] run True nxt(1) by auto
      have "length (mem_range p (Some (fst (last ?chunk))) m') < fuel"
        using m'(2) Suc.prems(3) n CHUNK_pos by simp
      from Suc.IH[OF m'(1) nxt(2) this] show ?thesis
        using True more run whole m'(2) by (simp add: mem_chunked.simps Let_def)
    qed
  qed
qed

lemma leaves_ahead_collect: "leaves_ahead p collect_row"
  by (simp add: leaves_ahead_def collect_row_def)

lemma length_mem_range: "length (mem_range p cursor m) \<le> length m"
  unfolding mem_range_def
  by (rule order_trans[OF length_takeWhile_le])
    (auto split: option.splits intro: length_dropWhile_le)

lemma mem_collected:
  assumes "mem_ok m" and "cursor_in p cursor"
  shows "collected (mem_chunked (Suc (length m)) p cursor collect_row (m, [])) =
     rows_of (map_of m) (\<lambda>k. prefix p k \<and> past_cursor cursor k)"
proof -
  have "mem_chunked (Suc (length m)) p cursor collect_row (m, []) =
      Some (snd (run_visits collect_row (mem_range p cursor m) (m, [])))"
    using length_mem_range[of p cursor m]
    by (intro mem_chunked_snapshot[OF leaves_ahead_collect assms]) simp
  then show ?thesis
    by (simp only: run_visits_collect_row collected_def snd_conv option.case prod.case append_Nil2
        rev_rev_ident mem_range_filter[OF assms] filter_mem_rows_of[OF assms(1)])
qed

lemma mem_for_each_prefix_eq: "mem_ok m \<Longrightarrow> mem_for_each_prefix m p = rows_of (map_of m) (prefix p)"
  using mem_collected[of m p None]
  by (simp add: mem_for_each_prefix_def cursor_in_def past_cursor_def)

lemma mem_for_each_from_eq:
  assumes "mem_ok m" and "a = [] \<or> p \<le> a"
  shows "mem_for_each_from m p a = rows_of (map_of m) (\<lambda>k. prefix p k \<and> (a = [] \<or> a < k))"
  using assms mem_collected[of m p None] mem_collected[of m p "Some a"]
  by (cases "a = []") (auto simp: mem_for_each_from_def cursor_in_def past_cursor_def)

lemma mem_range_rev_filter:
  assumes "cursor_below p cursor"
  shows "mem_range_rev p cursor m = rev (filter (\<lambda>(k, v). prefix p k \<and> before_cursor cursor k) m)"
proof -
  have eq: "(p \<le> k \<and> (case cursor of Some c \<Rightarrow> k < c
       | None \<Rightarrow> (case prefix_successor p of Some e \<Rightarrow> k < e | None \<Rightarrow> True)))
     \<longleftrightarrow> prefix p k \<and> before_cursor cursor k" for k
    using assms prefix_successor_iff[of p k]
    by (auto simp: cursor_below_def before_cursor_def split: option.splits)
  have "takeWhile (\<lambda>(k, v). prefix p k) (rev (filter (\<lambda>(k, v). prefix p k \<and> before_cursor cursor k) m))
      = rev (filter (\<lambda>(k, v). prefix p k \<and> before_cursor cursor k) m)"
    by (rule takeWhile_eq_all_conv[THEN iffD2]) auto
  then show ?thesis by (simp add: mem_range_rev_def eq)
qed

lemma mem_range_rev_next:
  assumes "mem_ok m" and "cursor_below p cursor"
    and "\<not> length (take CHUNK (mem_range_rev p cursor m)) < CHUNK"
  shows "mem_range_rev p (Some (fst (last (take CHUNK (mem_range_rev p cursor m))))) m
      = drop CHUNK (mem_range_rev p cursor m)"
    and "cursor_below p (Some (fst (last (take CHUNK (mem_range_rev p cursor m)))))"
proof -
  let ?r = "mem_range_rev p cursor m"
  let ?c = "fst (last (take CHUNK ?r))"
  have r: "?r = rev (filter (\<lambda>(k, v). prefix p k \<and> before_cursor cursor k) m)"
    by (rule mem_range_rev_filter[OF assms(2)])
  have n: "CHUNK \<le> length ?r" using assms(3) by simp
  then have ne: "take CHUNK ?r \<noteq> []" using CHUNK_pos by auto
  then have "last (take CHUNK ?r) \<in> set ?r" by (meson in_set_takeD last_in_set)
  then have pc: "prefix p ?c" "before_cursor cursor ?c" unfolding r by auto
  then show c: "cursor_below p (Some ?c)"
    using prefix_successor_iff[of p ?c] by (auto simp: cursor_below_def split: option.splits)
  have sorted: "sorted_wrt (\<lambda>x y. fst y < fst x) ?r"
    unfolding r sorted_wrt_rev using mem_ok_filter[OF assms(1)] by (simp add: mem_ok_def sorted_wrt_map)
  have "mem_range_rev p (Some d) m = filter (\<lambda>x. fst x < d) ?r" if "before_cursor cursor d" "cursor_below p (Some d)" for d
    unfolding mem_range_rev_filter[OF that(2)] r rev_filter[symmetric] filter_filter
    using that(1) by (intro arg_cong[where f = rev] filter_cong refl)
      (auto simp: before_cursor_def split: option.splits)
  then have "mem_range_rev p (Some ?c) m = filter (\<lambda>x. fst x < ?c) ?r" using pc c by blast
  also have "\<dots> = drop CHUNK ?r"
    by (rule sorted_wrt_filter_past[OF sorted _ CHUNK_pos n]) auto
  finally show "mem_range_rev p (Some ?c) m = drop CHUNK ?r" .
qed

lemma mem_chunked_rev_collect:
  assumes "mem_ok m" and "cursor_below p cursor" and "length (mem_range_rev p cursor m) < fuel"
  shows "mem_chunked_rev_loop fuel p cursor collect_row (m, out) =
     Some (m, rev (mem_range_rev p cursor m) @ out)"
  using assms(2-)
proof (induction fuel arbitrary: cursor out)
  case 0
  then show ?case by simp
next
  case (Suc fuel)
  let ?r = "mem_range_rev p cursor m"
  show ?case
  proof (cases "length (take CHUNK ?r) < CHUNK")
    case True
    then have "length ?r < CHUNK" by (simp add: min_def split: if_splits)
    then show ?thesis
      by (simp add: mem_chunked_rev_loop.simps Let_def run_visits_collect_row)
  next
    case False
    note nxt = mem_range_rev_next[OF assms(1) Suc.prems(1) False]
    have "length (mem_range_rev p (Some (fst (last (take CHUNK ?r)))) m) < fuel"
      unfolding nxt(1) using Suc.prems(2) CHUNK_pos False by (simp add: min_def split: if_splits)
    note IH = Suc.IH[OF nxt(2) this, unfolded nxt(1), of "rev (take CHUNK ?r) @ out"]
    have "rev (drop CHUNK ?r) @ rev (take CHUNK ?r) = rev ?r"
      by (simp flip: rev_append)
    then show ?thesis using False IH
      by (simp add: mem_chunked_rev_loop.simps Let_def run_visits_collect_row)
  qed
qed

lemma mem_for_each_before_eq:
  assumes "mem_ok m"
  shows "mem_for_each_before m p b = rev (rows_of (map_of m) (\<lambda>k. prefix p k \<and> (b = [] \<or> k < b)))"
proof -
  have run: "collected (mem_chunked_rev_loop (Suc (length m)) p cursor collect_row (m, [])) =
      rev (rows_of (map_of m) (\<lambda>k. prefix p k \<and> before_cursor cursor k))"
    if c: "cursor_below p cursor" for cursor
  proof -
    have "length (mem_range_rev p cursor m) < Suc (length m)"
      unfolding mem_range_rev_filter[OF c] by (simp add: le_imp_less_Suc)
    from mem_chunked_rev_collect[OF assms c this, of "[]"] show ?thesis
      by (simp add: collected_def mem_range_rev_filter[OF c] filter_mem_rows_of[OF assms])
  qed
  have "cursor_below p (Some b) \<or> (\<exists>e. prefix_successor p = Some e \<and> e < b)"
    by (auto simp: cursor_below_def not_le split: option.splits)
  then consider (none) "b = []"
    | (over) e where "b \<noteq> []" "prefix_successor p = Some e" "e < b"
    | (low) "b \<noteq> []" "cursor_below p (Some b)" "b \<le> p"
    | (inside) "b \<noteq> []" "cursor_below p (Some b)" "\<not> b \<le> p"
    by blast
  then show ?thesis
  proof cases
    case none
    have "cursor_below p None" by (simp add: cursor_below_def)
    from run[OF this] none show ?thesis
      by (simp add: mem_for_each_before_def mem_chunked_rev_def before_cursor_def)
  next
    case (over e)
    have "cursor_below p None" by (simp add: cursor_below_def)
    from run[OF this] have "collected (mem_chunked_rev_loop (Suc (length m)) p None collect_row (m, []))
        = rev (rows_of (map_of m) (prefix p))"
      by (simp add: before_cursor_def)
    moreover have "rows_of (map_of m) (prefix p) = rows_of (map_of m) (\<lambda>k. prefix p k \<and> (b = [] \<or> k < b))"
    proof (rule rows_of_cong)
      show "prefix p k \<longleftrightarrow> prefix p k \<and> (b = [] \<or> k < b)" for k
        using over prefix_successor_iff[of p k] by fastforce
    qed simp
    ultimately show ?thesis using over by (simp add: mem_for_each_before_def mem_chunked_rev_def)
  next
    case low
    have "{k \<in> dom (map_of m). prefix p k \<and> (b = [] \<or> k < b)} = {}"
      using low by (auto dest!: prefix_le)
    then have "rows_of (map_of m) (\<lambda>k. prefix p k \<and> (b = [] \<or> k < b)) = []"
      by (simp only: rows_of_def) simp
    then show ?thesis using low
      by (auto simp: mem_for_each_before_def mem_chunked_rev_def collected_def cursor_below_def
          split: option.splits)
  next
    case inside
    from run[OF inside(2)] have "collected (mem_chunked_rev_loop (Suc (length m)) p (Some b) collect_row (m, []))
        = rev (rows_of (map_of m) (\<lambda>k. prefix p k \<and> (b = [] \<or> k < b)))"
      using inside(1) by (simp add: before_cursor_def)
    then show ?thesis using inside
      by (auto simp: mem_for_each_before_def mem_chunked_rev_def cursor_below_def split: option.splits)
  qed
qed

section \<open>The implementations keep the promise\<close>

interpretation mem: kv_clearable mem_kv map_of mem_ok
proof
  fix s :: MemKv and k v p a b :: bytes
  assume ok: "mem_ok s"
  show "kv_get mem_kv s k = map_of s k" by (simp add: mem_kv_def mem_get_def)
  show "finite (dom (map_of s))" by (rule finite_dom_map_of)
  show "kv_for_each_prefix mem_kv s p = rows_of (map_of s) (prefix p)"
    using ok by (simp add: mem_kv_def mem_for_each_prefix_eq)
  show "kv_for_each_from mem_kv s p a = rows_of (map_of s) (\<lambda>k. prefix p k \<and> (a = [] \<or> a < k))"
    if "a = [] \<or> p \<le> a"
    using ok that by (simp add: mem_kv_def mem_for_each_from_eq)
  show "kv_for_each_before mem_kv s p b = rev (rows_of (map_of s) (\<lambda>k. prefix p k \<and> (b = [] \<or> k < b)))"
    using ok by (simp add: mem_kv_def mem_for_each_before_eq)
  show "mem_ok (kv_put mem_kv s k v) \<and> map_of (kv_put mem_kv s k v) = (map_of s)(k \<mapsto> v)"
    using ok by (simp add: mem_kv_def mem_ok_put map_of_mem_put)
  show "mem_ok (snd (kv_delete mem_kv s k)) \<and> fst (kv_delete mem_kv s k) = (map_of s k \<noteq> None) \<and>
      map_of (snd (kv_delete mem_kv s k)) = (map_of s)(k := None)"
    using ok by (simp add: mem_kv_def mem_delete_def mem_ok_filter map_of_mem_delete)
  show "mem_ok (kv_clear mem_kv s) \<and> map_of (kv_clear mem_kv s) = Map.empty"
    by (simp add: mem_kv_def mem_clear_def mem_ok_def)
qed

context kv_reader
begin

lemma readonly_reader: "kv_reader (readonly_kv K) abs ok"
  by unfold_locales
    (simp_all add: readonly_kv_def get finite_abs for_each_prefix for_each_from for_each_before)

end

interpretation mem_ro: kv_reader "readonly_kv mem_kv" map_of mem_ok
  by (rule mem.readonly_reader)

context kv_store
begin

lemma run_refines:
  "ok s \<Longrightarrow> ok (kv_run K ops s) \<and> abs (kv_run K ops s) = foldl map_step (abs s) ops"
proof (induction ops arbitrary: s)
  case Nil
  then show ?case by (simp add: kv_run_def)
next
  case (Cons x ops)
  have "ok (kv_step K s x) \<and> abs (kv_step K s x) = map_step (abs s) x"
    using Cons.prems by (cases x) (simp_all add: put delete)
  then show ?case using Cons.IH[of "kv_step K s x"] by (simp add: kv_run_def)
qed

end

lemma mem_ok_new: "mem_ok mem_new"
  by (simp add: mem_new_def mem_ok_def)

lemma map_of_mem_new: "map_of mem_new = Map.empty"
  by (simp add: mem_new_def)

text \<open>A sorted row list is determined by its map.\<close>

lemma mem_ok_map_of_inject: "mem_ok m \<Longrightarrow> mem_ok m' \<Longrightarrow> map_of m = map_of m' \<Longrightarrow> m = m'"
  using filter_mem_rows_of[of m "\<lambda>_. True"] filter_mem_rows_of[of m' "\<lambda>_. True"] by simp

lemma prefix_successor_None: "prefix_successor p = None \<longleftrightarrow> set p \<subseteq> {255}"
proof (induction p)
  case Nil
  then show ?case by (simp add: prefix_successor_def)
next
  case (Cons b p)
  then show ?case by (auto simp: prefix_successor_Cons split: option.splits)
qed

text \<open>A visitor that deletes the row it is shown, as the sweepers do.\<close>

lemma leaves_ahead_delete: "leaves_ahead p (\<lambda>k v (m, a). (True, (snd (mem_delete m k), a)))"
proof -
  have ok: "mem_ok (snd (mem_delete m k))" if "mem_ok m" for m k
    using mem.delete[OF that, of k] by (simp add: mem_kv_def)
  have "mem_range p (Some k) (snd (mem_delete m k)) = mem_range p (Some k) m"
    if "mem_ok m" and "prefix p k" for m k
    using that prefix_le[OF that(2)] mem_range_filter[OF ok[OF that(1)], of p "Some k" k]
    by (auto simp: mem_range_filter cursor_in_def past_cursor_def mem_delete_def intro!: filter_cong)
  with ok show ?thesis by (simp add: leaves_ahead_def)
qed

section \<open>Properties\<close>

text \<open>
  C30. The in-memory store is a finite map: after any sequence of puts and deletes a read returns
  what the map holds, the forward scan of a prefix is the map's rows under that prefix in key
  order, the seeking scan starts strictly after its start key, and the backward scan is the
  reverse of the rows before its bound, although each walks the store in chunks of 256 rows.
\<close>

theorem mem_store_refines_map:
  assumes "start = [] \<or> p \<le> start"
  shows "let s = kv_run mem_kv ops mem_new; m = foldl map_step Map.empty ops
    in kv_get mem_kv s k = m k \<and>
       kv_for_each_prefix mem_kv s p = rows_of m (prefix p) \<and>
       kv_for_each_from mem_kv s p start = rows_of m (\<lambda>j. prefix p j \<and> (start = [] \<or> start < j)) \<and>
       kv_for_each_before mem_kv s p bound = rev (rows_of m (\<lambda>j. prefix p j \<and> (bound = [] \<or> j < bound))) \<and>
       fst (kv_delete mem_kv s k) = (m k \<noteq> None)"
  using mem.run_refines[OF mem_ok_new, of ops] assms
  by (simp add: Let_def map_of_mem_new mem.get mem.for_each_prefix mem.for_each_from
      mem.for_each_before mem.delete)

theorem mem_store_refines_map_witness:
  "kv_for_each_prefix mem_kv (kv_run mem_kv [OpPut [2, 1] [7], OpPut [1, 9] [8], OpPut [2, 0] [6], OpDelete [2, 1]] mem_new) [2] =
     rows_of (foldl map_step Map.empty [OpPut [2, 1] [7], OpPut [1, 9] [8], OpPut [2, 0] [6], OpDelete [2, 1]]) (prefix [2])"
  using mem_store_refines_map[of "[]" "[2]" "[OpPut [2, 1] [7], OpPut [1, 9] [8], OpPut [2, 0] [6], OpDelete [2, 1]]"]
  by (simp only: Let_def simp_thms)

text \<open>
  C26. The chunked scan releases the lock between chunks, so its visitor may write to the store
  it scans. As long as the visitor leaves the rows ahead of it alone, the scan ends, with enough
  fuel, and does exactly what visiting the rows of the store at its start would do.
\<close>

theorem chunked_scan_is_snapshot:
  assumes "leaves_ahead p visit" and "mem_ok m" and "cursor_in p cursor"
    and "length (mem_range p cursor m) < fuel"
  shows "mem_chunked fuel p cursor visit (m, a) =
     Some (snd (run_visits visit (filter (\<lambda>(k, v). prefix p k \<and> past_cursor cursor k) m) (m, a)))"
  using mem_chunked_snapshot[OF assms] by (simp add: mem_range_filter assms)

theorem chunked_scan_is_snapshot_witness:
  "mem_chunked 3 [1] None (\<lambda>k v (m, a). (True, (snd (mem_delete m k), a))) ([([1], [5]), ([1, 2], [6]), ([3], [7])], ()) =
     Some ([([3], [7])], ())"
  using chunked_scan_is_snapshot[OF leaves_ahead_delete,
      of "[([1], [5]), ([1, 2], [6]), ([3], [7])]" "[1]" None 3 "()"]
  by (simp add: mem_ok_def cursor_in_def past_cursor_def mem_range_def mem_delete_def)

text \<open>
  The upper bound a backward scan seeks to is exact: a key has the prefix if and only if it
  is at least the prefix and below the prefix's successor, and there is no successor only when
  every byte of the prefix is 255, where nothing above the prefix lacks it.
\<close>

theorem prefix_successor_exact:
  "(prefix p k \<longleftrightarrow> p \<le> k \<and> (case prefix_successor p of Some e \<Rightarrow> k < e | None \<Rightarrow> True)) \<and>
   (prefix_successor p = None \<longleftrightarrow> set p \<subseteq> {255})"
  using prefix_successor_iff[of p k] prefix_successor_None[of p] by blast

text \<open>
  A start key that sorts before the prefix: the default body visits the whole prefix, the store's own
  seek stops at the first row outside the prefix and visits nothing.
\<close>

lemma seek_below_prefix:
  "mem_for_each_from [([1], [9]), ([2], [5])] [2] [0] = [] \<and>
   default_for_each_from mem_kv [([1], [9]), ([2], [5])] [2] [0] = [([2], [5])]"
  by code_simp

end
