(* ===== verification/Flint_Batch.thy ===== *)
theory Flint_Batch
  imports Flint_Kv
begin

text \<open>
  The write-batching overlay \<open>BatchingKv\<close>, \<open>crates/flint-storage/src/batch.rs\<close>: buffered puts
  and deletes over an underlying store, read through on every point read and merged into every
  scan, and handed over as one list of mutations.

  The overlay is a function from the underlying store's operations to its own. Its buffer is the
  \<open>HashMap\<close>'s contents as an association list with distinct keys; the map's iteration order is
  unspecified and nothing depends on it, since a scan sorts what it takes from the buffer and a
  commit writes every key once. The buffer's lock cannot be poisoned here, so the branches for a
  poisoned lock do not occur.

  The lemmas show that the overlay keeps the promise of \<open>Flint_Kv\<close> for the map the underlying
  store would have after the buffer is applied, scans in both directions included, and that
  applying the buffered mutations to the underlying store gives exactly that map.
\<close>

section \<open>Definitions\<close>

type_synonym op_rows = "(bytes \<times> bytes option) list"

record 's BatchingKv =
  bk_under :: 's
  bk_buf :: op_rows

definition bk_new :: "'s \<Rightarrow> 's BatchingKv" where
  "bk_new u = \<lparr>bk_under = u, bk_buf = []\<rparr>"

text \<open>The \<open>HashMap\<close>'s insert: the key's entry is replaced, or added.\<close>

definition buf_insert :: "op_rows \<Rightarrow> bytes \<Rightarrow> bytes option \<Rightarrow> op_rows" where
  "buf_insert buf key op = (key, op) # filter (\<lambda>(k, _). k \<noteq> key) buf"

definition into_ops :: "'s BatchingKv \<Rightarrow> op_rows" where
  "into_ops b = bk_buf b"

text \<open>The buffered rows under a prefix that \<open>keep\<close> admits, in the scan's order.\<close>

definition bk_pending :: "op_rows \<Rightarrow> bytes \<Rightarrow> (bytes \<Rightarrow> bool) \<Rightarrow> bool \<Rightarrow> op_rows" where
  "bk_pending buf p keep descending =
     (let rows = sort_key fst (filter (\<lambda>(k, _). prefix p k \<and> keep k) buf)
      in if descending then rev rows else rows)"

text \<open>
  \<open>merge\<close>. The first \<open>while\<close> visits the buffered rows that come before the walk's row; the
  flag is \<open>False\<close> once the visitor has stopped.
\<close>

definition ahead :: "bool \<Rightarrow> bytes \<Rightarrow> bytes \<Rightarrow> bool" where
  "ahead descending b k = (if descending then k < b else b < k)"

definition visit_op :: "'a visitor \<Rightarrow> bytes \<times> bytes option \<Rightarrow> 'a \<Rightarrow> bool \<times> 'a" where
  "visit_op visit op st = (case snd op of Some val \<Rightarrow> visit (fst op) val st | None \<Rightarrow> (True, st))"

fun drain_ahead ::
  "bool \<Rightarrow> bytes \<Rightarrow> 'a visitor \<Rightarrow> op_rows \<Rightarrow> 'a \<Rightarrow> bool \<times> op_rows \<times> 'a"
where
  "drain_ahead descending k visit [] st = (True, [], st)"
| "drain_ahead descending k visit (op # ops) st =
     (if ahead descending (fst op) k then
        (case visit_op visit op st of
           (True, st') \<Rightarrow> drain_ahead descending k visit ops st'
         | (False, st') \<Rightarrow> (False, ops, st'))
      else (True, op # ops, st))"

text \<open>The loop after the walk: what it never reached.\<close>

fun drain_rest :: "'a visitor \<Rightarrow> op_rows \<Rightarrow> 'a \<Rightarrow> bool \<times> 'a" where
  "drain_rest visit [] st = (True, st)"
| "drain_rest visit (op # ops) st =
     (case visit_op visit op st of
        (True, st') \<Rightarrow> drain_rest visit ops st'
      | (False, st') \<Rightarrow> (False, st'))"

fun bk_merge :: "bool \<Rightarrow> 'a visitor \<Rightarrow> op_rows \<Rightarrow> row list \<Rightarrow> 'a \<Rightarrow> bool \<times> 'a" where
  "bk_merge descending visit pending [] st = drain_rest visit pending st"
| "bk_merge descending visit pending ((k, v) # walk) st =
     (case drain_ahead descending k visit pending st of
        (False, _, st') \<Rightarrow> (False, st')
      | (True, [], st') \<Rightarrow>
          (case visit k v st' of
             (True, st'') \<Rightarrow> bk_merge descending visit [] walk st''
           | (False, st'') \<Rightarrow> (False, st''))
      | (True, op # ops, st') \<Rightarrow>
          if fst op = k then
            (case visit_op visit op st' of
               (True, st'') \<Rightarrow> bk_merge descending visit ops walk st''
             | (False, st'') \<Rightarrow> (False, st''))
          else
            (case visit k v st' of
               (True, st'') \<Rightarrow> bk_merge descending visit (op # ops) walk st''
             | (False, st'') \<Rightarrow> (False, st'')))"

text \<open>
  A scan of the overlay for a visitor: the underlying walk as it is when nothing is buffered
  under the prefix, and the merge otherwise.
\<close>

definition bk_scan :: "bool \<Rightarrow> op_rows \<Rightarrow> row list \<Rightarrow> 'a visitor \<Rightarrow> 'a \<Rightarrow> bool \<times> 'a" where
  "bk_scan descending pending walk visit st =
     (if pending \<noteq> [] then bk_merge descending visit pending walk st
      else run_visits visit walk st)"

definition bk_visited :: "bool \<Rightarrow> op_rows \<Rightarrow> row list \<Rightarrow> row list" where
  "bk_visited descending pending walk =
     rev (snd (bk_scan descending pending walk (\<lambda>k v out. (True, (k, v) # out)) []))"

definition bk_get :: "'s Kv \<Rightarrow> 's BatchingKv \<Rightarrow> bytes \<Rightarrow> bytes option" where
  "bk_get K b key =
     (case map_of (bk_buf b) key of Some op \<Rightarrow> op | None \<Rightarrow> kv_get K (bk_under b) key)"

definition bk_put :: "'s BatchingKv \<Rightarrow> bytes \<Rightarrow> bytes \<Rightarrow> 's BatchingKv" where
  "bk_put b key val = b\<lparr>bk_buf := buf_insert (bk_buf b) key (Some val)\<rparr>"

definition bk_delete :: "'s Kv \<Rightarrow> 's BatchingKv \<Rightarrow> bytes \<Rightarrow> bool \<times> 's BatchingKv" where
  "bk_delete K b key =
     (bk_get K b key \<noteq> None, b\<lparr>bk_buf := buf_insert (bk_buf b) key None\<rparr>)"

definition bk_for_each_prefix :: "'s Kv \<Rightarrow> 's BatchingKv \<Rightarrow> bytes \<Rightarrow> row list" where
  "bk_for_each_prefix K b p =
     bk_visited False (bk_pending (bk_buf b) p (\<lambda>_. True) False)
       (kv_for_each_prefix K (bk_under b) p)"

definition bk_for_each_from :: "'s Kv \<Rightarrow> 's BatchingKv \<Rightarrow> bytes \<Rightarrow> bytes \<Rightarrow> row list" where
  "bk_for_each_from K b p start_after =
     bk_visited False
       (bk_pending (bk_buf b) p (\<lambda>k. start_after = [] \<or> start_after < k) False)
       (kv_for_each_from K (bk_under b) p start_after)"

definition bk_for_each_before :: "'s Kv \<Rightarrow> 's BatchingKv \<Rightarrow> bytes \<Rightarrow> bytes \<Rightarrow> row list" where
  "bk_for_each_before K b p start_before =
     bk_visited True
       (bk_pending (bk_buf b) p (\<lambda>k. start_before = [] \<or> k < start_before) True)
       (kv_for_each_before K (bk_under b) p start_before)"

text \<open>\<open>clear\<close> delegates, and does not empty the buffer.\<close>

definition bk_clear :: "'s Kv \<Rightarrow> 's BatchingKv \<Rightarrow> 's BatchingKv" where
  "bk_clear K b = b\<lparr>bk_under := kv_clear K (bk_under b)\<rparr>"

definition batching_kv :: "'s Kv \<Rightarrow> 's BatchingKv Kv" where
  "batching_kv K = \<lparr>kv_get = bk_get K, kv_put = bk_put, kv_delete = bk_delete K,
     kv_for_each_prefix = bk_for_each_prefix K, kv_for_each_from = bk_for_each_from K,
     kv_for_each_before = bk_for_each_before K, kv_clear = bk_clear K\<rparr>"

text \<open>
  The mutations applied to a store in order, as \<open>RocksKv::apply_writes\<close> adds them to its
  \<open>WriteBatch\<close>.
\<close>

fun apply_writes :: "'s Kv \<Rightarrow> op_rows \<Rightarrow> 's \<Rightarrow> 's" where
  "apply_writes K [] s = s"
| "apply_writes K ((k, op) # ops) s =
     apply_writes K ops
       (case op of Some val \<Rightarrow> kv_put K s k val | None \<Rightarrow> snd (kv_delete K s k))"

section \<open>Notions the lemmas use\<close>

text \<open>The map the overlay stands for, and the buffers it can have.\<close>

definition overlay :: "op_rows \<Rightarrow> (bytes \<rightharpoonup> bytes) \<Rightarrow> bytes \<rightharpoonup> bytes" where
  "overlay buf m k = (case map_of buf k of Some op \<Rightarrow> op | None \<Rightarrow> m k)"

definition buf_ok :: "op_rows \<Rightarrow> bool" where
  "buf_ok buf \<longleftrightarrow> distinct (map fst buf)"

text \<open>What \<open>bk_merge\<close> visits, as one list.\<close>

fun merged :: "bool \<Rightarrow> op_rows \<Rightarrow> row list \<Rightarrow> row list" where
  "merged descending pending [] = List.map_filter (\<lambda>(k, op). map_option (Pair k) op) pending"
| "merged descending [] ((k, v) # walk) = (k, v) # walk"
| "merged descending ((bk, op) # ops) ((k, v) # walk) =
     (if ahead descending bk k then
        (case op of Some val \<Rightarrow> [(bk, val)] | None \<Rightarrow> []) @ merged descending ops ((k, v) # walk)
      else if bk = k then
        (case op of Some val \<Rightarrow> [(bk, val)] | None \<Rightarrow> []) @ merged descending ops walk
      else (k, v) # merged descending ((bk, op) # ops) walk)"

text \<open>The merge of two runs in the scan's order is in that order, and holds the right rows.\<close>

definition run_in :: "bool \<Rightarrow> (bytes \<times> 'a) list \<Rightarrow> bool" where
  "run_in descending xs \<longleftrightarrow> sorted_wrt (\<lambda>x y. ahead descending (fst x) (fst y)) xs"

section \<open>Lemmas: the buffer\<close>

lemma buf_ok_insert: "buf_ok buf \<Longrightarrow> buf_ok (buf_insert buf k op)"
  by (auto simp: buf_ok_def buf_insert_def distinct_map intro: inj_on_subset)

lemma map_of_buf_insert: "map_of (buf_insert buf k op) = (map_of buf)(k \<mapsto> op)"
proof
  fix j
  show "map_of (buf_insert buf k op) j = ((map_of buf)(k \<mapsto> op)) j"
    by (induction buf) (auto simp: buf_insert_def)
qed

lemma overlay_empty: "overlay [] m = m"
  by (simp add: overlay_def fun_eq_iff)

lemma overlay_insert: "overlay (buf_insert buf k op) m = (overlay buf m)(k := op)"
  by (simp add: overlay_def map_of_buf_insert fun_eq_iff)

lemma finite_dom_overlay:
  assumes "finite (dom m)" shows "finite (dom (overlay buf m))"
proof (rule finite_subset)
  show "dom (overlay buf m) \<subseteq> dom (map_of buf) \<union> dom m"
    by (auto simp: overlay_def split: option.splits)
  show "finite (dom (map_of buf) \<union> dom m)" using assms by (simp add: finite_dom_map_of)
qed

section \<open>Lemmas: the merge\<close>

lemma drain_rest_run_visits:
  "drain_rest visit pending st =
     run_visits visit (List.map_filter (\<lambda>(k, op). map_option (Pair k) op) pending) st"
  by (induction visit pending st rule: drain_rest.induct)
    (auto simp: visit_op_def map_filter_simps split: option.splits prod.splits bool.splits)

text \<open>The three cases of one step of the merge.\<close>

lemma bk_merge_ahead:
  "ahead d (fst op) k \<Longrightarrow> bk_merge d visit (op # ops) ((k, v) # walk) st =
     (case visit_op visit op st of
        (True, st') \<Rightarrow> bk_merge d visit ops ((k, v) # walk) st'
      | (False, st') \<Rightarrow> (False, st'))"
  by (cases "visit_op visit op st" rule: prod.exhaust, cases "fst (visit_op visit op st)") auto

lemma bk_merge_same:
  "bk_merge d visit ((k, op) # ops) ((k, v) # walk) st =
     (case visit_op visit (k, op) st of
        (True, st') \<Rightarrow> bk_merge d visit ops walk st'
      | (False, st') \<Rightarrow> (False, st'))"
  by (simp add: ahead_def)

lemma bk_merge_behind:
  "\<not> ahead d (fst op) k \<Longrightarrow> fst op \<noteq> k \<Longrightarrow> bk_merge d visit (op # ops) ((k, v) # walk) st =
     (case visit k v st of
        (True, st') \<Rightarrow> bk_merge d visit (op # ops) walk st'
      | (False, st') \<Rightarrow> (False, st'))"
  by simp

lemma bk_merge_walk: "bk_merge d visit [] walk st = run_visits visit walk st"
  by (induction walk arbitrary: st) (auto split: prod.splits bool.splits)

lemmas bk_merge_steps = bk_merge_ahead bk_merge_same bk_merge_behind bk_merge_walk

lemma bk_merge_run_visits:
  "bk_merge d visit pending walk st = run_visits visit (merged d pending walk) st"
proof (induction d pending walk arbitrary: st rule: merged.induct)
  case (1 d pending)
  then show ?case by (simp add: drain_rest_run_visits)
next
  case (2 d k v walk)
  show ?case by (simp only: bk_merge_walk merged.simps)
next
  case (3 d bk op ops k v walk)
  have visit_Some: "visit_op visit (j, Some val) st' = visit j val st'"
    and visit_None: "visit_op visit (j, None) st' = (True, st')" for j val st'
    by (simp_all add: visit_op_def)
  note step = bk_merge_steps visit_Some visit_None
  consider (a) "ahead d bk k" | (s) "\<not> ahead d bk k" "bk = k" | (b) "\<not> ahead d bk k" "bk \<noteq> k"
    by blast
  then show ?case
  proof cases
    case a
    with 3(1) show ?thesis
      by (cases op) (simp_all add: step del: bk_merge.simps cong: prod.case_cong bool.case_cong)
  next
    case s
    with 3(2) show ?thesis
      by (cases op) (simp_all add: step del: bk_merge.simps cong: prod.case_cong bool.case_cong)
  next
    case b
    with 3(3) show ?thesis
      by (simp add: step del: bk_merge.simps cong: prod.case_cong bool.case_cong)
  qed
qed

lemma bk_scan_run_visits:
  "bk_scan descending pending walk visit st = run_visits visit (merged descending pending walk) st"
  by (cases walk) (auto simp: bk_scan_def bk_merge_run_visits map_filter_simps)

lemma bk_visited_merged: "bk_visited descending pending walk = merged descending pending walk"
  by (simp add: bk_visited_def bk_scan_run_visits run_visits_collect)

lemma run_in_simps [simp]:
  "run_in d []" "run_in d (x # xs) \<longleftrightarrow> (\<forall>(j, w) \<in> set xs. ahead d (fst x) j) \<and> run_in d xs"
  by (auto simp: run_in_def)

lemma ahead_simps [simp]: "\<not> ahead d k k"
  by (simp add: ahead_def)

lemma ahead_trans: "ahead d a b \<Longrightarrow> ahead d b c \<Longrightarrow> ahead d a c"
  by (auto simp: ahead_def split: if_splits)

lemma ahead_total: "\<not> ahead d a b \<Longrightarrow> a \<noteq> b \<Longrightarrow> ahead d b a"
  by (auto simp: ahead_def split: if_splits)

lemma set_pending_rows:
  "set (List.map_filter (\<lambda>(k, op). map_option (Pair k) op) pending) = {(k, v). (k, Some v) \<in> set pending}"
  by (induction pending) (auto simp: map_filter_simps split: option.splits)

lemma run_in_pending_rows:
  "run_in d pending \<Longrightarrow> run_in d (List.map_filter (\<lambda>(k, op). map_option (Pair k) op) pending)"
  by (induction pending) (auto simp: map_filter_simps set_pending_rows split: option.splits)

lemma merged_keys:
  "(j, w) \<in> set (merged d pending walk) \<Longrightarrow> (j, Some w) \<in> set pending \<or> (j, w) \<in> set walk"
  by (induction d pending walk rule: merged.induct)
    (auto simp: set_pending_rows split: option.splits if_splits)

lemma set_merged:
  assumes "run_in d pending" and "run_in d walk"
  shows "set (merged d pending walk) =
    {(k, v). (k, Some v) \<in> set pending} \<union> {(k, v) \<in> set walk. k \<notin> fst ` set pending}"
  using assms
proof (induction d pending walk rule: merged.induct)
  case (1 d pending)
  then show ?case by (simp add: set_pending_rows)
next
  case (2 d k v walk)
  then show ?case by auto
next
  case (3 d bk op ops k v walk)
  consider (a) "ahead d bk k" | (s) "\<not> ahead d bk k" "bk = k" | (b) "\<not> ahead d bk k" "bk \<noteq> k"
    by blast
  then show ?case
  proof cases
    case a
    then have IH: "set (merged d ops ((k, v) # walk)) = {(k, v). (k, Some v) \<in> set ops} \<union>
        {(j, w) \<in> set ((k, v) # walk). j \<notin> fst ` set ops}"
      using 3 by simp
    have "(bk, w) \<notin> set ((k, v) # walk)" for w
      using a "3.prems"(2) ahead_trans[OF a, of bk] by auto
    with a IH show ?thesis by (cases op) auto
  next
    case s
    then have IH: "set (merged d ops walk) = {(k, v). (k, Some v) \<in> set ops} \<union>
        {(j, w) \<in> set walk. j \<notin> fst ` set ops}"
      using 3 by simp
    have "(bk, w) \<notin> set walk" for w using s "3.prems"(2) ahead_simps[of d k] by auto
    with s IH show ?thesis by (cases op) auto
  next
    case b
    then have IH: "set (merged d ((bk, op) # ops) walk) = {(k, v). (k, Some v) \<in> set ((bk, op) # ops)} \<union>
        {(j, w) \<in> set walk. j \<notin> fst ` set ((bk, op) # ops)}"
      using 3 by simp
    have "(k, w) \<notin> set ops" for w
      using 3(4) ahead_trans[OF ahead_total[OF b], of k] by auto
    with b IH show ?thesis by (cases op) auto
  qed
qed

lemma run_in_merged: "run_in d pending \<Longrightarrow> run_in d walk \<Longrightarrow> run_in d (merged d pending walk)"
proof (induction d pending walk rule: merged.induct)
  case (3 d bk op ops k v walk)
  consider (a) "ahead d bk k" | (s) "\<not> ahead d bk k" "bk = k" | (b) "\<not> ahead d bk k" "bk \<noteq> k"
    by blast
  then show ?case
  proof cases
    case a
    have "\<forall>(j, w) \<in> set walk. ahead d bk j" using "3.prems"(2) ahead_trans[OF a] by auto
    with a 3 show ?thesis by (cases op) (auto dest!: merged_keys)
  next
    case s
    with 3 show ?thesis by (cases op) (auto dest!: merged_keys)
  next
    case b
    have "\<forall>(j, w) \<in> set ops. ahead d k j"
      using "3.prems"(1) ahead_trans[OF ahead_total[OF b]] by auto
    with b 3 ahead_total[OF b] show ?thesis by (auto dest!: merged_keys)
  qed
qed (auto simp: run_in_pending_rows)

lemma set_bk_pending: "set (bk_pending buf p keep d) = {(k, op) \<in> set buf. prefix p k \<and> keep k}"
  by (auto simp: bk_pending_def Let_def)

lemma run_in_bk_pending:
  assumes "buf_ok buf" shows "run_in d (bk_pending buf p keep d)"
proof -
  let ?rows = "filter (\<lambda>(k, _). prefix p k \<and> keep k) buf"
  have "distinct (map fst ?rows)" using assms by (simp add: buf_ok_def distinct_map_filter)
  then have d: "distinct (map fst (sort_key fst ?rows))"
    by (simp add: distinct_map)
  have "sorted_wrt (<) (map fst (sort_key fst ?rows))"
    using d sorted_sort_key[of fst ?rows] by (simp add: strict_sorted_iff)
  then have up: "sorted_wrt (\<lambda>x y. fst x < fst y) (sort_key fst ?rows)" by (simp add: sorted_wrt_map)
  then show ?thesis
    by (cases d) (simp_all add: run_in_def ahead_def bk_pending_def Let_def sorted_wrt_rev)
qed

lemma run_in_rows_of:
  "finite (dom m) \<Longrightarrow> run_in False (rows_of m P)"
  "finite (dom m) \<Longrightarrow> run_in True (rev (rows_of m P))"
  using rows_of_sorted[of m P] by (simp_all add: run_in_def ahead_def sorted_wrt_map sorted_wrt_rev)

lemma set_merged_rows:
  assumes "finite (dom m)" and "buf_ok buf" and "run_in d walk" and "set walk = set (rows_of m P)"
    and P: "P = (\<lambda>k. prefix p k \<and> keep k)"
  shows "set (merged d (bk_pending buf p keep d) walk) = {(k, v). overlay buf m k = Some v \<and> P k}"
proof -
  have buf: "(k, op) \<in> set buf \<longleftrightarrow> map_of buf k = Some op" for k op
    using assms(2) by (simp add: buf_ok_def)
  have out: "k \<notin> fst ` set (bk_pending buf p keep d) \<longleftrightarrow> map_of buf k = None" if "P k" for k
    using that by (force simp: P set_bk_pending buf map_of_eq_None_iff)
  show ?thesis
    using set_merged[OF run_in_bk_pending[OF assms(2)] assms(3), of p keep] assms(1,4) out
    by (auto simp: P set_bk_pending buf rows_of_set overlay_def split: option.splits)
qed

lemma merged_ascending:
  assumes "finite (dom m)" and "buf_ok buf" and P: "P = (\<lambda>k. prefix p k \<and> keep k)"
  shows "merged False (bk_pending buf p keep False) (rows_of m P) = rows_of (overlay buf m) P"
proof (rule rows_of_eqI)
  show "sorted_wrt (<) (map fst (merged False (bk_pending buf p keep False) (rows_of m P)))"
    using run_in_merged[OF run_in_bk_pending[OF assms(2)] run_in_rows_of(1)[OF assms(1)], of p keep P]
    by (simp add: run_in_def ahead_def sorted_wrt_map)
  show "set (merged False (bk_pending buf p keep False) (rows_of m P)) =
      {(k, v). overlay buf m k = Some v \<and> P k}"
    by (rule set_merged_rows[OF assms(1,2) _ _ P]) (simp_all add: assms(1) run_in_rows_of)
qed

lemma merged_descending:
  assumes "finite (dom m)" and "buf_ok buf" and P: "P = (\<lambda>k. prefix p k \<and> keep k)"
  shows "merged True (bk_pending buf p keep True) (rev (rows_of m P)) = rev (rows_of (overlay buf m) P)"
proof -
  have "rev (merged True (bk_pending buf p keep True) (rev (rows_of m P))) = rows_of (overlay buf m) P"
  proof (rule rows_of_eqI)
    show "sorted_wrt (<) (map fst (rev (merged True (bk_pending buf p keep True) (rev (rows_of m P)))))"
      using run_in_merged[OF run_in_bk_pending[OF assms(2)] run_in_rows_of(2)[OF assms(1)], of p keep P]
      by (simp add: run_in_def ahead_def sorted_wrt_map sorted_wrt_rev flip: rev_map)
    show "set (rev (merged True (bk_pending buf p keep True) (rev (rows_of m P)))) =
        {(k, v). overlay buf m k = Some v \<and> P k}"
      unfolding set_rev by (rule set_merged_rows[OF assms(1,2) _ _ P]) (simp_all add: assms(1) run_in_rows_of)
  qed
  then show ?thesis by (simp add: rev_swap)
qed

section \<open>The overlay keeps the store's promise\<close>

context kv_reader
begin

abbreviation (input) batch_abs :: "'s BatchingKv \<Rightarrow> bytes \<rightharpoonup> bytes" where
  "batch_abs b \<equiv> overlay (bk_buf b) (abs (bk_under b))"

abbreviation (input) batch_ok :: "'s BatchingKv \<Rightarrow> bool" where
  "batch_ok b \<equiv> ok (bk_under b) \<and> buf_ok (bk_buf b)"

lemma bk_get_overlay: "batch_ok b \<Longrightarrow> bk_get K b k = batch_abs b k"
  by (simp add: bk_get_def overlay_def get split: option.splits)

lemma bk_for_each_prefix_overlay:
  "batch_ok b \<Longrightarrow> bk_for_each_prefix K b p = rows_of (batch_abs b) (prefix p)"
  by (simp add: bk_for_each_prefix_def bk_visited_merged for_each_prefix merged_ascending finite_abs)

lemma bk_for_each_from_overlay:
  "batch_ok b \<Longrightarrow> a = [] \<or> p \<le> a \<Longrightarrow>
   bk_for_each_from K b p a = rows_of (batch_abs b) (\<lambda>k. prefix p k \<and> (a = [] \<or> a < k))"
  by (simp add: bk_for_each_from_def bk_visited_merged for_each_from merged_ascending finite_abs)

lemma bk_for_each_before_overlay:
  "batch_ok b \<Longrightarrow>
   bk_for_each_before K b p a = rev (rows_of (batch_abs b) (\<lambda>k. prefix p k \<and> (a = [] \<or> k < a)))"
  by (simp add: bk_for_each_before_def bk_visited_merged for_each_before merged_descending finite_abs)

lemma batching_store: "kv_store (batching_kv K) batch_abs batch_ok"
proof unfold_locales
  fix b k v
  assume b: "batch_ok b"
  show "batch_ok (kv_put (batching_kv K) b k v) \<and>
      batch_abs (kv_put (batching_kv K) b k v) = (batch_abs b)(k \<mapsto> v)"
    using b by (simp add: batching_kv_def bk_put_def buf_ok_insert overlay_insert)
  show "batch_ok (snd (kv_delete (batching_kv K) b k)) \<and>
      fst (kv_delete (batching_kv K) b k) = (batch_abs b k \<noteq> None) \<and>
      batch_abs (snd (kv_delete (batching_kv K) b k)) = (batch_abs b)(k := None)"
    using b by (simp add: batching_kv_def bk_delete_def buf_ok_insert overlay_insert bk_get_overlay)
qed (simp_all add: batching_kv_def bk_get_overlay finite_dom_overlay finite_abs
    bk_for_each_prefix_overlay bk_for_each_from_overlay bk_for_each_before_overlay)

end

text \<open>Applying the buffer to the underlying store gives the map the overlay stood for.\<close>

context kv_store
begin

lemma apply_writes_overlay:
  "ok s \<Longrightarrow> buf_ok ops \<Longrightarrow> ok (apply_writes K ops s) \<and> abs (apply_writes K ops s) = overlay ops (abs s)"
proof (induction ops arbitrary: s)
  case Nil
  then show ?case by (simp add: overlay_empty)
next
  case (Cons x ops)
  obtain k op where x: "x = (k, op)" by fastforce
  let ?s = "case op of Some val \<Rightarrow> kv_put K s k val | None \<Rightarrow> snd (kv_delete K s k)"
  have s: "ok ?s \<and> abs ?s = (abs s)(k := op)"
    using Cons.prems(1) by (cases op) (simp_all add: put delete)
  have ops: "buf_ok ops" "map_of ops k = None"
    using Cons.prems(2) by (simp_all add: x buf_ok_def map_of_eq_None_iff)
  have "overlay ops ((abs s)(k := op)) = overlay (x # ops) (abs s)"
    using ops(2) by (auto simp: overlay_def x fun_eq_iff split: option.splits)
  then show ?case using Cons.IH[OF conjunct1[OF s] ops(1)] conjunct2[OF s] by (simp only: x apply_writes.simps)
qed

end

interpretation batch_mem: kv_store "batching_kv mem_kv" mem.batch_abs mem.batch_ok
  by (rule mem.batching_store)

section \<open>Properties\<close>

text \<open>
  C4. Batching is invisible: whatever sequence of puts and deletes runs through the overlay,
  every read and scan through it, in both directions, returns what the same sequence run
  directly on the store would have made them return, and committing the buffered mutations
  leaves the store in exactly the state the direct run leaves it in, row for row.
\<close>

lemma bk_under_run: "bk_under (foldl (kv_step (batching_kv K)) b ops) = bk_under b"
proof (induction ops arbitrary: b)
  case (Cons x ops)
  have "bk_under (kv_step (batching_kv K) b x) = bk_under b"
    by (cases x) (simp_all add: batching_kv_def bk_put_def bk_delete_def)
  then show ?case using Cons.IH[of "kv_step (batching_kv K) b x"] by simp
qed simp

theorem batching_is_invisible:
  assumes "mem_ok m" and "start = [] \<or> p \<le> start"
  shows "let b = kv_run (batching_kv mem_kv) ops (bk_new m); d = kv_run mem_kv ops m
    in kv_get (batching_kv mem_kv) b k = kv_get mem_kv d k \<and>
       kv_for_each_prefix (batching_kv mem_kv) b p = kv_for_each_prefix mem_kv d p \<and>
       kv_for_each_from (batching_kv mem_kv) b p start = kv_for_each_from mem_kv d p start \<and>
       kv_for_each_before (batching_kv mem_kv) b p bound = kv_for_each_before mem_kv d p bound \<and>
       fst (kv_delete (batching_kv mem_kv) b k) = fst (kv_delete mem_kv d k) \<and>
       bk_under b = m \<and> apply_writes mem_kv (into_ops b) m = d"
proof -
  let ?b = "kv_run (batching_kv mem_kv) ops (bk_new m)" and ?d = "kv_run mem_kv ops m"
  have new: "mem.batch_ok (bk_new m)" and abs_new: "mem.batch_abs (bk_new m) = map_of m"
    using assms by (simp_all add: bk_new_def buf_ok_def overlay_empty)
  have under: "bk_under ?b = m"
    by (simp add: kv_run_def bk_under_run bk_new_def)
  note d = mem.run_refines[OF assms(1), of ops]
  note b = batch_mem.run_refines[OF new, of ops, unfolded abs_new]
  have "mem_ok (apply_writes mem_kv (bk_buf ?b) m) \<and> map_of (apply_writes mem_kv (bk_buf ?b) m) = overlay (bk_buf ?b) (map_of m)"
    using mem.apply_writes_overlay[OF assms(1), of "bk_buf ?b"] b by simp
  then have "apply_writes mem_kv (into_ops ?b) m = ?d"
    using b d under by (auto simp: into_ops_def intro: mem_ok_map_of_inject)
  then show ?thesis using b d under assms(2)
    by (simp add: Let_def batch_mem.get batch_mem.for_each_prefix batch_mem.for_each_from
        batch_mem.for_each_before batch_mem.delete mem.get mem.for_each_prefix mem.for_each_from
        mem.for_each_before mem.delete)
qed

theorem batching_is_invisible_witness:
  "apply_writes mem_kv (into_ops (kv_run (batching_kv mem_kv) [OpPut [2] [7], OpDelete [1]] (bk_new [([1], [5])]))) [([1], [5])] =
     kv_run mem_kv [OpPut [2] [7], OpDelete [1]] [([1], [5])]"
  using batching_is_invisible[of "[([1], [5])]" "[]" "[]" "[OpPut [2] [7], OpDelete [1]]"]
  by (simp only: Let_def simp_thms mem_ok_def list.map fst_conv sorted_wrt1)

end
