(* ===== verification/Flint_Ints.thy ===== *)
theory Flint_Ints
  imports Flint_Prelude
begin

text \<open>
  Integers as text: the parser \<open>parse_redis_i64\<close> of \<open>crates/flint-storage/src/strings.rs\<close>, which
  accepts only canonical decimals, and the printer Rust's \<open>to_string\<close> is for the integer
  commands. The lemmas show that the two are inverse to each other: what parses is exactly what
  prints.
\<close>

section \<open>Definitions\<close>

definition is_ascii_digit :: "u8 \<Rightarrow> bool" where
  "is_ascii_digit b \<longleftrightarrow> 48 \<le> b \<and> b \<le> 57"

fun decimal :: "nat \<Rightarrow> bytes \<Rightarrow> nat" where
  "decimal acc [] = acc"
| "decimal acc (b # bs) = decimal (acc * 10 + (unat b - 48)) bs"

definition canonical_i64 :: "bytes \<Rightarrow> bool" where
  "canonical_i64 raw =
     (let digits = (case raw of b # rest \<Rightarrow> if b = 45 then rest else raw | [] \<Rightarrow> raw)
      in case digits of
           [] \<Rightarrow> False
         | b # rest \<Rightarrow>
             if b = 48 \<and> rest = [] then length raw = 1
             else 49 \<le> b \<and> b \<le> 57 \<and> list_all is_ascii_digit rest)"

text \<open>Rust's \<open>str::parse::<i64>\<close> on an optional minus sign and digits.\<close>

definition parse_digits_i64 :: "bytes \<Rightarrow> i64 option" where
  "parse_digits_i64 raw =
     (let n = (case raw of b # rest \<Rightarrow> if b = 45 then - int (decimal 0 rest) else int (decimal 0 raw)
               | [] \<Rightarrow> 0)
      in if - (2 ^ 63) \<le> n \<and> n < 2 ^ 63 then Some (word_of_int n) else None)"

definition parse_redis_i64 :: "bytes \<Rightarrow> i64 option" where
  "parse_redis_i64 raw = (if canonical_i64 raw then parse_digits_i64 raw else None)"

fun show_nat :: "nat \<Rightarrow> bytes" where
  "show_nat n =
     (if n < 10 then [48 + word_of_nat n] else show_nat (n div 10) @ [48 + word_of_nat (n mod 10)])"

declare show_nat.simps [simp del]

definition show_i64 :: "i64 \<Rightarrow> bytes" where
  "show_i64 i = (if sint i < 0 then 45 # show_nat (nat (- sint i)) else show_nat (nat (sint i)))"

section \<open>Lemmas\<close>

lemma unat_digit: "n < 10 \<Longrightarrow> unat (48 + word_of_nat n :: u8) = 48 + n"
  by (simp add: unat_word_ariths(1) unat_of_nat)

lemma digit_bounds: "n < 10 \<Longrightarrow> is_ascii_digit (48 + word_of_nat n)"
  by (simp add: is_ascii_digit_def word_le_nat_alt unat_digit)

lemma digit_of_unat: "is_ascii_digit b \<Longrightarrow> 48 + word_of_nat (unat b - 48) = b"
  by (simp add: is_ascii_digit_def word_le_nat_alt of_nat_diff)

lemma decimal_append: "decimal acc (xs @ ys) = decimal (decimal acc xs) ys"
  by (induction xs arbitrary: acc) auto

lemma decimal_show_nat: "decimal 0 (show_nat n) = n"
proof (induction n rule: show_nat.induct)
  case (1 n)
  then show ?case
    by (subst show_nat.simps) (simp add: decimal_append unat_digit)
qed

lemma show_nat_digits: "list_all is_ascii_digit (show_nat n)"
proof (induction n rule: show_nat.induct)
  case (1 n)
  then show ?case by (subst show_nat.simps) (simp add: digit_bounds)
qed

lemma show_nat_shape:
  "\<exists>b rest. show_nat n = b # rest \<and> list_all is_ascii_digit rest \<and>
     (if n = 0 then b = 48 \<and> rest = [] else 49 \<le> b \<and> b \<le> 57)"
proof (induction n rule: show_nat.induct)
  case (1 n)
  show ?case
  proof (cases "n < 10")
    case True
    then have s: "show_nat n = [48 + word_of_nat n]" by (simp add: show_nat.simps)
    have "49 \<le> 48 + (word_of_nat n :: u8)" "48 + (word_of_nat n :: u8) \<le> 57" if "n \<noteq> 0"
      using True that by (simp_all add: word_le_nat_alt unat_digit)
    then show ?thesis using s by auto
  next
    case False
    with 1 obtain b rest where "show_nat (n div 10) = b # rest" "list_all is_ascii_digit rest"
      "49 \<le> b" "b \<le> 57" by (auto split: if_splits)
    moreover have "show_nat n = show_nat (n div 10) @ [48 + word_of_nat (n mod 10)]"
      using False by (simp add: show_nat.simps[of n])
    ultimately show ?thesis using False by (simp add: digit_bounds)
  qed
qed

lemma decimal_pos: "0 < acc \<Longrightarrow> 0 < decimal acc bs"
  by (induction bs arbitrary: acc) auto

text \<open>Reading canonical digits and printing the value gives the digits back.\<close>

lemma show_nat_decimal:
  assumes "list_all is_ascii_digit rest" "49 \<le> b" "b \<le> 57"
  shows "show_nat (decimal 0 (b # rest)) = b # rest"
  using assms(1)
proof (induction rest rule: rev_induct)
  case Nil
  have "unat b - 48 < 10" using assms by (simp add: word_le_nat_alt)
  with assms show ?case
    by (subst show_nat.simps) (simp add: digit_of_unat is_ascii_digit_def word_le_nat_alt)
next
  case (snoc d rest)
  let ?n = "decimal 0 (b # rest)"
  have d: "unat d - 48 < 10" "is_ascii_digit d"
    using snoc.prems by (auto simp: is_ascii_digit_def word_le_nat_alt)
  have "0 < ?n" using assms(2) by (simp add: decimal_pos word_le_nat_alt)
  then have "show_nat (?n * 10 + (unat d - 48)) = show_nat ?n @ [d]"
    using d by (subst show_nat.simps) (simp add: digit_of_unat)
  with snoc show ?case by (simp add: decimal_append flip: append_Cons)
qed

lemma parse_show_i64: "parse_redis_i64 (show_i64 i) = Some i"
proof -
  note b = i64_bounds[of i]
  show ?thesis
  proof (cases "sint i < 0")
    case True
    let ?n = "nat (- sint i)"
    obtain d rest where s: "show_nat ?n = d # rest" "list_all is_ascii_digit rest" "49 \<le> d" "d \<le> 57"
      using show_nat_shape[of ?n] True by (auto split: if_splits)
    have "int (decimal 0 (d # rest)) = - sint i" using decimal_show_nat[of ?n] s True by simp
    moreover have "d \<noteq> 48" using s(3) by auto
    ultimately show ?thesis using s True b
      by (simp add: parse_redis_i64_def canonical_i64_def show_i64_def parse_digits_i64_def)
  next
    case False
    let ?n = "nat (sint i)"
    obtain d rest where s: "show_nat ?n = d # rest" "list_all is_ascii_digit rest"
      "if ?n = 0 then d = 48 \<and> rest = [] else 49 \<le> d \<and> d \<le> 57"
      using show_nat_shape[of ?n] by blast
    have "int (decimal 0 (d # rest)) = sint i" using decimal_show_nat[of ?n] s False by simp
    moreover have "d \<noteq> 45" using s(3) by (auto split: if_splits)
    ultimately show ?thesis using s False b
      by (auto simp: parse_redis_i64_def canonical_i64_def show_i64_def parse_digits_i64_def split: if_splits)
  qed
qed

lemma parse_digits_sint:
  assumes "parse_digits_i64 raw = Some i"
  shows "sint i = (case raw of b # rest \<Rightarrow> if b = 45 then - int (decimal 0 rest) else int (decimal 0 raw)
    | [] \<Rightarrow> 0)" (is "_ = ?n")
proof -
  from assms have "- (2 ^ 63) \<le> ?n \<and> ?n < 2 ^ 63" "Some (word_of_int ?n) = Some i"
    unfolding parse_digits_i64_def Let_def by (simp_all only: option.distinct split: if_splits)
  then show ?thesis using i64_of_int by blast
qed

lemma show_parse_i64:
  assumes "parse_redis_i64 raw = Some i"
  shows "show_i64 i = raw"
proof -
  have can: "canonical_i64 raw" and dig: "parse_digits_i64 raw = Some i"
    using assms by (auto simp: parse_redis_i64_def split: if_splits)
  then obtain b rest where raw: "raw = b # rest" by (cases raw) (auto simp: canonical_i64_def)
  show ?thesis
  proof (cases "b = 45")
    case True
    then obtain d ds where ds: "rest = d # ds" "49 \<le> d" "d \<le> 57" "list_all is_ascii_digit ds"
      using can raw by (auto simp: canonical_i64_def split: list.splits if_splits)
    have i: "sint i = - int (decimal 0 rest)"
      using parse_digits_sint[OF dig] raw True by simp
    have "0 < decimal 0 rest" using ds by (simp add: decimal_pos word_le_nat_alt)
    with i show ?thesis using show_nat_decimal[of ds d] ds raw True by (simp add: show_i64_def)
  next
    case False
    have i: "sint i = int (decimal 0 raw)"
      using parse_digits_sint[OF dig] raw False by simp
    show ?thesis
    proof (cases "b = 48 \<and> rest = []")
      case True
      then show ?thesis using i raw by (simp add: show_i64_def show_nat.simps)
    next
      case F: False
      with can raw False have "49 \<le> b" "b \<le> 57" "list_all is_ascii_digit rest"
        by (auto simp: canonical_i64_def split: if_splits)
      with i raw show ?thesis using show_nat_decimal[of rest b] by (simp add: show_i64_def)
    qed
  qed
qed

lemma length_show_nat: "n < 10 ^ k \<Longrightarrow> 0 < k \<Longrightarrow> length (show_nat n) \<le> k"
proof (induction k arbitrary: n)
  case (Suc k)
  show ?case
  proof (cases "n < 10")
    case False
    then have "length (show_nat n) = length (show_nat (n div 10)) + 1" by (simp add: show_nat.simps[of n])
    moreover have "n div 10 < 10 ^ k" using Suc.prems(1) by (simp add: less_mult_imp_div_less mult.commute)
    moreover have "0 < k" using False Suc.prems(1) by (cases k) auto
    ultimately show ?thesis using Suc.IH by simp
  qed (simp add: show_nat.simps)
qed simp

lemma length_show_i64: "length (show_i64 i) \<le> 20"
proof -
  have "nat (- sint i) < 10 ^ 19" "nat (sint i) < 10 ^ 19" using i64_bounds[of i] by auto
  then have "length (show_nat (nat (- sint i))) \<le> 19" "length (show_nat (nat (sint i))) \<le> 19"
    using length_show_nat[of _ 19] by simp_all
  then show ?thesis by (simp add: show_i64_def)
qed

section \<open>Properties\<close>

text \<open>
  C40. The integer parser accepts exactly the decimals the printer writes, and reads each as the
  number it was written for: no leading zero, no plus sign, no \<open>-0\<close>, nothing outside 64 bits.
\<close>

theorem parse_redis_i64_iff: "parse_redis_i64 raw = Some i \<longleftrightarrow> show_i64 i = raw"
  using parse_show_i64 show_parse_i64 by metis

end
