(* ===== verification/Flint_Store.thy ===== *)
theory Flint_Store
  imports Flint_Encoding Flint_Kv "HOL-Library.AList"
begin

text \<open>
  What the typed stores of \<open>crates/flint-storage/src\<close> share: the errors of
  \<open>strings.rs\<close>, the state they work on, the clock, the process-wide version counter of
  \<open>encoding.rs\<close>, and the way each of them reads a key's metadata row.

  The state is a \<open>world\<close>: the key-value store, the version counter \<open>LAST\<close>, and how often the
  clock has been read. The injected clock is a function from the number of earlier reads to the
  reading, so two reads in one operation may differ, as they may in the code. A store's fields
  other than its \<open>Kv\<close> are the record \<open>TypeStore\<close>; the \<open>Kv\<close> is the first argument of every
  operation.

  The second half holds what the lemmas on every store share: the rows a key owns, the field map
  of a collection at a version, the invariant that the counters in metadata rows are right and
  that no row has a version above the counter, and how a metadata read acts on the map the
  store stands for.
\<close>

section \<open>Errors, state, clock and versions\<close>

datatype StoreError =
  NotInteger | Overflow | NotFloat | NanOrInfinity | NanScore | WrongType | ValueTooLarge
| KeyExists | BadParameter | FilterFull | StreamIdTooSmall | StreamIdZero | StreamExhausted
| NotHll | CorruptHll

record 's world =
  w_kv :: 's
  w_last :: u64
  w_ticks :: nat

record TypeStore =
  st_ns :: bytes
  st_clock :: "nat \<Rightarrow> u64"
  st_max_value_bytes :: u64

definition DEFAULT_MAX_VALUE_BYTES :: u64 where
  "DEFAULT_MAX_VALUE_BYTES = 512 * 1024 * 1024"

definition with_max_value_bytes :: "bytes \<Rightarrow> (nat \<Rightarrow> u64) \<Rightarrow> u64 \<Rightarrow> TypeStore" where
  "with_max_value_bytes ns clock mx =
     \<lparr>st_ns = ns, st_clock = clock, st_max_value_bytes = (if mx = 0 then - 1 else mx)\<rparr>"

definition store_new :: "bytes \<Rightarrow> (nat \<Rightarrow> u64) \<Rightarrow> TypeStore" where
  "store_new ns clock = with_max_value_bytes ns clock DEFAULT_MAX_VALUE_BYTES"

definition read_clock :: "TypeStore \<Rightarrow> 's world \<Rightarrow> u64 \<times> 's world" where
  "read_clock S w = (st_clock S (w_ticks w), w\<lparr>w_ticks := w_ticks w + 1\<rparr>)"

definition next_version :: "u64 \<Rightarrow> 's world \<Rightarrow> u64 \<times> 's world" where
  "next_version now w = (let v = version_next (w_last w) now in (v, w\<lparr>w_last := v\<rparr>))"

definition w_get :: "'s Kv \<Rightarrow> 's world \<Rightarrow> bytes \<Rightarrow> bytes option" where
  "w_get K w k = kv_get K (w_kv w) k"

definition w_put :: "'s Kv \<Rightarrow> 's world \<Rightarrow> bytes \<Rightarrow> bytes \<Rightarrow> 's world" where
  "w_put K w k v = w\<lparr>w_kv := kv_put K (w_kv w) k v\<rparr>"

definition w_delete :: "'s Kv \<Rightarrow> 's world \<Rightarrow> bytes \<Rightarrow> bool \<times> 's world" where
  "w_delete K w k = (let (existed, s) = kv_delete K (w_kv w) k in (existed, w\<lparr>w_kv := s\<rparr>))"

definition meta_key :: "TypeStore \<Rightarrow> u16 \<Rightarrow> bytes \<Rightarrow> bytes" where
  "meta_key S slot key = envelope Metadata (st_ns S) slot key"

definition field_key :: "TypeStore \<Rightarrow> u16 \<Rightarrow> bytes \<Rightarrow> u64 \<Rightarrow> bytes \<Rightarrow> bytes" where
  "field_key S slot key v f = subkey_envelope (st_ns S) slot key v f"

text \<open>
  A store's \<open>read_meta\<close>, for its value type and its metadata decoder. A row that does not decode
  reads as missing, an expired one is deleted on the way.
\<close>

definition read_typed_meta ::
  "ValueType \<Rightarrow> (bytes \<Rightarrow> 'm option) \<Rightarrow> 's Kv \<Rightarrow> TypeStore \<Rightarrow> u16 \<Rightarrow> bytes \<Rightarrow> 's world
   \<Rightarrow> (StoreError + 'm option) \<times> 's world"
where
  "read_typed_meta t decode K S slot key w =
     (let mk = meta_key S slot key
      in case w_get K w mk of
           None \<Rightarrow> (Inr None, w)
         | Some row \<Rightarrow>
             (case mh_decode row of
                None \<Rightarrow> (Inr None, w)
              | Some header \<Rightarrow>
                  (let (now, w) = read_clock S w
                   in if mh_is_expired header now then (Inr None, snd (w_delete K w mk))
                      else if mh_value_type header \<noteq> Some t then (Inl WrongType, w)
                      else (case decode row of
                              None \<Rightarrow> (Inl WrongType, w)
                            | Some meta \<Rightarrow> (Inr (Some meta), w)))))"

text \<open>A write's metadata: the collection's, or a new one's with a fresh version.\<close>

definition found_or_new ::
  "ValueType \<Rightarrow> TypeStore \<Rightarrow> ComplexMeta option \<Rightarrow> 's world \<Rightarrow> ComplexMeta \<times> 's world"
where
  "found_or_new t S found w =
     (case found of
        Some m \<Rightarrow> (m, w)
      | None \<Rightarrow>
          (let (now, w) = read_clock S w;
               (v, w) = next_version now w
           in (cm_new t v, w)))"

text \<open>
  The end of every removal: the counters go down, and the metadata row is written back or, when
  nothing is left, deleted.
\<close>

definition settle_removed ::
  "'s Kv \<Rightarrow> TypeStore \<Rightarrow> u16 \<Rightarrow> bytes \<Rightarrow> ComplexMeta \<Rightarrow> u64 \<Rightarrow> u64 \<Rightarrow> 's world
   \<Rightarrow> (StoreError + u64) \<times> 's world"
where
  "settle_removed K S slot key meta removed bts w =
     (let meta = meta\<lparr>cm_bytes := bts, cm_size := saturating_sub (cm_size meta) (ucast removed)\<rparr>
      in if cm_size meta = 0 then (Inr removed, snd (w_delete K w (meta_key S slot key)))
         else
           (let (now, w) = read_clock S w
            in (Inr removed, w_put K w (meta_key S slot key) (cm_encode (cm_touch meta now)))))"

section \<open>Notions the lemmas use\<close>

text \<open>The rows a key may own, and that a change is confined to a set of rows.\<close>

definition own_rows :: "bytes \<Rightarrow> u16 \<Rightarrow> bytes \<Rightarrow> bytes set" where
  "own_rows ns slot key = {envelope Metadata ns slot key} \<union>
     {subkey_envelope ns slot key v f | v f. True} \<union> {zscore_envelope ns slot key v sc f | v sc f. True}"

definition only_rows :: "bytes set \<Rightarrow> (bytes \<rightharpoonup> bytes) \<Rightarrow> (bytes \<rightharpoonup> bytes) \<Rightarrow> bool" where
  "only_rows R m m' \<longleftrightarrow> (\<forall>k. k \<notin> R \<longrightarrow> m' k = m k)"

text \<open>The field map of a collection at a version.\<close>

definition coll :: "(bytes \<rightharpoonup> bytes) \<Rightarrow> bytes \<Rightarrow> u16 \<Rightarrow> bytes \<Rightarrow> u64 \<Rightarrow> bytes \<rightharpoonup> bytes" where
  "coll m ns slot key v = (\<lambda>f. m (subkey_envelope ns slot key v f))"

text \<open>A metadata row as a reader at a time sees it, and the map after it has looked.\<close>

definition typed_row ::
  "ValueType \<Rightarrow> (bytes \<Rightarrow> 'm option) \<Rightarrow> (bytes \<rightharpoonup> bytes) \<Rightarrow> u64 \<Rightarrow> bytes \<Rightarrow> StoreError + 'm option"
where
  "typed_row t decode m now mk =
     (case Option.bind (m mk) (\<lambda>row. map_option (\<lambda>h. (h, row)) (mh_decode row)) of
        None \<Rightarrow> Inr None
      | Some (h, row) \<Rightarrow>
          if mh_is_expired h now then Inr None
          else if mh_value_type h \<noteq> Some t then Inl WrongType
          else (case decode row of None \<Rightarrow> Inl WrongType | Some meta \<Rightarrow> Inr (Some meta)))"

definition reaped :: "(bytes \<rightharpoonup> bytes) \<Rightarrow> u64 \<Rightarrow> bytes \<Rightarrow> bytes \<rightharpoonup> bytes" where
  "reaped m now mk =
     (case Option.bind (m mk) mh_decode of
        Some h \<Rightarrow> if mh_is_expired h now then m(mk := None) else m
      | None \<Rightarrow> m)"

text \<open>No subkey or index row has a version the counter has not reached.\<close>

definition versions_below :: "(bytes \<rightharpoonup> bytes) \<Rightarrow> u64 \<Rightarrow> bool" where
  "versions_below m l \<longleftrightarrow>
     (\<forall>k \<in> dom m. case parse_subkey_envelope k of Some (ns, slot, key, v) \<Rightarrow> v \<le> l | None \<Rightarrow> True)"

text \<open>The counter can be advanced: it is not at the end of its 64 bits, nor is the clock's floor.\<close>

definition can_advance :: "u64 \<Rightarrow> u64 \<Rightarrow> bool" where
  "can_advance l now \<longleftrightarrow> unat l < 2 ^ 64 - 1 \<and> unat (push_bit 20 now) < 2 ^ 64 - 1"

text \<open>The cost of a field map, and that a metadata row's counters agree with the map they count.\<close>

definition total :: "(bytes \<Rightarrow> bytes \<Rightarrow> nat) \<Rightarrow> (bytes \<rightharpoonup> bytes) \<Rightarrow> nat" where
  "total cost F = (\<Sum>f \<in> dom F. cost f (the (F f)))"

definition counts :: "(bytes \<Rightarrow> bytes \<Rightarrow> nat) \<Rightarrow> (bytes \<rightharpoonup> bytes) \<Rightarrow> ComplexMeta \<Rightarrow> bool" where
  "counts cost F cm \<longleftrightarrow> finite (dom F) \<and> unat (cm_size cm) = card (dom F) \<and>
     unat (cm_bytes cm) = total cost F"

definition hash_cost :: "bytes \<Rightarrow> bytes \<Rightarrow> nat" where
  "hash_cost f v = length f + length v"

definition set_cost :: "bytes \<Rightarrow> bytes \<Rightarrow> nat" where
  "set_cost f v = length f"

text \<open>
  A live hash or set of a store, without regard to expiry: its metadata and its field map; and
  that the counters of the collection of that type at a key, if there is one, are right and the
  collection is not empty.
\<close>

definition meta_at :: "ValueType \<Rightarrow> (bytes \<Rightarrow> 'm option) \<Rightarrow> (bytes \<rightharpoonup> bytes) \<Rightarrow> bytes \<Rightarrow> 'm option" where
  "meta_at t decode m mk =
     Option.bind (m mk) (\<lambda>row. if Option.bind (mh_decode row) mh_value_type = Some t then decode row else None)"

definition coll_wf ::
  "ValueType \<Rightarrow> (bytes \<Rightarrow> bytes \<Rightarrow> nat) \<Rightarrow> (bytes \<rightharpoonup> bytes) \<Rightarrow> bytes \<Rightarrow> u16 \<Rightarrow> bytes \<Rightarrow> bool"
where
  "coll_wf t cost m ns slot key \<longleftrightarrow>
     (case meta_at t cm_decode m (envelope Metadata ns slot key) of
        Some cm \<Rightarrow> counts cost (coll m ns slot key (cm_version cm)) cm \<and>
          coll m ns slot key (cm_version cm) \<noteq> Map.empty
      | None \<Rightarrow> True)"

text \<open>
  A hash or set as a reader at a time sees it, with its expiry: the empty map when there is no
  key; what a collection with an expiry is at a later time; and an empty collection is no key.
\<close>

definition coll_view ::
  "ValueType \<Rightarrow> TypeStore \<Rightarrow> u16 \<Rightarrow> bytes \<Rightarrow> (bytes \<rightharpoonup> bytes) \<Rightarrow> u64 \<Rightarrow> StoreError + u64 \<times> (bytes \<rightharpoonup> bytes)"
where
  "coll_view t S slot key m now =
     (case typed_row t cm_decode m now (meta_key S slot key) of
        Inl e \<Rightarrow> Inl e
      | Inr None \<Rightarrow> Inr (0, Map.empty)
      | Inr (Some cm) \<Rightarrow> Inr (mh_expire_ms (cm_header cm), coll m (st_ns S) slot key (cm_version cm)))"

definition aged :: "u64 \<times> (bytes \<rightharpoonup> bytes) \<Rightarrow> u64 \<Rightarrow> u64 \<times> (bytes \<rightharpoonup> bytes)" where
  "aged x now = (if snd x = Map.empty \<or> fst x \<noteq> 0 \<and> fst x \<le> now then (0, Map.empty) else x)"

definition clock_sane :: "TypeStore \<Rightarrow> u64 \<Rightarrow> bool" where
  "clock_sane S l \<longleftrightarrow> (\<forall>n. can_advance l (st_clock S n))"

text \<open>What every operation on a collection at a key relies on, and keeps.\<close>

definition coll_ready ::
  "ValueType \<Rightarrow> (bytes \<Rightarrow> bytes \<Rightarrow> nat) \<Rightarrow> TypeStore \<Rightarrow> u16 \<Rightarrow> bytes \<Rightarrow> (bytes \<rightharpoonup> bytes) \<Rightarrow> u64 \<Rightarrow> bool"
where
  "coll_ready t cost S slot key m l \<longleftrightarrow>
     ns_ok (st_ns S) \<and> key_framed key \<and> versions_below m l \<and> coll_wf t cost m (st_ns S) slot key"

text \<open>
  What an operation has done when it leaves the collection \<open>x\<close>, an expiry and a field map, at a
  key: every later reader sees it until it expires, the invariants hold, no row of another key has
  changed, and the version counter has not gone back.
\<close>

definition coll_post ::
  "ValueType \<Rightarrow> (bytes \<Rightarrow> bytes \<Rightarrow> nat) \<Rightarrow> TypeStore \<Rightarrow> u16 \<Rightarrow> bytes \<Rightarrow> (bytes \<rightharpoonup> bytes) \<Rightarrow> u64 \<Rightarrow>
   (bytes \<rightharpoonup> bytes) \<Rightarrow> u64 \<Rightarrow> u64 \<times> (bytes \<rightharpoonup> bytes) \<Rightarrow> bool"
where
  "coll_post t cost S slot key m l m' l' x \<longleftrightarrow>
     (\<forall>now. coll_view t S slot key m' now = Inr (aged x now)) \<and>
     coll_ready t cost S slot key m' l' \<and> only_rows (own_rows (st_ns S) slot key) m m' \<and> l \<le> l'"

text \<open>The state a program starts with: an empty store, no version handed out, and a clock at one.\<close>

definition empty_world :: "MemKv world" where
  [flint_eval]: "empty_world = \<lparr>w_kv = [], w_last = 0, w_ticks = 0\<rparr>"

definition test_store :: TypeStore where
  [flint_eval]: "test_store = store_new [116] (\<lambda>_. 1)"

section \<open>Lemmas: rows of a key\<close>

lemma only_rows_refl [simp, intro]: "only_rows R m m"
  by (simp add: only_rows_def)

lemma only_rows_trans: "only_rows R m m' \<Longrightarrow> only_rows R m' m'' \<Longrightarrow> only_rows R m m''"
  by (simp add: only_rows_def)

lemma only_rows_upd: "only_rows R m m' \<Longrightarrow> k \<in> R \<Longrightarrow> only_rows R m (m'(k := x))"
  by (auto simp: only_rows_def)

lemma own_rows_meta [simp, intro]: "envelope Metadata ns slot key \<in> own_rows ns slot key"
  by (simp add: own_rows_def)

lemma own_rows_subkey [simp, intro]: "subkey_envelope ns slot key v f \<in> own_rows ns slot key"
  by (auto simp: own_rows_def)

lemma own_rows_zscore [simp, intro]: "zscore_envelope ns slot key v sc f \<in> own_rows ns slot key"
  by (auto simp: own_rows_def)

lemma own_rows_disjoint:
  assumes "ns_ok ns" "ns_ok ns'" "key_framed key" "key_framed key'" "(ns, slot, key) \<noteq> (ns', slot', key')"
  shows "own_rows ns slot key \<inter> own_rows ns' slot' key' = {}"
  using assms
  by (auto simp: own_rows_def envelope_inject subkey_envelope_inject zscore_envelope_inject)

lemma zprefix_not_meta [simp]:
  "zscore_prefix ns slot k v @ r \<noteq> envelope Metadata ns' slot' k'" "envelope Metadata ns' slot' k' \<noteq> zscore_prefix ns slot k v @ r"
  by (simp_all add: zscore_prefix_def envelope_def)

lemma own_rows_zprefix:
  assumes "ns_ok ns" "ns_ok ns'" "key_framed key" "key_framed key'" "zscore_prefix ns' slot' key' v @ r \<in> own_rows ns slot key"
  shows "(ns, slot, key) = (ns', slot', key')"
proof -
  have "\<exists>v. parse_subkey_envelope (zscore_prefix ns' slot' key' v' @ r') = Some (ns, slot, key, v)"
    if "zscore_prefix ns' slot' key' v' @ r' \<in> own_rows ns slot key" for v' r'
    using that assms(1,3) parse_subkey_envelope_zprefix[of ns key slot] by (auto simp: own_rows_def zscore_envelope_def)
  then show ?thesis using assms by fastforce
qed

text \<open>What a change confined to another key's rows leaves alone.\<close>

lemma only_rows_other:
  assumes "only_rows (own_rows ns slot key) m m'"
    and "ns_ok ns" "ns_ok ns'" "key_framed key" "key_framed key'" "(ns, slot, key) \<noteq> (ns', slot', key')"
  shows "m' (envelope Metadata ns' slot' key') = m (envelope Metadata ns' slot' key')"
    and "m' (subkey_envelope ns' slot' key' v f) = m (subkey_envelope ns' slot' key' v f)"
    and "m' (zscore_prefix ns' slot' key' v @ r) = m (zscore_prefix ns' slot' key' v @ r)"
proof -
  show "m' (zscore_prefix ns' slot' key' v @ r) = m (zscore_prefix ns' slot' key' v @ r)"
    using own_rows_zprefix[OF assms(2-5), of slot' v r slot] assms(1,6) by (auto simp: only_rows_def)
qed (use assms own_rows_disjoint[OF assms(2-6)] in \<open>meson only_rows_def own_rows_meta own_rows_subkey disjoint_iff\<close>)+

lemma coll_wf_other:
  assumes "only_rows (own_rows ns slot key) m m'"
    and "ns_ok ns" "ns_ok ns'" "key_framed key" "key_framed key'" "(ns, slot, key) \<noteq> (ns', slot', key')"
  shows "coll_wf t cost m' ns' slot' key' = coll_wf t cost m ns' slot' key'"
  using only_rows_other[OF assms] by (simp add: coll_wf_def meta_at_def coll_def split: option.split)

section \<open>Lemmas: field maps\<close>

lemma coll_meta [simp]: "coll (m(envelope Metadata ns' slot' key' := x)) ns slot key v = coll m ns slot key v"
  by (simp add: coll_def)

lemma coll_subkey:
  assumes "ns_ok ns" "key_framed key"
  shows "coll (m(subkey_envelope ns slot key v f := x)) ns slot key v = (coll m ns slot key v)(f := x)"
  using assms by (auto simp: coll_def fun_eq_iff subkey_envelope_inject)

lemma coll_reaped [simp]: "coll (reaped m now (envelope Metadata ns' slot' key')) ns slot key v = coll m ns slot key v"
  by (auto simp: reaped_def split: option.splits)

lemma finite_coll:
  assumes "finite (dom m)" "ns_ok ns" "key_framed key"
  shows "finite (dom (coll m ns slot key v))"
proof -
  have "inj_on (subkey_envelope ns slot key v) UNIV"
    using assms by (auto simp: inj_on_def subkey_envelope_inject)
  then have "finite (subkey_envelope ns slot key v -` dom m)" using assms(1) by (simp add: finite_vimageI)
  moreover have "dom (coll m ns slot key v) = subkey_envelope ns slot key v -` dom m"
    by (auto simp: coll_def)
  ultimately show ?thesis by simp
qed

lemma versions_below_fresh:
  assumes "versions_below m l" "l < v" "ns_ok ns" "key_framed key"
  shows "coll m ns slot key v = Map.empty"
proof
  fix f
  show "coll m ns slot key v f = Map.empty f"
    using assms bspec[of "dom m" _ "subkey_envelope ns slot key v f"]
    by (cases "m (subkey_envelope ns slot key v f)") (auto simp: versions_below_def coll_def dest!: bspec)
qed

lemma versions_below_meta:
  assumes "versions_below m l" shows "versions_below (m(envelope Metadata ns slot key := x)) l"
  using assms by (auto simp: versions_below_def parse_subkey_envelope_def envelope_def)

lemma versions_below_subkey:
  assumes "versions_below m l" "v \<le> l" "ns_ok ns" "key_framed key"
  shows "versions_below (m(subkey_envelope ns slot key v f := x)) l"
  using assms by (auto simp: versions_below_def)

lemma versions_below_reaped [simp]:
  "versions_below m l \<Longrightarrow> versions_below (reaped m now (envelope Metadata ns slot key)) l"
  by (auto simp: reaped_def versions_below_meta split: option.splits)

lemma versions_below_mono: "versions_below m l \<Longrightarrow> l \<le> l' \<Longrightarrow> versions_below m l'"
  by (fastforce simp: versions_below_def split: option.splits)

text \<open>The cost of a map after a field changes.\<close>

lemma total_empty [simp]: "total cost Map.empty = 0"
  by (simp add: total_def)

lemma total_upd_new:
  assumes "finite (dom F)" "F f = None"
  shows "total cost (F(f \<mapsto> v)) = total cost F + cost f v"
proof -
  have "f \<notin> dom F" using assms by auto
  then have "(\<Sum>g \<in> dom F. cost g (the ((F(f \<mapsto> v)) g))) = total cost F"
    unfolding total_def by (intro sum.cong) auto
  with assms \<open>f \<notin> dom F\<close> show ?thesis by (simp add: total_def)
qed

lemma total_del:
  assumes "finite (dom F)" "F f = Some v"
  shows "total cost F = total cost (F(f := None)) + cost f v"
  using total_upd_new[of "F(f := None)" f cost v] assms by (simp add: fun_upd_idem)

lemma total_upd_old:
  assumes "finite (dom F)" "F f = Some v'"
  shows "total cost (F(f \<mapsto> v)) + cost f v' = total cost F + cost f v"
  using total_del[OF assms] total_upd_new[of "F(f := None)" f cost v] assms(1) by simp

lemma cost_le_total: "finite (dom F) \<Longrightarrow> F f = Some v \<Longrightarrow> cost f v \<le> total cost F"
  using total_del by fastforce

section \<open>Lemmas: reading metadata\<close>

lemma typed_row_meta_at:
  "typed_row t decode m now mk = Inr (Some meta) \<longleftrightarrow>
     (\<exists>row h. m mk = Some row \<and> mh_decode row = Some h \<and> \<not> mh_is_expired h now \<and>
        meta_at t decode m mk = Some meta)"
  by (auto simp: typed_row_def meta_at_def split: option.splits if_splits bind_splits)

lemma typed_row_None_reaped:
  assumes "typed_row t decode m now mk = Inr None"
  shows "meta_at t' decode' (reaped m now mk) mk = None \<or> Option.bind (m mk) mh_decode = None"
  using assms
  by (auto simp: typed_row_def meta_at_def reaped_def split: option.splits if_splits bind_splits)

lemma reaped_live: "typed_row t decode m now mk = Inr (Some meta) \<Longrightarrow> reaped m now mk = m"
  by (auto simp: typed_row_def reaped_def split: option.splits if_splits bind_splits)

lemma reaped_Inl: "typed_row t decode m now mk = Inl e \<Longrightarrow> reaped m now mk = m \<and> e = WrongType"
  by (auto simp: typed_row_def reaped_def split: option.splits if_splits bind_splits)

lemma only_rows_reaped [simp]:
  "only_rows (own_rows ns slot key) m (reaped m now (envelope Metadata ns slot key))"
  by (auto simp: reaped_def only_rows_def own_rows_def split: option.splits)

lemma coll_wf_reaped:
  assumes "coll_wf t cost m ns' slot' key'" "ns_ok ns" "ns_ok ns'"
  shows "coll_wf t cost (reaped m now (envelope Metadata ns slot key)) ns' slot' key'"
  using assms
  by (auto simp: coll_wf_def reaped_def meta_at_def envelope_inject split: option.splits if_splits bind_splits)

text \<open>The operations on the world, through the map the store stands for.\<close>

lemma read_typed_meta_ticks:
  "read_typed_meta t decode K S slot key w = (Inr (Some meta), w1) \<Longrightarrow> w_ticks w1 = Suc (w_ticks w)"
  by (auto simp: read_typed_meta_def read_clock_def Let_def split: option.splits if_splits)

context kv_store
begin

abbreviation (input) rows where
  "rows w \<equiv> abs (w_kv w)"

lemma w_get: "ok (w_kv w) \<Longrightarrow> w_get K w k = rows w k"
  by (simp add: w_get_def get)

lemma w_put:
  "ok (w_kv w) \<Longrightarrow> ok (w_kv (w_put K w k v))"
  "ok (w_kv w) \<Longrightarrow> rows (w_put K w k v) = (rows w)(k \<mapsto> v)"
  "w_last (w_put K w k v) = w_last w" "w_ticks (w_put K w k v) = w_ticks w"
  by (simp_all add: w_put_def put)

lemma w_delete:
  "ok (w_kv w) \<Longrightarrow> fst (w_delete K w k) = (rows w k \<noteq> None)"
  "ok (w_kv w) \<Longrightarrow> ok (w_kv (snd (w_delete K w k)))"
  "ok (w_kv w) \<Longrightarrow> rows (snd (w_delete K w k)) = (rows w)(k := None)"
  "w_last (snd (w_delete K w k)) = w_last w" "w_ticks (snd (w_delete K w k)) = w_ticks w"
  using delete[of "w_kv w" k] by (simp_all add: w_delete_def case_prod_beta Let_def)

lemmas world = w_get w_put w_delete

lemma read_typed_meta:
  assumes "ok (w_kv w)"
  obtains w1 where
    "read_typed_meta t decode K S slot key w =
       (typed_row t decode (rows w) (st_clock S (w_ticks w)) (meta_key S slot key), w1)"
    and "ok (w_kv w1)" and "w_last w1 = w_last w"
    and "rows w1 = reaped (rows w) (st_clock S (w_ticks w)) (meta_key S slot key)"
proof -
  let ?mk = "meta_key S slot key" and ?now = "st_clock S (w_ticks w)"
  let ?w1 = "snd (read_typed_meta t decode K S slot key w)"
  have "fst (read_typed_meta t decode K S slot key w) = typed_row t decode (rows w) ?now ?mk \<and>
    ok (w_kv ?w1) \<and> w_last ?w1 = w_last w \<and> rows ?w1 = reaped (rows w) ?now ?mk"
    using assms
    by (auto simp: read_typed_meta_def typed_row_def reaped_def read_clock_def world Let_def
        split: option.splits)
  then show ?thesis using that[of ?w1] by (simp add: prod_eq_iff)
qed

end

lemma read_clock_sel [simp]:
  "fst (read_clock S w) = st_clock S (w_ticks w)" "w_kv (snd (read_clock S w)) = w_kv w"
  "w_last (snd (read_clock S w)) = w_last w"
  by (simp_all add: read_clock_def)

lemma next_version_sel [simp]:
  "fst (next_version now w) = version_next (w_last w) now" "w_kv (snd (next_version now w)) = w_kv w"
  "w_last (snd (next_version now w)) = version_next (w_last w) now"
  by (simp_all add: next_version_def Let_def)

text \<open>A version taken from the counter has no rows yet.\<close>

lemma fresh_version:
  assumes "versions_below m l" "can_advance l now" "ns_ok ns" "key_framed key"
  shows "coll m ns slot key (version_next l now) = Map.empty" and "l < version_next l now"
proof -
  show "l < version_next l now" using assms(2) version_next_greater(1) by (simp add: can_advance_def)
  then show "coll m ns slot key (version_next l now) = Map.empty"
    using versions_below_fresh assms by blast
qed

lemma counts_new: "counts cost Map.empty (cm_new t v)"
  by (simp add: counts_def cm_new_def)

text \<open>A metadata row that has been written reads back.\<close>

lemma meta_at_cm:
  assumes "m mk = Some (cm_encode cm)" "from_flags (mh_flags (cm_header cm)) = Some t"
  shows "meta_at t cm_decode m mk = Some (cm_v2 cm)"
  using assms cm_decode_encode[of cm "[]"]
    mh_decode_cm_encode[of cm "[]"] from_flags_v2_flags[OF assms(2)]
  by (simp add: meta_at_def mh_value_type_def)

section \<open>Lemmas: collections\<close>

lemma meta_key_own [simp]: "meta_key S slot key \<in> own_rows (st_ns S) slot key"
  by (simp add: meta_key_def)

lemma field_key_own [simp]: "field_key S slot key v f \<in> own_rows (st_ns S) slot key"
  by (simp add: field_key_def)

lemma mh_is_expired_iff: "mh_is_expired h now \<longleftrightarrow> mh_expire_ms h \<noteq> 0 \<and> mh_expire_ms h \<le> now"
  by (simp add: mh_is_expired_def)

text \<open>The view of a key after its metadata row has been written, and after it has been deleted.\<close>

lemma coll_view_written:
  assumes "m (meta_key S slot key) = Some (cm_encode cm)" "from_flags (mh_flags (cm_header cm)) = Some t"
    and "F = coll m (st_ns S) slot key (cm_version cm)" "F \<noteq> Map.empty"
  shows "coll_view t S slot key m now = Inr (aged (mh_expire_ms (cm_header cm), F) now)"
proof -
  have h: "mh_decode (cm_encode cm) = Some (cm_header (cm_v2 cm))" "cm_decode (cm_encode cm) = Some (cm_v2 cm)"
    using mh_decode_cm_encode[of cm "[]"] cm_decode_encode[of cm "[]"] by simp_all
  have t: "mh_value_type (cm_header (cm_v2 cm)) = Some t"
    using from_flags_v2_flags[OF assms(2)] by (simp add: mh_value_type_def)
  show ?thesis
    using assms(1,4) by (simp add: coll_view_def typed_row_def h t mh_is_expired_iff aged_def assms(3))
qed

lemma coll_view_deleted:
  "m (meta_key S slot key) = None \<Longrightarrow> coll_view t S slot key m now = Inr (aged (e, Map.empty) now)"
  by (simp add: coll_view_def typed_row_def aged_def)

lemma cm_decode_header: "cm_decode row = Some cm \<Longrightarrow> mh_decode row = Some (cm_header cm)"
  by (auto simp: cm_decode_def Let_def split: option.splits if_splits)

lemma meta_at_flags: "meta_at t cm_decode m mk = Some cm \<Longrightarrow> from_flags (mh_flags (cm_header cm)) = Some t"
  by (auto simp: meta_at_def mh_value_type_def dest!: cm_decode_header split: bind_splits if_splits)

text \<open>A live collection that is found: its counters are right, and its version is in use.\<close>

lemma coll_found:
  assumes "coll_ready t cost S slot key m l"
    and "typed_row t cm_decode m now (meta_key S slot key) = Inr (Some cm)"
  shows "counts cost (coll m (st_ns S) slot key (cm_version cm)) cm"
    and "coll m (st_ns S) slot key (cm_version cm) \<noteq> Map.empty" and "cm_version cm \<le> l"
    and "from_flags (mh_flags (cm_header cm)) = Some t"
    and "coll_view t S slot key m now =
      Inr (mh_expire_ms (cm_header cm), coll m (st_ns S) slot key (cm_version cm))"
    and "reaped m now (meta_key S slot key) = m"
proof -
  let ?F = "coll m (st_ns S) slot key (cm_version cm)"
  have at: "meta_at t cm_decode m (meta_key S slot key) = Some cm"
    using assms(2) typed_row_meta_at by metis
  then show c: "counts cost ?F cm" "?F \<noteq> Map.empty"
    using assms(1) by (simp_all add: coll_ready_def coll_wf_def meta_key_def)
  obtain f where "?F f \<noteq> None" using c(2) by fastforce
  then show "cm_version cm \<le> l"
    using assms(1) versions_below_fresh[of m l "cm_version cm" "st_ns S" key slot]
    by (fastforce simp: coll_ready_def not_le[symmetric])
  show "from_flags (mh_flags (cm_header cm)) = Some t" by (rule meta_at_flags[OF at])
  show "coll_view t S slot key m now = Inr (mh_expire_ms (cm_header cm), ?F)"
    using assms(2) by (simp add: coll_view_def)
  show "reaped m now (meta_key S slot key) = m" using assms(2) by (rule reaped_live)
qed

lemma coll_wf_written:
  assumes "m (envelope Metadata ns slot key) = Some (cm_encode cm)"
    and "from_flags (mh_flags (cm_header cm)) = Some t" "F = coll m ns slot key (cm_version cm)"
    and "counts cost F cm" "F \<noteq> Map.empty"
  shows "coll_wf t cost m ns slot key"
  using assms meta_at_cm[of m "envelope Metadata ns slot key" cm t]
  by (simp add: coll_wf_def counts_def)

lemma coll_wf_deleted: "m (envelope Metadata ns slot key) = None \<Longrightarrow> coll_wf t cost m ns slot key"
  by (simp add: coll_wf_def meta_at_def)


context kv_store
begin

lemma found_or_new:
  assumes "ok (w_kv w)" "coll_ready t cost S slot key (rows w) (w_last w)" "clock_sane S (w_last w)"
    and view: "coll_view t S slot key (rows w) (st_clock S (w_ticks w)) = Inr (e, F)"
  obtains found w1 cm w2 where "read_typed_meta t cm_decode K S slot key w = (Inr found, w1)"
    and "found_or_new t S found w1 = (cm, w2)" and "ok (w_kv w2)"
    and "rows w2 = reaped (rows w) (st_clock S (w_ticks w)) (meta_key S slot key)"
    and "w_last w \<le> w_last w2" "cm_version cm \<le> w_last w2"
    and "versions_below (rows w2) (w_last w2)"
    and "coll (rows w2) (st_ns S) slot key (cm_version cm) = F" "counts cost F cm"
    and "mh_expire_ms (cm_header cm) = e" "from_flags (mh_flags (cm_header cm)) = Some t"
proof -
  let ?now = "st_clock S (w_ticks w)" and ?mk = "meta_key S slot key"
  obtain w1 where r: "read_typed_meta t cm_decode K S slot key w = (typed_row t cm_decode (rows w) ?now ?mk, w1)"
    and w1: "ok (w_kv w1)" "w_last w1 = w_last w" "rows w1 = reaped (rows w) ?now ?mk"
    using read_typed_meta[OF assms(1)] by blast
  have R: "ns_ok (st_ns S)" "key_framed key" "versions_below (rows w) (w_last w)"
    using assms(2) by (simp_all add: coll_ready_def)
  obtain found where f: "typed_row t cm_decode (rows w) ?now ?mk = Inr found"
    using view by (cases "typed_row t cm_decode (rows w) ?now ?mk") (auto simp: coll_view_def)
  show ?thesis
  proof (cases found)
    case (Some cm)
    note found = coll_found[OF assms(2) f[unfolded Some]]
    have "w_last w \<le> w_last w1" "cm_version cm \<le> w_last w1" "versions_below (rows w1) (w_last w1)"
      using w1 found R by simp_all
    moreover have "coll (rows w1) (st_ns S) slot key (cm_version cm) = F" "mh_expire_ms (cm_header cm) = e"
      using found w1 view by simp_all
    ultimately show ?thesis
      using that[of "Some cm" w1 cm w1] r f w1 found view Some by (simp add: found_or_new_def)
  next
    case None
    have "can_advance (w_last w) n" if "n = st_clock S (w_ticks w1)" for n
      using assms(3) that by (simp add: clock_sane_def)
    note fresh = fresh_version[OF R(3) this[OF refl] R(1,2)]
    let ?v = "version_next (w_last w) (st_clock S (w_ticks w1))"
    let ?w2 = "snd (next_version (st_clock S (w_ticks w1)) (snd (read_clock S w1)))"
    have fn: "found_or_new t S found w1 = (cm_new t ?v, ?w2)"
      using None w1 by (simp add: found_or_new_def case_prod_beta Let_def)
    have F: "F = Map.empty" "e = 0" using view f None by (simp_all add: coll_view_def)
    have "coll (rows ?w2) (st_ns S) slot key (cm_version (cm_new t ?v)) = F"
      using fresh(1) w1 F by (simp add: meta_key_def)
    moreover have "versions_below (rows ?w2) (w_last ?w2)" "w_last w \<le> w_last ?w2"
      using fresh(2) w1 versions_below_mono[OF versions_below_reaped[OF R(3)] less_imp_le[OF fresh(2)]]
      by (simp_all add: meta_key_def)
    moreover have "mh_expire_ms (cm_header (cm_new t ?v)) = e" "from_flags (mh_flags (cm_header (cm_new t ?v))) = Some t"
      using F by (simp_all add: cm_new_def)
    ultimately show ?thesis
      using that[of found w1 "cm_new t ?v" ?w2] r f w1 fn F counts_new by simp
  qed
qed

text \<open>A read of metadata when the key holds another type.\<close>

lemma read_meta_error:
  assumes "ok (w_kv w)" "coll_view t S slot key (rows w) (st_clock S (w_ticks w)) = Inl e"
  obtains w1 where "read_typed_meta t cm_decode K S slot key w = (Inl e, w1)" "ok (w_kv w1)"
    "rows w1 = rows w" "w_last w1 = w_last w" "e = WrongType"
proof -
  let ?now = "st_clock S (w_ticks w)" and ?mk = "meta_key S slot key"
  have "typed_row t cm_decode (rows w) ?now ?mk = Inl e"
    using assms(2) by (auto simp: coll_view_def split: sum.splits option.splits)
  with read_typed_meta[OF assms(1), of t cm_decode S slot key] reaped_Inl[OF this] that
  show ?thesis by metis
qed

end

lemma coll_ready_reaped:
  assumes "coll_ready t cost S slot key m l" "l \<le> l'"
  shows "coll_ready t cost S slot key (reaped m now (meta_key S slot key)) l'"
  using assms versions_below_mono[of _ l l']
  by (auto simp: coll_ready_def meta_key_def intro: coll_wf_reaped)

text \<open>Looking at a key, with the lazy deletion that goes with it, leaves the collection as it was.\<close>

lemma coll_post_reaped:
  assumes "coll_ready t cost S slot key m l" "coll_view t S slot key m now = Inr x" "l \<le> l'"
  shows "coll_post t cost S slot key m l (reaped m now (meta_key S slot key)) l' x"
proof -
  let ?mk = "meta_key S slot key" and ?m = "reaped m now (meta_key S slot key)"
  have "coll_view t S slot key ?m now' = Inr (aged x now')" for now'
  proof (cases "typed_row t cm_decode m now ?mk")
    case (Inl e)
    then show ?thesis using assms(2) by (simp add: coll_view_def)
  next
    case (Inr found)
    show ?thesis
    proof (cases found)
      case None
      then have x: "x = (0, Map.empty)" using assms(2) Inr by (simp add: coll_view_def)
      then show ?thesis
        using Inr None
        by (auto simp: coll_view_def typed_row_def reaped_def aged_def split: option.splits if_splits bind_splits)
    next
      case (Some cm)
      note found = coll_found[OF assms(1) Inr[unfolded Some]]
      obtain row where row: "m ?mk = Some row" "cm_decode row = Some cm"
        using Inr Some by (auto simp: typed_row_def split: option.splits if_splits bind_splits)
      have vt: "mh_value_type (cm_header cm) = Some t" using found(4) by (simp add: mh_value_type_def)
      have "x = (mh_expire_ms (cm_header cm), coll m (st_ns S) slot key (cm_version cm))"
        using found(5) assms(2) by simp
      then show ?thesis
        unfolding found(6) using row vt found(2) cm_decode_header[OF row(2)]
        by (simp add: coll_view_def typed_row_def aged_def mh_is_expired_iff)
    qed
  qed
  then show ?thesis
    using assms(1,3) by (simp add: coll_post_def coll_ready_reaped) (simp add: meta_key_def)
qed

context kv_store
begin

text \<open>The two ways an operation ends: it writes the metadata row, or deletes it.\<close>

lemma commit_meta:
  assumes "ok (w_kv w)" "ns_ok (st_ns S)" "key_framed key" "versions_below (rows w) (w_last w)"
    and "only_rows (own_rows (st_ns S) slot key) m (rows w)" "l \<le> w_last w"
    and "coll (rows w) (st_ns S) slot key (cm_version cm) = F" "F \<noteq> Map.empty" "counts cost F cm"
    and "from_flags (mh_flags (cm_header cm)) = Some t" "mh_expire_ms (cm_header cm) = e"
  defines "w' \<equiv> w_put K w (meta_key S slot key) (cm_encode cm)"
  shows "ok (w_kv w')" and "coll_post t cost S slot key m l (rows w') (w_last w') (e, F)"
proof -
  show "ok (w_kv w')" using assms(1) by (simp add: w'_def world)
  have rows: "rows w' = (rows w)(meta_key S slot key \<mapsto> cm_encode cm)" "w_last w' = w_last w"
    using assms(1) by (simp_all add: w'_def world)
  have F: "F = coll (rows w') (st_ns S) slot key (cm_version cm)"
    using assms(7) rows by (simp add: meta_key_def)
  have "coll_view t S slot key (rows w') now = Inr (aged (e, F) now)" for now
    using coll_view_written[of "rows w'" S slot key cm t F now] rows F assms(8,10,11) by simp
  moreover have "coll_wf t cost (rows w') (st_ns S) slot key"
    using coll_wf_written[of "rows w'" "st_ns S" slot key cm t F cost] rows F assms(8,9,10)
    by (simp add: meta_key_def)
  ultimately show "coll_post t cost S slot key m l (rows w') (w_last w') (e, F)"
    using assms(2-6) rows
    by (simp add: coll_post_def coll_ready_def only_rows_upd) (simp add: meta_key_def versions_below_meta)
qed

lemma commit_delete:
  assumes "ok (w_kv w)" "ns_ok (st_ns S)" "key_framed key" "versions_below (rows w) (w_last w)"
    and "only_rows (own_rows (st_ns S) slot key) m (rows w)" "l \<le> w_last w"
  defines "w' \<equiv> snd (w_delete K w (meta_key S slot key))"
  shows "ok (w_kv w')" and "coll_post t cost S slot key m l (rows w') (w_last w') (e, Map.empty)"
proof -
  show "ok (w_kv w')" using assms(1) by (simp add: w'_def world)
  have rows: "rows w' = (rows w)(meta_key S slot key := None)" "w_last w' = w_last w"
    using assms(1) by (simp_all add: w'_def world)
  have "coll_wf t cost (rows w') (st_ns S) slot key"
    using rows by (intro coll_wf_deleted) (simp add: meta_key_def)
  then show "coll_post t cost S slot key m l (rows w') (w_last w') (e, Map.empty)"
    using assms(2-6) rows
    by (simp add: coll_post_def coll_ready_def only_rows_upd coll_view_deleted)
      (simp add: meta_key_def versions_below_meta)
qed

end

section \<open>Lemmas: map extension\<close>

lemma map_of_rev_distinct: "distinct (map fst xs) \<Longrightarrow> map_of (rev xs) = map_of xs"
  by (subst map_of_inject_set) (simp_all add: rev_map[symmetric])

lemma card_dom_map_add:
  assumes "finite (dom F)" shows "card (dom (F ++ map_of xs)) \<le> card (dom F) + length xs"
    and "finite (dom (F ++ map_of xs))"
proof -
  have "card (dom (map_of xs)) \<le> length xs"
    unfolding dom_map_of_conv_image_fst by (metis card_length length_map set_map)
  then show "card (dom (F ++ map_of xs)) \<le> card (dom F) + length xs"
    using card_Un_le[of "dom (map_of xs)" "dom F"] by simp
  show "finite (dom (F ++ map_of xs))" using assms by (simp add: finite_dom_map_of)
qed

context kv_store
begin

text \<open>A metadata read that is no error: the collection is absent, or found with right counters.\<close>

lemma read_meta_cases:
  assumes "ok (w_kv w)" "coll_ready t cost S slot key (rows w) (w_last w)"
    and view: "coll_view t S slot key (rows w) (st_clock S (w_ticks w)) = Inr (e, F)"
  obtains (absent) w1 where "read_typed_meta t cm_decode K S slot key w = (Inr None, w1)"
      "ok (w_kv w1)" "w_last w1 = w_last w" "F = Map.empty" "e = 0"
      "coll_post t cost S slot key (rows w) (w_last w) (rows w1) (w_last w1) (e, F)"
  | (present) cm w1 where "read_typed_meta t cm_decode K S slot key w = (Inr (Some cm), w1)"
      "ok (w_kv w1)" "w_last w1 = w_last w" "F \<noteq> Map.empty" "rows w1 = rows w"
      "coll (rows w1) (st_ns S) slot key (cm_version cm) = F" "counts cost F cm"
      "mh_expire_ms (cm_header cm) = e" "from_flags (mh_flags (cm_header cm)) = Some t"
      "cm_version cm \<le> w_last w"
      "coll_post t cost S slot key (rows w) (w_last w) (rows w1) (w_last w1) (e, F)"
proof -
  let ?now = "st_clock S (w_ticks w)" and ?mk = "meta_key S slot key"
  obtain w1 where r: "read_typed_meta t cm_decode K S slot key w = (typed_row t cm_decode (rows w) ?now ?mk, w1)"
    and w1: "ok (w_kv w1)" "w_last w1 = w_last w" "rows w1 = reaped (rows w) ?now ?mk"
    using read_typed_meta[OF assms(1)] by blast
  have post: "coll_post t cost S slot key (rows w) (w_last w) (rows w1) (w_last w1) (e, F)"
    unfolding w1(3) using assms(2) view by (rule coll_post_reaped) (simp add: w1(2))
  show ?thesis
  proof (cases "typed_row t cm_decode (rows w) ?now ?mk")
    case (Inl err)
    then show ?thesis using view by (simp add: coll_view_def)
  next
    case (Inr found)
    show ?thesis
    proof (cases found)
      case None
      then show ?thesis using absent[of w1] r w1 Inr view post by (simp add: coll_view_def)
    next
      case (Some cm)
      note found = coll_found[OF assms(2) Inr[unfolded Some]]
      then show ?thesis using present[of cm w1] r w1 Inr Some view post by simp
    qed
  qed
qed

end

text \<open>The rows of a collection, with the prefix cut off, are the field map in field order.\<close>

lemma rows_of_coll:
  assumes "finite (dom m)" "ns_ok ns" "key_framed key"
  shows "map (\<lambda>(k, v). (drop (length (subkey_prefix ns slot key ver)) k, v)) (rows_of m (prefix (subkey_prefix ns slot key ver)))
    = rows_of (coll m ns slot key ver) (\<lambda>_. True)"
proof -
  let ?p = "subkey_prefix ns slot key ver"
  let ?rows = "rows_of m (prefix ?p)"
  have cut: "k = ?p @ drop (length ?p) k" if "(k, v) \<in> set ?rows" for k v
    using that assms(1) by (auto simp: rows_of_set prefix_def)
  have "sorted_wrt (\<lambda>x y. fst x < fst y) ?rows"
    using rows_of_sorted[OF assms(1)] by (simp add: sorted_wrt_map)
  then have "sorted_wrt (\<lambda>x y. drop (length ?p) (fst x) < drop (length ?p) (fst y)) ?rows"
  proof (rule sorted_wrt_mono_rel[rotated])
    fix x y assume "x \<in> set ?rows" "y \<in> set ?rows" "fst x < fst y"
    then show "drop (length ?p) (fst x) < drop (length ?p) (fst y)"
      using cut[of "fst x" "snd x"] cut[of "fst y" "snd y"] lex_append_left[of ?p] by (metis prod.collapse)
  qed
  moreover have "set (map (\<lambda>(k, v). (drop (length ?p) k, v)) ?rows) = {(k, v). coll m ns slot key ver k = Some v \<and> True}"
    using assms(1) by (force simp: rows_of_set prefix_def coll_def subkey_envelope_def)
  ultimately show ?thesis
    by (intro rows_of_eqI) (simp_all add: sorted_wrt_map case_prod_beta)
qed

lemma run_visits_fields:
  "run_visits (\<lambda>k v out. (True, (drop n k, v) # out)) rows out =
     (True, rev (map (\<lambda>(k, v). (drop n k, v)) rows) @ out)"
  by (induction rows arbitrary: out) auto

lemma restrict_comp_insert: "F |` (- insert f A) = (F |` (- A))(f := None)"
  by (auto simp: restrict_map_def fun_eq_iff)

lemma restrict_comp_insert': "F |` (- insert f A) = (F(f := None)) |` (- A)"
  by (auto simp: restrict_map_def fun_eq_iff)

lemma coll_post_trans:
  "coll_post t cost S slot key m l m' l' x \<Longrightarrow> coll_post t cost S slot key m' l' m'' l'' y \<Longrightarrow>
   coll_post t cost S slot key m l m'' l'' y"
  by (auto simp: coll_post_def intro: only_rows_trans)

lemma coll_post_next:
  assumes "coll_post t cost S slot key m l m' l' x"
  shows "coll_ready t cost S slot key m' l'" "coll_view t S slot key m' now = Inr (aged x now)"
  using assms by (simp_all add: coll_post_def)

context kv_store
begin

lemma settle_removed:
  fixes r b :: u64 and F F' :: "bytes \<rightharpoonup> bytes"
  assumes "ok (w_kv w)" "ns_ok (st_ns S)" "key_framed key" "versions_below (rows w) (w_last w)"
    and only: "only_rows (own_rows (st_ns S) slot key) m (rows w)" and l: "l \<le> w_last w"
    and coll: "coll (rows w) (st_ns S) slot key (cm_version cm) = F'"
    and cm: "counts cost F cm" "from_flags (mh_flags (cm_header cm)) = Some t" "mh_expire_ms (cm_header cm) = e"
    and F': "F' = F |` (- A)" and bts: "unat b = total cost F'"
    and removed: "unat r + card (dom F') = card (dom F)"
  obtains w' where "settle_removed K S slot key cm r b w = (Inr (word_of_nat (card (dom F \<inter> A))), w')"
    and "ok (w_kv w')" "coll_post t cost S slot key m l (rows w') (w_last w') (e, F')"
proof -
  have F: "finite (dom F)" "unat (cm_size cm) = card (dom F)" using cm(1) by (simp_all add: counts_def)
  have card: "card (dom F) < 2 ^ 32" using F(2) unsigned_less[of "cm_size cm", where 'a = nat] by simp
  have dom: "finite (dom F')" "dom F = dom F' \<union> (dom F \<inter> A)" "dom F' \<inter> (dom F \<inter> A) = {}"
    using F(1) by (auto simp: F')
  then have "card (dom F) = card (dom F') + card (dom F \<inter> A)"
    using F(1) by (metis card_Un_disjoint finite_Int)
  then have "unat r = card (dom F \<inter> A)" using removed by simp
  then have r: "r = word_of_nat (card (dom F \<inter> A))" by (rule word_of_unat)
  let ?cm = "cm\<lparr>cm_bytes := b, cm_size := saturating_sub (cm_size cm) (ucast r)\<rparr>"
  have size: "unat (cm_size ?cm) = card (dom F')"
    using removed F(2) card by (simp add: unat_saturating_sub unsigned_ucast_eq take_bit_eq_mod)
  show ?thesis
  proof (cases "F' = Map.empty")
    case True
    then have "cm_size ?cm = 0" using size by (simp add: unat_eq_0)
    then have "settle_removed K S slot key cm r b w = (Inr r, snd (w_delete K w (meta_key S slot key)))"
      by (simp add: settle_removed_def Let_def)
    then show ?thesis
      using that w_delete(2)[OF assms(1)] commit_delete(2)[OF assms(1-4) only l, of t cost e] r True by simp
  next
    case False
    then have "cm_size ?cm \<noteq> 0" using size dom(1) by (auto simp: unat_eq_0[symmetric] card_eq_0_iff)
    let ?w3 = "snd (read_clock S w)" and ?cm' = "cm_touch ?cm (st_clock S (w_ticks w))"
    have "settle_removed K S slot key cm r b w = (Inr r, w_put K ?w3 (meta_key S slot key) (cm_encode ?cm'))"
      using \<open>cm_size ?cm \<noteq> 0\<close> by (simp add: settle_removed_def Let_def case_prod_beta)
    moreover have "counts cost F' ?cm'" using size bts dom(1) by (simp add: counts_def)
    ultimately show ?thesis
      using that commit_meta[of ?w3 S key slot m l ?cm' F' cost t e]
        assms(1-4) only l coll False cm(3) from_flags_v2_flags[OF cm(2)] r by simp
  qed
qed

end

lemma card_dom_del:
  assumes "finite (dom F)" "F f = Some v" shows "card (dom F) = card (dom (F(f := None))) + 1"
  using assms card_Suc_Diff1[of "dom F" f] by (simp add: domI)

text \<open>What a reader sees is not expired for it.\<close>

lemma coll_view_aged:
  assumes "coll_ready t cost S slot key m l" "coll_view t S slot key m now = Inr x"
  shows "aged x now = x"
proof -
  have "coll_post t cost S slot key m l (reaped m now (meta_key S slot key)) l x"
    using assms by (rule coll_post_reaped) simp
  then have "coll_view t S slot key (reaped m now (meta_key S slot key)) now = Inr (aged x now)"
    by (simp add: coll_post_def)
  moreover have "coll_view t S slot key (reaped m now (meta_key S slot key)) now = coll_view t S slot key m now"
    by (auto simp: coll_view_def typed_row_def reaped_def meta_key_def split: option.splits bind_splits)
  ultimately show ?thesis using assms(2) by simp
qed

text \<open>What an operation on one key leaves of another.\<close>

lemma coll_post_other:
  assumes "coll_post t cost S slot key m l m' l' x" "coll_ready t' cost' S slot' key' m l" "(slot, key) \<noteq> (slot', key')"
  shows "coll_ready t' cost' S slot' key' m' l'"
    and "coll_view t' S slot' key' m' now = coll_view t' S slot' key' m now"
proof -
  have R: "only_rows (own_rows (st_ns S) slot key) m m'" "ns_ok (st_ns S)" "key_framed key" "key_framed key'"
    "versions_below m' l'" "(st_ns S, slot, key) \<noteq> (st_ns S, slot', key')"
    using assms by (auto simp: coll_post_def coll_ready_def)
  note other = only_rows_other[OF R(1,2,2,3,4,6)]
  show "coll_view t' S slot' key' m' now = coll_view t' S slot' key' m now"
    using other by (simp add: coll_view_def typed_row_def coll_def meta_key_def split: sum.split option.split)
  show "coll_ready t' cost' S slot' key' m' l'"
    using assms(2) R(5) coll_wf_other[OF R(1,2,2,3,4,6)] by (simp add: coll_ready_def)
qed

lemma coll_view_finite:
  assumes "coll_ready t cost S slot key m l" "coll_view t S slot key m now = Inr (e, F)"
  shows "finite (dom F)" and "card (dom F) < 2 ^ 32"
proof -
  consider "F = Map.empty" | cm where "typed_row t cm_decode m now (meta_key S slot key) = Inr (Some cm)"
    using assms(2) by (auto simp: coll_view_def split: sum.splits option.splits)
  then have "finite (dom F) \<and> card (dom F) < 2 ^ 32"
  proof cases
    case 2
    note found = coll_found[OF assms(1) 2]
    show ?thesis
      using found(1,5) assms(2) unsigned_less[of "cm_size cm", where 'a = nat] by (simp add: counts_def)
  qed simp
  then show "finite (dom F)" "card (dom F) < 2 ^ 32" by simp_all
qed

lemma empty_world [simp]:
  "mem_ok (w_kv empty_world)" "map_of (w_kv empty_world) = Map.empty"
  by (simp_all add: empty_world_def mem_ok_def)

lemma empty_ready:
  "length key \<le> 65535 \<Longrightarrow> coll_ready t cost test_store slot key Map.empty l"
  by (simp add: coll_ready_def test_store_def store_new_def with_max_value_bytes_def ns_ok_def key_framed_def
      versions_below_def coll_wf_def meta_at_def)

lemma empty_view: "coll_view t S slot key Map.empty now = Inr (0, Map.empty)"
  by (simp add: coll_view_def typed_row_def)

lemma test_clock: "clock_sane test_store (w_last empty_world)"
  by (simp add: clock_sane_def can_advance_def test_store_def store_new_def with_max_value_bytes_def empty_world_def)

lemma test_max: "unat (st_max_value_bytes test_store) = 536870912"
  by (simp add: test_store_def store_new_def with_max_value_bytes_def DEFAULT_MAX_VALUE_BYTES_def)

lemma test_clock_value [simp]: "st_clock test_store n = 1"
  by (simp add: test_store_def store_new_def with_max_value_bytes_def)

lemmas test_world = empty_ready empty_view test_clock test_max

end
