(* ===== verification/Flint_Hashes.thy ===== *)
theory Flint_Hashes
  imports Flint_Store Flint_Ints
begin

text \<open>
  The hash store, \<open>crates/flint-storage/src/hashes.rs\<close>: a hash is a metadata row with a version
  and counters, and one subkey row per field.

  \<open>hset\<close> collects its pairs in a \<open>HashMap\<close> and walks it twice. The model keeps the map's
  entries in the order of first insertion; the lemmas' results do not depend on the order.
  \<open>HINCRBYFLOAT\<close> is not modelled.

  The lemmas show that the operations are those of a finite map from fields to values, that a
  refused write leaves the hash as it was, that the counters in the metadata row stay the number
  of fields and their accounted bytes, and that no other key's rows are touched.
\<close>

section \<open>Definitions\<close>

type_synonym Pairs = "(bytes \<times> bytes) list"

definition hash_read_meta ::
  "'s Kv \<Rightarrow> TypeStore \<Rightarrow> u16 \<Rightarrow> bytes \<Rightarrow> 's world \<Rightarrow> (StoreError + ComplexMeta option) \<times> 's world"
where
  "hash_read_meta = read_typed_meta Hash cm_decode"

text \<open>The deduplicating \<open>HashMap\<close>: the last value of a field wins.\<close>

definition unique_pairs :: "Pairs \<Rightarrow> Pairs" where
  "unique_pairs pairs = foldl (\<lambda>u (field, val). AList.update field val u) [] pairs"

text \<open>The accounting pass: fields added and the hash's new bytes.\<close>

fun hset_account ::
  "'s Kv \<Rightarrow> TypeStore \<Rightarrow> u16 \<Rightarrow> bytes \<Rightarrow> u64 \<Rightarrow> 's world \<Rightarrow> Pairs \<Rightarrow> u64 \<times> u64 \<Rightarrow> u64 \<times> u64"
where
  "hset_account K S slot key version w [] (added, bts) = (added, bts)"
| "hset_account K S slot key version w ((field, val) # pairs) (added, bts) =
     (let (added, bts) =
        (case w_get K w (field_key S slot key version field) of
           Some old \<Rightarrow> (added, saturating_sub bts (word_of_nat (length old)))
         | None \<Rightarrow> (added + 1, bts + word_of_nat (length field)))
      in hset_account K S slot key version w pairs (added, bts + word_of_nat (length val)))"

fun hset_write ::
  "'s Kv \<Rightarrow> TypeStore \<Rightarrow> u16 \<Rightarrow> bytes \<Rightarrow> u64 \<Rightarrow> Pairs \<Rightarrow> 's world \<Rightarrow> 's world"
where
  "hset_write K S slot key version [] w = w"
| "hset_write K S slot key version ((field, val) # pairs) w =
     hset_write K S slot key version pairs (w_put K w (field_key S slot key version field) val)"

definition hset ::
  "'s Kv \<Rightarrow> TypeStore \<Rightarrow> u16 \<Rightarrow> bytes \<Rightarrow> Pairs \<Rightarrow> 's world \<Rightarrow> (StoreError + u64) \<times> 's world"
where
  "hset K S slot key pairs w =
     (case hash_read_meta K S slot key w of
        (Inl e, w) \<Rightarrow> (Inl e, w)
      | (Inr found, w) \<Rightarrow>
          (let (meta, w) = found_or_new Hash S found w;
             unique = unique_pairs pairs;
             (added, bts) = hset_account K S slot key (cm_version meta) w unique (0, cm_bytes meta)
           in if bts > st_max_value_bytes S then (Inl ValueTooLarge, w)
              else
                (let w = hset_write K S slot key (cm_version meta) unique w;
                     (now, w) = read_clock S w;
                     meta = cm_touch (meta\<lparr>cm_size := cm_size meta + ucast added, cm_bytes := bts\<rparr>) now
                 in (Inr added, w_put K w (meta_key S slot key) (cm_encode meta)))))"

definition hget ::
  "'s Kv \<Rightarrow> TypeStore \<Rightarrow> u16 \<Rightarrow> bytes \<Rightarrow> bytes \<Rightarrow> 's world \<Rightarrow> (StoreError + bytes option) \<times> 's world"
where
  "hget K S slot key field w =
     (case hash_read_meta K S slot key w of
        (Inl e, w) \<Rightarrow> (Inl e, w)
      | (Inr None, w) \<Rightarrow> (Inr None, w)
      | (Inr (Some meta), w) \<Rightarrow> (Inr (w_get K w (field_key S slot key (cm_version meta) field)), w))"

definition hsetnx ::
  "'s Kv \<Rightarrow> TypeStore \<Rightarrow> u16 \<Rightarrow> bytes \<Rightarrow> bytes \<Rightarrow> bytes \<Rightarrow> 's world \<Rightarrow> (StoreError + bool) \<times> 's world"
where
  "hsetnx K S slot key field val w =
     (case hget K S slot key field w of
        (Inl e, w) \<Rightarrow> (Inl e, w)
      | (Inr (Some _), w) \<Rightarrow> (Inr False, w)
      | (Inr None, w) \<Rightarrow>
          (case hset K S slot key [(field, val)] w of
             (Inl e, w) \<Rightarrow> (Inl e, w)
           | (Inr _, w) \<Rightarrow> (Inr True, w)))"

definition hstrlen ::
  "'s Kv \<Rightarrow> TypeStore \<Rightarrow> u16 \<Rightarrow> bytes \<Rightarrow> bytes \<Rightarrow> 's world \<Rightarrow> (StoreError + nat) \<times> 's world"
where
  "hstrlen K S slot key field w =
     (case hget K S slot key field w of
        (Inl e, w) \<Rightarrow> (Inl e, w)
      | (Inr v, w) \<Rightarrow> (Inr (case v of Some v \<Rightarrow> length v | None \<Rightarrow> 0), w))"

text \<open>The loop of \<open>hdel\<close>: the removed count and the metadata's bytes travel along.\<close>

fun hdel_loop ::
  "'s Kv \<Rightarrow> TypeStore \<Rightarrow> u16 \<Rightarrow> bytes \<Rightarrow> u64 \<Rightarrow> bytes list \<Rightarrow> u64 \<times> u64 \<times> 's world \<Rightarrow> u64 \<times> u64 \<times> 's world"
where
  "hdel_loop K S slot key version [] st = st"
| "hdel_loop K S slot key version (field # fs) (removed, bts, w) =
     (let sk = field_key S slot key version field
      in case w_get K w sk of
           Some old \<Rightarrow>
             hdel_loop K S slot key version fs
               (removed + 1, saturating_sub bts (word_of_nat (length field + length old)),
                snd (w_delete K w sk))
         | None \<Rightarrow> hdel_loop K S slot key version fs (removed, bts, w))"

definition hdel ::
  "'s Kv \<Rightarrow> TypeStore \<Rightarrow> u16 \<Rightarrow> bytes \<Rightarrow> bytes list \<Rightarrow> 's world \<Rightarrow> (StoreError + u64) \<times> 's world"
where
  "hdel K S slot key fs w =
     (case hash_read_meta K S slot key w of
        (Inl e, w) \<Rightarrow> (Inl e, w)
      | (Inr None, w) \<Rightarrow> (Inr 0, w)
      | (Inr (Some meta), w) \<Rightarrow>
          (let (removed, bts, w) =
             hdel_loop K S slot key (cm_version meta) fs (0, cm_bytes meta, w)
           in settle_removed K S slot key meta removed bts w))"

definition hincr_by ::
  "'s Kv \<Rightarrow> TypeStore \<Rightarrow> u16 \<Rightarrow> bytes \<Rightarrow> bytes \<Rightarrow> i64 \<Rightarrow> 's world \<Rightarrow> (StoreError + i64) \<times> 's world"
where
  "hincr_by K S slot key field delta w =
     (case hget K S slot key field w of
        (Inl e, w) \<Rightarrow> (Inl e, w)
      | (Inr found, w) \<Rightarrow>
          (case (case found of None \<Rightarrow> Some 0 | Some raw \<Rightarrow> parse_redis_i64 raw) of
             None \<Rightarrow> (Inl NotInteger, w)
           | Some current \<Rightarrow>
               (case checked_add_i64 current delta of
                  None \<Rightarrow> (Inl Overflow, w)
                | Some nxt \<Rightarrow>
                    (case hset K S slot key [(field, show_i64 nxt)] w of
                       (Inl e, w) \<Rightarrow> (Inl e, w)
                     | (Inr _, w) \<Rightarrow> (Inr nxt, w)))))"

definition hlen ::
  "'s Kv \<Rightarrow> TypeStore \<Rightarrow> u16 \<Rightarrow> bytes \<Rightarrow> 's world \<Rightarrow> (StoreError + u64) \<times> 's world"
where
  "hlen K S slot key w =
     (case hash_read_meta K S slot key w of
        (Inl e, w) \<Rightarrow> (Inl e, w)
      | (Inr found, w) \<Rightarrow> (Inr (case found of None \<Rightarrow> 0 | Some m \<Rightarrow> ucast (cm_size m)), w))"

definition hexists ::
  "'s Kv \<Rightarrow> TypeStore \<Rightarrow> u16 \<Rightarrow> bytes \<Rightarrow> bytes \<Rightarrow> 's world \<Rightarrow> (StoreError + bool) \<times> 's world"
where
  "hexists K S slot key field w =
     (case hget K S slot key field w of
        (Inl e, w) \<Rightarrow> (Inl e, w)
      | (Inr v, w) \<Rightarrow> (Inr (v \<noteq> None), w))"

definition hmget ::
  "'s Kv \<Rightarrow> TypeStore \<Rightarrow> u16 \<Rightarrow> bytes \<Rightarrow> bytes list \<Rightarrow> 's world
   \<Rightarrow> (StoreError + bytes option list) \<times> 's world"
where
  "hmget K S slot key fs w =
     (case hash_read_meta K S slot key w of
        (Inl e, w) \<Rightarrow> (Inl e, w)
      | (Inr meta, w) \<Rightarrow>
          (Inr (map (\<lambda>f. Option.bind meta (\<lambda>m. w_get K w (field_key S slot key (cm_version m) f))) fs), w))"

definition hash_stored_bytes ::
  "'s Kv \<Rightarrow> TypeStore \<Rightarrow> u16 \<Rightarrow> bytes \<Rightarrow> 's world \<Rightarrow> (StoreError + u64 option) \<times> 's world"
where
  "hash_stored_bytes K S slot key w =
     (case hash_read_meta K S slot key w of
        (Inl e, w) \<Rightarrow> (Inl e, w)
      | (Inr found, w) \<Rightarrow> (Inr (map_option cm_bytes found), w))"

definition hgetall ::
  "'s Kv \<Rightarrow> TypeStore \<Rightarrow> u16 \<Rightarrow> bytes \<Rightarrow> 's world \<Rightarrow> (StoreError + Pairs) \<times> 's world"
where
  "hgetall K S slot key w =
     (case hash_read_meta K S slot key w of
        (Inl e, w) \<Rightarrow> (Inl e, w)
      | (Inr None, w) \<Rightarrow> (Inr [], w)
      | (Inr (Some meta), w) \<Rightarrow>
          (let p = subkey_prefix (st_ns S) slot key (cm_version meta)
           in (Inr (rev (snd (run_visits (\<lambda>k v out. (True, (drop (length p) k, v) # out))
                 (kv_for_each_prefix K (w_kv w) p) []))), w)))"

section \<open>Notions the lemmas use\<close>

definition pairs_cost :: "Pairs \<Rightarrow> nat" where
  "pairs_cost pairs = (\<Sum>(f, v) \<leftarrow> pairs. length f + length v)"

section \<open>Lemmas\<close>

lemma unique_pairs_distinct: "distinct (map fst (unique_pairs pairs))"
proof -
  have "distinct (map fst (foldl (\<lambda>u (f, v). AList.update f v u) u pairs))" if "distinct (map fst u)" for u
    using that by (induction pairs arbitrary: u) (auto simp: distinct_update)
  then show ?thesis by (simp add: unique_pairs_def)
qed

lemma map_of_unique_pairs: "map_of (unique_pairs pairs) = map_of (rev pairs)"
proof -
  have "map_of (foldl (\<lambda>u (f, v). AList.update f v u) u pairs) = map_of u ++ map_of (rev pairs)" for u
    by (induction pairs arbitrary: u) (auto simp: update_conv' map_add_upd_left)
  then show ?thesis by (simp add: unique_pairs_def)
qed

text \<open>Deduplication does not add to the number or the cost of the pairs.\<close>

lemma unique_pairs_length: "length (unique_pairs pairs) \<le> length pairs"
proof -
  have "length (foldl (\<lambda>u (f, v). AList.update f v u) u pairs) \<le> length u + length pairs" for u :: Pairs
  proof (induction pairs arbitrary: u)
    case (Cons x pairs)
    have "length (AList.update (fst x) (snd x) u) \<le> length u + 1"
      by (induction u) (auto split: prod.splits)
    with Cons[of "AList.update (fst x) (snd x) u"] show ?case by (simp add: case_prod_beta)
  qed simp
  from this[of "[]"] show ?thesis by (simp add: unique_pairs_def)
qed

lemma pairs_cost_unique: "pairs_cost (unique_pairs pairs) \<le> pairs_cost pairs"
proof -
  have upd: "pairs_cost (AList.update f v u) \<le> pairs_cost u + length f + length v" for f v u
    by (induction u) (auto simp: pairs_cost_def)
  have "pairs_cost (foldl (\<lambda>u (f, v). AList.update f v u) u pairs) \<le> pairs_cost u + pairs_cost pairs" for u
  proof (induction pairs arbitrary: u)
    case (Cons x pairs)
    have "pairs_cost (x # pairs) = length (fst x) + length (snd x) + pairs_cost pairs"
      by (simp add: pairs_cost_def case_prod_beta)
    with Cons[of "AList.update (fst x) (snd x) u"] upd[of "fst x" "snd x" u] show ?case
      by (simp add: case_prod_beta)
  qed (simp add: pairs_cost_def)
  from this[of "[]"] show ?thesis by (simp add: unique_pairs_def pairs_cost_def)
qed

context kv_store
begin

lemma hset_account:
  assumes "ok (w_kv w)" "finite (dom G)" "distinct (map fst u)"
    and "\<And>f. f \<in> fst ` set u \<Longrightarrow> G f = rows w (field_key S slot key version f)"
    and "unat bts = total hash_cost G" "total hash_cost G + pairs_cost u < 2 ^ 64"
    and "unat added + length u < 2 ^ 64"
  shows "\<exists>a b. hset_account K S slot key version w u (added, bts) = (a, b) \<and>
    unat a + card (dom G) = unat added + card (dom (G ++ map_of u)) \<and>
    unat b = total hash_cost (G ++ map_of u)"
  using assms(2-)
proof (induction u arbitrary: G added bts)
  case Nil
  then show ?case by simp
next
  case (Cons x u)
  obtain f v where x: "x = (f, v)" by fastforce
  have get: "w_get K w (field_key S slot key version f) = G f"
    using Cons.prems(3)[of f] assms(1) by (simp add: x world)
  have f: "f \<notin> dom (map_of u)" using Cons.prems(2) by (simp add: x dom_map_of_conv_image_fst)
  then have G': "G ++ map_of (x # u) = (G(f \<mapsto> v)) ++ map_of u" by (simp add: x map_add_upd_left)
  have pc: "pairs_cost (x # u) = length f + length v + pairs_cost u" by (simp add: x pairs_cost_def)
  have keys: "(G(f \<mapsto> v)) g = rows w (field_key S slot key version g)" if "g \<in> fst ` set u" for g
    using that Cons.prems(2) Cons.prems(3)[of g] by (auto simp: x)
  have fin: "finite (dom (G(f \<mapsto> v)))" and dist: "distinct (map fst u)"
    using Cons.prems(1,2) by (simp_all add: x)
  show ?case
  proof (cases "G f")
    case None
    let ?b = "bts + word_of_nat (length f) + word_of_nat (length v)"
    have t: "total hash_cost (G(f \<mapsto> v)) = total hash_cost G + length f + length v"
      using total_upd_new[OF Cons.prems(1) None, of hash_cost v] by (simp add: hash_cost_def)
    have b: "unat ?b = total hash_cost (G(f \<mapsto> v))"
      using Cons.prems(4,5) by (simp add: u64_len_add pc t)
    have bound: "total hash_cost (G(f \<mapsto> v)) + pairs_cost u < 2 ^ 64"
      using Cons.prems(5) t pc by simp
    have a: "unat (added + 1) = unat added + 1"
      using Cons.prems(6) u64_len_add[of added 1] by simp
    have "\<exists>a b. hset_account K S slot key version w u (added + 1, ?b) = (a, b) \<and>
        unat a + card (dom (G(f \<mapsto> v))) = unat (added + 1) + card (dom (G(f \<mapsto> v) ++ map_of u)) \<and>
        unat b = total hash_cost (G(f \<mapsto> v) ++ map_of u)"
      using Cons.prems(6) a by (intro Cons.IH[OF fin dist keys b bound]) simp_all
    moreover have "card (dom (G(f \<mapsto> v))) = card (dom G) + 1"
      using None Cons.prems(1) by (simp add: domIff)
    ultimately show ?thesis unfolding G' using None a by (auto simp: x get Let_def)
  next
    case (Some old)
    let ?b = "saturating_sub bts (word_of_nat (length old)) + word_of_nat (length v)"
    have t: "total hash_cost (G(f \<mapsto> v)) + length old = total hash_cost G + length v"
      using total_upd_old[OF Cons.prems(1) Some, of hash_cost v] by (simp add: hash_cost_def)
    have le: "length old \<le> unat bts"
      using cost_le_total[OF Cons.prems(1) Some, of hash_cost] Cons.prems(4) hash_cost_def[of f old] by linarith
    have b: "unat ?b = total hash_cost (G(f \<mapsto> v))"
      using Cons.prems(4,5) le t by (simp add: u64_len_add u64_len_sub pc)
    have bound: "total hash_cost (G(f \<mapsto> v)) + pairs_cost u < 2 ^ 64"
      using Cons.prems(5) t pc by simp
    have "\<exists>a b. hset_account K S slot key version w u (added, ?b) = (a, b) \<and>
        unat a + card (dom (G(f \<mapsto> v))) = unat added + card (dom (G(f \<mapsto> v) ++ map_of u)) \<and>
        unat b = total hash_cost (G(f \<mapsto> v) ++ map_of u)"
      using Cons.prems(6) by (intro Cons.IH[OF fin dist keys b bound]) simp_all
    moreover have "dom (G(f \<mapsto> v)) = dom G" "insert f (dom (map_of u) \<union> dom G) = dom (map_of u) \<union> dom G"
      using Some by auto
    ultimately show ?thesis unfolding G' using Some by (auto simp: x get Let_def)
  qed
qed

lemma hset_write:
  assumes "ok (w_kv w)" "ns_ok (st_ns S)" "key_framed key" "version \<le> w_last w"
    and "versions_below (rows w) (w_last w)"
  shows "ok (w_kv (hset_write K S slot key version u w))"
    and "w_last (hset_write K S slot key version u w) = w_last w"
    and "coll (rows (hset_write K S slot key version u w)) (st_ns S) slot key version =
      coll (rows w) (st_ns S) slot key version ++ map_of (rev u)"
    and "versions_below (rows (hset_write K S slot key version u w)) (w_last w)"
    and "only_rows (own_rows (st_ns S) slot key) (rows w) (rows (hset_write K S slot key version u w))"
proof -
  let ?w = "\<lambda>u w. hset_write K S slot key version u w"
  have "ok (w_kv (?w u w)) \<and> w_last (?w u w) = w_last w \<and>
      coll (rows (?w u w)) (st_ns S) slot key version = coll (rows w) (st_ns S) slot key version ++ map_of (rev u) \<and>
      versions_below (rows (?w u w)) (w_last w) \<and>
      only_rows (own_rows (st_ns S) slot key) (rows w) (rows (?w u w))"
    using assms
  proof (induction u arbitrary: w)
    case (Cons x u)
    obtain f v where x: "x = (f, v)" by fastforce
    let ?w1 = "w_put K w (field_key S slot key version f) v"
    have "versions_below (rows ?w1) (w_last w)"
      using Cons.prems by (simp add: world field_key_def versions_below_subkey)
    moreover have "only_rows (own_rows (st_ns S) slot key) (rows w) (rows ?w1)"
      using Cons.prems(1) by (simp add: world only_rows_upd)
    ultimately show ?case
      using Cons.IH[of ?w1] Cons.prems
      by (auto simp: x world field_key_def coll_subkey map_add_upd_left simp flip: fun_upd_def
          intro: only_rows_trans)
  qed simp
  then show "ok (w_kv (?w u w))" "w_last (?w u w) = w_last w"
    "coll (rows (?w u w)) (st_ns S) slot key version = coll (rows w) (st_ns S) slot key version ++ map_of (rev u)"
    "versions_below (rows (?w u w)) (w_last w)"
    "only_rows (own_rows (st_ns S) slot key) (rows w) (rows (?w u w))" by simp_all
qed

end



lemma map_add_rev_ne: "pairs \<noteq> [] \<Longrightarrow> F ++ map_of (rev pairs) \<noteq> Map.empty"
  by (cases pairs rule: rev_cases) (auto simp: fun_eq_iff map_add_Some_iff split: prod.splits)

context kv_store
begin

lemma hset_spec:
  assumes "ok (w_kv w)" "coll_ready Hash hash_cost S slot key (rows w) (w_last w)" "clock_sane S (w_last w)"
    and view: "coll_view Hash S slot key (rows w) (st_clock S (w_ticks w)) = Inr (e, F)"
    and ne: "pairs \<noteq> []" and small: "card (dom F) + length pairs < 2 ^ 32"
    and fits: "total hash_cost F + pairs_cost pairs < 2 ^ 64"
  defines "F' \<equiv> F ++ map_of (rev pairs)"
  obtains w' where "ok (w_kv w')"
    and "hset K S slot key pairs w = (if total hash_cost F' > unat (st_max_value_bytes S) then Inl ValueTooLarge
        else Inr (word_of_nat (card (dom F') - card (dom F))), w')"
    and "coll_post Hash hash_cost S slot key (rows w) (w_last w) (rows w') (w_last w')
        (e, if total hash_cost F' > unat (st_max_value_bytes S) then F else F')"
proof -
  let ?now = "st_clock S (w_ticks w)" and ?mk = "meta_key S slot key" and ?u = "unique_pairs pairs"
  obtain found w1 cm w2 where r: "read_typed_meta Hash cm_decode K S slot key w = (Inr found, w1)"
    "found_or_new Hash S found w1 = (cm, w2)" and w2: "ok (w_kv w2)" "rows w2 = reaped (rows w) ?now ?mk"
    "w_last w \<le> w_last w2" "cm_version cm \<le> w_last w2" "versions_below (rows w2) (w_last w2)"
    and cm: "coll (rows w2) (st_ns S) slot key (cm_version cm) = F" "counts hash_cost F cm"
    "mh_expire_ms (cm_header cm) = e" "from_flags (mh_flags (cm_header cm)) = Some Hash"
    using found_or_new[OF assms(1-4)] by blast
  have R: "ns_ok (st_ns S)" "key_framed key" using assms(2) by (simp_all add: coll_ready_def)
  have F: "finite (dom F)" "unat (cm_bytes cm) = total hash_cost F" "unat (cm_size cm) = card (dom F)"
    using cm(2) by (simp_all add: counts_def)
  have F': "F' = F ++ map_of ?u" by (simp add: F'_def map_of_unique_pairs)
  have get: "F f = rows w2 (field_key S slot key (cm_version cm) f)" for f
    using cm(1) by (auto simp: coll_def field_key_def)
  obtain a b where ab: "hset_account K S slot key (cm_version cm) w2 ?u (0, cm_bytes cm) = (a, b)"
    "unat a + card (dom F) = card (dom F')" "unat b = total hash_cost F'"
    using hset_account[OF w2(1) F(1) unique_pairs_distinct get F(2), of pairs 0] fits small
      pairs_cost_unique[of pairs] unique_pairs_length[of pairs]
    unfolding F' by auto
  have "unat a = card (dom F') - card (dom F)" using ab(2) by simp
  then have a: "a = word_of_nat (card (dom F') - card (dom F))" by (rule word_of_unat)
  show ?thesis
  proof (cases "total hash_cost F' > unat (st_max_value_bytes S)")
    case True
    then have "hset K S slot key pairs w = (Inl ValueTooLarge, w2)"
      using ab r by (simp add: hset_def hash_read_meta_def Let_def word_less_nat_alt)
    moreover have "coll_post Hash hash_cost S slot key (rows w) (w_last w) (rows w2) (w_last w2) (e, F)"
      unfolding w2(2) using assms(2) view w2(3) by (rule coll_post_reaped)
    ultimately show ?thesis using that[of w2] w2(1) True by simp
  next
    case False
    let ?w3 = "hset_write K S slot key (cm_version cm) ?u w2"
    let ?w4 = "snd (read_clock S ?w3)"
    let ?cm = "cm_touch (cm\<lparr>cm_size := cm_size cm + ucast a, cm_bytes := b\<rparr>) (st_clock S (w_ticks ?w3))"
    note w3 = hset_write[OF w2(1) R w2(4,5), of slot ?u]
    have ne': "F' \<noteq> Map.empty" using map_add_rev_ne[OF ne] by (simp add: F'_def)
    have coll: "coll (rows ?w3) (st_ns S) slot key (cm_version cm) = F'"
      using w3(3) cm(1) by (simp add: F' map_of_rev_distinct unique_pairs_distinct)
    have "card (dom F') < 2 ^ 32" "finite (dom F')"
      using card_dom_map_add[OF F(1), of "rev pairs"] small by (simp_all add: F'_def)
    then have "counts hash_cost F' ?cm"
      using u32_size_add[of "cm_size cm" "unat a" a] F(3) ab(2,3) by (simp add: counts_def)
    moreover have "only_rows (own_rows (st_ns S) slot key) (rows w) (rows ?w3)"
      using w3(5) w2(2) only_rows_trans only_rows_reaped by (metis meta_key_def)
    ultimately have "ok (w_kv (w_put K ?w4 ?mk (cm_encode ?cm)))" "coll_post Hash hash_cost S slot key (rows w) (w_last w)
        (rows (w_put K ?w4 ?mk (cm_encode ?cm))) (w_last (w_put K ?w4 ?mk (cm_encode ?cm))) (e, F')"
      using commit_meta[of ?w4 S key slot "rows w" "w_last w" ?cm F' hash_cost Hash e]
        w3 w2 R coll ne' cm(3,4) from_flags_v2_flags[OF cm(4)] by simp_all
    moreover have "hset K S slot key pairs w = (Inr a, w_put K ?w4 ?mk (cm_encode ?cm))"
      using False ab r by (simp add: hset_def hash_read_meta_def Let_def word_less_nat_alt case_prod_beta)
    ultimately show ?thesis using that False a by simp
  qed
qed

end

context kv_store
begin

lemma hdel_loop:
  assumes "ok (w_kv w)" "ns_ok (st_ns S)" "key_framed key"
    and "coll (rows w) (st_ns S) slot key version = F" "finite (dom F)"
    and "unat bts = total hash_cost F" "unat removed + card (dom F) < 2 ^ 32"
    and "versions_below (rows w) l"
  shows "\<exists>r b w'. hdel_loop K S slot key version fs (removed, bts, w) = (r, b, w') \<and> ok (w_kv w') \<and>
    w_last w' = w_last w \<and> coll (rows w') (st_ns S) slot key version = F |` (- set fs) \<and>
    unat b = total hash_cost (F |` (- set fs)) \<and>
    unat r + card (dom (F |` (- set fs))) = unat removed + card (dom F) \<and>
    versions_below (rows w') l \<and> only_rows (own_rows (st_ns S) slot key) (rows w) (rows w')"
  using assms(1,4-)
proof (induction fs arbitrary: w F bts removed)
  case Nil
  then show ?case by (auto simp: restrict_map_def)
next
  case (Cons f fs)
  let ?sk = "field_key S slot key version f"
  have get: "w_get K w ?sk = F f"
    using Cons.prems(1,2) by (auto simp: world field_key_def coll_def)
  show ?case
  proof (cases "F f")
    case None
    then have "F |` (- set (f # fs)) = F |` (- set fs)"
      by (auto simp: restrict_map_def fun_eq_iff)
    with None Cons.IH[OF Cons.prems] get show ?thesis by (simp add: Let_def)
  next
    case (Some old)
    let ?w = "snd (w_delete K w ?sk)" and ?b = "saturating_sub bts (word_of_nat (length f + length old))"
    have t: "total hash_cost F = total hash_cost (F(f := None)) + (length f + length old)"
      using total_del[OF Cons.prems(3) Some, of hash_cost] hash_cost_def[of f old] by simp
    have c: "card (dom F) = card (dom (F(f := None))) + 1"
      using Some Cons.prems(3) by (simp add: card_Diff_singleton domI card_gt_0_iff Suc_diff_1) (metis Suc_pred card_gt_0_iff domI empty_iff)
    have r: "unat (removed + 1) = unat removed + 1"
      using Cons.prems(5) c u64_len_add[of removed 1] by simp
    have w: "ok (w_kv ?w)" "rows ?w = (rows w)(?sk := None)" "w_last ?w = w_last w"
      using Cons.prems(1) by (simp_all add: world)
    have "coll (rows ?w) (st_ns S) slot key version = F(f := None)"
      using w Cons.prems(2) assms(2,3) by (simp add: field_key_def coll_subkey)
    moreover have "unat ?b = total hash_cost (F(f := None))"
      using t Cons.prems(4) u64_len_sub[of "length f + length old" bts] by simp
    moreover have "versions_below (rows ?w) l"
      using Cons.prems(6) w by (auto simp: versions_below_def)
    moreover have "finite (dom (F(f := None)))" using Cons.prems(3) by simp
    ultimately have IH: "\<exists>r b w'. hdel_loop K S slot key version fs (removed + 1, ?b, ?w) = (r, b, w') \<and> ok (w_kv w') \<and>
        w_last w' = w_last ?w \<and> coll (rows w') (st_ns S) slot key version = (F(f := None)) |` (- set fs) \<and>
        unat b = total hash_cost ((F(f := None)) |` (- set fs)) \<and>
        unat r + card (dom ((F(f := None)) |` (- set fs))) = unat (removed + 1) + card (dom (F(f := None))) \<and>
        versions_below (rows w') l \<and> only_rows (own_rows (st_ns S) slot key) (rows ?w) (rows w')"
      using w(1) Cons.prems(5) c r by (intro Cons.IH) (simp_all flip: fun_upd_def)
    have step: "hdel_loop K S slot key version (f # fs) (removed, bts, w) =
        hdel_loop K S slot key version fs (removed + 1, ?b, ?w)"
      using get Some by (simp add: Let_def)
    have "only_rows (own_rows (st_ns S) slot key) (rows w) (rows ?w)"
      using w(2) by (simp add: only_rows_upd)
    with IH show ?thesis unfolding step list.set restrict_comp_insert' c r w(3)
      by (auto intro: only_rows_trans)
  qed
qed

end

context kv_store
begin

lemma hdel_spec:
  fixes fs :: "bytes list"
  assumes "ok (w_kv w)" "coll_ready Hash hash_cost S slot key (rows w) (w_last w)"
    and view: "coll_view Hash S slot key (rows w) (st_clock S (w_ticks w)) = Inr (e, F)"
  defines "F' \<equiv> F |` (- set fs)"
  obtains w' where "ok (w_kv w')"
    and "hdel K S slot key fs w = (Inr (word_of_nat (card (dom F \<inter> set fs))), w')"
    and "coll_post Hash hash_cost S slot key (rows w) (w_last w) (rows w') (w_last w') (e, F')"
  using assms(1-3)
proof (cases rule: read_meta_cases)
  case (absent w1)
  then show ?thesis using that[of w1] by (simp add: hdel_def hash_read_meta_def F'_def)
next
  case (present cm w1)
  have R: "ns_ok (st_ns S)" "key_framed key" "versions_below (rows w1) (w_last w1)"
    using assms(2) present(3,5) by (simp_all add: coll_ready_def)
  have F: "finite (dom F)" "unat (cm_bytes cm) = total hash_cost F" "unat (cm_size cm) = card (dom F)"
    using present(7) by (simp_all add: counts_def)
  have card: "card (dom F) < 2 ^ 32" using F(3) unsigned_less[of "cm_size cm", where 'a = nat] by simp
  obtain r b w2 where loop: "hdel_loop K S slot key (cm_version cm) fs (0, cm_bytes cm, w1) = (r, b, w2)"
    and w2: "ok (w_kv w2)" "w_last w2 = w_last w1" "coll (rows w2) (st_ns S) slot key (cm_version cm) = F'"
    "unat b = total hash_cost F'" "unat r + card (dom F') = card (dom F)"
    "versions_below (rows w2) (w_last w1)" "only_rows (own_rows (st_ns S) slot key) (rows w1) (rows w2)"
    using hdel_loop[OF present(2) R(1,2) present(6) F(1,2) _ R(3), of 0 fs] card
    unfolding F'_def by auto
  have only: "only_rows (own_rows (st_ns S) slot key) (rows w) (rows w2)" using w2(7) present(5) by simp
  obtain w' where "settle_removed K S slot key cm r b w2 = (Inr (word_of_nat (card (dom F \<inter> set fs))), w')"
    and "ok (w_kv w')" "coll_post Hash hash_cost S slot key (rows w) (w_last w) (rows w') (w_last w') (e, F')"
    using settle_removed[OF w2(1) R(1,2) _ only _ w2(3) present(7,9,8) F'_def[THEN meta_eq_to_obj_eq] w2(4,5), of "w_last w"]
      w2(2,6) present(3) by auto
  then show ?thesis using that present(1) loop by (simp add: hdel_def hash_read_meta_def)
qed

end

context kv_store
begin

lemma hash_read_spec:
  assumes "ok (w_kv w)" "coll_ready Hash hash_cost S slot key (rows w) (w_last w)"
    and view: "coll_view Hash S slot key (rows w) (st_clock S (w_ticks w)) = Inr (e, F)"
  obtains w1 where "ok (w_kv w1)" "w_last w1 = w_last w" "F \<noteq> Map.empty \<Longrightarrow> w_ticks w1 = Suc (w_ticks w)"
    and "coll_post Hash hash_cost S slot key (rows w) (w_last w) (rows w1) (w_last w1) (e, F)"
    and "\<And>f. hget K S slot key f w = (Inr (F f), w1)"
    and "\<And>f. hexists K S slot key f w = (Inr (f \<in> dom F), w1)"
    and "\<And>f. hstrlen K S slot key f w = (Inr (case F f of Some v \<Rightarrow> length v | None \<Rightarrow> 0), w1)"
    and "\<And>fs. hmget K S slot key fs w = (Inr (map F fs), w1)"
    and "hlen K S slot key w = (Inr (word_of_nat (card (dom F))), w1)"
    and "hash_stored_bytes K S slot key w =
      (Inr (if F = Map.empty then None else Some (word_of_nat (total hash_cost F))), w1)"
    and "hgetall K S slot key w = (Inr (rows_of F (\<lambda>_. True)), w1)"
  using assms
proof (cases rule: read_meta_cases)
  case (absent w1)
  then show ?thesis
    by (intro that[of w1]) (simp_all add: hget_def hexists_def hstrlen_def hmget_def hlen_def
        hash_stored_bytes_def hgetall_def hash_read_meta_def rows_of_def dom_def)
next
  case (present cm w1)
  have R: "ns_ok (st_ns S)" "key_framed key" using assms(2) by (simp_all add: coll_ready_def)
  have get: "w_get K w1 (field_key S slot key (cm_version cm) f) = F f" for f
    using present(2,6) by (auto simp: world field_key_def coll_def)
  have c: "cm_bytes cm = word_of_nat (total hash_cost F)" "(ucast (cm_size cm) :: u64) = word_of_nat (card (dom F))"
    using present(7) ucast_of_unat[of "cm_size cm"] word_of_unat[of "cm_bytes cm"]
    by (simp_all add: counts_def)
  have all: "map (\<lambda>(k, v). (drop (length (subkey_prefix (st_ns S) slot key (cm_version cm))) k, v))
      (kv_for_each_prefix K (w_kv w1) (subkey_prefix (st_ns S) slot key (cm_version cm))) = rows_of F (\<lambda>_. True)"
    using rows_of_coll[OF finite_abs[OF present(2)] R] present(2,6) by (simp add: for_each_prefix)
  show ?thesis
    using present(1-4,11) get c all read_typed_meta_ticks[OF present(1)]
    by (intro that[of w1]) (auto simp: hget_def hexists_def hstrlen_def hmget_def hlen_def
        hash_stored_bytes_def hgetall_def hash_read_meta_def run_visits_fields Let_def)
qed

end

context kv_store
begin

text \<open>On a key of another type every operation answers \<open>WRONGTYPE\<close> and changes nothing.\<close>

lemma hash_wrongtype:
  assumes "ok (w_kv w)" "coll_view Hash S slot key (rows w) (st_clock S (w_ticks w)) = Inl err"
  obtains w1 where "ok (w_kv w1)" "rows w1 = rows w" "w_last w1 = w_last w"
    and "\<And>pairs. hset K S slot key pairs w = (Inl WrongType, w1)"
    and "\<And>fs. hdel K S slot key fs w = (Inl WrongType, w1)"
    and "\<And>f. hget K S slot key f w = (Inl WrongType, w1)"
    and "\<And>f d. hincr_by K S slot key f d w = (Inl WrongType, w1)"
    and "\<And>f v. hsetnx K S slot key f v w = (Inl WrongType, w1)"
    and "hgetall K S slot key w = (Inl WrongType, w1)" "hlen K S slot key w = (Inl WrongType, w1)"
    and "\<And>f. hexists K S slot key f w = (Inl WrongType, w1)" "\<And>fs. hmget K S slot key fs w = (Inl WrongType, w1)"
    and "\<And>f. hstrlen K S slot key f w = (Inl WrongType, w1)" "hash_stored_bytes K S slot key w = (Inl WrongType, w1)"
  using assms
proof (rule read_meta_error)
  fix w1
  assume "read_typed_meta Hash cm_decode K S slot key w = (Inl err, w1)" "ok (w_kv w1)"
    "rows w1 = rows w" "w_last w1 = w_last w" "err = WrongType"
  then show thesis
    by (intro that[of w1]) (simp_all add: hset_def hdel_def hget_def hincr_by_def hsetnx_def hgetall_def
        hlen_def hexists_def hmget_def hstrlen_def hash_stored_bytes_def hash_read_meta_def)
qed

text \<open>HINCRBY looks twice: the second look is one tick of the clock later, and finds what has not expired by then.\<close>

lemma hincr_by_spec:
  fixes delta :: i64
  assumes "ok (w_kv w)" "coll_ready Hash hash_cost S slot key (rows w) (w_last w)" "clock_sane S (w_last w)"
    and view: "coll_view Hash S slot key (rows w) (st_clock S (w_ticks w)) = Inr (e, F)"
    and small: "card (dom F) + 1 < 2 ^ 32" "total hash_cost F + length f + 20 < 2 ^ 64"
    and later: "aged (e, F) (st_clock S (Suc (w_ticks w))) = (e0, F0)"
  defines "cur \<equiv> (case F f of None \<Rightarrow> Some 0 | Some raw \<Rightarrow> parse_redis_i64 raw)"
  defines "nxt \<equiv> the cur + delta"
  defines "F' \<equiv> F0(f \<mapsto> show_i64 nxt)"
  obtains w' where "ok (w_kv w')"
    and "hincr_by K S slot key f delta w =
      (if cur = None then Inl NotInteger
       else if checked_add_i64 (the cur) delta = None then Inl Overflow
       else if total hash_cost F' > unat (st_max_value_bytes S) then Inl ValueTooLarge
       else Inr nxt, w')"
    and "coll_post Hash hash_cost S slot key (rows w) (w_last w) (rows w') (w_last w')
      (if cur = None \<or> checked_add_i64 (the cur) delta = None then (e, F)
       else if total hash_cost F' > unat (st_max_value_bytes S) then (e0, F0) else (e0, F'))"
proof -
  obtain w1 where w1: "ok (w_kv w1)" "w_last w1 = w_last w" "F \<noteq> Map.empty \<Longrightarrow> w_ticks w1 = Suc (w_ticks w)"
    "coll_post Hash hash_cost S slot key (rows w) (w_last w) (rows w1) (w_last w1) (e, F)"
    "hget K S slot key f w = (Inr (F f), w1)"
    using hash_read_spec[OF assms(1,2) view] by metis
  have eq: "hincr_by K S slot key f delta w = (case cur of None \<Rightarrow> (Inl NotInteger, w1)
     | Some c \<Rightarrow> (case checked_add_i64 c delta of None \<Rightarrow> (Inl Overflow, w1)
        | Some nxt \<Rightarrow> (case hset K S slot key [(f, show_i64 nxt)] w1 of
             (Inl e, w) \<Rightarrow> (Inl e, w) | (Inr _, w) \<Rightarrow> (Inr nxt, w))))"
    by (simp add: hincr_by_def w1(5) cur_def)
  show ?thesis
  proof (cases "cur = None \<or> checked_add_i64 (the cur) delta = None")
    case True
    then show ?thesis
      using that[of w1] w1 by (cases cur) (auto simp: eq)
  next
    case False
    then obtain c where c: "cur = Some c" "checked_add_i64 c delta = Some nxt"
      by (auto simp: nxt_def checked_add_i64_def split: if_splits)
    have aged: "aged (e, F) (st_clock S (w_ticks w1)) = (e0, F0)"
      using later w1(3) by (cases "F = Map.empty") (simp_all add: aged_def)
    have F0: "F0 = F \<or> F0 = Map.empty" using later by (auto simp: aged_def split: if_splits)
    have "pairs_cost [(f, show_i64 nxt)] \<le> length f + 20"
      by (simp add: pairs_cost_def length_show_i64)
    then have fits: "total hash_cost F0 + pairs_cost [(f, show_i64 nxt)] < 2 ^ 64" "card (dom F0) + length [(f, show_i64 nxt)] < 2 ^ 32"
      using small F0 by (auto simp: total_def)
    have F': "F0 ++ map_of (rev [(f, show_i64 nxt)]) = F'" by (simp add: F'_def)
    have view1: "coll_view Hash S slot key (rows w1) (st_clock S (w_ticks w1)) = Inr (e0, F0)"
      using coll_post_next(2)[OF w1(4)] aged by simp
    have sane: "clock_sane S (w_last w1)" using assms(3) w1(2) by simp
    obtain w2 where w2: "ok (w_kv w2)"
      "hset K S slot key [(f, show_i64 nxt)] w1 =
        (if total hash_cost F' > unat (st_max_value_bytes S) then Inl ValueTooLarge
         else Inr (word_of_nat (card (dom F') - card (dom F0))), w2)"
      "coll_post Hash hash_cost S slot key (rows w1) (w_last w1) (rows w2) (w_last w2)
        (e0, if total hash_cost F' > unat (st_max_value_bytes S) then F0 else F')"
      by (rule hset_spec[OF w1(1) coll_post_next(1)[OF w1(4)] sane view1 _ fits(2,1), unfolded F']) simp_all
    have "cur \<noteq> None" "the cur = c" using c by simp_all
    then show ?thesis
      using that[OF w2(1)] c w2(2) coll_post_trans[OF w1(4) w2(3)]
      by (simp add: eq split: if_splits)
  qed
qed

end

section \<open>Properties\<close>

text \<open>
  C2. HSET is a map update. Over any store that meets the contract of a key-value store, a hash
  that a reader sees as the field map \<open>F\<close> is afterwards \<open>F\<close> with the pairs written in order, the
  answer is the number of new fields, the byte and field counters in the metadata are right, and no
  row of another key has changed. When the result would exceed the size limit the answer is the
  error and the hash is as it was.
\<close>

theorem hset_is_map_update:
  assumes "kv_store K \<alpha> ok" "ok (w_kv w)"
    and "coll_ready Hash hash_cost S slot key (\<alpha> (w_kv w)) (w_last w)" "clock_sane S (w_last w)"
    and "coll_view Hash S slot key (\<alpha> (w_kv w)) (st_clock S (w_ticks w)) = Inr (e, F)"
    and "pairs \<noteq> []" "card (dom F) + length pairs < 2 ^ 32" "total hash_cost F + pairs_cost pairs < 2 ^ 64"
  shows "\<exists>w'. ok (w_kv w') \<and>
    (let F' = F ++ map_of (rev pairs); big = (total hash_cost F' > unat (st_max_value_bytes S)) in
     hset K S slot key pairs w =
       (if big then Inl ValueTooLarge else Inr (word_of_nat (card (dom F') - card (dom F))), w') \<and>
     coll_post Hash hash_cost S slot key (\<alpha> (w_kv w)) (w_last w) (\<alpha> (w_kv w')) (w_last w')
       (e, if big then F else F'))"
  unfolding Let_def by (rule kv_store.hset_spec[OF assms]) blast

theorem hset_is_map_update_witness:
  "\<exists>w'. hset mem_kv test_store 0 [107] [([1], [2]), ([3], [4]), ([1], [5])] empty_world = (Inr 2, w') \<and>
     coll_view Hash test_store 0 [107] (map_of (w_kv w')) 7 = Inr (0, [[1] \<mapsto> [5], [3] \<mapsto> [4]])"
proof -
  let ?p = "[([1], [2]), ([3], [4]), ([1], [5])] :: Pairs"
  have m: "Map.empty ++ map_of (rev ?p) = [[1] \<mapsto> [5], [3] \<mapsto> [4]]" by (auto simp: fun_eq_iff)
  have t: "total hash_cost [[1] \<mapsto> [5], [3] \<mapsto> [4]] = 4" by (simp add: total_def hash_cost_def)
  have d: "dom [[1::u8] \<mapsto> [5::u8], [3] \<mapsto> [4]] = {[1], [3]}" by auto
  have "\<exists>w'. mem_ok (w_kv w') \<and> hset mem_kv test_store 0 [107] ?p empty_world = (Inr 2, w') \<and>
     coll_post Hash hash_cost test_store 0 [107] Map.empty (w_last empty_world) (map_of (w_kv w')) (w_last w')
       (0, [[1] \<mapsto> [5], [3] \<mapsto> [4]])"
    using hset_is_map_update[OF mem.kv_store_axioms, of empty_world test_store 0 "[107]" 0 Map.empty ?p]
    unfolding m Let_def t d by (simp add: test_world pairs_cost_def total_def)
  then show ?thesis using coll_post_next(2) by (fastforce simp: aged_def)
qed

text \<open>
  C18. HDEL removes exactly the named fields, answers how many there were and keeps the expiry; a hash left
  empty is no key at all. Every read of a hash afterwards, HGET, HEXISTS, HSTRLEN, HMGET of any fields, HLEN, the byte
  count and HGETALL in field order, answers from the field map without them, or from no fields once the
  expiry has passed.
\<close>

theorem hdel_then_reads:
  assumes "kv_store K \<alpha> ok" "ok (w_kv w)"
    and "coll_ready Hash hash_cost S slot key (\<alpha> (w_kv w)) (w_last w)"
    and "coll_view Hash S slot key (\<alpha> (w_kv w)) (st_clock S (w_ticks w)) = Inr (e, F)"
  shows "\<exists>w' w''. hdel K S slot key fs w = (Inr (word_of_nat (card (dom F \<inter> set fs))), w') \<and>
    coll_post Hash hash_cost S slot key (\<alpha> (w_kv w)) (w_last w) (\<alpha> (w_kv w')) (w_last w') (e, F |` (- set fs)) \<and>
    (let F' = snd (aged (e, F |` (- set fs)) (st_clock S (w_ticks w'))) in
     (\<forall>f. hget K S slot key f w' = (Inr (F' f), w'') \<and> hexists K S slot key f w' = (Inr (f \<in> dom F'), w'') \<and>
       hstrlen K S slot key f w' = (Inr (case F' f of Some v \<Rightarrow> length v | None \<Rightarrow> 0), w'')) \<and>
     (\<forall>gs. hmget K S slot key gs w' = (Inr (map F' gs), w'')) \<and>
     hlen K S slot key w' = (Inr (word_of_nat (card (dom F'))), w'') \<and>
     hash_stored_bytes K S slot key w' =
       (Inr (if F' = Map.empty then None else Some (word_of_nat (total hash_cost F'))), w'') \<and>
     hgetall K S slot key w' = (Inr (rows_of F' (\<lambda>_. True)), w''))"
proof -
  let ?F = "F |` (- set fs)"
  obtain w' where 1: "ok (w_kv w')" "hdel K S slot key fs w = (Inr (word_of_nat (card (dom F \<inter> set fs))), w')"
    "coll_post Hash hash_cost S slot key (\<alpha> (w_kv w)) (w_last w) (\<alpha> (w_kv w')) (w_last w') (e, ?F)"
    by (rule kv_store.hdel_spec[OF assms]) blast
  obtain e' F' where aged: "aged (e, ?F) (st_clock S (w_ticks w')) = (e', F')" by fastforce
  have view: "coll_view Hash S slot key (\<alpha> (w_kv w')) (st_clock S (w_ticks w')) = Inr (e', F')"
    using coll_post_next(2)[OF 1(3)] aged by simp
  show ?thesis
    by (rule kv_store.hash_read_spec[OF assms(1) 1(1) coll_post_next(1)[OF 1(3)] view])
      (rule exI[of _ w'], simp add: 1(2,3) aged)
qed

text \<open>Two fields are written, one is deleted, and the reads see the other.\<close>

theorem hdel_then_reads_witness:
  "\<exists>w w' w''. hset mem_kv test_store 0 [107] [([1], [2]), ([3], [4, 5])] empty_world = (Inr 2, w) \<and>
     hdel mem_kv test_store 0 [107] [[1], [9]] w = (Inr 1, w') \<and>
     hmget mem_kv test_store 0 [107] [[1], [3]] w' = (Inr [None, Some [4, 5]], w'') \<and>
     hstrlen mem_kv test_store 0 [107] [3] w' = (Inr 2, w'') \<and> hlen mem_kv test_store 0 [107] w' = (Inr 1, w'')"
proof -
  let ?p = "[([1], [2]), ([3], [4, 5])] :: Pairs" and ?F = "[[1] \<mapsto> [2], [3] \<mapsto> [4, 5]] :: bytes \<rightharpoonup> bytes"
  have m: "Map.empty ++ map_of (rev ?p) = ?F" by (auto simp: fun_eq_iff)
  have t: "total hash_cost ?F = 5" by (simp add: total_def hash_cost_def)
  have d: "dom ?F = {[1], [3]}" by auto
  obtain w :: "MemKv world" where w: "mem_ok (w_kv w)" "hset mem_kv test_store 0 [107] ?p empty_world = (Inr 2, w)"
     "coll_post Hash hash_cost test_store 0 [107] Map.empty (w_last empty_world) (map_of (w_kv w)) (w_last w) (0, ?F)"
    by (rule kv_store.hset_spec[OF mem.kv_store_axioms, of empty_world test_store 0 "[107]" 0 Map.empty ?p, unfolded m t d])
      (simp_all add: test_world pairs_cost_def total_def)
  have F': "?F |` (- set [[1], [9]]) = [[3] \<mapsto> [4, 5]]" by (auto simp: fun_eq_iff restrict_map_def)
  have "coll_view Hash test_store 0 [107] (map_of (w_kv w)) (st_clock test_store (w_ticks w)) = Inr (0, ?F)"
    using coll_post_next(2)[OF w(3)] by (simp add: aged_def)
  from hdel_then_reads[OF mem.kv_store_axioms w(1) coll_post_next(1)[OF w(3)] this, of "[[1], [9]]"]
  show ?thesis using w(2) unfolding F' d by (auto simp: Let_def aged_def)
qed

text \<open>
  C19. HINCRBY on every branch, for a hash with any expiry. A missing field counts as zero; a field that is not the
  decimal of a 64-bit integer and a sum out of 64 bits are each their own error, and each leaves the hash as it
  was. Otherwise the field holds the decimal of the sum and the other fields and the expiry are kept, or the
  answer is the error of a hash over the size limit and nothing changes. The write comes one tick of the clock after the
  read: if the expiry passes in between, the field is written to a new hash with no expiry.
\<close>

theorem hincr_by_cases:
  assumes "kv_store K \<alpha> ok" "ok (w_kv w)"
    and "coll_ready Hash hash_cost S slot key (\<alpha> (w_kv w)) (w_last w)" "clock_sane S (w_last w)"
    and "coll_view Hash S slot key (\<alpha> (w_kv w)) (st_clock S (w_ticks w)) = Inr (e, F)"
    and "card (dom F) + 1 < 2 ^ 32" "total hash_cost F + length f + 20 < 2 ^ 64"
    and "aged (e, F) (st_clock S (w_ticks w + 1)) = (e0, F0)"
  shows "\<exists>r w' x. hincr_by K S slot key f delta w = (r, w') \<and> ok (w_kv w') \<and>
    coll_post Hash hash_cost S slot key (\<alpha> (w_kv w)) (w_last w) (\<alpha> (w_kv w')) (w_last w') x \<and>
    (case F f of
       Some raw \<Rightarrow> if \<forall>i. show_i64 i \<noteq> raw then r = Inl NotInteger \<and> x = (e, F) else True
     | None \<Rightarrow> True) \<and>
    (\<forall>i. F f = Some (show_i64 i) \<or> F f = None \<and> i = 0 \<longrightarrow>
       (if sint i + sint delta < - (2 ^ 63) \<or> sint i + sint delta \<ge> 2 ^ 63 then r = Inl Overflow \<and> x = (e, F)
        else if total hash_cost (F0(f \<mapsto> show_i64 (i + delta))) > unat (st_max_value_bytes S)
        then r = Inl ValueTooLarge \<and> x = (e0, F0)
        else r = Inr (i + delta) \<and> x = (e0, F0(f \<mapsto> show_i64 (i + delta)))))"
proof -
  have later: "aged (e, F) (st_clock S (Suc (w_ticks w))) = (e0, F0)" using assms(8) by simp
  let ?cur = "case F f of None \<Rightarrow> Some 0 | Some raw \<Rightarrow> parse_redis_i64 raw"
  let ?F' = "F0(f \<mapsto> show_i64 (the ?cur + delta))"
  let ?x = "if ?cur = None \<or> checked_add_i64 (the ?cur) delta = None then (e, F)
       else if total hash_cost ?F' > unat (st_max_value_bytes S) then (e0, F0) else (e0, ?F')"
  obtain w' where w': "ok (w_kv w')" "hincr_by K S slot key f delta w =
      (if ?cur = None then Inl NotInteger
       else if checked_add_i64 (the ?cur) delta = None then Inl Overflow
       else if total hash_cost ?F' > unat (st_max_value_bytes S) then Inl ValueTooLarge
       else Inr (the ?cur + delta), w')"
    "coll_post Hash hash_cost S slot key (\<alpha> (w_kv w)) (w_last w) (\<alpha> (w_kv w')) (w_last w') ?x"
    by (rule kv_store.hincr_by_spec[OF assms(1-7) later, of delta]) blast
  have ca: "checked_add_i64 c delta = None \<longleftrightarrow> sint c + sint delta < - (2 ^ 63) \<or> sint c + sint delta \<ge> 2 ^ 63" for c
    by (auto simp: checked_add_i64_def)
  show ?thesis
  proof (cases ?cur)
    case None
    then obtain raw where "F f = Some raw" "parse_redis_i64 raw = None" by (cases "F f") auto
    moreover have "show_i64 i \<noteq> raw" for i using calculation(2) parse_show_i64[of i] by auto
    ultimately show ?thesis using w' None by (intro exI[of _ "Inl NotInteger"] exI[of _ w'] exI[of _ "(e, F)"]) auto
  next
    case (Some c)
    then have c: "F f = Some (show_i64 i) \<or> F f = None \<and> i = 0 \<longleftrightarrow> i = c" for i
      using parse_show_i64 show_parse_i64 by (cases "F f") auto
    have raw: "case F f of Some raw \<Rightarrow> if \<forall>i. show_i64 i \<noteq> raw then P else True | None \<Rightarrow> True" for P
      using c[of c] by (auto split: option.split)
    show ?thesis
      unfolding c using w' raw Some
      by (intro exI[of _ "fst (hincr_by K S slot key f delta w)"] exI[of _ w'] exI[of _ ?x])
        (auto simp: ca)
  qed
qed

theorem hincr_by_cases_witness:
  "\<exists>w'. hincr_by mem_kv test_store 0 [107] [1] 5 empty_world = (Inr 5, w') \<and>
     coll_view Hash test_store 0 [107] (map_of (w_kv w')) 7 = Inr (0, [[1] \<mapsto> [53]])"
proof -
  have t: "total hash_cost [[1] \<mapsto> show_i64 5] \<le> 21"
    using length_show_i64[of 5] by (simp add: total_def hash_cost_def)
  have five: "show_i64 5 = [53]" by code_simp
  have "\<exists>w'. hincr_by mem_kv test_store 0 [107] [1] 5 empty_world = (Inr 5, w') \<and>
     coll_post Hash hash_cost test_store 0 [107] Map.empty (w_last empty_world) (map_of (w_kv w')) (w_last w')
       (0, [[1] \<mapsto> show_i64 5])"
    using hincr_by_cases[OF mem.kv_store_axioms, of empty_world test_store 0 "[107]" 0 Map.empty "[1]" 0 Map.empty 5] t
    by (auto simp: test_world total_def aged_def)
  then show ?thesis unfolding five using coll_post_next(2) by (fastforce simp: aged_def)
qed

end
