(* ===== verification/Flint_Sets.thy ===== *)
theory Flint_Sets
  imports Flint_Store "HOL-Library.Multiset"
begin

text \<open>
  The set store, \<open>crates/flint-storage/src/sets.rs\<close>: a set is a metadata row and one empty-valued
  subkey row per member.

  The \<open>HashSet\<close>s of the set algebra are lists without duplicates, in the order of insertion;
  their iteration order is unspecified in the code, and the lemmas speak of the sets. The random
  picks draw from a function from the number of the draw to the drawn word, which stands for the
  process's randomness.

  The lemmas show that the operations are those of finite sets, with right counters, that a
  refused write changes nothing, that a store replaces its destination whatever it was, and that
  a random pick is a part of the set of the right size.
\<close>

section \<open>Definitions\<close>

datatype SetOp = SInter | SUnion | SDiff

definition set_read_meta ::
  "'s Kv \<Rightarrow> TypeStore \<Rightarrow> u16 \<Rightarrow> bytes \<Rightarrow> 's world \<Rightarrow> (StoreError + ComplexMeta option) \<times> 's world"
where
  "set_read_meta = read_typed_meta Set cm_decode"

text \<open>The members of a call that the set does not have, each once.\<close>

fun sadd_fresh ::
  "'s Kv \<Rightarrow> TypeStore \<Rightarrow> u16 \<Rightarrow> bytes \<Rightarrow> u64 \<Rightarrow> 's world \<Rightarrow> bytes list \<Rightarrow> bytes list \<Rightarrow> bytes list"
where
  "sadd_fresh K S slot key version w seen [] = []"
| "sadd_fresh K S slot key version w seen (m # ms) =
     (if m \<notin> set seen \<and> w_get K w (field_key S slot key version m) = None
      then m # sadd_fresh K S slot key version w (m # seen) ms
      else sadd_fresh K S slot key version w (m # seen) ms)"

fun sadd_write :: "'s Kv \<Rightarrow> TypeStore \<Rightarrow> u16 \<Rightarrow> bytes \<Rightarrow> u64 \<Rightarrow> bytes list \<Rightarrow> 's world \<Rightarrow> 's world" where
  "sadd_write K S slot key version [] w = w"
| "sadd_write K S slot key version (m # ms) w =
     sadd_write K S slot key version ms (w_put K w (field_key S slot key version m) [])"

definition sadd ::
  "'s Kv \<Rightarrow> TypeStore \<Rightarrow> u16 \<Rightarrow> bytes \<Rightarrow> bytes list \<Rightarrow> 's world \<Rightarrow> (StoreError + u64) \<times> 's world"
where
  "sadd K S slot key ms w =
     (case set_read_meta K S slot key w of
        (Inl e, w) \<Rightarrow> (Inl e, w)
      | (Inr found, w) \<Rightarrow>
          (let (meta, w) = found_or_new Set S found w;
               fresh = sadd_fresh K S slot key (cm_version meta) w [] ms;
               bts = cm_bytes meta + lens fresh
           in if bts > st_max_value_bytes S then (Inl ValueTooLarge, w)
              else
                (let w = sadd_write K S slot key (cm_version meta) fresh w;
                     (now, w) = read_clock S w;
                     meta = cm_touch (meta\<lparr>cm_size := cm_size meta + word_of_nat (length fresh), cm_bytes := bts\<rparr>) now
                 in (Inr (word_of_nat (length fresh)), w_put K w (meta_key S slot key) (cm_encode meta)))))"

fun srem_loop ::
  "'s Kv \<Rightarrow> TypeStore \<Rightarrow> u16 \<Rightarrow> bytes \<Rightarrow> u64 \<Rightarrow> bytes list \<Rightarrow> u64 \<times> u64 \<times> 's world \<Rightarrow> u64 \<times> u64 \<times> 's world"
where
  "srem_loop K S slot key version [] st = st"
| "srem_loop K S slot key version (m # ms) (removed, bts, w) =
     (case w_delete K w (field_key S slot key version m) of
        (True, w) \<Rightarrow>
          srem_loop K S slot key version ms (removed + 1, saturating_sub bts (word_of_nat (length m)), w)
      | (False, w) \<Rightarrow> srem_loop K S slot key version ms (removed, bts, w))"

definition srem ::
  "'s Kv \<Rightarrow> TypeStore \<Rightarrow> u16 \<Rightarrow> bytes \<Rightarrow> bytes list \<Rightarrow> 's world \<Rightarrow> (StoreError + u64) \<times> 's world"
where
  "srem K S slot key ms w =
     (case set_read_meta K S slot key w of
        (Inl e, w) \<Rightarrow> (Inl e, w)
      | (Inr None, w) \<Rightarrow> (Inr 0, w)
      | (Inr (Some meta), w) \<Rightarrow>
          (let (removed, bts, w) = srem_loop K S slot key (cm_version meta) ms (0, cm_bytes meta, w)
           in settle_removed K S slot key meta removed bts w))"

definition sismember ::
  "'s Kv \<Rightarrow> TypeStore \<Rightarrow> u16 \<Rightarrow> bytes \<Rightarrow> bytes \<Rightarrow> 's world \<Rightarrow> (StoreError + bool) \<times> 's world"
where
  "sismember K S slot key m w =
     (case set_read_meta K S slot key w of
        (Inl e, w) \<Rightarrow> (Inl e, w)
      | (Inr None, w) \<Rightarrow> (Inr False, w)
      | (Inr (Some meta), w) \<Rightarrow>
          (Inr (w_get K w (field_key S slot key (cm_version meta) m) \<noteq> None), w))"

fun smismember ::
  "'s Kv \<Rightarrow> TypeStore \<Rightarrow> u16 \<Rightarrow> bytes \<Rightarrow> bytes list \<Rightarrow> 's world \<Rightarrow> (StoreError + bool list) \<times> 's world"
where
  "smismember K S slot key [] w = (Inr [], w)"
| "smismember K S slot key (m # ms) w =
     (case sismember K S slot key m w of
        (Inl e, w) \<Rightarrow> (Inl e, w)
      | (Inr b, w) \<Rightarrow>
          (case smismember K S slot key ms w of
             (Inl e, w) \<Rightarrow> (Inl e, w)
           | (Inr bs, w) \<Rightarrow> (Inr (b # bs), w)))"

definition set_stored_bytes ::
  "'s Kv \<Rightarrow> TypeStore \<Rightarrow> u16 \<Rightarrow> bytes \<Rightarrow> 's world \<Rightarrow> (StoreError + u64 option) \<times> 's world"
where
  "set_stored_bytes K S slot key w =
     (case set_read_meta K S slot key w of
        (Inl e, w) \<Rightarrow> (Inl e, w)
      | (Inr found, w) \<Rightarrow> (Inr (map_option cm_bytes found), w))"

definition smembers ::
  "'s Kv \<Rightarrow> TypeStore \<Rightarrow> u16 \<Rightarrow> bytes \<Rightarrow> 's world \<Rightarrow> (StoreError + bytes list) \<times> 's world"
where
  "smembers K S slot key w =
     (case set_read_meta K S slot key w of
        (Inl e, w) \<Rightarrow> (Inl e, w)
      | (Inr None, w) \<Rightarrow> (Inr [], w)
      | (Inr (Some meta), w) \<Rightarrow>
          (let p = subkey_prefix (st_ns S) slot key (cm_version meta)
           in (Inr (rev (snd (run_visits (\<lambda>k _ out. (True, drop (length p) k # out))
                 (kv_for_each_prefix K (w_kv w) p) []))), w)))"

definition scard ::
  "'s Kv \<Rightarrow> TypeStore \<Rightarrow> u16 \<Rightarrow> bytes \<Rightarrow> 's world \<Rightarrow> (StoreError + u64) \<times> 's world"
where
  "scard K S slot key w =
     (case set_read_meta K S slot key w of
        (Inl e, w) \<Rightarrow> (Inl e, w)
      | (Inr found, w) \<Rightarrow> (Inr (case found of None \<Rightarrow> 0 | Some m \<Rightarrow> ucast (cm_size m)), w))"

definition sreplace ::
  "'s Kv \<Rightarrow> TypeStore \<Rightarrow> u16 \<Rightarrow> bytes \<Rightarrow> bytes list \<Rightarrow> 's world \<Rightarrow> (StoreError + u64) \<times> 's world"
where
  "sreplace K S slot key ms w =
     (if lens (remdups ms) > st_max_value_bytes S then (Inl ValueTooLarge, w)
      else
        (let w = snd (w_delete K w (meta_key S slot key))
         in if ms = [] then (Inr 0, w)
            else
              (case sadd K S slot key ms w of
                 (Inl e, w) \<Rightarrow> (Inl e, w)
               | (Inr _, w) \<Rightarrow> scard K S slot key w)))"

text \<open>The set algebra: every key's type first, then the fold with its early exit.\<close>

fun sop_check ::
  "'s Kv \<Rightarrow> TypeStore \<Rightarrow> u16 \<Rightarrow> bytes list \<Rightarrow> 's world \<Rightarrow> StoreError option \<times> 's world"
where
  "sop_check K S slot [] w = (None, w)"
| "sop_check K S slot (k # ks) w =
     (case set_read_meta K S slot k w of
        (Inl e, w) \<Rightarrow> (Some e, w)
      | (Inr _, w) \<Rightarrow> sop_check K S slot ks w)"

definition sop_apply :: "SetOp \<Rightarrow> bytes list \<Rightarrow> bytes list \<Rightarrow> bytes list" where
  "sop_apply op acc other =
     (case op of
        SInter \<Rightarrow> filter (\<lambda>m. m \<in> set other) acc
      | SUnion \<Rightarrow> acc @ filter (\<lambda>m. m \<notin> set acc) other
      | SDiff \<Rightarrow> filter (\<lambda>m. m \<notin> set other) acc)"

fun sop_loop ::
  "'s Kv \<Rightarrow> TypeStore \<Rightarrow> u16 \<Rightarrow> SetOp \<Rightarrow> bytes list \<Rightarrow> bytes list \<Rightarrow> 's world
   \<Rightarrow> (StoreError + bytes list) \<times> 's world"
where
  "sop_loop K S slot op [] acc w = (Inr acc, w)"
| "sop_loop K S slot op (k # ks) acc w =
     (case smembers K S slot k w of
        (Inl e, w) \<Rightarrow> (Inl e, w)
      | (Inr ms, w) \<Rightarrow>
          (let acc = sop_apply op acc (remdups ms)
           in if acc = [] \<and> op \<noteq> SUnion then (Inr acc, w) else sop_loop K S slot op ks acc w))"

definition sop ::
  "'s Kv \<Rightarrow> TypeStore \<Rightarrow> u16 \<Rightarrow> SetOp \<Rightarrow> bytes list \<Rightarrow> 's world \<Rightarrow> (StoreError + bytes list) \<times> 's world"
where
  "sop K S slot op keys w =
     (case keys of
        [] \<Rightarrow> (Inr [], w)
      | first # rest \<Rightarrow>
          (case sop_check K S slot keys w of
             (Some e, w) \<Rightarrow> (Inl e, w)
           | (None, w) \<Rightarrow>
               (case smembers K S slot first w of
                  (Inl e, w) \<Rightarrow> (Inl e, w)
                | (Inr ms, w) \<Rightarrow> sop_loop K S slot op rest (remdups ms) w)))"

text \<open>The pick: a partial Fisher-Yates shuffle, or independent draws.\<close>

definition swap :: "'a list \<Rightarrow> nat \<Rightarrow> nat \<Rightarrow> 'a list" where
  "swap xs i j = xs[i := xs ! j, j := xs ! i]"

definition random_pick :: "(nat \<Rightarrow> u64) \<Rightarrow> 'a list \<Rightarrow> i64 \<Rightarrow> 'a list" where
  "random_pick rnd items cnt =
     (if items = [] then []
      else if sint cnt \<ge> 0 then
        (let tk = min (nat (sint cnt)) (length items);
             n = length items
         in take tk (foldl (\<lambda>xs i. swap xs i (i + unat (rnd i) mod (n - i))) items
              [0 ..< min tk (n - 1)]))
      else map (\<lambda>i. items ! (unat (rnd i) mod length items)) [0 ..< nat (- sint cnt)])"

definition spop ::
  "'s Kv \<Rightarrow> TypeStore \<Rightarrow> (nat \<Rightarrow> u64) \<Rightarrow> u16 \<Rightarrow> bytes \<Rightarrow> u64 \<Rightarrow> 's world
   \<Rightarrow> (StoreError + bytes list) \<times> 's world"
where
  "spop K S rnd slot key cnt w =
     (if cnt = 0 then (Inr [], w)
      else
        (case smembers K S slot key w of
           (Inl e, w) \<Rightarrow> (Inl e, w)
         | (Inr ms, w) \<Rightarrow>
             (let picked = random_pick rnd ms (min cnt (word_of_nat (length ms)))
              in if picked = [] then (Inr picked, w)
                 else
                   (case srem K S slot key picked w of
                      (Inl e, w) \<Rightarrow> (Inl e, w)
                    | (Inr _, w) \<Rightarrow> (Inr picked, w)))))"

definition srandmember ::
  "'s Kv \<Rightarrow> TypeStore \<Rightarrow> (nat \<Rightarrow> u64) \<Rightarrow> u16 \<Rightarrow> bytes \<Rightarrow> i64 \<Rightarrow> 's world
   \<Rightarrow> (StoreError + bytes list) \<times> 's world"
where
  "srandmember K S rnd slot key cnt w =
     (case smembers K S slot key w of
        (Inl e, w) \<Rightarrow> (Inl e, w)
      | (Inr ms, w) \<Rightarrow> (Inr (random_pick rnd ms cnt), w))"

definition smove ::
  "'s Kv \<Rightarrow> TypeStore \<Rightarrow> u16 \<Rightarrow> bytes \<Rightarrow> bytes \<Rightarrow> bytes \<Rightarrow> 's world \<Rightarrow> (StoreError + bool) \<times> 's world"
where
  "smove K S slot src dst m w =
     (case set_read_meta K S slot src w of
        (Inl e, w) \<Rightarrow> (Inl e, w)
      | (Inr None, w) \<Rightarrow> (Inr False, w)
      | (Inr (Some _), w) \<Rightarrow>
          (case set_read_meta K S slot dst w of
             (Inl e, w) \<Rightarrow> (Inl e, w)
           | (Inr _, w) \<Rightarrow>
               (case sismember K S slot src m w of
                  (Inl e, w) \<Rightarrow> (Inl e, w)
                | (Inr False, w) \<Rightarrow> (Inr False, w)
                | (Inr True, w) \<Rightarrow>
                    if src = dst then (Inr True, w)
                    else
                      (case sadd K S slot dst [m] w of
                         (Inl e, w) \<Rightarrow> (Inl e, w)
                       | (Inr _, w) \<Rightarrow>
                           (case srem K S slot src [m] w of
                              (Inl e, w) \<Rightarrow> (Inl e, w)
                            | (Inr _, w) \<Rightarrow> (Inr True, w))))))"

section \<open>Notions the lemmas use\<close>

text \<open>A field map after members have been added to it.\<close>

definition set_add :: "(bytes \<rightharpoonup> bytes) \<Rightarrow> bytes list \<Rightarrow> bytes \<rightharpoonup> bytes" where
  "set_add F ms = (\<lambda>m. if F m = None \<and> m \<in> set ms then Some [] else F m)"

text \<open>
  What the keys of a command are, at every reading of the clock during it: \<open>V k\<close> is the set at
  \<open>k\<close> with its expiry, or the error of a key of another type.
\<close>

definition sets_at ::
  "('s \<Rightarrow> bytes \<rightharpoonup> bytes) \<Rightarrow> ('s \<Rightarrow> bool) \<Rightarrow> TypeStore \<Rightarrow> u16 \<Rightarrow> bytes set \<Rightarrow>
   (bytes \<Rightarrow> StoreError + u64 \<times> (bytes \<rightharpoonup> bytes)) \<Rightarrow> 's world \<Rightarrow> bool"
where
  "sets_at f good S slot keys V w \<longleftrightarrow> good (w_kv w) \<and>
     (\<forall>k \<in> keys. coll_ready Set set_cost S slot k (f (w_kv w)) (w_last w) \<and>
        (\<forall>n. coll_view Set S slot k (f (w_kv w)) (st_clock S n) = V k))"

text \<open>The members of such a key, and the answer of the set algebra.\<close>

definition members_of :: "StoreError + u64 \<times> (bytes \<rightharpoonup> bytes) \<Rightarrow> bytes set" where
  "members_of v = (case v of Inl _ \<Rightarrow> {} | Inr (_, F) \<Rightarrow> dom F)"

definition sop_result :: "SetOp \<Rightarrow> bytes set \<Rightarrow> bytes set list \<Rightarrow> bytes set" where
  "sop_result op A Bs =
     (case op of SInter \<Rightarrow> A \<inter> \<Inter> (set Bs) | SUnion \<Rightarrow> A \<union> \<Union> (set Bs) | SDiff \<Rightarrow> A - \<Union> (set Bs))"

section \<open>Lemmas\<close>

lemma set_add_dom [simp]: "dom (set_add F ms) = dom F \<union> set ms"
  by (auto simp: set_add_def split: if_splits)

lemma set_add_Cons: "set_add F (m # ms) = set_add (if F m = None then F(m \<mapsto> []) else F) ms"
  by (auto simp: set_add_def fun_eq_iff)

lemma set_add_nonempty: "ms \<noteq> [] \<Longrightarrow> set_add F ms \<noteq> Map.empty"
  using set_add_dom[of F ms] by (metis Un_empty dom_empty set_empty)

lemma total_set_add:
  assumes "finite (dom F)" "distinct fresh" "set fresh \<inter> dom F = {}"
  shows "total set_cost (set_add F fresh) = total set_cost F + sum_list (map length fresh)"
    and "card (dom (set_add F fresh)) = card (dom F) + length fresh"
proof -
  show "total set_cost (set_add F fresh) = total set_cost F + sum_list (map length fresh)"
    using assms
  proof (induction fresh arbitrary: F)
    case Nil
    then show ?case by (simp add: set_add_def)
  next
    case (Cons m ms)
    then have "F m = None" by auto
    then show ?case
      using Cons.IH[of "F(m \<mapsto> [])"] Cons.prems total_upd_new[OF Cons.prems(1), of m set_cost "[]"]
      by (simp add: set_add_Cons set_cost_def[of m] flip: fun_upd_def)
  qed
  have "card (dom F \<union> set fresh) = card (dom F) + card (set fresh)"
    using assms by (intro card_Un_disjoint) auto
  then show "card (dom (set_add F fresh)) = card (dom F) + length fresh"
    using assms(2) by (simp add: distinct_card)
qed

context kv_store
begin

lemma sadd_fresh:
  fixes S slot key version seen ms
  assumes "ok (w_kv w)"
  defines "fresh \<equiv> sadd_fresh K S slot key version w seen ms"
  shows "distinct fresh"
    and "set fresh = {m \<in> set ms. m \<notin> set seen \<and> coll (rows w) (st_ns S) slot key version m = None}"
    and "length fresh \<le> length ms" and "sum_list (map length fresh) \<le> sum_list (map length ms)"
proof -
  have "distinct (sadd_fresh K S slot key version w seen ms) \<and>
    set (sadd_fresh K S slot key version w seen ms) =
      {m \<in> set ms. m \<notin> set seen \<and> coll (rows w) (st_ns S) slot key version m = None} \<and>
    length (sadd_fresh K S slot key version w seen ms) \<le> length ms \<and>
    sum_list (map length (sadd_fresh K S slot key version w seen ms)) \<le> sum_list (map length ms)"
    using assms(1)
    by (induction ms arbitrary: seen) (auto simp: world coll_def field_key_def le_SucI trans_le_add2)
  then show "distinct fresh"
    "set fresh = {m \<in> set ms. m \<notin> set seen \<and> coll (rows w) (st_ns S) slot key version m = None}"
    "length fresh \<le> length ms" "sum_list (map length fresh) \<le> sum_list (map length ms)"
    by (simp_all add: fresh_def)
qed

lemma sadd_write:
  assumes "ok (w_kv w)" "ns_ok (st_ns S)" "key_framed key" "version \<le> w_last w"
    and "versions_below (rows w) (w_last w)"
    and "distinct ms" "set ms \<inter> dom (coll (rows w) (st_ns S) slot key version) = {}"
  shows "ok (w_kv (sadd_write K S slot key version ms w)) \<and>
    w_last (sadd_write K S slot key version ms w) = w_last w \<and>
    coll (rows (sadd_write K S slot key version ms w)) (st_ns S) slot key version =
      set_add (coll (rows w) (st_ns S) slot key version) ms \<and>
    versions_below (rows (sadd_write K S slot key version ms w)) (w_last w) \<and>
    only_rows (own_rows (st_ns S) slot key) (rows w) (rows (sadd_write K S slot key version ms w))"
  using assms
proof (induction ms arbitrary: w)
  case Nil
  then show ?case by (simp add: set_add_def)
next
  case (Cons m ms)
  let ?w1 = "w_put K w (field_key S slot key version m) []"
  have w1: "ok (w_kv ?w1)" "w_last ?w1 = w_last w"
    "coll (rows ?w1) (st_ns S) slot key version = (coll (rows w) (st_ns S) slot key version)(m \<mapsto> [])"
    "versions_below (rows ?w1) (w_last w)" "only_rows (own_rows (st_ns S) slot key) (rows w) (rows ?w1)"
    using Cons.prems by (simp_all add: world field_key_def coll_subkey versions_below_subkey only_rows_upd)
  have None: "coll (rows w) (st_ns S) slot key version m = None" using Cons.prems(7) by auto
  have dis: "set ms \<inter> dom (coll (rows ?w1) (st_ns S) slot key version) = {}"
    using Cons.prems(6,7) by (simp add: w1(3))
  show ?case
    using Cons.IH[OF w1(1) Cons.prems(2,3) _ _ _ dis] Cons.prems(4,6) None w1
    by (auto simp: set_add_Cons simp flip: fun_upd_def intro: only_rows_trans)
qed

lemma sadd_spec:
  assumes "ok (w_kv w)" "coll_ready Set set_cost S slot key (rows w) (w_last w)" "clock_sane S (w_last w)"
    and view: "coll_view Set S slot key (rows w) (st_clock S (w_ticks w)) = Inr (e, F)"
    and ne: "ms \<noteq> []" and small: "card (dom F) + length ms < 2 ^ 32"
    and fits: "total set_cost F + sum_list (map length ms) < 2 ^ 64"
  defines "F' \<equiv> set_add F ms"
  obtains w' where "ok (w_kv w')"
    and "sadd K S slot key ms w = (if total set_cost F' > unat (st_max_value_bytes S) then Inl ValueTooLarge
        else Inr (word_of_nat (card (set ms - dom F))), w')"
    and "coll_post Set set_cost S slot key (rows w) (w_last w) (rows w') (w_last w')
        (e, if total set_cost F' > unat (st_max_value_bytes S) then F else F')"
proof -
  let ?now = "st_clock S (w_ticks w)" and ?mk = "meta_key S slot key"
  obtain found w1 cm w2 where r: "read_typed_meta Set cm_decode K S slot key w = (Inr found, w1)"
    "found_or_new Set S found w1 = (cm, w2)" and w2: "ok (w_kv w2)" "rows w2 = reaped (rows w) ?now ?mk"
    "w_last w \<le> w_last w2" "cm_version cm \<le> w_last w2" "versions_below (rows w2) (w_last w2)"
    and cm: "coll (rows w2) (st_ns S) slot key (cm_version cm) = F" "counts set_cost F cm"
    "mh_expire_ms (cm_header cm) = e" "from_flags (mh_flags (cm_header cm)) = Some Set"
    using found_or_new[OF assms(1-4)] by blast
  have R: "ns_ok (st_ns S)" "key_framed key" using assms(2) by (simp_all add: coll_ready_def)
  have F: "finite (dom F)" "unat (cm_bytes cm) = total set_cost F" "unat (cm_size cm) = card (dom F)"
    using cm(2) by (simp_all add: counts_def)
  define fresh where "fresh = sadd_fresh K S slot key (cm_version cm) w2 [] ms"
  note fr = sadd_fresh[OF w2(1), of S slot key "cm_version cm" "[]" ms, folded fresh_def, unfolded cm(1)]
  have set: "set fresh = set ms - dom F" "set fresh \<inter> dom F = {}" using fr(2) by auto
  have F': "F' = set_add F fresh" using set(1) by (auto simp: F'_def set_add_def fun_eq_iff)
  note tot = total_set_add[OF F(1) fr(1) set(2), folded F']
  have b: "unat (cm_bytes cm + lens fresh) = total set_cost F'"
    using tot(1) F(2) fits fr(4) lens_unat[of fresh] by (simp add: unat_word_ariths(1))
  have len: "length fresh = card (set ms - dom F)" using fr(1) set(1) by (metis distinct_card)
  show ?thesis
  proof (cases "total set_cost F' > unat (st_max_value_bytes S)")
    case True
    then have "sadd K S slot key ms w = (Inl ValueTooLarge, w2)"
      using b r by (simp add: sadd_def set_read_meta_def Let_def word_less_nat_alt fresh_def)
    moreover have "coll_post Set set_cost S slot key (rows w) (w_last w) (rows w2) (w_last w2) (e, F)"
      unfolding w2(2) using assms(2) view w2(3) by (rule coll_post_reaped)
    ultimately show ?thesis using that[of w2] w2(1) True by simp
  next
    case False
    let ?w3 = "sadd_write K S slot key (cm_version cm) fresh w2"
    let ?w4 = "snd (read_clock S ?w3)"
    let ?cm = "cm_touch (cm\<lparr>cm_size := cm_size cm + word_of_nat (length fresh), cm_bytes := cm_bytes cm + lens fresh\<rparr>)
       (st_clock S (w_ticks ?w3))"
    have w3: "ok (w_kv ?w3)" "w_last ?w3 = w_last w2" "coll (rows ?w3) (st_ns S) slot key (cm_version cm) = F'"
      "versions_below (rows ?w3) (w_last w2)" "only_rows (own_rows (st_ns S) slot key) (rows w2) (rows ?w3)"
      using sadd_write[OF w2(1) R w2(4,5) fr(1), of slot] set(2) by (simp_all add: cm(1) F')
    have ne': "F' \<noteq> Map.empty" using set_add_nonempty[OF ne] by (simp add: F'_def)
    have "unat (cm_size cm + word_of_nat (length fresh)) = card (dom F')"
      using tot(2) F(3) small fr(3) by (simp add: unat_word_ariths(1) unat_of_nat)
    then have "counts set_cost F' ?cm" using b F(1) by (simp add: counts_def F'_def)
    moreover have "only_rows (own_rows (st_ns S) slot key) (rows w) (rows ?w3)"
      using w3(5) w2(2) only_rows_trans only_rows_reaped by (metis meta_key_def)
    ultimately have "ok (w_kv (w_put K ?w4 ?mk (cm_encode ?cm)))" "coll_post Set set_cost S slot key (rows w) (w_last w)
        (rows (w_put K ?w4 ?mk (cm_encode ?cm))) (w_last (w_put K ?w4 ?mk (cm_encode ?cm))) (e, F')"
      using commit_meta[of ?w4 S key slot "rows w" "w_last w" ?cm F' set_cost Set e]
        w3 w2 R ne' cm(3,4) from_flags_v2_flags[OF cm(4)] by simp_all
    moreover have "sadd K S slot key ms w = (Inr (word_of_nat (length fresh)), w_put K ?w4 ?mk (cm_encode ?cm))"
      using False b r by (simp add: sadd_def set_read_meta_def Let_def word_less_nat_alt case_prod_beta fresh_def)
    ultimately show ?thesis using that False len by simp
  qed
qed

end

context kv_store
begin

lemma srem_loop:
  assumes "ok (w_kv w)" "ns_ok (st_ns S)" "key_framed key"
    and "coll (rows w) (st_ns S) slot key version = F" "finite (dom F)"
    and "unat bts = total set_cost F" "unat removed + card (dom F) < 2 ^ 32"
    and "versions_below (rows w) l"
  shows "\<exists>r b w'. srem_loop K S slot key version ms (removed, bts, w) = (r, b, w') \<and> ok (w_kv w') \<and>
    w_last w' = w_last w \<and> coll (rows w') (st_ns S) slot key version = F |` (- set ms) \<and>
    unat b = total set_cost (F |` (- set ms)) \<and>
    unat r + card (dom (F |` (- set ms))) = unat removed + card (dom F) \<and>
    versions_below (rows w') l \<and> only_rows (own_rows (st_ns S) slot key) (rows w) (rows w')"
  using assms(1,4-)
proof (induction ms arbitrary: w F bts removed)
  case Nil
  then show ?case by (auto simp: restrict_map_def)
next
  case (Cons m ms)
  let ?sk = "field_key S slot key version m"
  obtain w1 where w: "w_delete K w ?sk = (m \<in> dom F, w1)" "ok (w_kv w1)" "rows w1 = (rows w)(?sk := None)"
    "w_last w1 = w_last w"
  proof
    show "w_delete K w ?sk = (m \<in> dom F, snd (w_delete K w ?sk))"
      using Cons.prems(1,2) by (auto simp: world prod_eq_iff coll_def field_key_def)
  qed (use Cons.prems(1) in \<open>simp_all add: world\<close>)
  have coll: "coll (rows w1) (st_ns S) slot key version = F(m := None)"
    using w Cons.prems(2) assms(2,3) by (simp add: field_key_def coll_subkey)
  have vb: "versions_below (rows w1) l" using Cons.prems(6) w(3) by (auto simp: versions_below_def)
  have only: "only_rows (own_rows (st_ns S) slot key) (rows w) (rows w1)"
    using w(3) by (simp add: only_rows_upd)
  have fin: "finite (dom (F(m := None)))" using Cons.prems(3) by simp
  show ?case
  proof (cases "F m")
    case None
    then have same: "F(m := None) = F" by (simp add: fun_upd_idem)
    have step: "srem_loop K S slot key version (m # ms) (removed, bts, w) =
        srem_loop K S slot key version ms (removed, bts, w1)"
      using w(1) None by (auto simp: domIff)
    from Cons.IH[OF w(2) coll[unfolded same] Cons.prems(3,4,5) vb] show ?thesis
      unfolding step list.set restrict_comp_insert' same w(4) using only by (auto intro: only_rows_trans)
  next
    case (Some old)
    let ?b = "saturating_sub bts (word_of_nat (length m))"
    have t: "total set_cost F = total set_cost (F(m := None)) + length m"
      using total_del[OF Cons.prems(3) Some, of set_cost] set_cost_def[of m old] by simp
    have c: "card (dom F) = card (dom (F(m := None))) + 1"
      using card_dom_del[OF Cons.prems(3) Some] .
    have r: "unat (removed + 1) = unat removed + 1"
      using Cons.prems(5) c u64_len_add[of removed 1] by simp
    have b: "unat ?b = total set_cost (F(m := None))" using t Cons.prems(4) by (simp add: u64_len_sub)
    have step: "srem_loop K S slot key version (m # ms) (removed, bts, w) =
        srem_loop K S slot key version ms (removed + 1, ?b, w1)"
      using w(1) Some by (auto simp: domI)
    have "unat (removed + 1) + card (dom (F(m := None))) < 2 ^ 32" using Cons.prems(5) c r by simp
    from Cons.IH[OF w(2) coll fin b this vb] show ?thesis
      unfolding step list.set restrict_comp_insert' c r w(4)
      using only by (auto simp flip: fun_upd_def intro: only_rows_trans)
  qed
qed

lemma srem_spec:
  fixes ms :: "bytes list"
  assumes "ok (w_kv w)" "coll_ready Set set_cost S slot key (rows w) (w_last w)"
    and view: "coll_view Set S slot key (rows w) (st_clock S (w_ticks w)) = Inr (e, F)"
  defines "F' \<equiv> F |` (- set ms)"
  obtains w' where "ok (w_kv w')"
    and "srem K S slot key ms w = (Inr (word_of_nat (card (dom F \<inter> set ms))), w')"
    and "coll_post Set set_cost S slot key (rows w) (w_last w) (rows w') (w_last w') (e, F')"
  using assms(1-3)
proof (cases rule: read_meta_cases)
  case (absent w1)
  then show ?thesis using that[of w1] by (simp add: srem_def set_read_meta_def F'_def)
next
  case (present cm w1)
  have R: "ns_ok (st_ns S)" "key_framed key" "versions_below (rows w1) (w_last w1)"
    using assms(2) present(3,5) by (simp_all add: coll_ready_def)
  have F: "finite (dom F)" "unat (cm_bytes cm) = total set_cost F" "unat (cm_size cm) = card (dom F)"
    using present(7) by (simp_all add: counts_def)
  have card: "card (dom F) < 2 ^ 32" using F(3) unsigned_less[of "cm_size cm", where 'a = nat] by simp
  obtain r b w2 where loop: "srem_loop K S slot key (cm_version cm) ms (0, cm_bytes cm, w1) = (r, b, w2)"
    and w2: "ok (w_kv w2)" "w_last w2 = w_last w1" "coll (rows w2) (st_ns S) slot key (cm_version cm) = F'"
    "unat b = total set_cost F'" "unat r + card (dom F') = card (dom F)"
    "versions_below (rows w2) (w_last w1)" "only_rows (own_rows (st_ns S) slot key) (rows w1) (rows w2)"
    using srem_loop[OF present(2) R(1,2) present(6) F(1,2) _ R(3), of 0 ms] card
    unfolding F'_def by auto
  have only: "only_rows (own_rows (st_ns S) slot key) (rows w) (rows w2)" using w2(7) present(5) by simp
  obtain w' where "settle_removed K S slot key cm r b w2 = (Inr (word_of_nat (card (dom F \<inter> set ms))), w')"
    and "ok (w_kv w')" "coll_post Set set_cost S slot key (rows w) (w_last w) (rows w') (w_last w') (e, F')"
    using settle_removed[OF w2(1) R(1,2) _ only _ w2(3) present(7,9,8) F'_def[THEN meta_eq_to_obj_eq] w2(4,5), of "w_last w"]
      w2(2,6) present(3) by auto
  then show ?thesis using that present(1) loop by (simp add: srem_def set_read_meta_def)
qed

lemma set_read_spec:
  assumes "ok (w_kv w)" "coll_ready Set set_cost S slot key (rows w) (w_last w)"
    and view: "coll_view Set S slot key (rows w) (st_clock S (w_ticks w)) = Inr (e, F)"
  obtains found w1 where "ok (w_kv w1)" "w_last w1 = w_last w"
    and "coll_post Set set_cost S slot key (rows w) (w_last w) (rows w1) (w_last w1) (e, F)"
    and "set_read_meta K S slot key w = (Inr found, w1)" "found = None \<longleftrightarrow> F = Map.empty"
    and "\<And>m. sismember K S slot key m w = (Inr (m \<in> dom F), w1)"
    and "scard K S slot key w = (Inr (word_of_nat (card (dom F))), w1)"
    and "set_stored_bytes K S slot key w =
      (Inr (if F = Map.empty then None else Some (word_of_nat (total set_cost F))), w1)"
    and "smembers K S slot key w = (Inr (sorted_list_of_set (dom F)), w1)"
    and "\<And>rnd c. srandmember K S rnd slot key c w = (Inr (random_pick rnd (sorted_list_of_set (dom F)) c), w1)"
  using assms
proof (cases rule: read_meta_cases)
  case (absent w1)
  then show ?thesis
    by (intro that[of w1 None]) (simp_all add: sismember_def scard_def set_stored_bytes_def smembers_def
        srandmember_def set_read_meta_def)
next
  case (present cm w1)
  have R: "ns_ok (st_ns S)" "key_framed key" using assms(2) by (simp_all add: coll_ready_def)
  have get: "w_get K w1 (field_key S slot key (cm_version cm) f) = F f" for f
    using present(2,6) by (auto simp: world field_key_def coll_def)
  have c: "cm_bytes cm = word_of_nat (total set_cost F)" "(ucast (cm_size cm) :: u64) = word_of_nat (card (dom F))"
    using present(7) ucast_of_unat[of "cm_size cm"] word_of_unat[of "cm_bytes cm"]
    by (simp_all add: counts_def)
  let ?p = "subkey_prefix (st_ns S) slot key (cm_version cm)"
  have "map (\<lambda>(k, v). (drop (length ?p) k, v)) (kv_for_each_prefix K (w_kv w1) ?p) = rows_of F (\<lambda>_. True)"
    using rows_of_coll[OF finite_abs[OF present(2)] R] present(2,6) by (simp add: for_each_prefix)
  then have "map fst (map (\<lambda>(k, v). (drop (length ?p) k, v)) (kv_for_each_prefix K (w_kv w1) ?p)) =
      sorted_list_of_set (dom F)" by (simp only: rows_of_def) (simp add: comp_def dom_def)
  then have all: "map (\<lambda>x. drop (length ?p) (fst x)) (kv_for_each_prefix K (w_kv w1) ?p) = sorted_list_of_set (dom F)"
    by (simp add: comp_def case_prod_beta)
  have visit: "run_visits (\<lambda>k _ out. (True, drop n k # out)) xs out = (True, rev (map (\<lambda>x. drop n (fst x)) xs) @ out)"
    for n xs and out :: "bytes list" by (induction xs arbitrary: out) auto
  have members: "smembers K S slot key w = (Inr (sorted_list_of_set (dom F)), w1)"
    using present(1) all by (simp add: smembers_def set_read_meta_def visit Let_def)
  show ?thesis
    using present(1-4,11) get c members
    by (intro that[of w1 "Some cm"]) (auto simp: sismember_def scard_def
        set_stored_bytes_def srandmember_def set_read_meta_def)
qed

end

context kv_store
begin

text \<open>Reading one of the keys changes none of them.\<close>

lemma sets_at_post:
  assumes "sets_at abs ok S slot keys V w" "k \<in> keys" "V k = Inr x" "ok (w_kv w1)" "w_last w1 = w_last w"
    and post: "coll_post Set set_cost S slot k (rows w) (w_last w) (rows w1) (w_last w1) x"
  shows "sets_at abs ok S slot keys V w1"
proof -
  have "coll_ready Set set_cost S slot k' (rows w1) (w_last w1) \<and>
      (\<forall>n. coll_view Set S slot k' (rows w1) (st_clock S n) = V k')" if k': "k' \<in> keys" for k'
  proof (cases "k' = k")
    case True
    have "coll_ready Set set_cost S slot k (rows w) (w_last w)"
      using assms(1,2) by (simp add: sets_at_def)
    note coll_view_aged[OF this]
    then show ?thesis
      using True assms(1,2,3) coll_post_next[OF post] by (simp add: sets_at_def)
  next
    case False
    then show ?thesis
      using assms(1) k' coll_post_other[OF post, of Set set_cost slot k'] by (simp add: sets_at_def)
  qed
  then show ?thesis using assms(4) by (simp add: sets_at_def)
qed

lemma sets_at_error:
  assumes "sets_at abs ok S slot keys V w" "k \<in> keys" "V k = Inl e"
  obtains w1 where "set_read_meta K S slot k w = (Inl WrongType, w1)" "sets_at abs ok S slot keys V w1"
proof -
  have "ok (w_kv w)" "coll_view Set S slot k (rows w) (st_clock S (w_ticks w)) = Inl e"
    using assms by (simp_all add: sets_at_def)
  then obtain w1 where "read_typed_meta Set cm_decode K S slot k w = (Inl e, w1)" "ok (w_kv w1)"
    "rows w1 = rows w" "w_last w1 = w_last w" "e = WrongType"
    by (rule read_meta_error)
  then show ?thesis using that[of w1] assms(1) by (simp add: set_read_meta_def sets_at_def)
qed

lemma sets_at_members:
  assumes "sets_at abs ok S slot keys V w" "k \<in> keys" "V k = Inr x"
  obtains found w1 where "set_read_meta K S slot k w = (Inr found, w1)" "sets_at abs ok S slot keys V w1"
    and "w_last w1 = w_last w" and "found = None \<longleftrightarrow> members_of (V k) = {}"
    and "smembers K S slot k w = (Inr (sorted_list_of_set (members_of (V k))), w1)"
    and "\<And>m. sismember K S slot k m w = (Inr (m \<in> members_of (V k)), w1)"
proof -
  obtain e F where x: "x = (e, F)" by fastforce
  have "ok (w_kv w)" "coll_ready Set set_cost S slot k (rows w) (w_last w)"
    "coll_view Set S slot k (rows w) (st_clock S (w_ticks w)) = Inr (e, F)"
    using assms x by (simp_all add: sets_at_def)
  then obtain found w1 where "ok (w_kv w1)" "w_last w1 = w_last w"
    "coll_post Set set_cost S slot k (rows w) (w_last w) (rows w1) (w_last w1) (e, F)"
    "set_read_meta K S slot k w = (Inr found, w1)" "found = None \<longleftrightarrow> F = Map.empty"
    "\<And>m. sismember K S slot k m w = (Inr (m \<in> dom F), w1)"
    "smembers K S slot k w = (Inr (sorted_list_of_set (dom F)), w1)"
    by (rule set_read_spec) blast
  then show ?thesis
    using that[of found w1] sets_at_post[OF assms] assms(3) x by (simp add: members_of_def)
qed

lemma sets_at_finite:
  assumes "sets_at abs ok S slot keys V w" "k \<in> keys" shows "finite (members_of (V k))"
proof (cases "V k")
  case (Inr x)
  have "ok (w_kv w)" "coll_ready Set set_cost S slot k (rows w) (w_last w)"
    "coll_view Set S slot k (rows w) (st_clock S 0) = Inr x"
    using assms Inr by (simp_all add: sets_at_def)
  then have "finite (dom (snd x))"
    using finite_coll[OF finite_abs] by (auto simp: coll_view_def coll_ready_def split: sum.splits option.splits)
  then show ?thesis using Inr by (cases x) (simp add: members_of_def)
qed (simp add: members_of_def)

lemma sop_check:
  assumes "sets_at abs ok S slot keys V w" "set ks \<subseteq> keys"
  shows "\<exists>w1. sop_check K S slot ks w = (if \<exists>k \<in> set ks. isl (V k) then Some WrongType else None, w1) \<and>
    sets_at abs ok S slot keys V w1"
  using assms
proof (induction ks arbitrary: w)
  case Nil
  then show ?case by simp
next
  case (Cons k ks)
  have k: "k \<in> keys" "set ks \<subseteq> keys" using Cons.prems(2) by simp_all
  show ?case
  proof (cases "V k")
    case (Inl e)
    obtain w1 where "set_read_meta K S slot k w = (Inl WrongType, w1)" "sets_at abs ok S slot keys V w1"
      using sets_at_error[OF Cons.prems(1) k(1) Inl] by blast
    then show ?thesis using Inl by simp
  next
    case (Inr x)
    obtain found w1 where 1: "set_read_meta K S slot k w = (Inr found, w1)" "sets_at abs ok S slot keys V w1"
      by (rule sets_at_members[OF Cons.prems(1) k(1) Inr]) blast
    with Cons.IH[OF 1(2) k(2)] Inr show ?thesis by simp
  qed
qed

lemma sop_loop:
  assumes "sets_at abs ok S slot keys V w" "set ks \<subseteq> keys" "\<forall>k \<in> set ks. \<not> isl (V k)" "distinct acc"
  shows "\<exists>out w1. sop_loop K S slot op ks acc w = (Inr out, w1) \<and> sets_at abs ok S slot keys V w1 \<and>
    distinct out \<and> set out = sop_result op (set acc) (map (\<lambda>k. members_of (V k)) ks)"
  using assms
proof (induction ks arbitrary: w acc)
  case Nil
  then show ?case by (cases op) (auto simp: sop_result_def)
next
  case (Cons k ks)
  obtain x where x: "V k = Inr x" using Cons.prems(3) by (cases "V k") auto
  have k: "k \<in> keys" "set ks \<subseteq> keys" "\<forall>k \<in> set ks. \<not> isl (V k)" using Cons.prems(2,3) by simp_all
  obtain w1 where 1: "smembers K S slot k w = (Inr (sorted_list_of_set (members_of (V k))), w1)"
    "sets_at abs ok S slot keys V w1"
    by (rule sets_at_members[OF Cons.prems(1) k(1) x]) blast
  have fin: "finite (members_of (V k))" using sets_at_finite[OF Cons.prems(1) k(1)] .
  let ?acc = "sop_apply op acc (remdups (sorted_list_of_set (members_of (V k))))"
  have acc: "distinct ?acc" "set ?acc = sop_result op (set acc) [members_of (V k)]"
    using Cons.prems(4) fin by (cases op; auto simp: sop_apply_def sop_result_def)+
  show ?case
  proof (cases "?acc = [] \<and> op \<noteq> SUnion")
    case True
    then have "sop_result op (set acc) (map (\<lambda>k. members_of (V k)) (k # ks)) = {}"
      using acc(2) by (cases op) (auto simp: sop_result_def)
    with True show ?thesis using 1 by (simp add: Let_def)
  next
    case False
    have eq: "sop_result op (set acc) (map (\<lambda>k. members_of (V k)) (k # ks)) = sop_result op (set ?acc) (map (\<lambda>k. members_of (V k)) ks)"
      unfolding acc(2) by (cases op) (auto simp: sop_result_def)
    have "sop_loop K S slot op (k # ks) acc w = sop_loop K S slot op ks ?acc w1"
      using False 1(1) by (auto simp: Let_def)
    with Cons.IH[OF 1(2) k(2,3) acc(1)] show ?thesis unfolding eq by simp
  qed
qed

lemma sop_spec:
  assumes "sets_at abs ok S slot (set keys) V w"
  shows "\<exists>r w1. sop K S slot op keys w = (r, w1) \<and> sets_at abs ok S slot (set keys) V w1 \<and>
    (if \<exists>k \<in> set keys. isl (V k) then r = Inl WrongType
     else \<exists>out. r = Inr out \<and> distinct out \<and> set out = (case keys of [] \<Rightarrow> {}
        | k # ks \<Rightarrow> sop_result op (members_of (V k)) (map (\<lambda>k. members_of (V k)) ks)))"
proof (cases keys)
  case Nil
  then show ?thesis using assms by (simp add: sop_def)
next
  case (Cons k ks)
  obtain w1 where 1: "sop_check K S slot keys w = (if \<exists>k \<in> set keys. isl (V k) then Some WrongType else None, w1)"
    "sets_at abs ok S slot (set keys) V w1"
    using sop_check[OF assms order_refl] by blast
  show ?thesis
  proof (cases "\<exists>k \<in> set keys. isl (V k)")
    case True
    then have "sop K S slot op keys w = (Inl WrongType, w1)" using Cons 1(1) by (simp add: sop_def)
    with True 1(2) show ?thesis by simp
  next
    case False
    then obtain x where x: "V k = Inr x" using Cons by (cases "V k") auto
    obtain w2 where 2: "smembers K S slot k w1 = (Inr (sorted_list_of_set (members_of (V k))), w2)"
      "sets_at abs ok S slot (set keys) V w2"
      by (rule sets_at_members[OF 1(2) _ x]) (use Cons in auto)
    have "finite (members_of (V k))" using sets_at_finite[OF assms, of k] Cons by simp
    then obtain out w3 where "sop_loop K S slot op ks (remdups (sorted_list_of_set (members_of (V k)))) w2 = (Inr out, w3)"
      "sets_at abs ok S slot (set keys) V w3" "distinct out"
      "set out = sop_result op (members_of (V k)) (map (\<lambda>k. members_of (V k)) ks)"
      using sop_loop[OF 2(2), of ks "remdups (sorted_list_of_set (members_of (V k)))" op] False Cons by auto
    then have "sop K S slot op keys w = (Inr out, w3) \<and> sets_at abs ok S slot (set keys) V w3 \<and> distinct out \<and>
        set out = sop_result op (members_of (V k)) (map (\<lambda>k. members_of (V k)) ks)"
      using 1(1) 2(1) False Cons by (simp add: sop_def)
    with False Cons show ?thesis by auto
  qed
qed

end

lemma mset_picks:
  assumes "length xs = n" "\<And>i. i \<in> set is \<Longrightarrow> i < n"
  shows "mset (foldl (\<lambda>xs i. swap xs i (i + unat (rnd i :: u64) mod (n - i))) xs is) = mset xs"
  using assms
proof (induction "is" arbitrary: xs)
  case (Cons i "is")
  let ?j = "i + unat (rnd i) mod (n - i)"
  have i: "i < n" using Cons.prems(2) by simp
  then have "?j < n" using mod_less_divisor[of "n - i" "unat (rnd i)"] by linarith
  then have "mset (swap xs i ?j) = mset xs" "length (swap xs i ?j) = n"
    using i Cons.prems(1) mset_swap[of ?j xs i] by (simp_all add: swap_def)
  with Cons show ?case by simp
qed simp

lemma random_pick_distinct:
  assumes "sint c \<ge> 0" "distinct items"
  shows "distinct (random_pick rnd items c)" and "set (random_pick rnd items c) \<subseteq> set items"
    and "length (random_pick rnd items c) = min (nat (sint c)) (length items)"
proof -
  let ?n = "length items" and ?tk = "min (nat (sint c)) (length items)"
  let ?xs = "foldl (\<lambda>xs i. swap xs i (i + unat (rnd i) mod (?n - i))) items [0 ..< min ?tk (?n - 1)]"
  define xs where "xs = ?xs"
  have m: "mset xs = mset items" if "items \<noteq> []"
    unfolding xs_def using that by (intro mset_picks) auto
  have xs: "distinct xs" "set xs = set items" "length xs = ?n" if "items \<noteq> []"
    using mset_eq_imp_distinct_iff[OF m[OF that]] mset_eq_setD[OF m[OF that]] mset_eq_length[OF m[OF that]] assms(2)
    by simp_all
  have r: "random_pick rnd items c = (if items = [] then [] else take ?tk xs)"
    using assms(1) by (simp add: random_pick_def Let_def xs_def)
  have "distinct (random_pick rnd items c) \<and> set (random_pick rnd items c) \<subseteq> set items \<and>
      length (random_pick rnd items c) = ?tk"
  proof (cases "items = []")
    case False
    have "random_pick rnd items c = take ?tk xs" using r False by simp
    then show ?thesis using xs[OF False] set_take_subset[of ?tk xs] by (auto simp: distinct_take)
  qed (simp add: random_pick_def)
  then show "distinct (random_pick rnd items c)" "set (random_pick rnd items c) \<subseteq> set items"
    "length (random_pick rnd items c) = ?tk" by simp_all
qed

lemma random_pick_repeat:
  assumes "sint c < 0" "items \<noteq> []"
  shows "length (random_pick rnd items c) = nat (- sint c)" and "set (random_pick rnd items c) \<subseteq> set items"
  using assms by (auto simp: random_pick_def)

lemma total_set_cost: "total set_cost F = sum length (dom F)"
  by (simp add: total_def set_cost_def)

context kv_store
begin

lemma spop_spec:
  assumes "ok (w_kv w)" "coll_ready Set set_cost S slot key (rows w) (w_last w)"
    and view: "\<And>n. coll_view Set S slot key (rows w) (st_clock S n) = Inr (e, F)" and "c \<noteq> 0"
  shows "\<exists>picked w'. spop K S rnd slot key c w = (Inr picked, w') \<and> ok (w_kv w') \<and>
    distinct picked \<and> set picked \<subseteq> dom F \<and> length picked = min (unat c) (card (dom F)) \<and>
    coll_post Set set_cost S slot key (rows w) (w_last w) (rows w') (w_last w') (e, F |` (- set picked))"
proof -
  obtain found w1 where w1: "ok (w_kv w1)" "w_last w1 = w_last w"
    "coll_post Set set_cost S slot key (rows w) (w_last w) (rows w1) (w_last w1) (e, F)"
    "smembers K S slot key w = (Inr (sorted_list_of_set (dom F)), w1)"
    by (rule set_read_spec[OF assms(1,2) view]) blast
  have fin: "finite (dom F)" and small: "card (dom F) < 2 ^ 32"
    using coll_view_finite[OF assms(2) view[of 0]] by auto
  let ?ms = "sorted_list_of_set (dom F)" and ?c = "min c (word_of_nat (card (dom F)))"
  have uc: "unat ?c = min (unat c) (card (dom F))"
    using small by (simp add: min_def word_le_nat_alt unat_of_nat)
  then have "unat ?c < 2 ^ 63" using small by simp
  then have "sint ?c = int (unat ?c)" by (rule sint_small)
  with uc have pick: "distinct (random_pick rnd ?ms ?c)" "set (random_pick rnd ?ms ?c) \<subseteq> dom F"
    "length (random_pick rnd ?ms ?c) = min (unat c) (card (dom F))"
    using random_pick_distinct[of ?c ?ms rnd] fin by simp_all
  show ?thesis
  proof (cases "random_pick rnd ?ms ?c = []")
    case True
    then show ?thesis using pick w1 assms(4) by (auto simp: spop_def Let_def restrict_map_def)
  next
    case ne: False
    have v: "coll_view Set S slot key (rows w1) (st_clock S (w_ticks w1)) = Inr (e, F)"
      using coll_post_next(2)[OF w1(3)] coll_view_aged[OF assms(2) view] by simp
    obtain w2 where w2: "ok (w_kv w2)" "srem K S slot key (random_pick rnd ?ms ?c) w1 =
        (Inr (word_of_nat (card (dom F \<inter> set (random_pick rnd ?ms ?c)))), w2)"
      "coll_post Set set_cost S slot key (rows w1) (w_last w1) (rows w2) (w_last w2) (e, F |` (- set (random_pick rnd ?ms ?c)))"
      using srem_spec[OF w1(1) coll_post_next(1)[OF w1(3)] v] by blast
    have "spop K S rnd slot key c w = (Inr (random_pick rnd ?ms ?c), w2)"
      using assms(4) ne w1(4) w2(2) by (simp add: spop_def Let_def)
    then show ?thesis using pick w2(1) coll_post_trans[OF w1(3) w2(3)] by blast
  qed
qed

lemma sreplace_spec:
  assumes "ok (w_kv w)" "ns_ok (st_ns S)" "key_framed key" "versions_below (rows w) (w_last w)"
    and sane: "clock_sane S (w_last w)"
    and small: "length ms < 2 ^ 32" "sum_list (map length ms) < 2 ^ 64"
  shows "\<exists>w'. (if sum length (set ms) > unat (st_max_value_bytes S)
      then sreplace K S slot key ms w = (Inl ValueTooLarge, w)
      else sreplace K S slot key ms w = (Inr (word_of_nat (card (set ms))), w') \<and> ok (w_kv w') \<and>
        coll_post Set set_cost S slot key (rows w) (w_last w) (rows w') (w_last w') (0, set_add Map.empty ms))"
proof -
  let ?mx = "unat (st_max_value_bytes S)"
  have "sum length (set ms) = sum_list (map length (remdups ms))" by (simp add: sum_list_distinct_conv_sum_set)
  also have le: "\<dots> \<le> sum_list (map length ms)"
    by (induction ms) (auto simp: trans_le_add2)
  finally have lens: "unat (lens (remdups ms)) = sum length (set ms)" "sum length (set ms) < 2 ^ 64"
    using small(2) lens_unat[of "remdups ms"] by (simp_all add: sum_list_distinct_conv_sum_set)
  have big: "lens (remdups ms) > st_max_value_bytes S \<longleftrightarrow> sum length (set ms) > ?mx"
    using lens(1) by (simp add: word_less_nat_alt)
  show ?thesis
  proof (cases "sum length (set ms) > ?mx")
    case True
    then show ?thesis using big by (simp add: sreplace_def)
  next
    case False
    let ?w1 = "snd (w_delete K w (meta_key S slot key))"
    have w1: "ok (w_kv ?w1)" "w_last ?w1 = w_last w" using assms(1) by (simp_all add: world)
    have post: "coll_post Set set_cost S slot key (rows w) (w_last w) (rows ?w1) (w_last ?w1) (0, Map.empty)"
      using commit_delete(2)[OF assms(1-4) only_rows_refl order_refl] .
    show ?thesis
    proof (cases "ms = []")
      case True
      then show ?thesis using False big w1 post by (auto simp: sreplace_def Let_def set_add_def)
    next
      case ne: False
      have view: "coll_view Set S slot key (rows ?w1) now = Inr (0, Map.empty)" for now
        using coll_post_next(2)[OF post] by (simp add: aged_def)
      have tot: "total set_cost (set_add Map.empty ms) = sum length (set ms)" by (simp add: total_set_cost)
      obtain w2 where w2: "ok (w_kv w2)" "sadd K S slot key ms ?w1 = (Inr (word_of_nat (card (set ms))), w2)"
        "coll_post Set set_cost S slot key (rows ?w1) (w_last ?w1) (rows w2) (w_last w2) (0, set_add Map.empty ms)"
        using sadd_spec[OF w1(1) coll_post_next(1)[OF post] _ view ne] small sane False tot w1(2)
        by (auto simp: not_less)
      have "coll_view Set S slot key (rows w2) (st_clock S (w_ticks w2)) = Inr (0, set_add Map.empty ms)"
        using coll_post_next(2)[OF w2(3)] set_add_nonempty[OF ne] by (simp add: aged_def)
      then obtain w3 where "ok (w_kv w3)" "w_last w3 = w_last w2"
        "coll_post Set set_cost S slot key (rows w2) (w_last w2) (rows w3) (w_last w3) (0, set_add Map.empty ms)"
        "scard K S slot key w2 = (Inr (word_of_nat (card (dom (set_add Map.empty ms)))), w3)"
        by (rule set_read_spec[OF w2(1) coll_post_next(1)[OF w2(3)]]) blast
      then show ?thesis
        using False big ne w2(2) coll_post_trans[OF coll_post_trans[OF post w2(3)]]
        by (auto simp: sreplace_def Let_def)
    qed
  qed
qed

lemma smove_spec:
  assumes at: "sets_at abs ok S slot {src, dst} V w" and V: "V src = Inr (es, Fs)" "V dst = Inr (ed, Fd)"
    and sane: "clock_sane S (w_last w)" and ne: "src \<noteq> dst"
    and small: "card (dom Fd) + 1 < 2 ^ 32" "total set_cost Fd + length m < 2 ^ 64"
  defines "full \<equiv> total set_cost (set_add Fd [m]) > unat (st_max_value_bytes S)"
  defines "moved \<equiv> m \<in> dom Fs \<and> \<not> full"
  shows "\<exists>w'. smove K S slot src dst m w = (if m \<in> dom Fs \<and> full then Inl ValueTooLarge else Inr moved, w') \<and>
    ok (w_kv w') \<and>
    (\<forall>n. coll_view Set S slot src (rows w') (st_clock S n) =
       Inr (aged (es, if moved then Fs(m := None) else Fs) (st_clock S n))) \<and>
    (\<forall>n. coll_view Set S slot dst (rows w') (st_clock S n) =
       Inr (aged (ed, if moved then set_add Fd [m] else Fd) (st_clock S n)))"
proof -
  have mem: "members_of (V src) = dom Fs" using V by (simp add: members_of_def)
  have same: "ok (w_kv w')" "coll_view Set S slot k (rows w') (st_clock S n) = Inr (aged x (st_clock S n))"
    "coll_ready Set set_cost S slot k (rows w') (w_last w')"
    if "sets_at abs ok S slot {src, dst} V w'" "V k = Inr x" "k \<in> {src, dst}" for w' k x n
    using that coll_view_aged[of Set set_cost S slot k "rows w'" "w_last w'" "st_clock S n" x]
    by (auto simp: sets_at_def)
  obtain f1 w1 where 1: "set_read_meta K S slot src w = (Inr f1, w1)" "sets_at abs ok S slot {src, dst} V w1"
    "f1 = None \<longleftrightarrow> members_of (V src) = {}" "w_last w1 = w_last w"
    by (rule sets_at_members[OF at _ V(1)]) auto
  obtain f2 w2 where 2: "set_read_meta K S slot dst w1 = (Inr f2, w2)" "sets_at abs ok S slot {src, dst} V w2"
    "w_last w2 = w_last w"
    by (rule sets_at_members[OF 1(2) _ V(2)]) (use 1(4) in auto)
  obtain w3 where 3: "sismember K S slot src m w2 = (Inr (m \<in> dom Fs), w3)" "sets_at abs ok S slot {src, dst} V w3"
    "w_last w3 = w_last w"
    by (rule sets_at_members[OF 2(2) _ V(1)]) (use 2(3) mem in auto)
  show ?thesis
  proof (cases "m \<in> dom Fs")
    case False
    have "\<exists>w'. smove K S slot src dst m w = (Inr False, w') \<and> sets_at abs ok S slot {src, dst} V w'"
      using 1 2 3 False by (cases f1) (auto simp: smove_def)
    then show ?thesis using False same V by (auto simp: moved_def)
  next
    case True
    then have f1: "f1 \<noteq> None" using 1(3) mem by auto
    have view: "coll_view Set S slot dst (rows w3) (st_clock S (w_ticks w3)) = Inr (ed, Fd)"
      using 3(2) V by (simp add: sets_at_def)
    obtain w4 where 4: "ok (w_kv w4)" "sadd K S slot dst [m] w3 = (if full then Inl ValueTooLarge
        else Inr (word_of_nat (card (set [m] - dom Fd))), w4)"
      "coll_post Set set_cost S slot dst (rows w3) (w_last w3) (rows w4) (w_last w4)
        (ed, if full then Fd else set_add Fd [m])"
      using sadd_spec[OF same(1)[OF 3(2) V(2)] same(3)[OF 3(2) V(2)] _ view, of "[m]"] small sane 3(3)
      unfolding full_def by auto
    have src: "coll_ready Set set_cost S slot src (rows w4) (w_last w4)"
      "coll_view Set S slot src (rows w4) (st_clock S n) = Inr (es, Fs)" for n
      using coll_post_other[OF 4(3) same(3)[OF 3(2) V(1)]] ne 3(2) V(1) by (simp_all add: sets_at_def)
    note aged_src = coll_view_aged[OF src]
    show ?thesis
    proof (cases full)
      case full: True
      have "smove K S slot src dst m w = (Inl ValueTooLarge, w4)"
        using 1 2 3 4(2) f1 ne True full by (auto simp: smove_def)
      then show ?thesis using True full 4(1) src(2) aged_src coll_post_next(2)[OF 4(3)] by (simp add: moved_def)
    next
      case ok: False
      obtain w5 where 5: "ok (w_kv w5)" "srem K S slot src [m] w4 = (Inr (word_of_nat (card (dom Fs \<inter> set [m]))), w5)"
        "coll_post Set set_cost S slot src (rows w4) (w_last w4) (rows w5) (w_last w5) (es, Fs |` (- set [m]))"
        by (rule srem_spec[OF 4(1) src, where ms = "[m]"]) blast
      have "Fs |` (- set [m]) = Fs(m := None)" by (auto simp: restrict_map_def)
      moreover have "smove K S slot src dst m w = (Inr True, w5)"
        using 1 2 3 4(2) 5(2) f1 ne True ok by (auto simp: smove_def)
      ultimately show ?thesis
        using True ok 5(1) coll_post_next(2)[OF 5(3)] coll_post_next(2)[OF 4(3)]
          coll_post_other(2)[OF 5(3) coll_post_next(1)[OF 4(3)]] ne
        by (simp add: moved_def)
    qed
  qed
qed

lemma set_wrongtype:
  assumes "ok (w_kv w)" "coll_view Set S slot key (rows w) (st_clock S (w_ticks w)) = Inl e"
  obtains w1 where "ok (w_kv w1)" "rows w1 = rows w" "w_last w1 = w_last w"
    and "\<And>ms. sadd K S slot key ms w = (Inl WrongType, w1)" "\<And>ms. srem K S slot key ms w = (Inl WrongType, w1)"
    and "\<And>m. sismember K S slot key m w = (Inl WrongType, w1)" "\<And>m ms. smismember K S slot key (m # ms) w = (Inl WrongType, w1)"
    and "scard K S slot key w = (Inl WrongType, w1)" "smembers K S slot key w = (Inl WrongType, w1)"
    and "set_stored_bytes K S slot key w = (Inl WrongType, w1)"
    and "\<And>rnd n. n \<noteq> 0 \<Longrightarrow> spop K S rnd slot key n w = (Inl WrongType, w1)"
    and "\<And>rnd n. srandmember K S rnd slot key n w = (Inl WrongType, w1)"
    and "\<And>dst m. smove K S slot key dst m w = (Inl WrongType, w1)"
    and "\<And>op keys. sop K S slot op (key # keys) w = (Inl WrongType, w1)"
  using assms
proof (rule read_meta_error)
  fix w1 assume "read_typed_meta Set cm_decode K S slot key w = (Inl e, w1)" "ok (w_kv w1)"
    "rows w1 = rows w" "w_last w1 = w_last w" "e = WrongType"
  then show thesis
    by (intro that[of w1]) (simp_all add: sadd_def srem_def sismember_def scard_def smembers_def set_stored_bytes_def
        spop_def srandmember_def smove_def sop_def set_read_meta_def)
qed

end

text \<open>A store that holds a set of two members, for the witnesses.\<close>

lemma test_set:
  obtains w :: "MemKv world" where "mem_ok (w_kv w)" "clock_sane test_store (w_last w)"
    "sets_at map_of mem_ok test_store 0 {[107], [108]}
       (\<lambda>k. Inr (0, if k = [107] then [[1] \<mapsto> [], [2] \<mapsto> []] else Map.empty)) w"
proof -
  let ?sub = "subkey_envelope [116] 0 [107] 5" and ?meta = "envelope Metadata [116] 0"
  let ?cm = "(cm_new Set 5)\<lparr>cm_size := 2, cm_bytes := 2\<rparr>" and ?F = "[[1] \<mapsto> [], [2] \<mapsto> []] :: bytes \<rightharpoonup> bytes"
  let ?w = "\<lparr>w_kv = mem_put (mem_put (mem_put [] (?sub [1]) []) (?sub [2]) []) (?meta [107]) (cm_encode ?cm), w_last = 5, w_ticks = 0\<rparr>"
  let ?m = "Map.empty(?sub [1] \<mapsto> [], ?sub [2] \<mapsto> [], ?meta [107] \<mapsto> cm_encode ?cm)"
  have ok: "mem_ok []" "ns_ok [116]" "key_framed [107]" "key_framed [108]" by (simp_all add: mem_ok_def ns_ok_def key_framed_def)
  have S: "st_ns test_store = [116]" "meta_key test_store 0 k = ?meta k" for k
    by (simp_all add: meta_key_def test_store_def store_new_def with_max_value_bytes_def)
  have mok: "mem_ok (w_kv ?w)" using ok(1) by (simp add: mem_ok_put del: mem_put.simps)
  have m: "map_of (w_kv ?w) = ?m" using ok(1) by (simp add: map_of_mem_put mem_ok_put del: mem_put.simps)
  have d: "cm_decode (cm_encode ?cm) = Some (cm_v2 ?cm)" using cm_decode_encode[of ?cm "[]"] by simp
  have t: "mh_value_type (cm_header (cm_v2 ?cm)) = Some Set" by code_simp
  have F: "coll ?m [116] 0 [107] 5 = ?F"
    using ok(2,3) by (simp add: coll_subkey) (simp add: coll_def)
  have none: "?m (?meta [108]) = None" using ok(2) by (simp add: envelope_inject)
  have vb: "versions_below ?m 5"
    by (intro versions_below_meta versions_below_subkey) (use ok in \<open>simp_all add: versions_below_def\<close>)
  have c: "counts set_cost ?F ?cm" by (simp add: counts_def total_def set_cost_def)
  have ready: "coll_ready Set set_cost test_store 0 k ?m 5" if "k \<in> {[107], [108]}" for k
    using that ok vb F none c t by (auto simp: coll_ready_def S coll_wf_def meta_at_def d cm_decode_header[OF d] counts_def)
  have view: "coll_view Set test_store 0 k ?m now = Inr (0, if k = [107] then ?F else Map.empty)" if "k \<in> {[107], [108]}" for k now
    using that F none t by (auto simp: coll_view_def typed_row_def S d cm_decode_header[OF d] mh_is_expired_def)
  have "clock_sane test_store 5"
    by (simp add: clock_sane_def can_advance_def test_store_def store_new_def with_max_value_bytes_def)
  then show ?thesis
    by (intro that[of ?w]) (use mok m ready view in \<open>simp_all add: sets_at_def del: mem_put.simps\<close>)
qed

section \<open>Properties\<close>

text \<open>
  C14. SINTER, SUNION and SDIFF compute the set algebra: with every key's set as a reader sees it,
  the answer lists exactly the members of the intersection, union or difference, each once, although
  the fold stops early on an empty accumulator; and a key of another type anywhere in the list is an
  error whatever the sets before it are.
\<close>

theorem sop_is_set_algebra:
  assumes "kv_store K \<alpha> ok" "sets_at \<alpha> ok S slot (set keys) V w"
  shows "\<exists>r w1. sop K S slot op keys w = (r, w1) \<and> sets_at \<alpha> ok S slot (set keys) V w1 \<and>
    (if \<exists>k \<in> set keys. isl (V k) then r = Inl WrongType
     else \<exists>out. r = Inr out \<and> distinct out \<and> set out = (case keys of [] \<Rightarrow> {}
        | k # ks \<Rightarrow> sop_result op (members_of (V k)) (map (\<lambda>k. members_of (V k)) ks)))"
  using assms by (rule kv_store.sop_spec)

theorem sop_is_set_algebra_witness:
  "\<exists>w out w1. sop mem_kv test_store 0 SDiff [[107], [108]] w = (Inr out, w1) \<and> distinct out \<and> set out = {[1], [2]}"
proof (rule test_set)
  fix w :: "MemKv world"
  assume "sets_at map_of mem_ok test_store 0 {[107], [108]} (\<lambda>k. Inr (0, if k = [107] then [[1] \<mapsto> [], [2] \<mapsto> []] else Map.empty)) w"
  then have "sets_at map_of mem_ok test_store 0 (set [[107], [108]]) (\<lambda>k. Inr (0, if k = [107] then [[1] \<mapsto> [], [2] \<mapsto> []] else Map.empty)) w" by simp
  from sop_is_set_algebra[OF mem.kv_store_axioms this, of SDiff] show ?thesis
    by (auto simp: members_of_def sop_result_def)
qed

text \<open>
  C22. SPOP removes exactly what it returns: distinct members of the set, as many as asked for or
  all there are, whatever the random source answers, and the set afterwards is the set without them.
\<close>

theorem spop_removes_what_it_returns:
  assumes "kv_store K \<alpha> ok" "ok (w_kv w)" "coll_ready Set set_cost S slot key (\<alpha> (w_kv w)) (w_last w)"
    and "\<And>n. coll_view Set S slot key (\<alpha> (w_kv w)) (st_clock S n) = Inr (e, F)" and "c \<noteq> 0"
  shows "\<exists>picked w'. spop K S rnd slot key c w = (Inr picked, w') \<and> ok (w_kv w') \<and>
    distinct picked \<and> set picked \<subseteq> dom F \<and> length picked = min (unat c) (card (dom F)) \<and>
    coll_post Set set_cost S slot key (\<alpha> (w_kv w)) (w_last w) (\<alpha> (w_kv w')) (w_last w') (e, F |` (- set picked))"
  using assms by (rule kv_store.spop_spec)

theorem spop_removes_what_it_returns_witness:
  "\<exists>w picked w'. spop mem_kv test_store (\<lambda>_. 9) 0 [107] 1 w = (Inr picked, w') \<and> (picked = [[1]] \<or> picked = [[2]])"
proof (rule test_set)
  fix w :: "MemKv world"
  let ?F = "[[1] \<mapsto> [], [2] \<mapsto> []] :: bytes \<rightharpoonup> bytes"
  assume w: "mem_ok (w_kv w)" "sets_at map_of mem_ok test_store 0 {[107], [108]} (\<lambda>k. Inr (0, if k = [107] then ?F else Map.empty)) w"
  have d: "dom ?F = {[1], [2]}" by auto
  have "\<exists>picked w'. spop mem_kv test_store (\<lambda>_. 9) 0 [107] 1 w = (Inr picked, w') \<and> set picked \<subseteq> dom ?F \<and> length picked = 1"
    using spop_removes_what_it_returns[OF mem.kv_store_axioms w(1), of test_store 0 "[107]" 0 ?F 1 "\<lambda>_. 9"] w(2)
    by (auto simp: sets_at_def d)
  then show ?thesis unfolding d by (auto simp: length_Suc_conv) blast+
qed

text \<open>
  C23. SMOVE never loses the member and never duplicates a move: it is in the destination and not in
  the source, or the answer is that it was not there or the destination is full and both sets are as
  they were.
\<close>

theorem smove_moves_or_keeps:
  assumes "kv_store K \<alpha> ok" "sets_at \<alpha> ok S slot {src, dst} V w" "V src = Inr (es, Fs)" "V dst = Inr (ed, Fd)"
    and "clock_sane S (w_last w)" "src \<noteq> dst" "card (dom Fd) + 1 < 2 ^ 32" "total set_cost Fd + length m < 2 ^ 64"
  shows "\<exists>w'. let full = (total set_cost (set_add Fd [m]) > unat (st_max_value_bytes S));
      moved = (m \<in> dom Fs \<and> \<not> full) in
    smove K S slot src dst m w = (if m \<in> dom Fs \<and> full then Inl ValueTooLarge else Inr moved, w') \<and>
    ok (w_kv w') \<and>
    (\<forall>n. coll_view Set S slot src (\<alpha> (w_kv w')) (st_clock S n) =
       Inr (aged (es, if moved then Fs(m := None) else Fs) (st_clock S n))) \<and>
    (\<forall>n. coll_view Set S slot dst (\<alpha> (w_kv w')) (st_clock S n) =
       Inr (aged (ed, if moved then set_add Fd [m] else Fd) (st_clock S n)))"
  unfolding Let_def using assms by (rule kv_store.smove_spec)

theorem smove_moves_or_keeps_witness:
  "\<exists>w w'. smove mem_kv test_store 0 [107] [108] [1] w = (Inr True, w') \<and>
     coll_view Set test_store 0 [107] (map_of (w_kv w')) 1 = Inr (0, [[2] \<mapsto> []]) \<and>
     coll_view Set test_store 0 [108] (map_of (w_kv w')) 1 = Inr (0, [[1] \<mapsto> []])"
proof (rule test_set)
  fix w :: "MemKv world"
  let ?F = "[[1] \<mapsto> [], [2] \<mapsto> []] :: bytes \<rightharpoonup> bytes"
  assume w: "clock_sane test_store (w_last w)" "sets_at map_of mem_ok test_store 0 {[107], [108]} (\<lambda>k. Inr (0, if k = [107] then ?F else Map.empty)) w"
  have t: "set_add Map.empty [[1]] = [[1] \<mapsto> []]" "?F([1] := None) = [[2] \<mapsto> []]"
    by (auto simp: set_add_def fun_eq_iff)
  show ?thesis
    using smove_moves_or_keeps[OF mem.kv_store_axioms w(2) _ _ w(1), of 0 ?F 0 Map.empty "[1]"] t
    by (auto simp: test_max total_def set_cost_def aged_def Let_def)
qed

end
