(* ===== verification/Flint_Value.thy ===== *)
theory Flint_Value
  imports Flint_Store
begin

text \<open>
  What it is for a key to hold a value of some type, for the types whose value is more than a field
  map. A \<open>kind\<close> says how a metadata row of the type is decoded, which value the rows of a
  key stand for, and when they are well formed. The lemmas are proved once, for every kind that
  meets the laws of \<open>value_kind\<close>, over every store that meets those of \<open>kv_store\<close>: what a
  metadata read finds, what writing or deleting a metadata row at the end of an operation gives, and
  that other keys are left alone.
\<close>

section \<open>Kinds\<close>

record ('m, 'a) kind =
  k_type :: ValueType
  k_decode :: "bytes \<Rightarrow> 'm option"
  k_header :: "'m \<Rightarrow> MetaHeader"
  k_content :: "(bytes \<rightharpoonup> bytes) \<Rightarrow> bytes \<Rightarrow> u16 \<Rightarrow> bytes \<Rightarrow> 'm \<Rightarrow> 'a"
  k_good :: "(bytes \<rightharpoonup> bytes) \<Rightarrow> bytes \<Rightarrow> u16 \<Rightarrow> bytes \<Rightarrow> 'm \<Rightarrow> bool"
  k_none :: 'a

text \<open>The rows of a key other than its metadata row.\<close>

definition sub_rows :: "bytes \<Rightarrow> u16 \<Rightarrow> bytes \<Rightarrow> bytes set" where
  "sub_rows ns slot key =
     {subkey_envelope ns slot key v f | v f. True} \<union> {zscore_prefix ns slot key v @ r | v r. True}"

text \<open>
  The value at a key as a reader at a time sees it, with its expiry; what it is at a later time;
  what every operation relies on and keeps; and what an operation has done when it leaves the value
  \<open>x\<close>, an expiry and a content.
\<close>

definition val_view ::
  "('m, 'a) kind \<Rightarrow> TypeStore \<Rightarrow> u16 \<Rightarrow> bytes \<Rightarrow> (bytes \<rightharpoonup> bytes) \<Rightarrow> u64 \<Rightarrow> StoreError + u64 \<times> 'a"
where
  "val_view Q S slot key m now =
     (case typed_row (k_type Q) (k_decode Q) m now (meta_key S slot key) of
        Inl e \<Rightarrow> Inl e
      | Inr None \<Rightarrow> Inr (0, k_none Q)
      | Inr (Some meta) \<Rightarrow> Inr (mh_expire_ms (k_header Q meta), k_content Q m (st_ns S) slot key meta))"

definition val_aged :: "('m, 'a) kind \<Rightarrow> u64 \<times> 'a \<Rightarrow> u64 \<Rightarrow> u64 \<times> 'a" where
  "val_aged Q x now = (if snd x = k_none Q \<or> fst x \<noteq> 0 \<and> fst x \<le> now then (0, k_none Q) else x)"

definition val_ready ::
  "('m, 'a) kind \<Rightarrow> TypeStore \<Rightarrow> u16 \<Rightarrow> bytes \<Rightarrow> (bytes \<rightharpoonup> bytes) \<Rightarrow> u64 \<Rightarrow> bool"
where
  "val_ready Q S slot key m l \<longleftrightarrow>
     ns_ok (st_ns S) \<and> key_framed key \<and> versions_below m l \<and>
     (case meta_at (k_type Q) (k_decode Q) m (meta_key S slot key) of
        Some meta \<Rightarrow> k_good Q m (st_ns S) slot key meta
      | None \<Rightarrow> True)"

definition val_post ::
  "('m, 'a) kind \<Rightarrow> TypeStore \<Rightarrow> u16 \<Rightarrow> bytes \<Rightarrow> (bytes \<rightharpoonup> bytes) \<Rightarrow> u64 \<Rightarrow>
   (bytes \<rightharpoonup> bytes) \<Rightarrow> u64 \<Rightarrow> u64 \<times> 'a \<Rightarrow> bool"
where
  "val_post Q S slot key m l m' l' x \<longleftrightarrow>
     (\<forall>now. val_view Q S slot key m' now = Inr (val_aged Q x now)) \<and>
     val_ready Q S slot key m' l' \<and> only_rows (own_rows (st_ns S) slot key) m m' \<and> l \<le> l'"

section \<open>Interfaces\<close>

locale value_kind =
  fixes Q :: "('m, 'a) kind"
  assumes header: "k_decode Q row = Some meta \<Longrightarrow> mh_decode row = Some (k_header Q meta)"
    and frame_content: "(\<And>k. k \<in> sub_rows ns slot key \<Longrightarrow> m' k = m k) \<Longrightarrow>
      k_content Q m' ns slot key meta = k_content Q m ns slot key meta"
    and frame_good: "(\<And>k. k \<in> sub_rows ns slot key \<Longrightarrow> m' k = m k) \<Longrightarrow>
      k_good Q m' ns slot key meta = k_good Q m ns slot key meta"
    and content: "k_good Q m ns slot key meta \<Longrightarrow> k_content Q m ns slot key meta \<noteq> k_none Q"

locale value_store = kv_store K abs ok + value_kind Q
  for K :: "'s Kv" and abs and ok and Q :: "('m, 'a) kind"

section \<open>Lemmas\<close>

lemma sub_rows_not_meta: "k \<in> sub_rows ns slot key \<Longrightarrow> k \<noteq> envelope Metadata ns' slot' key'"
  by (auto simp: sub_rows_def)

lemma val_post_trans:
  "val_post Q S slot key m l m' l' x \<Longrightarrow> val_post Q S slot key m' l' m'' l'' y \<Longrightarrow>
   val_post Q S slot key m l m'' l'' y"
  by (auto simp: val_post_def intro: only_rows_trans)

lemma val_post_next:
  assumes "val_post Q S slot key m l m' l' x"
  shows "val_ready Q S slot key m' l'" "val_view Q S slot key m' now = Inr (val_aged Q x now)"
  using assms by (simp_all add: val_post_def)

lemma empty_val_ready: "length key \<le> 65535 \<Longrightarrow> val_ready Q test_store slot key Map.empty l"
  by (simp add: val_ready_def test_store_def store_new_def with_max_value_bytes_def ns_ok_def key_framed_def
      versions_below_def meta_at_def)

lemma empty_val_view: "val_view Q S slot key Map.empty now = Inr (0, k_none Q)"
  by (simp add: val_view_def typed_row_def)

context value_kind
begin

lemma meta_content [simp]:
  "k_content Q (m(envelope Metadata ns' slot' key' := x)) ns slot key meta = k_content Q m ns slot key meta"
  by (rule frame_content) (auto dest: sub_rows_not_meta)

lemma meta_good [simp]:
  "k_good Q (m(envelope Metadata ns' slot' key' := x)) ns slot key meta = k_good Q m ns slot key meta"
  by (rule frame_good) (auto dest: sub_rows_not_meta)

lemma reaped_content:
  "k_content Q (reaped m now (meta_key S slot key)) ns slot' key' meta = k_content Q m ns slot' key' meta"
  "k_good Q (reaped m now (meta_key S slot key)) ns slot' key' meta = k_good Q m ns slot' key' meta"
  by (auto simp: reaped_def meta_key_def split: option.splits)

lemma val_found:
  assumes "val_ready Q S slot key m l"
    and "typed_row (k_type Q) (k_decode Q) m now (meta_key S slot key) = Inr (Some meta)"
  shows "k_good Q m (st_ns S) slot key meta" and "reaped m now (meta_key S slot key) = m"
    and "mh_value_type (k_header Q meta) = Some (k_type Q)" and "\<not> mh_is_expired (k_header Q meta) now"
    and "\<exists>row. m (meta_key S slot key) = Some row \<and> k_decode Q row = Some meta"
proof -
  have at: "meta_at (k_type Q) (k_decode Q) m (meta_key S slot key) = Some meta"
    using assms(2) typed_row_meta_at by metis
  then show "k_good Q m (st_ns S) slot key meta" using assms(1) by (simp add: val_ready_def)
  show "reaped m now (meta_key S slot key) = m" using assms(2) by (rule reaped_live)
  obtain row where row: "m (meta_key S slot key) = Some row" "k_decode Q row = Some meta"
    "Option.bind (mh_decode row) mh_value_type = Some (k_type Q)"
    using at by (auto simp: meta_at_def split: bind_splits if_splits)
  then show "\<exists>row. m (meta_key S slot key) = Some row \<and> k_decode Q row = Some meta" by blast
  show "mh_value_type (k_header Q meta) = Some (k_type Q)" using row header[OF row(2)] by simp
  show "\<not> mh_is_expired (k_header Q meta) now"
    using assms(2) row header[OF row(2)] by (auto simp: typed_row_def split: if_splits)
qed

lemma val_ready_reaped:
  assumes "val_ready Q S slot key m l" "l \<le> l'"
  shows "val_ready Q S slot key (reaped m now (meta_key S slot key)) l'"
proof -
  have "versions_below (reaped m now (meta_key S slot key)) l'"
    using assms versions_below_mono[of _ l l'] by (simp add: val_ready_def meta_key_def)
  moreover have "meta_at (k_type Q) (k_decode Q) (reaped m now (meta_key S slot key)) (meta_key S slot key) \<in>
      {None, meta_at (k_type Q) (k_decode Q) m (meta_key S slot key)}"
    by (auto simp: meta_at_def reaped_def split: option.splits)
  ultimately show ?thesis
    using assms(1) by (auto simp: val_ready_def reaped_content split: option.splits)
qed

text \<open>Looking at a key, with the lazy deletion that goes with it, leaves the value as it was.\<close>

lemma val_post_reaped:
  assumes "val_ready Q S slot key m l" "val_view Q S slot key m now = Inr x" "l \<le> l'"
  shows "val_post Q S slot key m l (reaped m now (meta_key S slot key)) l' x"
proof -
  let ?mk = "meta_key S slot key" and ?m = "reaped m now (meta_key S slot key)"
  have "val_view Q S slot key ?m now' = Inr (val_aged Q x now')" for now'
  proof (cases "typed_row (k_type Q) (k_decode Q) m now ?mk")
    case (Inl e)
    then show ?thesis using assms(2) by (simp add: val_view_def)
  next
    case (Inr found)
    show ?thesis
    proof (cases found)
      case None
      then have x: "x = (0, k_none Q)" using assms(2) Inr by (simp add: val_view_def)
      then show ?thesis
        using Inr None
        by (auto simp: val_view_def typed_row_def reaped_def val_aged_def split: option.splits if_splits bind_splits)
    next
      case (Some meta)
      note found = val_found[OF assms(1) Inr[unfolded Some]]
      obtain row where row: "m ?mk = Some row" "k_decode Q row = Some meta" using found(5) by blast
      have "x = (mh_expire_ms (k_header Q meta), k_content Q m (st_ns S) slot key meta)"
        using assms(2) Inr Some by (simp add: val_view_def)
      then show ?thesis
        unfolding found(2) using row found(3) content[OF found(1)] header[OF row(2)]
        by (simp add: val_view_def typed_row_def val_aged_def mh_is_expired_iff)
    qed
  qed
  then show ?thesis
    using assms(1,3) by (simp add: val_post_def val_ready_reaped) (simp add: meta_key_def)
qed

lemma val_view_aged:
  assumes "val_ready Q S slot key m l" "val_view Q S slot key m now = Inr x"
  shows "val_aged Q x now = x"
proof -
  have "val_post Q S slot key m l (reaped m now (meta_key S slot key)) l x"
    using assms by (rule val_post_reaped) simp
  then have "val_view Q S slot key (reaped m now (meta_key S slot key)) now = Inr (val_aged Q x now)"
    by (simp add: val_post_def)
  moreover have "val_view Q S slot key (reaped m now (meta_key S slot key)) now = val_view Q S slot key m now"
    using reaped_content
    by (auto simp: val_view_def typed_row_def reaped_def meta_key_def split: option.splits bind_splits)
  ultimately show ?thesis using assms(2) by simp
qed

text \<open>What an operation on one key leaves of a value of this kind at another.\<close>

lemma val_other:
  assumes "only_rows (own_rows (st_ns S) slot key) m m'" "versions_below m' l'" "key_framed key"
    and "val_ready Q S slot' key' m l" "(slot, key) \<noteq> (slot', key')"
  shows "val_ready Q S slot' key' m' l'" and "val_view Q S slot' key' m' now = val_view Q S slot' key' m now"
proof -
  have R: "ns_ok (st_ns S)" "key_framed key'" "(st_ns S, slot, key) \<noteq> (st_ns S, slot', key')"
    using assms(4,5) by (auto simp: val_ready_def)
  note other = only_rows_other[OF assms(1) R(1) R(1) assms(3) R(2,3)]
  have sub: "m' k = m k" if "k \<in> sub_rows (st_ns S) slot' key'" for k
    using other that by (auto simp: sub_rows_def)
  have same: "k_content Q m' (st_ns S) slot' key' meta = k_content Q m (st_ns S) slot' key' meta"
    "k_good Q m' (st_ns S) slot' key' meta = k_good Q m (st_ns S) slot' key' meta" for meta
    by (rule frame_content, erule sub) (rule frame_good, erule sub)
  show "val_view Q S slot' key' m' now = val_view Q S slot' key' m now"
    using other same by (simp add: val_view_def typed_row_def meta_key_def split: sum.split option.split)
  show "val_ready Q S slot' key' m' l'"
    using assms(2,4) other same by (auto simp: val_ready_def meta_at_def meta_key_def split: option.splits)
qed

end

context value_store
begin

text \<open>A metadata read: an error, nothing there, or a well-formed value.\<close>

lemma read_error:
  assumes "ok (w_kv w)" "val_view Q S slot key (rows w) (st_clock S (w_ticks w)) = Inl e"
  obtains w1 where "read_typed_meta (k_type Q) (k_decode Q) K S slot key w = (Inl WrongType, w1)"
    "ok (w_kv w1)" "rows w1 = rows w" "w_last w1 = w_last w" "e = WrongType"
proof -
  let ?now = "st_clock S (w_ticks w)" and ?mk = "meta_key S slot key"
  have row: "typed_row (k_type Q) (k_decode Q) (rows w) ?now ?mk = Inl e"
    using assms(2) by (auto simp: val_view_def split: sum.splits option.splits)
  obtain w1 where "read_typed_meta (k_type Q) (k_decode Q) K S slot key w =
      (typed_row (k_type Q) (k_decode Q) (rows w) ?now ?mk, w1)"
    "ok (w_kv w1)" "w_last w1 = w_last w" "rows w1 = reaped (rows w) ?now ?mk"
    by (rule read_typed_meta[OF assms(1)])
  then show ?thesis using that[of w1] reaped_Inl[OF row] row by simp
qed

lemma read_cases:
  assumes "ok (w_kv w)" "val_ready Q S slot key (rows w) (w_last w)"
    and view: "val_view Q S slot key (rows w) (st_clock S (w_ticks w)) = Inr (e, x)"
  obtains (absent) w1 where "read_typed_meta (k_type Q) (k_decode Q) K S slot key w = (Inr None, w1)"
      "ok (w_kv w1)" "w_last w1 = w_last w" "x = k_none Q" "e = 0"
      "val_post Q S slot key (rows w) (w_last w) (rows w1) (w_last w1) (e, x)"
  | (present) meta w1 where "read_typed_meta (k_type Q) (k_decode Q) K S slot key w = (Inr (Some meta), w1)"
      "ok (w_kv w1)" "w_last w1 = w_last w" "x \<noteq> k_none Q" "rows w1 = rows w"
      "k_content Q (rows w) (st_ns S) slot key meta = x" "k_good Q (rows w) (st_ns S) slot key meta"
      "mh_expire_ms (k_header Q meta) = e" "mh_value_type (k_header Q meta) = Some (k_type Q)"
      "val_post Q S slot key (rows w) (w_last w) (rows w1) (w_last w1) (e, x)"
proof -
  let ?now = "st_clock S (w_ticks w)" and ?mk = "meta_key S slot key"
  obtain w1 where r: "read_typed_meta (k_type Q) (k_decode Q) K S slot key w =
      (typed_row (k_type Q) (k_decode Q) (rows w) ?now ?mk, w1)"
    and w1: "ok (w_kv w1)" "w_last w1 = w_last w" "rows w1 = reaped (rows w) ?now ?mk"
    by (rule read_typed_meta[OF assms(1)])
  have post: "val_post Q S slot key (rows w) (w_last w) (rows w1) (w_last w1) (e, x)"
    unfolding w1(3) using assms(2) view by (rule val_post_reaped) (simp add: w1(2))
  show ?thesis
  proof (cases "typed_row (k_type Q) (k_decode Q) (rows w) ?now ?mk")
    case (Inl err)
    then show ?thesis using view by (simp add: val_view_def)
  next
    case (Inr found)
    show ?thesis
    proof (cases found)
      case None
      then show ?thesis using absent[of w1] r w1 Inr view post by (simp add: val_view_def)
    next
      case (Some meta)
      note found = val_found[OF assms(2) Inr[unfolded Some]]
      have "k_content Q (rows w) (st_ns S) slot key meta = x" "mh_expire_ms (k_header Q meta) = e"
        using view Inr Some by (simp_all add: val_view_def)
      then show ?thesis
        using present[of meta w1] r w1 Inr Some found content[OF found(1)] post by simp
    qed
  qed
qed

text \<open>The two ways an operation ends: it writes the metadata row, or deletes it.\<close>

lemma commit:
  assumes "ok (w_kv w)" "ns_ok (st_ns S)" "key_framed key" "versions_below (rows w) (w_last w)"
    and "only_rows (own_rows (st_ns S) slot key) m (rows w)" "l \<le> w_last w"
    and row: "k_decode Q row = Some meta" "mh_value_type (k_header Q meta) = Some (k_type Q)"
    and "k_good Q (rows w) (st_ns S) slot key meta" "k_content Q (rows w) (st_ns S) slot key meta = x"
    and "mh_expire_ms (k_header Q meta) = e"
  shows "ok (w_kv (w_put K w (meta_key S slot key) row))"
    and "val_post Q S slot key m l (rows (w_put K w (meta_key S slot key) row))
      (w_last (w_put K w (meta_key S slot key) row)) (e, x)"
proof -
  let ?w' = "w_put K w (meta_key S slot key) row"
  show "ok (w_kv ?w')" using assms(1) by (simp add: world)
  have rows: "rows ?w' = (rows w)(meta_key S slot key \<mapsto> row)" "w_last ?w' = w_last w"
    using assms(1) by (simp_all add: world)
  have same: "k_good Q (rows ?w') (st_ns S) slot key meta" "k_content Q (rows ?w') (st_ns S) slot key meta = x"
    using assms(9,10) rows by (simp_all add: meta_key_def)
  have "val_view Q S slot key (rows ?w') now = Inr (val_aged Q (e, x) now)" for now
    using rows row header[OF row(1)] same content[OF same(1)] assms(11)
    by (simp add: val_view_def typed_row_def val_aged_def mh_is_expired_iff)
  moreover have "val_ready Q S slot key (rows ?w') (w_last ?w')"
    using assms(2-4) row header[OF row(1)] same(1) rows
    by (simp add: val_ready_def meta_at_def) (simp add: meta_key_def versions_below_meta)
  ultimately show "val_post Q S slot key m l (rows ?w') (w_last ?w') (e, x)"
    using assms(5,6) rows by (simp add: val_post_def only_rows_upd)
qed

lemma uncommit:
  assumes "ok (w_kv w)" "ns_ok (st_ns S)" "key_framed key" "versions_below (rows w) (w_last w)"
    and "only_rows (own_rows (st_ns S) slot key) m (rows w)" "l \<le> w_last w"
  shows "ok (w_kv (snd (w_delete K w (meta_key S slot key))))"
    and "val_post Q S slot key m l (rows (snd (w_delete K w (meta_key S slot key))))
      (w_last (snd (w_delete K w (meta_key S slot key)))) (e, k_none Q)"
proof -
  let ?w' = "snd (w_delete K w (meta_key S slot key))"
  show "ok (w_kv ?w')" using assms(1) by (simp add: world)
  have rows: "rows ?w' = (rows w)(meta_key S slot key := None)" "w_last ?w' = w_last w"
    using assms(1) by (simp_all add: world)
  then show "val_post Q S slot key m l (rows ?w') (w_last ?w') (e, k_none Q)"
    using assms(2-6)
    by (simp add: val_post_def val_ready_def only_rows_upd val_view_def typed_row_def val_aged_def meta_at_def)
      (simp add: meta_key_def versions_below_meta)
qed

end

text \<open>A version taken from the counter has no subkey rows and no index rows yet.\<close>

lemma versions_below_fresh_zscore:
  assumes "versions_below m l" "l < v" "ns_ok ns" "key_framed key"
  shows "m (zscore_prefix ns slot key v @ r) = None"
  using assms bspec[of "dom m" _ "zscore_prefix ns slot key v @ r"]
  by (cases "m (zscore_prefix ns slot key v @ r)") (auto simp: versions_below_def dest!: bspec)

lemma new_version:
  assumes "versions_below m (w_last w)" "clock_sane S (w_last w)" "ns_ok (st_ns S)" "key_framed key"
  defines "p \<equiv> next_version (st_clock S (w_ticks w)) (snd (read_clock S w))"
  shows "w_kv (snd p) = w_kv w" "w_last w \<le> w_last (snd p)" "fst p = w_last (snd p)" "fst p \<le> w_last (snd p)"
    and "versions_below m (w_last (snd p))" "coll m (st_ns S) slot key (fst p) = Map.empty"
    and "m (zscore_prefix (st_ns S) slot key (fst p) @ r) = None"
proof -
  have "can_advance (w_last w) (st_clock S (w_ticks w))" using assms(2) by (simp add: clock_sane_def)
  note fresh = fresh_version[OF assms(1) this assms(3,4)]
  show "w_kv (snd p) = w_kv w" "fst p = w_last (snd p)" "fst p \<le> w_last (snd p)" by (simp_all add: p_def)
  show "coll m (st_ns S) slot key (fst p) = Map.empty" using fresh(1) by (simp add: p_def)
  have lt: "w_last w < w_last (snd p)" using fresh(2) by (simp add: p_def)
  then show "w_last w \<le> w_last (snd p)" by simp
  then show "versions_below m (w_last (snd p))" using assms(1) by (rule versions_below_mono[rotated])
  show "m (zscore_prefix (st_ns S) slot key (fst p) @ r) = None"
    using versions_below_fresh_zscore[OF assms(1) lt assms(3,4)] by (simp add: p_def)
qed

end
