(* ===== verification/Flint_Lists.thy ===== *)
theory Flint_Lists
  imports Flint_Value
begin

text \<open>
  Lists: \<open>crates/flint-storage/src/lists.rs\<close>. A list is a metadata row with the indices
  \<open>head\<close> and \<open>tail\<close> and one subkey row per element, at the element's index. Every operation of
  \<open>ListStore\<close> is a definition; a loop of the code is a recursive function over what it runs over.

  The lemmas relate the rows to an ordinary list: \<open>list_view\<close> is the list a reader sees, and every
  operation is the corresponding function on it, on every branch. An operation keeps the rows dense
  (the indices of the rows are exactly \<open>head\<close> to \<open>tail\<close>) and the size and byte counters right.
\<close>

section \<open>Rows\<close>

datatype LsetOutcome = NoKey | OutOfRange | IsSet

definition index_field :: "i64 \<Rightarrow> bytes" where
  "index_field i = to_be64 (bias_index i)"

definition elem_key :: "TypeStore \<Rightarrow> u16 \<Rightarrow> bytes \<Rightarrow> u64 \<Rightarrow> i64 \<Rightarrow> bytes" where
  "elem_key S slot key version i = subkey_envelope (st_ns S) slot key version (index_field i)"

definition list_read_meta ::
  "'s Kv \<Rightarrow> TypeStore \<Rightarrow> u16 \<Rightarrow> bytes \<Rightarrow> 's world \<Rightarrow> (StoreError + ListMeta option) \<times> 's world"
where
  "list_read_meta = read_typed_meta List lm_decode"

definition write_meta :: "'s Kv \<Rightarrow> TypeStore \<Rightarrow> u16 \<Rightarrow> bytes \<Rightarrow> ListMeta \<Rightarrow> 's world \<Rightarrow> 's world" where
  "write_meta K S slot key meta w =
     (if lm_head meta = lm_tail meta then snd (w_delete K w (meta_key S slot key))
      else
        (let m = meta\<lparr>lm_base := (lm_base meta)\<lparr>cm_size := ucast (lm_tail meta - lm_head meta)\<rparr>\<rparr>;
             (now, w) = read_clock S w
         in w_put K w (meta_key S slot key) (lm_encode (m\<lparr>lm_base := cm_touch (lm_base m) now\<rparr>))))"

text \<open>The indices of a half-open range of \<open>i64\<close>.\<close>

definition i64_range :: "i64 \<Rightarrow> i64 \<Rightarrow> i64 list" where
  "i64_range a b = map (\<lambda>k. a + word_of_nat k) [0..<nat (sint b - sint a)]"

section \<open>Operations\<close>

fun push_loop ::
  "'s Kv \<Rightarrow> TypeStore \<Rightarrow> u16 \<Rightarrow> bytes \<Rightarrow> bool \<Rightarrow> bytes list \<Rightarrow> ListMeta \<times> 's world \<Rightarrow> ListMeta \<times> 's world"
where
  "push_loop K S slot key left [] (meta, w) = (meta, w)"
| "push_loop K S slot key left (v # vs) (meta, w) =
     (let (meta, idx) =
        (if left then (meta\<lparr>lm_head := lm_head meta - 1\<rparr>, lm_head meta - 1)
         else (meta\<lparr>lm_tail := lm_tail meta + 1\<rparr>, lm_tail meta))
      in push_loop K S slot key left vs
           (meta, w_put K w (elem_key S slot key (cm_version (lm_base meta)) idx) v))"

definition push ::
  "'s Kv \<Rightarrow> TypeStore \<Rightarrow> u16 \<Rightarrow> bytes \<Rightarrow> bytes list \<Rightarrow> bool \<Rightarrow> 's world \<Rightarrow> (StoreError + u64) \<times> 's world"
where
  "push K S slot key vals left w =
     (case list_read_meta K S slot key w of
        (Inl e, w) \<Rightarrow> (Inl e, w)
      | (Inr found, w) \<Rightarrow>
          (let (meta, w) =
             (case found of
                Some m \<Rightarrow> (m, w)
              | None \<Rightarrow> (let (now, w) = read_clock S w; (v, w) = next_version now w in (lm_new v, w)));
               bts = cm_bytes (lm_base meta) + lens vals
           in if bts > st_max_value_bytes S then (Inl ValueTooLarge, w)
              else
                (let (meta, w) = push_loop K S slot key left vals
                       (meta\<lparr>lm_base := (lm_base meta)\<lparr>cm_bytes := bts\<rparr>\<rparr>, w)
                 in (Inr (lm_tail meta - lm_head meta), write_meta K S slot key meta w))))"

definition push_existing ::
  "'s Kv \<Rightarrow> TypeStore \<Rightarrow> u16 \<Rightarrow> bytes \<Rightarrow> bytes list \<Rightarrow> bool \<Rightarrow> 's world \<Rightarrow> (StoreError + u64) \<times> 's world"
where
  "push_existing K S slot key vals left w =
     (case list_read_meta K S slot key w of
        (Inl e, w) \<Rightarrow> (Inl e, w)
      | (Inr None, w) \<Rightarrow> (Inr 0, w)
      | (Inr (Some _), w) \<Rightarrow> push K S slot key vals left w)"

definition pop ::
  "'s Kv \<Rightarrow> TypeStore \<Rightarrow> u16 \<Rightarrow> bytes \<Rightarrow> bool \<Rightarrow> 's world \<Rightarrow> (StoreError + bytes option) \<times> 's world"
where
  "pop K S slot key left w =
     (case list_read_meta K S slot key w of
        (Inl e, w) \<Rightarrow> (Inl e, w)
      | (Inr None, w) \<Rightarrow> (Inr None, w)
      | (Inr (Some meta), w) \<Rightarrow>
          (let (meta, idx) =
             (if left then (meta\<lparr>lm_head := lm_head meta + 1\<rparr>, lm_head meta)
              else (meta\<lparr>lm_tail := lm_tail meta - 1\<rparr>, lm_tail meta - 1));
               ek = elem_key S slot key (cm_version (lm_base meta)) idx;
               val = w_get K w ek;
               w = snd (w_delete K w ek);
               meta = (case val of
                  Some v \<Rightarrow> meta\<lparr>lm_base := (lm_base meta)\<lparr>cm_bytes :=
                      saturating_sub (cm_bytes (lm_base meta)) (word_of_nat (length v))\<rparr>\<rparr>
                | None \<Rightarrow> meta)
           in (Inr val, write_meta K S slot key meta w)))"

fun pop_loop ::
  "'s Kv \<Rightarrow> TypeStore \<Rightarrow> u16 \<Rightarrow> bytes \<Rightarrow> bool \<Rightarrow> nat \<Rightarrow> ListMeta \<times> bytes list \<times> 's world
   \<Rightarrow> ListMeta \<times> bytes list \<times> 's world"
where
  "pop_loop K S slot key left 0 (meta, out, w) = (meta, out, w)"
| "pop_loop K S slot key left (Suc n) (meta, out, w) =
     (let (meta, idx) =
        (if left then (meta\<lparr>lm_head := lm_head meta + 1\<rparr>, lm_head meta)
         else (meta\<lparr>lm_tail := lm_tail meta - 1\<rparr>, lm_tail meta - 1));
          ek = elem_key S slot key (cm_version (lm_base meta)) idx;
          (meta, out) = (case w_get K w ek of
             Some v \<Rightarrow> (meta\<lparr>lm_base := (lm_base meta)\<lparr>cm_bytes :=
                 saturating_sub (cm_bytes (lm_base meta)) (word_of_nat (length v))\<rparr>\<rparr>, out @ [v])
           | None \<Rightarrow> (meta, out))
      in pop_loop K S slot key left n (meta, out, snd (w_delete K w ek)))"

definition pop_n ::
  "'s Kv \<Rightarrow> TypeStore \<Rightarrow> u16 \<Rightarrow> bytes \<Rightarrow> u64 \<Rightarrow> bool \<Rightarrow> 's world
   \<Rightarrow> (StoreError + bytes list option) \<times> 's world"
where
  "pop_n K S slot key n left w =
     (case list_read_meta K S slot key w of
        (Inl e, w) \<Rightarrow> (Inl e, w)
      | (Inr None, w) \<Rightarrow> (Inr None, w)
      | (Inr (Some meta), w) \<Rightarrow>
          (let tk = min n (lm_tail meta - lm_head meta);
               (meta, out, w) = pop_loop K S slot key left (unat tk) (meta, [], w)
           in (Inr (Some out), if tk > 0 then write_meta K S slot key meta w else w)))"

definition llen ::
  "'s Kv \<Rightarrow> TypeStore \<Rightarrow> u16 \<Rightarrow> bytes \<Rightarrow> 's world \<Rightarrow> (StoreError + u64) \<times> 's world"
where
  "llen K S slot key w =
     (case list_read_meta K S slot key w of
        (Inl e, w) \<Rightarrow> (Inl e, w)
      | (Inr found, w) \<Rightarrow> (Inr (case found of Some m \<Rightarrow> lm_tail m - lm_head m | None \<Rightarrow> 0), w))"

text \<open>A rank counted from the end when it is negative.\<close>

definition norm_rank :: "i64 \<Rightarrow> i64 \<Rightarrow> i64" where
  "norm_rank len i = (if sint i < 0 then len + i else i)"

definition lindex ::
  "'s Kv \<Rightarrow> TypeStore \<Rightarrow> u16 \<Rightarrow> bytes \<Rightarrow> i64 \<Rightarrow> 's world \<Rightarrow> (StoreError + bytes option) \<times> 's world"
where
  "lindex K S slot key rank w =
     (case list_read_meta K S slot key w of
        (Inl e, w) \<Rightarrow> (Inl e, w)
      | (Inr None, w) \<Rightarrow> (Inr None, w)
      | (Inr (Some meta), w) \<Rightarrow>
          (let len = lm_tail meta - lm_head meta;
               rank = norm_rank len rank
           in if sint rank < 0 \<or> sint rank \<ge> sint len then (Inr None, w)
              else (Inr (w_get K w (elem_key S slot key (cm_version (lm_base meta)) (lm_head meta + rank))), w)))"

definition lset ::
  "'s Kv \<Rightarrow> TypeStore \<Rightarrow> u16 \<Rightarrow> bytes \<Rightarrow> i64 \<Rightarrow> bytes \<Rightarrow> 's world \<Rightarrow> (StoreError + LsetOutcome) \<times> 's world"
where
  "lset K S slot key rank val w =
     (case list_read_meta K S slot key w of
        (Inl e, w) \<Rightarrow> (Inl e, w)
      | (Inr None, w) \<Rightarrow> (Inr NoKey, w)
      | (Inr (Some meta), w) \<Rightarrow>
          (let len = lm_tail meta - lm_head meta;
               rank = norm_rank len rank
           in if sint rank < 0 \<or> sint rank \<ge> sint len then (Inr OutOfRange, w)
              else
                (let ek = elem_key S slot key (cm_version (lm_base meta)) (lm_head meta + rank);
                     old = (case w_get K w ek of Some v \<Rightarrow> word_of_nat (length v) | None \<Rightarrow> 0);
                     bts = saturating_sub (cm_bytes (lm_base meta)) old + word_of_nat (length val)
                 in if bts > st_max_value_bytes S then (Inl ValueTooLarge, w)
                    else (Inr IsSet,
                      write_meta K S slot key (meta\<lparr>lm_base := (lm_base meta)\<lparr>cm_bytes := bts\<rparr>\<rparr>) (w_put K w ek val)))))"

text \<open>The rows of the indices given, deleted, with the bytes they held taken off.\<close>

fun trim_loop ::
  "'s Kv \<Rightarrow> TypeStore \<Rightarrow> u16 \<Rightarrow> bytes \<Rightarrow> u64 \<Rightarrow> i64 list \<Rightarrow> u64 \<times> 's world \<Rightarrow> u64 \<times> 's world"
where
  "trim_loop K S slot key version [] (bts, w) = (bts, w)"
| "trim_loop K S slot key version (i # is) (bts, w) =
     (let ek = elem_key S slot key version i;
          bts = (case w_get K w ek of Some v \<Rightarrow> saturating_sub bts (word_of_nat (length v)) | None \<Rightarrow> bts)
      in trim_loop K S slot key version is (bts, snd (w_delete K w ek)))"

definition ltrim ::
  "'s Kv \<Rightarrow> TypeStore \<Rightarrow> u16 \<Rightarrow> bytes \<Rightarrow> i64 \<Rightarrow> i64 \<Rightarrow> 's world \<Rightarrow> (StoreError + unit) \<times> 's world"
where
  "ltrim K S slot key start stop w =
     (case list_read_meta K S slot key w of
        (Inl e, w) \<Rightarrow> (Inl e, w)
      | (Inr None, w) \<Rightarrow> (Inr (), w)
      | (Inr (Some meta), w) \<Rightarrow>
          (let len = lm_tail meta - lm_head meta;
               from = (if sint (norm_rank len start) < 0 then 0 else norm_rank len start);
               to = (if sint (norm_rank len stop) < sint (len - 1) then norm_rank len stop else len - 1);
               (new_head, new_tail) =
                 (if sint from > sint to then (lm_head meta, lm_head meta)
                  else (lm_head meta + from, lm_head meta + to + 1));
               (bts, w) = trim_loop K S slot key (cm_version (lm_base meta))
                 (i64_range (lm_head meta) new_head @ i64_range new_tail (lm_tail meta)) (cm_bytes (lm_base meta), w);
               meta = meta\<lparr>lm_base := (lm_base meta)\<lparr>cm_bytes := bts\<rparr>, lm_head := new_head, lm_tail := new_tail\<rparr>
           in (Inr (), write_meta K S slot key meta w)))"

fun lpos_loop ::
  "'s Kv \<Rightarrow> TypeStore \<Rightarrow> u16 \<Rightarrow> bytes \<Rightarrow> ListMeta \<Rightarrow> bytes \<Rightarrow> u64 \<Rightarrow> 's world \<Rightarrow> i64 list \<Rightarrow> u64 \<Rightarrow> i64 list \<Rightarrow> i64 list"
where
  "lpos_loop K S slot key meta element cnt w [] skip out = out"
| "lpos_loop K S slot key meta element cnt w (r # rs) skip out =
     (if w_get K w (elem_key S slot key (cm_version (lm_base meta)) (lm_head meta + r)) = Some element then
        (if skip > 0 then lpos_loop K S slot key meta element cnt w rs (skip - 1) out
         else
           (let out = out @ [r]
            in if cnt \<noteq> 0 \<and> word_of_nat (length out) \<ge> cnt then out
               else lpos_loop K S slot key meta element cnt w rs skip out))
      else lpos_loop K S slot key meta element cnt w rs skip out)"

definition unsigned_abs :: "i64 \<Rightarrow> u64" where
  "unsigned_abs i = (if sint i < 0 then - i else i)"

definition lpos ::
  "'s Kv \<Rightarrow> TypeStore \<Rightarrow> u16 \<Rightarrow> bytes \<Rightarrow> bytes \<Rightarrow> i64 \<Rightarrow> u64 \<Rightarrow> u64 \<Rightarrow> 's world
   \<Rightarrow> (StoreError + i64 list) \<times> 's world"
where
  "lpos K S slot key element rank cnt maxlen w =
     (case list_read_meta K S slot key w of
        (Inl e, w) \<Rightarrow> (Inl e, w)
      | (Inr None, w) \<Rightarrow> (Inr [], w)
      | (Inr (Some meta), w) \<Rightarrow>
          (let len = lm_tail meta - lm_head meta;
               ranks = (if sint rank > 0 then i64_range 0 len else rev (i64_range 0 len));
               ranks = (if maxlen \<noteq> 0 then take (unat maxlen) ranks else ranks);
               skip = saturating_sub (unsigned_abs rank) 1
           in (Inr (lpos_loop K S slot key meta element cnt w ranks skip []), w)))"

text \<open>Collect and rewrite.\<close>

definition list_collect :: "'s Kv \<Rightarrow> TypeStore \<Rightarrow> u16 \<Rightarrow> bytes \<Rightarrow> ListMeta \<Rightarrow> 's world \<Rightarrow> bytes list" where
  "list_collect K S slot key meta w =
     List.map_filter (\<lambda>i. w_get K w (elem_key S slot key (cm_version (lm_base meta)) i))
       (i64_range (lm_head meta) (lm_tail meta))"

fun drop_rows ::
  "'s Kv \<Rightarrow> TypeStore \<Rightarrow> u16 \<Rightarrow> bytes \<Rightarrow> u64 \<Rightarrow> i64 list \<Rightarrow> 's world \<Rightarrow> 's world"
where
  "drop_rows K S slot key version [] w = w"
| "drop_rows K S slot key version (i # is) w =
     drop_rows K S slot key version is (snd (w_delete K w (elem_key S slot key version i)))"

fun lay_rows ::
  "'s Kv \<Rightarrow> TypeStore \<Rightarrow> u16 \<Rightarrow> bytes \<Rightarrow> u64 \<Rightarrow> i64 \<Rightarrow> bytes list \<Rightarrow> 's world \<Rightarrow> 's world"
where
  "lay_rows K S slot key version i [] w = w"
| "lay_rows K S slot key version i (v # vs) w =
     lay_rows K S slot key version (i + 1) vs (w_put K w (elem_key S slot key version i) v)"

definition rewrite ::
  "'s Kv \<Rightarrow> TypeStore \<Rightarrow> u16 \<Rightarrow> bytes \<Rightarrow> ListMeta \<Rightarrow> bytes list \<Rightarrow> 's world \<Rightarrow> 's world"
where
  "rewrite K S slot key meta vals w =
     (let version = cm_version (lm_base meta);
          w = drop_rows K S slot key version (i64_range (lm_head meta) (lm_tail meta)) w;
          meta = meta\<lparr>lm_base := (lm_base meta)\<lparr>cm_bytes := lens vals\<rparr>,
                      lm_tail := lm_head meta + word_of_nat (length vals)\<rparr>;
          w = lay_rows K S slot key version (lm_head meta) vals w
      in write_meta K S slot key meta w)"

text \<open>The filter of LREM, with its counter.\<close>

fun lrem_keep :: "u64 \<Rightarrow> bytes \<Rightarrow> u64 \<Rightarrow> bytes list \<Rightarrow> u64 \<times> bytes list" where
  "lrem_keep limit element removed [] = (removed, [])"
| "lrem_keep limit element removed (v # vs) =
     (if removed < limit \<and> v = element then lrem_keep limit element (removed + 1) vs
      else (let (removed, kept) = lrem_keep limit element removed vs in (removed, v # kept)))"

definition lrem ::
  "'s Kv \<Rightarrow> TypeStore \<Rightarrow> u16 \<Rightarrow> bytes \<Rightarrow> i64 \<Rightarrow> bytes \<Rightarrow> 's world \<Rightarrow> (StoreError + u64) \<times> 's world"
where
  "lrem K S slot key cnt element w =
     (case list_read_meta K S slot key w of
        (Inl e, w) \<Rightarrow> (Inl e, w)
      | (Inr None, w) \<Rightarrow> (Inr 0, w)
      | (Inr (Some meta), w) \<Rightarrow>
          (let vals = list_collect K S slot key meta w;
               limit = (if cnt = 0 then - 1 else unsigned_abs cnt);
               (removed, keep) =
                 (if sint cnt \<ge> 0 then lrem_keep limit element 0 vals
                  else (let (removed, kept) = lrem_keep limit element 0 (rev vals) in (removed, rev kept)))
           in (Inr removed, if removed > 0 then rewrite K S slot key meta keep w else w)))"

definition linsert ::
  "'s Kv \<Rightarrow> TypeStore \<Rightarrow> u16 \<Rightarrow> bytes \<Rightarrow> bool \<Rightarrow> bytes \<Rightarrow> bytes \<Rightarrow> 's world \<Rightarrow> (StoreError + i64) \<times> 's world"
where
  "linsert K S slot key before pivot element w =
     (case list_read_meta K S slot key w of
        (Inl e, w) \<Rightarrow> (Inl e, w)
      | (Inr None, w) \<Rightarrow> (Inr 0, w)
      | (Inr (Some meta), w) \<Rightarrow>
          if cm_bytes (lm_base meta) + word_of_nat (length element) > st_max_value_bytes S then (Inl ValueTooLarge, w)
          else
            (let vals = list_collect K S slot key meta w
             in case iter_position (\<lambda>v. v = pivot) vals of
                  None \<Rightarrow> (Inr (- 1), w)
                | Some pos \<Rightarrow>
                    (let at = (if before then pos else pos + 1);
                         vals = take at vals @ [element] @ drop at vals
                     in (Inr (word_of_nat (length vals)), rewrite K S slot key meta vals w))))"

definition range_bytes ::
  "'s Kv \<Rightarrow> TypeStore \<Rightarrow> u16 \<Rightarrow> bytes \<Rightarrow> i64 \<Rightarrow> i64 \<Rightarrow> 's world \<Rightarrow> (StoreError + u64 option) \<times> 's world"
where
  "range_bytes K S slot key start stop w =
     (case list_read_meta K S slot key w of
        (Inl e, w) \<Rightarrow> (Inl e, w)
      | (Inr None, w) \<Rightarrow> (Inr None, w)
      | (Inr (Some meta), w) \<Rightarrow>
          (let len = lm_tail meta - lm_head meta
           in if sint len \<le> 0 \<or> cm_size (lm_base meta) = 0 then (Inr (Some 0), w)
              else
                (let from = (if sint (norm_rank len start) < 0 then 0 else norm_rank len start);
                     to = (if sint (norm_rank len stop) < sint (len - 1) then norm_rank len stop else len - 1)
                 in if sint from > sint to then (Inr (Some 0), w)
                    else
                      (let wanted = (if sint (to - from + 1) < 0 then 0 else to - from + 1);
                           mean = cm_bytes (lm_base meta) div ucast (cm_size (lm_base meta))
                       in (Inr (Some (saturating_mul wanted mean)), w)))))"

definition lrange ::
  "'s Kv \<Rightarrow> TypeStore \<Rightarrow> u16 \<Rightarrow> bytes \<Rightarrow> i64 \<Rightarrow> i64 \<Rightarrow> 's world \<Rightarrow> (StoreError + bytes list) \<times> 's world"
where
  "lrange K S slot key start stop w =
     (case list_read_meta K S slot key w of
        (Inl e, w) \<Rightarrow> (Inl e, w)
      | (Inr None, w) \<Rightarrow> (Inr [], w)
      | (Inr (Some meta), w) \<Rightarrow>
          (let len = lm_tail meta - lm_head meta;
               from = (if sint (norm_rank len start) < 0 then 0 else norm_rank len start);
               to = (if sint (norm_rank len stop) < sint (len - 1) then norm_rank len stop else len - 1)
           in if sint from > sint to then (Inr [], w)
              else
                (Inr (List.map_filter
                   (\<lambda>rank. w_get K w (elem_key S slot key (cm_version (lm_base meta)) (lm_head meta + rank)))
                   (i64_range from (to + 1))), w)))"

section \<open>Notions the lemmas use\<close>

text \<open>The rows of a list whose first element is at an index, and the list that rows stand for.\<close>

fun list_map :: "i64 \<Rightarrow> bytes list \<Rightarrow> bytes \<rightharpoonup> bytes" where
  "list_map h [] = Map.empty"
| "list_map h (x # xs) = (list_map (h + 1) xs)(index_field h \<mapsto> x)"

definition list_rows :: "(bytes \<rightharpoonup> bytes) \<Rightarrow> bytes \<Rightarrow> u16 \<Rightarrow> bytes \<Rightarrow> ListMeta \<Rightarrow> bytes list" where
  "list_rows m ns slot key lm =
     map (\<lambda>i. the (coll m ns slot key (cm_version (lm_base lm)) (index_field i))) (i64_range (lm_head lm) (lm_tail lm))"

text \<open>
  A well-formed list: not empty, its rows are those from head to tail and no others, and the
  counters are right.
\<close>

definition list_counts :: "ListMeta \<Rightarrow> bytes list \<Rightarrow> bool" where
  "list_counts lm xs \<longleftrightarrow> sint (lm_tail lm) = sint (lm_head lm) + int (length xs) \<and>
     unat (cm_size (lm_base lm)) = length xs \<and> unat (cm_bytes (lm_base lm)) = sum_list (map length xs)"

definition list_good :: "(bytes \<rightharpoonup> bytes) \<Rightarrow> bytes \<Rightarrow> u16 \<Rightarrow> bytes \<Rightarrow> ListMeta \<Rightarrow> bool" where
  "list_good m ns slot key lm \<longleftrightarrow>
     (let xs = list_rows m ns slot key lm
      in xs \<noteq> [] \<and> coll m ns slot key (cm_version (lm_base lm)) = list_map (lm_head lm) xs \<and> list_counts lm xs)"

definition list_kind :: "(ListMeta, bytes list) kind" where
  "list_kind = \<lparr>k_type = List, k_decode = lm_decode, k_header = \<lambda>lm. cm_header (lm_base lm),
     k_content = list_rows, k_good = list_good, k_none = []\<rparr>"

text \<open>There are \<open>n\<close> more indices below the head of the list at a key and from its tail on.\<close>

definition list_room :: "TypeStore \<Rightarrow> u16 \<Rightarrow> bytes \<Rightarrow> (bytes \<rightharpoonup> bytes) \<Rightarrow> nat \<Rightarrow> bool" where
  "list_room S slot key m n \<longleftrightarrow> int n < 2 ^ 63 \<and>
     (case meta_at List lm_decode m (meta_key S slot key) of
        Some lm \<Rightarrow> - (2 ^ 63) \<le> sint (lm_head lm) - int n \<and> sint (lm_tail lm) + int n < 2 ^ 63
      | None \<Rightarrow> True)"

text \<open>
  The state of an operation between its reads and its final metadata write: the rows are those of
  the list \<open>xs\<close> for the head and tail of \<open>lm\<close>, and only rows of the key have changed since \<open>m\<close>.
\<close>

definition list_mid ::
  "('s \<Rightarrow> bytes \<rightharpoonup> bytes) \<Rightarrow> ('s \<Rightarrow> bool) \<Rightarrow> TypeStore \<Rightarrow> u16 \<Rightarrow> bytes \<Rightarrow> (bytes \<rightharpoonup> bytes) \<Rightarrow> u64 \<Rightarrow>
   ListMeta \<Rightarrow> bytes list \<Rightarrow> 's world \<Rightarrow> bool"
where
  "list_mid f good S slot key m l lm xs w \<longleftrightarrow>
     good (w_kv w) \<and> ns_ok (st_ns S) \<and> key_framed key \<and> versions_below (f (w_kv w)) (w_last w) \<and>
     only_rows (own_rows (st_ns S) slot key) m (f (w_kv w)) \<and> l \<le> w_last w \<and>
     cm_version (lm_base lm) \<le> w_last w \<and> mh_value_type (cm_header (lm_base lm)) = Some List \<and>
     coll (f (w_kv w)) (st_ns S) slot key (cm_version (lm_base lm)) = list_map (lm_head lm) xs \<and>
     sint (lm_tail lm) = sint (lm_head lm) + int (length xs)"

text \<open>
  The rank a Redis index names in a list of a length, and the ranks from one index to another,
  negatives counted from the end and the bounds clipped to the list.
\<close>

definition rank_of :: "nat \<Rightarrow> i64 \<Rightarrow> int" where
  "rank_of n i = (if sint i < 0 then int n + sint i else sint i)"

definition range_of :: "nat \<Rightarrow> i64 \<Rightarrow> i64 \<Rightarrow> nat \<times> nat" where
  "range_of n start stop =
     (let from = max 0 (rank_of n start); to = min (rank_of n stop) (int n - 1)
      in if from > to then (0, 0) else (nat from, nat (to + 1)))"

definition sublist :: "nat \<times> nat \<Rightarrow> 'a list \<Rightarrow> 'a list" where
  "sublist ab xs = take (snd ab - fst ab) (drop (fst ab) xs)"

definition list_cost :: "bytes \<Rightarrow> bytes \<Rightarrow> nat" where
  "list_cost f v = length v"

text \<open>A list without the first \<open>n\<close> occurrences of an element.\<close>

fun remove_first :: "nat \<Rightarrow> 'a \<Rightarrow> 'a list \<Rightarrow> 'a list" where
  "remove_first n e [] = []"
| "remove_first n e (v # vs) = (if n > 0 \<and> v = e then remove_first (n - 1) e vs else v # remove_first n e vs)"

section \<open>Lemmas\<close>

subsection \<open>Rows and indices\<close>

lemma index_field_inject [simp]: "index_field i = index_field j \<longleftrightarrow> i = j"
  by (metis index_field_def to_be64_inject unbias_bias)

lemma unat_diff_one: "unat ((j::i64) - (h + 1)) = unat (j - h) - 1" if "j \<noteq> h"
proof -
  have "unat (j - h) \<noteq> 0" using that by (simp add: unat_eq_0)
  then have "1 \<le> j - h" by (simp add: word_le_nat_alt)
  then show ?thesis using unat_sub[of 1 "j - h"] by (simp add: diff_diff_add)
qed

lemma list_map_at:
  "length xs \<le> 2 ^ 64 \<Longrightarrow>
   list_map h xs (index_field j) = (if unat (j - h) < length xs then Some (xs ! unat (j - h)) else None)"
proof (induction xs arbitrary: h)
  case (Cons x xs)
  show ?case
  proof (cases "j = h")
    case False
    then have "unat (j - h) \<noteq> 0" by (simp add: unat_eq_0)
    then show ?thesis using Cons False unat_diff_one[OF False] by (cases "unat (j - h)") auto
  qed simp
qed simp

lemma list_map_other: "f \<notin> range index_field \<Longrightarrow> list_map h xs f = None"
  by (induction xs arbitrary: h) auto

lemma list_map_eqI:
  assumes "length xs \<le> 2 ^ 64" "\<And>j. F (index_field j) = (if unat (j - h) < length xs then Some (xs ! unat (j - h)) else None)"
    and "\<And>f. f \<notin> range index_field \<Longrightarrow> F f = None"
  shows "F = list_map h xs"
proof
  fix f
  show "F f = list_map h xs f"
    using assms list_map_at[OF assms(1)] list_map_other[of f h xs] by (cases "f \<in> range index_field") auto
qed

lemma unat_offset: "i < 2 ^ 64 \<Longrightarrow> unat ((h::i64) + word_of_nat i - h) = i"
  by (simp add: unat_of_nat)

lemma offset_eq: "unat ((j::i64) - h) = i \<Longrightarrow> j = h + word_of_nat i"
  by (drule word_of_unat) (simp only: diff_eq_eq add.commute)

lemma offset_iff: "i < 2 ^ 64 \<Longrightarrow> (j::i64) = h + word_of_nat i \<longleftrightarrow> unat (j - h) = i"
  using unat_offset offset_eq by blast

lemma list_map_push_back:
  assumes "length xs < 2 ^ 64"
  shows "(list_map h xs)(index_field (h + word_of_nat (length xs)) \<mapsto> x) = list_map h (xs @ [x])"
proof (rule list_map_eqI)
  fix j
  show "((list_map h xs)(index_field (h + word_of_nat (length xs)) \<mapsto> x)) (index_field j) =
      (if unat (j - h) < length (xs @ [x]) then Some ((xs @ [x]) ! unat (j - h)) else None)"
    using assms by (simp add: list_map_at offset_iff[OF assms, of j h] nth_append)
qed (use assms in \<open>auto simp: list_map_other\<close>)

lemma list_map_pop_back:
  assumes "length xs < 2 ^ 64"
  shows "(list_map h (xs @ [x]))(index_field (h + word_of_nat (length xs)) := None) = list_map h xs"
proof (rule list_map_eqI)
  fix j
  show "((list_map h (xs @ [x]))(index_field (h + word_of_nat (length xs)) := None)) (index_field j) =
      (if unat (j - h) < length xs then Some (xs ! unat (j - h)) else None)"
    using assms by (simp add: list_map_at offset_iff[OF assms, of j h] nth_append)
qed (use assms in \<open>auto simp: list_map_other\<close>)

lemma list_map_pop_front:
  assumes "length xs < 2 ^ 64"
  shows "(list_map h (x # xs))(index_field h := None) = list_map (h + 1) xs"
proof -
  have "unat (- 1 :: 64 word) = 2 ^ 64 - 1" by (simp add: unat_eq_nat_uint uint_word_ariths)
  then have "list_map (h + 1) xs (index_field h) = None" using assms list_map_at[of xs "h + 1" h] by simp
  then show ?thesis by (simp add: fun_upd_idem)
qed

lemma list_map_set:
  assumes "i < length xs" "length xs \<le> 2 ^ 64"
  shows "(list_map h xs)(index_field (h + word_of_nat i) \<mapsto> v) = list_map h (xs[i := v])"
proof (rule list_map_eqI)
  fix j
  show "((list_map h xs)(index_field (h + word_of_nat i) \<mapsto> v)) (index_field j) =
      (if unat (j - h) < length (xs[i := v]) then Some (xs[i := v] ! unat (j - h)) else None)"
    using assms by (simp add: list_map_at offset_iff[of i j h] nth_list_update)
qed (use assms in \<open>auto simp: list_map_other\<close>)

lemma list_map_nth:
  "i < length xs \<Longrightarrow> length xs \<le> 2 ^ 64 \<Longrightarrow> list_map h xs (index_field (h + word_of_nat i)) = Some (xs ! i)"
  using list_map_at[of xs h "h + word_of_nat i"] unat_offset[of i h] by simp

lemma sint_offset:
  assumes "- (2 ^ 63) \<le> sint h + i" "sint h + i < 2 ^ 63"
  shows "sint ((h::i64) + word_of_int i) = sint h + i"
proof -
  have "h + word_of_int i = word_of_int (sint h + i)" by simp
  then show ?thesis using i64_of_int[OF assms] by simp
qed

lemma range_of_list:
  assumes "sint t = sint h + int n"
  shows "i64_range h t = map (\<lambda>k. h + word_of_nat k) [0..<n]" "t = h + word_of_nat n" "n < 2 ^ 64"
proof -
  show "i64_range h t = map (\<lambda>k. h + word_of_nat k) [0..<n]" using assms by (simp add: i64_range_def)
  have "word_of_int (sint t) = (word_of_int (sint h + int n) :: i64)" using assms by simp
  then show "t = h + word_of_nat n" by simp
  have "int n < 2 ^ 64" using assms i64_bounds[of t] i64_bounds[of h] by simp
  then show "n < 2 ^ 64" by simp
qed

lemma list_rows_eq:
  assumes "coll m ns slot key (cm_version (lm_base lm)) = list_map (lm_head lm) xs"
    and "sint (lm_tail lm) = sint (lm_head lm) + int (length xs)"
  shows "list_rows m ns slot key lm = xs"
  using range_of_list[OF assms(2)] by (intro nth_equalityI) (simp_all add: list_rows_def assms(1) list_map_nth)

lemma list_goodI:
  assumes "coll m ns slot key (cm_version (lm_base lm)) = list_map (lm_head lm) xs" "list_counts lm xs" "xs \<noteq> []"
  shows "list_good m ns slot key lm"
  using assms list_rows_eq[OF assms(1)] by (simp add: list_good_def list_counts_def Let_def)

lemma lm_decode_header: "lm_decode row = Some lm \<Longrightarrow> mh_decode row = Some (cm_header (lm_base lm))"
  by (auto simp: lm_decode_def Let_def dest: cm_decode_header split: option.splits if_splits)

lemma list_map_finite: "finite (dom (list_map h xs))"
  by (induction xs arbitrary: h) auto

lemma list_map_nonempty: "xs \<noteq> [] \<Longrightarrow> list_map h xs \<noteq> Map.empty"
  by (cases xs) auto

interpretation lst: value_kind list_kind
proof
  fix row meta
  show "k_decode list_kind row = Some meta \<Longrightarrow> mh_decode row = Some (k_header list_kind meta)"
    by (simp add: list_kind_def lm_decode_header)
next
  fix ns key :: bytes and slot :: u16 and m' m :: "bytes \<rightharpoonup> bytes" and meta
  assume "\<And>k. k \<in> sub_rows ns slot key \<Longrightarrow> m' k = m k"
  then have "coll m' ns slot key v = coll m ns slot key v" for v
    by (auto simp: coll_def sub_rows_def fun_eq_iff)
  then show "k_content list_kind m' ns slot key meta = k_content list_kind m ns slot key meta"
    and "k_good list_kind m' ns slot key meta = k_good list_kind m ns slot key meta"
    by (simp_all add: list_kind_def list_rows_def list_good_def)
next
  fix m ns slot key meta
  show "k_good list_kind m ns slot key meta \<Longrightarrow> k_content list_kind m ns slot key meta \<noteq> k_none list_kind"
    by (simp add: list_kind_def list_good_def Let_def)
qed

interpretation lst_mem: value_store mem_kv map_of mem_ok list_kind
  by unfold_locales

subsection \<open>Reading and writing a list's metadata\<close>

lemma list_kind_sel [simp]:
  "k_type list_kind = List" "k_decode list_kind = lm_decode" "k_header list_kind = (\<lambda>lm. cm_header (lm_base lm))"
  "k_content list_kind = list_rows" "k_good list_kind = list_good" "k_none list_kind = []"
  by (simp_all add: list_kind_def)

lemma mid_base:
  "list_mid f good S slot key m l lm xs w \<Longrightarrow> cm_version b = cm_version (lm_base lm) \<Longrightarrow>
   cm_header b = cm_header (lm_base lm) \<Longrightarrow> list_mid f good S slot key m l (lm\<lparr>lm_base := b\<rparr>) xs w"
  by (simp add: list_mid_def)

lemma mid_tail: "list_mid f good S slot key m l lm xs w \<Longrightarrow>
    lm_tail lm = lm_head lm + word_of_nat (length xs) \<and> length xs < 2 ^ 64"
  using range_of_list[of "lm_tail lm" "lm_head lm" "length xs"] by (simp add: list_mid_def)

context kv_store
begin

lemma list_store: "value_store K abs ok list_kind"
  by unfold_locales

lemma list_read_error:
  assumes "ok (w_kv w)" "val_view list_kind S slot key (rows w) (st_clock S (w_ticks w)) = Inl e"
  obtains w1 where "list_read_meta K S slot key w = (Inl WrongType, w1)"
    "ok (w_kv w1)" "rows w1 = rows w" "w_last w1 = w_last w"
  by (rule value_store.read_error[OF list_store assms]) (simp add: list_read_meta_def)

lemma list_read_cases:
  assumes "ok (w_kv w)" "val_ready list_kind S slot key (rows w) (w_last w)"
    and view: "val_view list_kind S slot key (rows w) (st_clock S (w_ticks w)) = Inr (e, xs)"
  obtains (absent) w1 where "list_read_meta K S slot key w = (Inr None, w1)"
      "ok (w_kv w1)" "w_last w1 = w_last w" "xs = []" "e = 0"
      "val_post list_kind S slot key (rows w) (w_last w) (rows w1) (w_last w1) (e, xs)"
  | (present) lm w1 where "list_read_meta K S slot key w = (Inr (Some lm), w1)"
      "list_mid abs ok S slot key (rows w) (w_last w) lm xs w1" "w_last w1 = w_last w" "xs \<noteq> []"
      "list_counts lm xs" "mh_expire_ms (cm_header (lm_base lm)) = e"
      "meta_at List lm_decode (rows w) (meta_key S slot key) = Some lm"
      "val_post list_kind S slot key (rows w) (w_last w) (rows w1) (w_last w1) (e, xs)"
  using assms
proof (cases rule: value_store.read_cases[OF list_store, consumes 3, case_names absent present])
  case (absent w1)
  then show ?thesis using that(1)[of w1] by (simp add: list_read_meta_def)
next
  case (present lm w1)
  have R: "ns_ok (st_ns S)" "key_framed key" "versions_below (rows w) (w_last w)"
    using assms(2) by (simp_all add: val_ready_def)
  have good: "coll (rows w) (st_ns S) slot key (cm_version (lm_base lm)) = list_map (lm_head lm) xs" "list_counts lm xs"
    using present(6,7) by (simp_all add: list_good_def Let_def)
  have "cm_version (lm_base lm) \<le> w_last w"
    using versions_below_fresh[OF R(3) _ R(1,2), of "cm_version (lm_base lm)" slot] good(1)
      list_map_nonempty[of xs] present(4) by (fastforce simp: not_le[symmetric])
  then have mid: "list_mid abs ok S slot key (rows w) (w_last w) lm xs w1"
    using present good R by (simp add: list_mid_def list_counts_def)
  obtain w2 where "read_typed_meta List lm_decode K S slot key w =
      (typed_row List lm_decode (rows w) (st_clock S (w_ticks w)) (meta_key S slot key), w2)"
    by (rule read_typed_meta[OF assms(1)])
  then have "typed_row List lm_decode (rows w) (st_clock S (w_ticks w)) (meta_key S slot key) = Inr (Some lm)"
    using present(1) by simp
  then have "meta_at List lm_decode (rows w) (meta_key S slot key) = Some lm" using typed_row_meta_at by metis
  then show ?thesis using that(2)[of lm w1] present mid good(2) by (simp add: list_read_meta_def)
qed

lemma write_meta:
  assumes mid: "list_mid abs ok S slot key m l lm xs w" and "length xs < 2 ^ 32"
    and "unat (cm_bytes (lm_base lm)) = sum_list (map length xs)"
    and e: "mh_expire_ms (cm_header (lm_base lm)) = e"
  shows "ok (w_kv (write_meta K S slot key lm w))"
    and "val_post list_kind S slot key m l (rows (write_meta K S slot key lm w))
      (w_last (write_meta K S slot key lm w)) (e, xs)"
proof -
  note M = mid[unfolded list_mid_def]
  note un = w_delete(2) value_store.uncommit(2)[OF list_store, of w S key slot m l e]
  have "ok (w_kv (write_meta K S slot key lm w)) \<and>
    val_post list_kind S slot key m l (rows (write_meta K S slot key lm w)) (w_last (write_meta K S slot key lm w)) (e, xs)"
  proof (cases "xs = []")
    case True
    then show ?thesis using un M mid_tail[OF mid] by (simp add: write_meta_def)
  next
    case False
    let ?b = "(lm_base lm)\<lparr>cm_size := ucast (lm_tail lm - lm_head lm)\<rparr>"
    let ?b' = "cm_touch ?b (st_clock S (w_ticks w))" and ?w = "snd (read_clock S w)"
    let ?lm = "lm\<lparr>lm_base := ?b'\<rparr>"
    have size: "unat (cm_size ?b) = length xs"
      using mid_tail[OF mid] assms(2) by (simp add: unsigned_ucast_eq take_bit_eq_mod unat_of_nat)
    have "unat (word_of_nat (length xs) :: i64) \<noteq> 0" using False assms(2) by (simp add: unat_of_nat)
    then have ne: "lm_head lm \<noteq> lm_tail lm" using mid_tail[OF mid] by auto
    have dec: "lm_decode (lm_encode ?lm) = Some ?lm" by (simp add: lm_decode_encode)
    have vt: "mh_value_type (cm_header ?b') = Some List"
      using M by (simp add: mh_value_type_def from_flags_v2_flags)
    have good: "list_good (rows w) (st_ns S) slot key ?lm"
      by (rule list_goodI) (use M False size assms(3) in \<open>simp_all add: list_counts_def\<close>)
    have "list_rows (rows w) (st_ns S) slot key ?lm = xs" by (rule list_rows_eq) (use M in simp_all)
    then show ?thesis
      using ne value_store.commit[OF list_store, of ?w S key slot m l "lm_encode ?lm" ?lm xs e] M dec vt good e
      by (simp add: write_meta_def Let_def case_prod_beta)
  qed
  then show "ok (w_kv (write_meta K S slot key lm w))"
    "val_post list_kind S slot key m l (rows (write_meta K S slot key lm w)) (w_last (write_meta K S slot key lm w)) (e, xs)"
    by simp_all
qed

subsection \<open>The rows at both ends\<close>

lemma elem_get:
  assumes "list_mid abs ok S slot key m l lm xs w"
  shows "w_get K w (elem_key S slot key (cm_version (lm_base lm)) i) = list_map (lm_head lm) xs (index_field i)"
  using assms by (auto simp: list_mid_def world elem_key_def coll_def fun_eq_iff)

lemma elem_put:
  fixes i v
  assumes "list_mid abs ok S slot key m l lm xs w"
  defines "w' \<equiv> w_put K w (elem_key S slot key (cm_version (lm_base lm)) i) v"
  shows "ok (w_kv w')" "w_last w' = w_last w" "versions_below (rows w') (w_last w)"
    "only_rows (own_rows (st_ns S) slot key) m (rows w')"
    "coll (rows w') (st_ns S) slot key (cm_version (lm_base lm)) = (list_map (lm_head lm) xs)(index_field i \<mapsto> v)"
  using assms by (simp_all add: list_mid_def world elem_key_def coll_subkey versions_below_subkey only_rows_upd)

lemma elem_delete:
  fixes i
  assumes "list_mid abs ok S slot key m l lm xs w"
  defines "w' \<equiv> snd (w_delete K w (elem_key S slot key (cm_version (lm_base lm)) i))"
  shows "ok (w_kv w')" "w_last w' = w_last w" "versions_below (rows w') (w_last w)"
    "only_rows (own_rows (st_ns S) slot key) m (rows w')"
    "coll (rows w') (st_ns S) slot key (cm_version (lm_base lm)) = (list_map (lm_head lm) xs)(index_field i := None)"
  using assms by (simp_all add: list_mid_def world elem_key_def coll_subkey only_rows_upd versions_below_subkey)

lemma mid_push_back:
  assumes mid: "list_mid abs ok S slot key m l lm xs w" and "sint (lm_tail lm) + 1 < 2 ^ 63"
  shows "list_mid abs ok S slot key m l (lm\<lparr>lm_tail := lm_tail lm + 1\<rparr>) (xs @ [v])
    (w_put K w (elem_key S slot key (cm_version (lm_base lm)) (lm_tail lm)) v)"
  using elem_put[OF mid, of "lm_tail lm" v] mid assms(2) mid_tail[OF mid] list_map_push_back[of xs "lm_head lm" v]
    sint_offset[of "lm_tail lm" 1] i64_bounds[of "lm_tail lm"]
  by (simp add: list_mid_def)

lemma mid_push_front:
  assumes mid: "list_mid abs ok S slot key m l lm xs w" and "- (2 ^ 63) < sint (lm_head lm)"
  shows "list_mid abs ok S slot key m l (lm\<lparr>lm_head := lm_head lm - 1\<rparr>) (v # xs)
    (w_put K w (elem_key S slot key (cm_version (lm_base lm)) (lm_head lm - 1)) v)"
  using elem_put[OF mid, of "lm_head lm - 1" v] mid assms(2)
    sint_offset[of "lm_head lm" "- 1"] i64_bounds[of "lm_head lm"]
  by (simp add: list_mid_def)

lemma mid_pop_front:
  assumes mid: "list_mid abs ok S slot key m l lm (x # xs) w"
  shows "w_get K w (elem_key S slot key (cm_version (lm_base lm)) (lm_head lm)) = Some x"
    and "list_mid abs ok S slot key m l (lm\<lparr>lm_head := lm_head lm + 1\<rparr>) xs
      (snd (w_delete K w (elem_key S slot key (cm_version (lm_base lm)) (lm_head lm))))"
proof -
  show "w_get K w (elem_key S slot key (cm_version (lm_base lm)) (lm_head lm)) = Some x"
    using elem_get[OF mid] by simp
  have "sint (lm_head lm) + 1 < 2 ^ 63 \<and> sint (lm_head lm + 1) = sint (lm_head lm) + 1"
    using mid sint_offset[of "lm_head lm" 1] i64_bounds[of "lm_head lm"] i64_bounds[of "lm_tail lm"]
    by (simp add: list_mid_def)
  then show "list_mid abs ok S slot key m l (lm\<lparr>lm_head := lm_head lm + 1\<rparr>) xs
      (snd (w_delete K w (elem_key S slot key (cm_version (lm_base lm)) (lm_head lm))))"
    using elem_delete[OF mid, of "lm_head lm"] mid list_map_pop_front[of xs "lm_head lm" x] mid_tail[OF mid]
    by (simp add: list_mid_def del: list_map.simps)
qed

lemma mid_pop_back:
  assumes mid: "list_mid abs ok S slot key m l lm (xs @ [x]) w"
  shows "w_get K w (elem_key S slot key (cm_version (lm_base lm)) (lm_tail lm - 1)) = Some x"
    and "list_mid abs ok S slot key m l (lm\<lparr>lm_tail := lm_tail lm - 1\<rparr>) xs
      (snd (w_delete K w (elem_key S slot key (cm_version (lm_base lm)) (lm_tail lm - 1))))"
proof -
  have t: "lm_tail lm - 1 = lm_head lm + word_of_nat (length xs)" and len: "length xs < 2 ^ 64 - 1"
    using mid_tail[OF mid] by simp_all
  show "w_get K w (elem_key S slot key (cm_version (lm_base lm)) (lm_tail lm - 1)) = Some x"
    using elem_get[OF mid] list_map_nth[of "length xs" "xs @ [x]" "lm_head lm"] len t by simp
  have "sint (lm_tail lm - 1) = sint (lm_tail lm) - 1"
    using mid sint_offset[of "lm_tail lm" "- 1"] i64_bounds[of "lm_head lm"] i64_bounds[of "lm_tail lm"]
    by (simp add: list_mid_def)
  then show "list_mid abs ok S slot key m l (lm\<lparr>lm_tail := lm_tail lm - 1\<rparr>) xs
      (snd (w_delete K w (elem_key S slot key (cm_version (lm_base lm)) (lm_tail lm - 1))))"
    using elem_delete[OF mid, of "lm_tail lm - 1"] mid list_map_pop_back[of xs "lm_head lm" x] len t
    by (simp add: list_mid_def)
qed

end

subsection \<open>Push and pop\<close>

lemma list_ready_room:
  assumes "list_room S slot key m n" "meta_at List lm_decode m (meta_key S slot key) = Some lm"
  shows "- (2 ^ 63) \<le> sint (lm_head lm) - int n" "sint (lm_tail lm) + int n < 2 ^ 63"
  using assms by (simp_all add: list_room_def)

context kv_store
begin

lemma push_loop:
  assumes "list_mid abs ok S slot key m l lm xs w"
    and "- (2 ^ 63) \<le> sint (lm_head lm) - int (length vs)" "sint (lm_tail lm) + int (length vs) < 2 ^ 63"
  shows "\<exists>lm' w'. push_loop K S slot key left vs (lm, w) = (lm', w') \<and>
    list_mid abs ok S slot key m l lm' (if left then rev vs @ xs else xs @ vs) w' \<and> lm_base lm' = lm_base lm"
  using assms
proof (induction vs arbitrary: lm xs w)
  case (Cons v vs)
  show ?case
  proof (cases left)
    case True
    have "sint (lm_head lm - 1) = sint (lm_head lm) - 1"
      using Cons.prems(2) sint_offset[of "lm_head lm" "- 1"] i64_bounds[of "lm_head lm"] by simp
    then show ?thesis
      using Cons.IH[OF mid_push_front[OF Cons.prems(1), of v]] Cons.prems(2,3) True by simp
  next
    case False
    have "sint (lm_tail lm + 1) = sint (lm_tail lm) + 1"
      using Cons.prems(3) sint_offset[of "lm_tail lm" 1] i64_bounds[of "lm_tail lm"] by simp
    then show ?thesis
      using Cons.IH[OF mid_push_back[OF Cons.prems(1), of v]] Cons.prems(2,3) False by simp
  qed
qed simp

lemma mid_new:
  assumes "ok (w_kv w)" "val_ready list_kind S slot key (rows w) (w_last w)" "clock_sane S (w_last w)"
    and "only_rows (own_rows (st_ns S) slot key) m (rows w)" "l \<le> w_last w"
  defines "p \<equiv> next_version (st_clock S (w_ticks w)) (snd (read_clock S w))"
  shows "list_mid abs ok S slot key m l (lm_new (fst p)) [] (snd p)"
proof -
  have R: "ns_ok (st_ns S)" "key_framed key" "versions_below (rows w) (w_last w)"
    using assms(2) by (simp_all add: val_ready_def)
  show ?thesis
    using new_version[OF R(3) assms(3) R(1,2)] assms(1,4,5) R
    by (simp add: p_def[symmetric] list_mid_def lm_new_def mh_value_type_def cm_new_def)
qed

lemma push_spec:
  assumes "ok (w_kv w)" "val_ready list_kind S slot key (rows w) (w_last w)" "clock_sane S (w_last w)"
    and view: "val_view list_kind S slot key (rows w) (st_clock S (w_ticks w)) = Inr (e, xs)"
    and room: "list_room S slot key (rows w) (length vs)" and small: "length xs + length vs < 2 ^ 32"
    and fits: "sum_list (map length (xs @ vs)) < 2 ^ 64"
  defines "big \<equiv> sum_list (map length (xs @ vs)) > unat (st_max_value_bytes S)"
  shows "\<exists>w'. push K S slot key vs left w =
      (if big then Inl ValueTooLarge else Inr (word_of_nat (length xs + length vs)), w') \<and> ok (w_kv w') \<and>
    val_post list_kind S slot key (rows w) (w_last w) (rows w') (w_last w')
      (e, if big then xs else if left then rev vs @ xs else xs @ vs)"
proof -
  note lens = lens_unat[of vs]
  have main: "\<exists>w'. (if cm_bytes (lm_base lm) + lens vs > st_max_value_bytes S then (Inl ValueTooLarge, w2) else
        (let (meta, w) = push_loop K S slot key left vs (lm\<lparr>lm_base := (lm_base lm)\<lparr>cm_bytes := cm_bytes (lm_base lm) + lens vs\<rparr>\<rparr>, w2)
         in (Inr (lm_tail meta - lm_head meta), write_meta K S slot key meta w))) =
      (if big then Inl ValueTooLarge else Inr (word_of_nat (length xs + length vs)), w') \<and> ok (w_kv w') \<and>
    val_post list_kind S slot key (rows w) (w_last w) (rows w') (w_last w')
      (e, if big then xs else if left then rev vs @ xs else xs @ vs)"
    if mid: "list_mid abs ok S slot key (rows w) (w_last w) lm xs w2"
      and b: "unat (cm_bytes (lm_base lm)) = sum_list (map length xs)" and e: "mh_expire_ms (cm_header (lm_base lm)) = e"
      and r: "- (2 ^ 63) \<le> sint (lm_head lm) - int (length vs)" "sint (lm_tail lm) + int (length vs) < 2 ^ 63"
      and same: "val_post list_kind S slot key (rows w) (w_last w) (rows w2) (w_last w2) (e, xs)" for lm w2
  proof -
    let ?b = "cm_bytes (lm_base lm) + lens vs"
    have ub: "unat ?b = sum_list (map length (xs @ vs))"
      using b lens fits by (simp add: unat_word_ariths(1))
    then have big: "?b > st_max_value_bytes S \<longleftrightarrow> big" by (simp add: big_def word_less_nat_alt)
    let ?lm = "lm\<lparr>lm_base := (lm_base lm)\<lparr>cm_bytes := ?b\<rparr>\<rparr>"
    let ?ys = "if left then rev vs @ xs else xs @ vs"
    have "list_mid abs ok S slot key (rows w) (w_last w) ?lm xs w2" using mid by (rule mid_base) simp_all
    then obtain lm' w3 where p: "push_loop K S slot key left vs (?lm, w2) = (lm', w3)"
      "list_mid abs ok S slot key (rows w) (w_last w) lm' ?ys w3" "lm_base lm' = lm_base ?lm"
      using push_loop[of S slot key "rows w" "w_last w" ?lm xs w2 vs left] r by auto
    have len: "length ?ys = length xs + length vs" "sum_list (map length ?ys) = sum_list (map length (xs @ vs))"
      by (simp_all add: rev_map[symmetric])
    have "lm_tail lm' - lm_head lm' = word_of_nat (length xs + length vs)"
      using mid_tail[OF p(2)] len(1) by simp
    then show ?thesis
      using big p write_meta[OF p(2), of e] len small ub e same mid by (simp add: Let_def list_mid_def)
  qed
  from assms(1,2) view show ?thesis
  proof (cases rule: list_read_cases)
    case (absent w1)
    let ?p = "next_version (st_clock S (w_ticks w1)) (snd (read_clock S w1))"
    have mid: "list_mid abs ok S slot key (rows w) (w_last w) (lm_new (fst ?p)) xs (snd ?p)"
      using mid_new[OF absent(2) val_post_next(1)[OF absent(6)]] assms(3) absent(3,4,6)
      by (simp add: val_post_def)
    have R: "ns_ok (st_ns S)" "key_framed key" "versions_below (rows w1) (w_last w1)"
      using val_post_next(1)[OF absent(6)] by (simp_all add: val_ready_def)
    have "clock_sane S (w_last w1)" using assms(3) absent(3) by simp
    note nv = new_version[OF R(3) this R(1,2)]
    have same: "val_post list_kind S slot key (rows w) (w_last w) (rows (snd ?p)) (w_last (snd ?p)) (e, xs)"
      using absent(6) nv(1,2,5) absent(3) by (simp add: val_post_def val_ready_def)
    have new: "unat (cm_bytes (lm_base (lm_new v))) = sum_list (map length xs)"
      "mh_expire_ms (cm_header (lm_base (lm_new v))) = e" "- (2 ^ 63) \<le> sint (lm_head (lm_new v)) - int (length vs)"
      "sint (lm_tail (lm_new v)) + int (length vs) < 2 ^ 63" for v
      using absent(4,5) room by (simp_all add: lm_new_def cm_new_def list_room_def)
    show ?thesis
      using main[OF mid new same] absent(1) by (simp only: push_def Let_def split_def fst_conv snd_conv sum.case option.case read_clock_sel)
  next
    case (present lm w1)
    then show ?thesis
      using main[OF present(2) _ present(6) list_ready_room[OF room present(7)] present(8)]
      by (simp add: push_def list_counts_def Let_def)
  qed
qed

lemma pop_loop:
  assumes "list_mid abs ok S slot key m l lm xs w" "unat (cm_bytes (lm_base lm)) = sum_list (map length xs)"
    and "n \<le> length xs"
  shows "\<exists>lm' w'. pop_loop K S slot key left n (lm, out, w) =
      (lm', out @ take n (if left then xs else rev xs), w') \<and>
    list_mid abs ok S slot key m l lm' (if left then drop n xs else rev (drop n (rev xs))) w' \<and>
    unat (cm_bytes (lm_base lm')) = sum_list (map length (if left then drop n xs else rev (drop n (rev xs)))) \<and>
    cm_header (lm_base lm') = cm_header (lm_base lm) \<and> w_last w' = w_last w"
  using assms
proof (induction n arbitrary: lm xs w out)
  case (Suc n)
  let ?b = "\<lambda>x. (lm_base lm)\<lparr>cm_bytes := saturating_sub (cm_bytes (lm_base lm)) (word_of_nat (length x))\<rparr>"
  show ?case
  proof (cases left)
    case True
    obtain x ys where xs: "xs = x # ys" using Suc.prems(3) by (cases xs) auto
    let ?lm = "lm\<lparr>lm_head := lm_head lm + 1, lm_base := ?b x\<rparr>"
    let ?w = "snd (w_delete K w (elem_key S slot key (cm_version (lm_base lm)) (lm_head lm)))"
    note pop = mid_pop_front[OF Suc.prems(1)[unfolded xs]]
    have mid: "list_mid abs ok S slot key m l ?lm ys ?w" using mid_base[OF pop(2), of "?b x"] by simp
    have b: "unat (cm_bytes (lm_base ?lm)) = sum_list (map length ys)"
      using Suc.prems(2) xs u64_len_sub[of "length x" "cm_bytes (lm_base lm)"] by simp
    have step: "pop_loop K S slot key left (Suc n) (lm, out, w) = pop_loop K S slot key left n (?lm, out @ [x], ?w)"
      using True pop(1) by simp
    show ?thesis using Suc.IH[OF mid b, of "out @ [x]"] Suc.prems(3) xs True step by (simp add: world)
  next
    case False
    obtain x ys where xs: "xs = ys @ [x]" using Suc.prems(3) by (cases xs rule: rev_cases) auto
    let ?lm = "lm\<lparr>lm_tail := lm_tail lm - 1, lm_base := ?b x\<rparr>"
    let ?w = "snd (w_delete K w (elem_key S slot key (cm_version (lm_base lm)) (lm_tail lm - 1)))"
    note pop = mid_pop_back[OF Suc.prems(1)[unfolded xs]]
    have mid: "list_mid abs ok S slot key m l ?lm ys ?w" using mid_base[OF pop(2), of "?b x"] by simp
    have b: "unat (cm_bytes (lm_base ?lm)) = sum_list (map length ys)"
      using Suc.prems(2) xs u64_len_sub[of "length x" "cm_bytes (lm_base lm)"] by simp
    have step: "pop_loop K S slot key left (Suc n) (lm, out, w) = pop_loop K S slot key left n (?lm, out @ [x], ?w)"
      using False pop(1) by simp
    show ?thesis using Suc.IH[OF mid b, of "out @ [x]"] Suc.prems(3) xs False step by (simp add: world)
  qed
qed simp

text \<open>A single pop is one round of the loop and the metadata write.\<close>

lemma pop_is_loop:
  "pop K S slot key left w =
     (case list_read_meta K S slot key w of
        (Inl e, w) \<Rightarrow> (Inl e, w)
      | (Inr None, w) \<Rightarrow> (Inr None, w)
      | (Inr (Some meta), w) \<Rightarrow>
          (let (meta, out, w) = pop_loop K S slot key left 1 (meta, [], w)
           in (Inr (case out of [] \<Rightarrow> None | v # _ \<Rightarrow> Some v), write_meta K S slot key meta w)))"
  by (auto simp: pop_def Let_def split: prod.split sum.split option.split)

lemma pop_spec:
  assumes "ok (w_kv w)" "val_ready list_kind S slot key (rows w) (w_last w)"
    and view: "val_view list_kind S slot key (rows w) (st_clock S (w_ticks w)) = Inr (e, xs)"
  shows "\<exists>w'. pop K S slot key left w =
      (Inr (if xs = [] then None else Some (if left then hd xs else last xs)), w') \<and> ok (w_kv w') \<and>
    val_post list_kind S slot key (rows w) (w_last w) (rows w') (w_last w') (e, if left then tl xs else butlast xs)"
  using assms
proof (cases rule: list_read_cases)
  case (absent w1)
  then show ?thesis by (simp add: pop_def)
next
  case (present lm w1)
  have c: "unat (cm_bytes (lm_base lm)) = sum_list (map length xs)" "length xs < 2 ^ 32"
    using present(5) unsigned_less[of "cm_size (lm_base lm)", where 'a = nat] by (simp_all add: list_counts_def)
  have one: "1 \<le> length xs" using present(4) by (cases xs) auto
  let ?ys = "if left then tl xs else butlast xs" and ?x = "if left then hd xs else last xs"
  have ys: "(if left then drop 1 xs else rev (drop 1 (rev xs))) = ?ys" "take 1 (if left then xs else rev xs) = [?x]"
    using present(4) by (auto simp: drop_Suc butlast_rev[symmetric] take_Suc hd_rev simp flip: butlast_rev)
  obtain lm' w2 where p: "pop_loop K S slot key left 1 (lm, [], w1) = (lm', [?x], w2)"
    "list_mid abs ok S slot key (rows w) (w_last w) lm' ?ys w2" "unat (cm_bytes (lm_base lm')) = sum_list (map length ?ys)"
    "cm_header (lm_base lm') = cm_header (lm_base lm)"
    using pop_loop[OF present(2) c(1) one, of left "[]"] unfolding ys by auto
  have "length ?ys < 2 ^ 32" using c(2) by auto
  note wm = write_meta[OF p(2) this p(3), of e]
  show ?thesis
    using present(1,4,6) p(1,4) wm by (auto simp: pop_is_loop)
qed

lemma pop_n_spec:
  assumes "ok (w_kv w)" "val_ready list_kind S slot key (rows w) (w_last w)"
    and view: "val_view list_kind S slot key (rows w) (st_clock S (w_ticks w)) = Inr (e, xs)"
  shows "\<exists>w'. pop_n K S slot key n left w =
      (Inr (if xs = [] then None else Some (take (unat n) (if left then xs else rev xs))), w') \<and> ok (w_kv w') \<and>
    val_post list_kind S slot key (rows w) (w_last w) (rows w') (w_last w')
      (e, if left then drop (unat n) xs else rev (drop (unat n) (rev xs)))"
  using assms
proof (cases rule: list_read_cases)
  case (absent w1)
  then show ?thesis by (simp add: pop_n_def)
next
  case (present lm w1)
  have c: "unat (cm_bytes (lm_base lm)) = sum_list (map length xs)" "length xs < 2 ^ 32"
    using present(5) unsigned_less[of "cm_size (lm_base lm)", where 'a = nat] by (simp_all add: list_counts_def)
  let ?tk = "min n (lm_tail lm - lm_head lm)"
  let ?ys = "if left then drop (unat n) xs else rev (drop (unat n) (rev xs))"
  let ?out = "take (unat n) (if left then xs else rev xs)"
  have tk: "unat ?tk = min (unat n) (length xs)"
    using mid_tail[OF present(2)] c(2) by (simp add: min_def word_le_nat_alt unat_of_nat)
  have ys: "(if left then drop (unat ?tk) xs else rev (drop (unat ?tk) (rev xs))) = ?ys"
    "take (unat ?tk) (if left then xs else rev xs) = ?out"
    unfolding tk by (simp_all add: min_def)
  have le: "unat ?tk \<le> length xs" unfolding tk by simp
  obtain lm' w2 where p: "pop_loop K S slot key left (unat ?tk) (lm, [], w1) = (lm', ?out, w2)"
    "list_mid abs ok S slot key (rows w) (w_last w) lm' ?ys w2" "unat (cm_bytes (lm_base lm')) = sum_list (map length ?ys)"
    "cm_header (lm_base lm') = cm_header (lm_base lm)"
    using pop_loop[OF present(2) c(1) le, of left "[]"] unfolding ys by auto
  have "length ?ys < 2 ^ 32" using c(2) by auto
  note wm = write_meta[OF p(2) this p(3), of e]
  show ?thesis
  proof (cases "?tk > 0")
    case True
    then show ?thesis using present(1,4,6) p(1,4) wm by (simp add: pop_n_def Let_def)
  next
    case False
    then have z: "unat ?tk = 0" by (simp add: word_less_nat_alt)
    then have n: "unat n = 0" using tk present(4) by (simp add: min_def split: if_splits)
    show ?thesis using False z n present by (auto simp: pop_n_def Let_def list_mid_def)
  qed
qed

end

subsection \<open>Ranks and ranges\<close>

lemma map_filter_total: "(\<And>x. x \<in> set xs \<Longrightarrow> f x = Some (g x)) \<Longrightarrow> List.map_filter f xs = map g xs"
  by (induction xs) (simp_all add: map_filter_simps)

lemma sint_len: "n < 2 ^ 32 \<Longrightarrow> sint (word_of_nat n :: i64) = int n"
  using sint_small[of "word_of_nat n"] by (simp add: unat_of_nat)

lemma norm_rank:
  assumes "n < 2 ^ 32" shows "sint (norm_rank (word_of_nat n) i) = rank_of n i"
proof (cases "sint i < 0")
  case True
  have "sint ((word_of_nat n :: i64) + word_of_int (sint i)) = sint (word_of_nat n :: i64) + sint i"
    by (rule sint_offset) (use True assms i64_bounds[of i] sint_len[OF assms] in simp_all)
  then show ?thesis using True sint_len[OF assms] by (simp add: norm_rank_def rank_of_def)
qed (simp add: norm_rank_def rank_of_def)

lemma nonneg_word: "0 \<le> sint (r::i64) \<Longrightarrow> r = word_of_nat (nat (sint r))"
  by (simp add: of_nat_nat)

lemma clip_range:
  fixes start stop :: i64
  assumes "n < 2 ^ 32" "n > 0"
  defines "len \<equiv> word_of_nat n :: i64"
  defines "from \<equiv> if sint (norm_rank len start) < 0 then 0 else norm_rank len start"
  defines "to \<equiv> if sint (norm_rank len stop) < sint (len - 1) then norm_rank len stop else len - 1"
  shows "sint from = max 0 (rank_of n start)" "sint to = min (rank_of n stop) (int n - 1)"
    and "\<not> sint from > sint to \<Longrightarrow> from = word_of_nat (fst (range_of n start stop)) \<and>
      to + 1 = word_of_nat (snd (range_of n start stop)) \<and>
      fst (range_of n start stop) < snd (range_of n start stop) \<and> snd (range_of n start stop) \<le> n"
    and "sint from > sint to \<Longrightarrow> range_of n start stop = (0, 0)"
proof -
  have one: "len - 1 = word_of_nat (n - 1)" using assms(2) by (simp add: len_def of_nat_diff)
  have last: "sint (len - 1) = int n - 1"
    unfolding one using sint_len[of "n - 1"] assms(1,2) by (simp add: of_nat_diff)
  show f: "sint from = max 0 (rank_of n start)"
    using norm_rank[OF assms(1)] by (auto simp: from_def len_def max_def)
  show t: "sint to = min (rank_of n stop) (int n - 1)"
    using norm_rank[OF assms(1)] last by (auto simp: to_def len_def min_def)
  show "sint from > sint to \<Longrightarrow> range_of n start stop = (0, 0)"
    by (simp add: range_of_def f t)
  assume le: "\<not> sint from > sint to"
  then have r: "range_of n start stop = (nat (sint from), nat (sint to + 1))" by (simp add: range_of_def f t)
  have b: "0 \<le> sint from" "0 \<le> sint to" "sint to < int n" using le f t by auto
  have "to + 1 = word_of_nat (nat (sint to)) + 1" using nonneg_word[OF b(2)] by simp
  also have "\<dots> = word_of_nat (nat (sint to + 1))" using b(2) by (simp add: nat_add_distrib)
  finally show "from = word_of_nat (fst (range_of n start stop)) \<and>
      to + 1 = word_of_nat (snd (range_of n start stop)) \<and>
      fst (range_of n start stop) < snd (range_of n start stop) \<and> snd (range_of n start stop) \<le> n"
    using nonneg_word[OF b(1)] b le unfolding r by auto
qed

context kv_store
begin

lemma mid_len:
  assumes "list_mid abs ok S slot key m l lm xs w" "list_counts lm xs"
  shows "lm_tail lm - lm_head lm = word_of_nat (length xs)" "length xs < 2 ^ 32"
  using mid_tail[OF assms(1)] assms(2) unsigned_less[of "cm_size (lm_base lm)", where 'a = nat]
  by (simp_all add: list_counts_def)

lemma elem_nth:
  assumes "list_mid abs ok S slot key m l lm xs w" "i < length xs"
  shows "w_get K w (elem_key S slot key (cm_version (lm_base lm)) (lm_head lm + word_of_nat i)) = Some (xs ! i)"
  using elem_get[OF assms(1)] list_map_nth[OF assms(2)] mid_tail[OF assms(1)] by simp

lemma map_filter_ranks:
  assumes "list_mid abs ok S slot key m l lm xs w" "b \<le> length xs"
  shows "List.map_filter (\<lambda>rank. w_get K w (elem_key S slot key (cm_version (lm_base lm)) (lm_head lm + rank)))
    (map word_of_nat [a..<b]) = sublist (a, b) xs"
proof -
  have "List.map_filter (\<lambda>rank. w_get K w (elem_key S slot key (cm_version (lm_base lm)) (lm_head lm + rank)))
    (map word_of_nat [a..<b]) = map (\<lambda>r :: i64. xs ! unat r) (map word_of_nat [a..<b])"
    using elem_nth[OF assms(1)] assms(2) mid_tail[OF assms(1)]
    by (intro map_filter_total) (auto simp: unat_of_nat)
  also have "\<dots> = map (\<lambda>i. xs ! i) [a..<b]"
    using assms(2) mid_tail[OF assms(1)] by (auto simp: unat_of_nat)
  also have "\<dots> = sublist (a, b) xs"
    using assms(2) by (intro nth_equalityI) (simp_all add: sublist_def)
  finally show ?thesis .
qed

lemma list_read_spec:
  assumes "ok (w_kv w)" "val_ready list_kind S slot key (rows w) (w_last w)"
    and view: "val_view list_kind S slot key (rows w) (st_clock S (w_ticks w)) = Inr (e, xs)"
  shows "\<exists>w1. ok (w_kv w1) \<and> w_last w1 = w_last w \<and>
    val_post list_kind S slot key (rows w) (w_last w) (rows w1) (w_last w1) (e, xs) \<and>
    llen K S slot key w = (Inr (word_of_nat (length xs)), w1) \<and>
    (\<forall>i. lindex K S slot key i w =
      (Inr (if 0 \<le> rank_of (length xs) i \<and> rank_of (length xs) i < int (length xs)
            then Some (xs ! nat (rank_of (length xs) i)) else None), w1)) \<and>
    (\<forall>a b. lrange K S slot key a b w = (Inr (sublist (range_of (length xs) a b) xs), w1))"
  using assms
proof (cases rule: list_read_cases)
  case (absent w1)
  have "rank_of 0 i < 0 \<or> \<not> rank_of 0 i < 0" for i by simp
  then show ?thesis using absent by (auto simp: llen_def lindex_def lrange_def sublist_def)
next
  case (present lm w1)
  note len = mid_len[OF present(2,5)]
  have pos: "length xs > 0" using present(4) by simp
  have li: "lindex K S slot key i w =
      (Inr (if 0 \<le> rank_of (length xs) i \<and> rank_of (length xs) i < int (length xs)
            then Some (xs ! nat (rank_of (length xs) i)) else None), w1)" for i
  proof -
    note r = norm_rank[OF len(2), of i]
    show ?thesis
    proof (cases "0 \<le> rank_of (length xs) i \<and> rank_of (length xs) i < int (length xs)")
      case True
      have "norm_rank (word_of_nat (length xs)) i = word_of_nat (nat (rank_of (length xs) i))"
        using nonneg_word[of "norm_rank (word_of_nat (length xs)) i"] r True by simp
      moreover have "nat (rank_of (length xs) i) < length xs" using True by linarith
      ultimately show ?thesis
        using True present(1) len r sint_len[OF len(2)] elem_nth[OF present(2)]
        by (simp add: lindex_def Let_def del: of_nat_nat)
    next
      case False
      then show ?thesis using present(1) len r sint_len[OF len(2)] by (auto simp: lindex_def Let_def)
    qed
  qed
  have lr: "lrange K S slot key a b w = (Inr (sublist (range_of (length xs) a b) xs), w1)" for a b
  proof -
    let ?len = "word_of_nat (length xs) :: i64"
    let ?from = "if sint (norm_rank ?len a) < 0 then 0 else norm_rank ?len a"
    let ?to = "if sint (norm_rank ?len b) < sint (?len - 1) then norm_rank ?len b else ?len - 1"
    note clip = clip_range(3,4)[OF len(2) pos, where start = a and stop = b]
    show ?thesis
    proof (cases "sint ?from > sint ?to")
      case True
      then show ?thesis using clip(2)[OF True] present(1) len
        by (simp add: lrange_def Let_def sublist_def)
    next
      case False
      let ?r = "range_of (length xs) a b"
      note c = clip(1)[OF False]
      have "i64_range ?from (?to + 1) = map word_of_nat [fst ?r..<snd ?r]"
        using c len(2) sint_len[of "fst ?r"] sint_len[of "snd ?r"]
        by (intro nth_equalityI) (simp_all add: i64_range_def)
      then show ?thesis
        using False present(1) len(1) map_filter_ranks[OF present(2), of "snd ?r" "fst ?r"] c
        by (simp add: lrange_def Let_def)
    qed
  qed
  have "llen K S slot key w = (Inr (word_of_nat (length xs)), w1)"
    using present(1) len(1) by (simp add: llen_def)
  then show ?thesis using li lr present(2,3,8) by (auto simp: list_mid_def)
qed

end

subsection \<open>Trimming\<close>

lemma list_map_front_free: "length xs < 2 ^ 64 \<Longrightarrow> list_map (h + 1) xs (index_field h) = None"
  using list_map_pop_front[of xs h x] by (metis fun_upd_same)

lemma total_list_map: "length xs \<le> 2 ^ 64 \<Longrightarrow> total list_cost (list_map h xs) = sum_list (map length xs)"
proof (induction xs arbitrary: h)
  case (Cons x xs)
  then show ?case
    using total_upd_new[OF list_map_finite list_map_front_free[of xs h], of list_cost x]
    by (simp add: list_cost_def[of _ x] flip: fun_upd_def)
qed simp

lemma unat_shift:
  assumes "a < 2 ^ 64"
  shows "unat ((d::i64) - word_of_nat a) = (if a \<le> unat d then unat d - a else unat d + 2 ^ 64 - a)"
proof -
  have "unat (word_of_nat a :: i64) = a" using assms by (simp add: unat_of_nat)
  then show ?thesis using unat_sub_if_size[of d "word_of_nat a"] by (simp add: word_size)
qed

lemma index_range_mem:
  assumes "q \<le> 2 ^ 64"
  shows "j \<in> set (map (\<lambda>k. (h::i64) + word_of_nat k) [p..<q]) \<longleftrightarrow> p \<le> unat (j - h) \<and> unat (j - h) < q"
proof
  assume "j \<in> set (map (\<lambda>k. h + word_of_nat k) [p..<q])"
  then obtain k where "j = h + word_of_nat k" "p \<le> k" "k < q" by auto
  then show "p \<le> unat (j - h) \<and> unat (j - h) < q" using unat_offset[of k h] assms by simp
next
  assume "p \<le> unat (j - h) \<and> unat (j - h) < q"
  moreover have "j = h + word_of_nat (unat (j - h))" by (rule offset_eq) simp
  ultimately show "j \<in> set (map (\<lambda>k. h + word_of_nat k) [p..<q])" by force
qed

lemma list_map_sublist:
  assumes "a \<le> b" "b \<le> length xs" "length xs < 2 ^ 64"
  shows "list_map h xs |` (- index_field ` set (map (\<lambda>k. h + word_of_nat k) ([0..<a] @ [b..<length xs]))) =
    list_map (h + word_of_nat a) (sublist (a, b) xs)"
proof (rule list_map_eqI)
  fix j
  have sh: "unat (j - (h + word_of_nat a)) = (if a \<le> unat (j - h) then unat (j - h) - a else unat (j - h) + 2 ^ 64 - a)"
    using unat_shift[of a "j - h"] assms by (simp add: diff_diff_add)
  have mem: "index_field j \<in> index_field ` set (map (\<lambda>k. h + word_of_nat k) ([0..<a] @ [b..<length xs])) \<longleftrightarrow>
      unat (j - h) < a \<or> b \<le> unat (j - h) \<and> unat (j - h) < length xs"
    using index_range_mem[of a j h 0] index_range_mem[of "length xs" j h b] assms by (auto simp: image_iff)
  show "(list_map h xs |` (- index_field ` set (map (\<lambda>k. h + word_of_nat k) ([0..<a] @ [b..<length xs])))) (index_field j) =
    (if unat (j - (h + word_of_nat a)) < length (sublist (a, b) xs)
     then Some (sublist (a, b) xs ! unat (j - (h + word_of_nat a))) else None)"
    unfolding restrict_map_def Compl_iff mem sh
    using assms list_map_at[of xs h j] by (auto simp: sublist_def)
qed (use assms in \<open>auto simp: restrict_map_def list_map_other sublist_def\<close>)

context kv_store
begin

lemma trim_loop:
  assumes "ok (w_kv w)" "ns_ok (st_ns S)" "key_framed key"
    and "coll (rows w) (st_ns S) slot key version = F" "finite (dom F)"
    and "unat b = total list_cost F" "versions_below (rows w) l"
  shows "\<exists>b' w'. trim_loop K S slot key version is (b, w) = (b', w') \<and> ok (w_kv w') \<and> w_last w' = w_last w \<and>
    coll (rows w') (st_ns S) slot key version = F |` (- index_field ` set is) \<and>
    unat b' = total list_cost (F |` (- index_field ` set is)) \<and> versions_below (rows w') l \<and>
    only_rows (own_rows (st_ns S) slot key) (rows w) (rows w')"
  using assms(1,4-)
proof (induction "is" arbitrary: w F b)
  case Nil
  then show ?case by (auto simp: restrict_map_def)
next
  case (Cons i "is")
  let ?ek = "elem_key S slot key version i" and ?f = "index_field i"
  let ?w1 = "snd (w_delete K w ?ek)"
  let ?b = "case F ?f of Some v \<Rightarrow> saturating_sub b (word_of_nat (length v)) | None \<Rightarrow> b"
  have get: "w_get K w ?ek = F ?f" using Cons.prems(1,2) by (auto simp: world elem_key_def coll_def)
  have w1: "ok (w_kv ?w1)" "w_last ?w1 = w_last w" "versions_below (rows ?w1) l"
    "coll (rows ?w1) (st_ns S) slot key version = F(?f := None)"
    "only_rows (own_rows (st_ns S) slot key) (rows w) (rows ?w1)"
    using Cons.prems(1,2,5) assms(2,3)
    by (auto simp: world elem_key_def coll_subkey only_rows_upd versions_below_def)
  have b: "unat ?b = total list_cost (F(?f := None))"
  proof (cases "F ?f")
    case (Some v)
    then show ?thesis
      using total_del[OF Cons.prems(3) Some, of list_cost] Cons.prems(4) by (simp add: list_cost_def[of _ v] u64_len_sub)
  qed (use Cons.prems(4) in \<open>simp add: fun_upd_idem\<close>)
  have fin: "finite (dom (F(?f := None)))" using Cons.prems(3) by simp
  have step: "trim_loop K S slot key version (i # is) (b, w) = trim_loop K S slot key version is (?b, ?w1)"
    using get by simp
  from Cons.IH[OF w1(1,4) fin b w1(3)] show ?case
    unfolding step list.set image_insert restrict_comp_insert' w1(2) using w1(5) by (blast intro: only_rows_trans)
qed

lemma mid_trim:
  assumes mid: "list_mid abs ok S slot key m l lm xs w" and b: "unat (cm_bytes (lm_base lm)) = sum_list (map length xs)"
    and ab: "a \<le> b" "b \<le> length xs" and "is = map (\<lambda>k. lm_head lm + word_of_nat k) ([0..<a] @ [b..<length xs])"
  shows "\<exists>b' w'. trim_loop K S slot key (cm_version (lm_base lm)) is (cm_bytes (lm_base lm), w) = (b', w') \<and>
    list_mid abs ok S slot key m l (lm\<lparr>lm_base := (lm_base lm)\<lparr>cm_bytes := b'\<rparr>,
      lm_head := lm_head lm + word_of_nat a, lm_tail := lm_head lm + word_of_nat b\<rparr>) (sublist (a, b) xs) w' \<and>
    unat b' = sum_list (map length (sublist (a, b) xs))"
proof -
  note M = mid[unfolded list_mid_def]
  have len: "length xs < 2 ^ 64" using mid_tail[OF mid] by simp
  have off: "sint (lm_head lm + word_of_nat i) = sint (lm_head lm) + int i" if "i \<le> length xs" for i
    using sint_offset[of "lm_head lm" "int i"] that M i64_bounds[of "lm_head lm"] i64_bounds[of "lm_tail lm"] by simp
  have sub: "list_map (lm_head lm) xs |` (- index_field ` set is) = list_map (lm_head lm + word_of_nat a) (sublist (a, b) xs)"
    unfolding assms(5) using ab len by (rule list_map_sublist)
  have tot: "total list_cost (list_map (lm_head lm + word_of_nat a) (sublist (a, b) xs)) = sum_list (map length (sublist (a, b) xs))"
    using len by (intro total_list_map) (simp add: sublist_def)
  obtain b' w' where t: "trim_loop K S slot key (cm_version (lm_base lm)) is (cm_bytes (lm_base lm), w) = (b', w')"
    and w': "ok (w_kv w')" "w_last w' = w_last w" "unat b' = sum_list (map length (sublist (a, b) xs))"
    "coll (rows w') (st_ns S) slot key (cm_version (lm_base lm)) = list_map (lm_head lm + word_of_nat a) (sublist (a, b) xs)"
    "versions_below (rows w') (w_last w)" "only_rows (own_rows (st_ns S) slot key) (rows w) (rows w')"
    using trim_loop[of w S key slot "cm_version (lm_base lm)" "list_map (lm_head lm) xs" "cm_bytes (lm_base lm)" "w_last w" "is"]
      M total_list_map[of xs "lm_head lm"] len b list_map_finite[of "lm_head lm" xs]
    unfolding sub tot by auto
  have "length (sublist (a, b) xs) = b - a" using ab by (simp add: sublist_def)
  then show ?thesis
    using t w' M off ab by (auto simp: list_mid_def intro: only_rows_trans)
qed

lemma ltrim_spec:
  assumes "ok (w_kv w)" "val_ready list_kind S slot key (rows w) (w_last w)"
    and view: "val_view list_kind S slot key (rows w) (st_clock S (w_ticks w)) = Inr (e, xs)"
  shows "\<exists>w'. ltrim K S slot key start stop w = (Inr (), w') \<and> ok (w_kv w') \<and>
    val_post list_kind S slot key (rows w) (w_last w) (rows w') (w_last w')
      (e, sublist (range_of (length xs) start stop) xs)"
  using assms
proof (cases rule: list_read_cases)
  case (absent w1)
  then show ?thesis by (simp add: ltrim_def sublist_def)
next
  case (present lm w1)
  note len = mid_len[OF present(2,5)] and M = present(2)[unfolded list_mid_def]
  have pos: "length xs > 0" using present(4) by simp
  obtain a b where ab: "range_of (length xs) start stop = (a, b)" by fastforce
  let ?len = "word_of_nat (length xs) :: i64"
  let ?from = "if sint (norm_rank ?len start) < 0 then 0 else norm_rank ?len start"
  let ?to = "if sint (norm_rank ?len stop) < sint (?len - 1) then norm_rank ?len stop else ?len - 1"
  note clip = clip_range(3,4)[OF len(2) pos, where start = start and stop = stop]
  have ht: "(if sint ?from > sint ?to then (lm_head lm, lm_head lm) else (lm_head lm + ?from, lm_head lm + ?to + 1)) =
      (lm_head lm + word_of_nat a, lm_head lm + word_of_nat b) \<and> a \<le> b \<and> b \<le> length xs"
    using clip ab by (cases "sint ?from > sint ?to") (auto simp: add.assoc)
  then have le: "a \<le> b" "b \<le> length xs" by simp_all
  have off: "sint (lm_head lm + word_of_nat i) = sint (lm_head lm) + int i" if "i \<le> length xs" for i
    using sint_offset[of "lm_head lm" "int i"] that M i64_bounds[of "lm_head lm"] i64_bounds[of "lm_tail lm"] by simp
  have idx: "i64_range (lm_head lm) (lm_head lm + word_of_nat a) @ i64_range (lm_head lm + word_of_nat b) (lm_tail lm) =
      map (\<lambda>k. lm_head lm + word_of_nat k) ([0..<a] @ [b..<length xs])"
  proof -
    have "i64_range (lm_head lm) (lm_head lm + word_of_nat a) = map (\<lambda>k. lm_head lm + word_of_nat k) [0..<a]"
      using off[of a] le by (simp add: i64_range_def)
    moreover have "nat (int (length xs) - int b) = length xs - b" using le(2) by linarith
    moreover have "i64_range (lm_head lm + word_of_nat b) (lm_tail lm) = map (\<lambda>k. lm_head lm + word_of_nat k) [b..<length xs]"
      using off[of b] le M calculation(2) by (intro nth_equalityI) (simp_all add: i64_range_def add.assoc)
    ultimately show ?thesis by simp
  qed
  have "unat (cm_bytes (lm_base lm)) = sum_list (map length xs)" using present(5) by (simp add: list_counts_def)
  from mid_trim[OF present(2) this le idx] obtain b' w2 where
    t: "trim_loop K S slot key (cm_version (lm_base lm)) (i64_range (lm_head lm) (lm_head lm + word_of_nat a) @
      i64_range (lm_head lm + word_of_nat b) (lm_tail lm)) (cm_bytes (lm_base lm), w1) = (b', w2)"
    and mid: "list_mid abs ok S slot key (rows w) (w_last w) (lm\<lparr>lm_base := (lm_base lm)\<lparr>cm_bytes := b'\<rparr>,
      lm_head := lm_head lm + word_of_nat a, lm_tail := lm_head lm + word_of_nat b\<rparr>) (sublist (a, b) xs) w2"
    and b': "unat b' = sum_list (map length (sublist (a, b) xs))" by blast
  have "length (sublist (a, b) xs) < 2 ^ 32" using len(2) by (simp add: sublist_def)
  note wm = write_meta[OF mid this, of e]
  show ?thesis
    using present(1,6) len(1) ht t wm b' ab by (simp add: ltrim_def Let_def)
qed

end

subsection \<open>Interior changes\<close>

lemma sum_list_update_len:
  "i < length xs \<Longrightarrow> sum_list (map length (xs[i := v])) + length (xs ! i) = sum_list (map length xs) + length v"
proof (induction xs arbitrary: i)
  case (Cons x xs)
  then show ?case by (cases i) auto
qed simp

lemma length_nth_le: "i < length xs \<Longrightarrow> length (xs ! i) \<le> sum_list (map length xs)"
  by (rule member_le_sum_list, force, simp)

lemma remove_first_le: "length (remove_first n e xs) \<le> length xs"
    "sum_list (map length (remove_first n y ys)) \<le> sum_list (map length ys)"
proof -
  show "length (remove_first n e xs) \<le> length xs"
    by (induction xs arbitrary: n) (auto simp: le_SucI)
  show "sum_list (map length (remove_first n y ys)) \<le> sum_list (map length ys)"
    by (induction ys arbitrary: n) (auto simp: trans_le_add2)
qed

lemma remove_first_same: "length (remove_first n e xs) = length xs \<Longrightarrow> remove_first n e xs = xs"
proof (induction xs arbitrary: n)
  case (Cons x xs)
  then show ?case using remove_first_le(1)[of "n - 1" e xs] by (auto split: if_splits)
qed simp

lemma remove_first_all: "length xs \<le> n \<Longrightarrow> remove_first n e xs = removeAll e xs"
proof (induction xs arbitrary: n)
  case (Cons x xs)
  then show ?case by (cases n) auto
qed simp

lemma lrem_keep:
  assumes "r \<le> limit"
  shows "lrem_keep limit e r vs = (r + word_of_nat (length vs - length (remove_first (unat limit - unat r) e vs)),
    remove_first (unat limit - unat r) e vs)"
  using assms
proof (induction vs arbitrary: r)
  case (Cons v vs)
  show ?case
  proof (cases "r < limit \<and> v = e")
    case True
    have u: "unat (r + 1) = unat r + 1" and le: "r + 1 \<le> limit"
      using True unsigned_less[of limit, where 'a = nat] u64_len_add[of r 1]
      by (simp_all add: word_less_nat_alt word_le_nat_alt)
    have "unat limit - unat r > 0" using True by (simp add: word_less_nat_alt)
    moreover have "length (remove_first (unat limit - unat (r + 1)) e vs) \<le> length vs" by (rule remove_first_le)
    ultimately show ?thesis
      using True Cons.IH[OF le] u by (simp add: Suc_diff_le)
  next
    case False
    then show ?thesis using Cons.IH[OF Cons.prems] by (auto simp: word_less_nat_alt)
  qed
qed simp

lemma unat_unsigned_abs: "unat (unsigned_abs i) = nat \<bar>sint i\<bar>"
proof (cases "sint i < 0")
  case True
  have "uint (word_of_int (- sint i) :: u64) = - sint i"
    using True i64_bounds[of i] unfolding uint_word_of_int by simp
  then have "uint (- i) = - sint i" by simp
  then show ?thesis using True by (simp add: unsigned_abs_def unat_eq_nat_uint)
next
  case False
  then have i: "i = word_of_nat (nat (sint i))" "nat (sint i) < 2 ^ 64" using nonneg_word[of i] i64_bounds[of i] by simp_all
  then have "unat (word_of_nat (nat (sint i)) :: u64) = nat (sint i)" unfolding unat_of_nat by simp
  then have "unat i = nat (sint i)" using i(1) by simp
  then show ?thesis using False by (simp add: unsigned_abs_def)
qed

context kv_store
begin

lemma lset_spec:
  fixes rank :: i64
  assumes "ok (w_kv w)" "val_ready list_kind S slot key (rows w) (w_last w)"
    and view: "val_view list_kind S slot key (rows w) (st_clock S (w_ticks w)) = Inr (e, xs)"
    and fits: "sum_list (map length xs) + length v < 2 ^ 64"
  defines "i \<equiv> rank_of (length xs) rank"
  defines "ys \<equiv> xs[nat i := v]"
  defines "inside \<equiv> 0 \<le> i \<and> i < int (length xs)"
  defines "big \<equiv> sum_list (map length ys) > unat (st_max_value_bytes S)"
  shows "\<exists>w'. lset K S slot key rank v w =
      (if xs = [] then Inr NoKey else if \<not> inside then Inr OutOfRange
       else if big then Inl ValueTooLarge else Inr IsSet, w') \<and> ok (w_kv w') \<and>
    val_post list_kind S slot key (rows w) (w_last w) (rows w') (w_last w') (e, if inside \<and> \<not> big then ys else xs)"
  using assms(1,2) view
proof (cases rule: list_read_cases)
  case (absent w1)
  then show ?thesis by (auto simp: lset_def inside_def)
next
  case (present lm w1)
  note len = mid_len[OF present(2,5)] and M = present(2)[unfolded list_mid_def]
  note r = norm_rank[OF len(2), of rank, folded i_def]
  show ?thesis
  proof (cases inside)
    case False
    then have "lset K S slot key rank v w = (Inr OutOfRange, w1)"
      using present(1) len r sint_len[OF len(2)] by (auto simp: lset_def Let_def inside_def)
    then show ?thesis using False present(2,4,8) by (auto simp: list_mid_def)
  next
    case True
    then have nat: "nat i < length xs" "norm_rank (word_of_nat (length xs)) rank = word_of_nat (nat i)"
      using nonneg_word[of "norm_rank (word_of_nat (length xs)) rank"] r by (auto simp: inside_def)
    let ?ek = "elem_key S slot key (cm_version (lm_base lm)) (lm_head lm + word_of_nat (nat i))"
    let ?b = "saturating_sub (cm_bytes (lm_base lm)) (word_of_nat (length (xs ! nat i))) + word_of_nat (length v)"
    have get: "w_get K w1 ?ek = Some (xs ! nat i)" using elem_nth[OF present(2) nat(1)] .
    have "unat (saturating_sub (cm_bytes (lm_base lm)) (word_of_nat (length (xs ! nat i)))) =
        sum_list (map length xs) - length (xs ! nat i)"
      using present(5) length_nth_le[OF nat(1)] by (simp add: list_counts_def u64_len_sub)
    then have b: "unat ?b = sum_list (map length ys)"
      using sum_list_update_len[OF nat(1), of v] length_nth_le[OF nat(1)] fits
      by (simp add: u64_len_add ys_def)
    then have big: "?b > st_max_value_bytes S \<longleftrightarrow> big" by (simp add: big_def word_less_nat_alt)
    have in_range: "\<not> (sint (norm_rank (word_of_nat (length xs)) rank) < 0 \<or>
        sint (word_of_nat (length xs) :: i64) \<le> sint (norm_rank (word_of_nat (length xs)) rank))"
      using True r sint_len[OF len(2)] by (simp add: inside_def)
    have eq: "lset K S slot key rank v w = (if big then (Inl ValueTooLarge, w1) else (Inr IsSet,
        write_meta K S slot key (lm\<lparr>lm_base := (lm_base lm)\<lparr>cm_bytes := ?b\<rparr>\<rparr>) (w_put K w1 ?ek v)))"
      using present(1) len(1) in_range nat(2) get big by (simp add: lset_def Let_def)
    let ?lm = "lm\<lparr>lm_base := (lm_base lm)\<lparr>cm_bytes := ?b\<rparr>\<rparr>"
    have "list_mid abs ok S slot key (rows w) (w_last w) ?lm ys (w_put K w1 ?ek v)"
      using elem_put[OF present(2), of "lm_head lm + word_of_nat (nat i)" v] M list_map_set[OF nat(1), of "lm_head lm" v]
        mid_tail[OF present(2)] by (simp add: list_mid_def ys_def)
    note wm = write_meta[OF this, of e]
    show ?thesis
      unfolding eq using True present(2,4,6,8) wm b len(2) by (auto simp: list_mid_def ys_def)
  qed
qed

subsection \<open>Collect and rewrite\<close>

lemma collect:
  assumes "list_mid abs ok S slot key m l lm xs w" shows "list_collect K S slot key lm w = xs"
proof -
  have "sint (lm_tail lm) = sint (lm_head lm) + int (length xs)" using assms by (simp add: list_mid_def)
  from range_of_list[OF this] show ?thesis
    using map_filter_ranks[OF assms order_refl, of 0]
    by (simp add: list_collect_def map_filter_def comp_def filter_map sublist_def)
qed

lemma drop_rows_trim: "snd (trim_loop K S slot key v is (b, w)) = drop_rows K S slot key v is w"
  by (induction "is" arbitrary: b w) (simp_all add: Let_def)

lemma lay_rows:
  assumes "list_mid abs ok S slot key m l lm xs w" "sint (lm_tail lm) + int (length vs) < 2 ^ 63"
  shows "list_mid abs ok S slot key m l (lm\<lparr>lm_tail := lm_tail lm + word_of_nat (length vs)\<rparr>) (xs @ vs)
    (lay_rows K S slot key (cm_version (lm_base lm)) (lm_tail lm) vs w)"
  using assms
proof (induction vs arbitrary: lm xs w)
  case (Cons v vs)
  have "sint (lm_tail lm + 1) = sint (lm_tail lm) + 1"
    using Cons.prems(2) sint_offset[of "lm_tail lm" 1] i64_bounds[of "lm_tail lm"] by simp
  then show ?case
    using Cons.IH[OF mid_push_back[OF Cons.prems(1), of v]] Cons.prems(2) by (simp add: add.assoc)
qed simp

lemma rewrite_spec:
  assumes mid: "list_mid abs ok S slot key m l lm xs w" and cnt: "list_counts lm xs"
    and "sint (lm_head lm) + int (length ys) < 2 ^ 63" "length ys < 2 ^ 32" "sum_list (map length ys) < 2 ^ 64"
    and e: "mh_expire_ms (cm_header (lm_base lm)) = e"
  shows "ok (w_kv (rewrite K S slot key lm ys w))"
    and "val_post list_kind S slot key m l (rows (rewrite K S slot key lm ys w))
      (w_last (rewrite K S slot key lm ys w)) (e, ys)"
proof -
  let ?v = "cm_version (lm_base lm)" and ?is = "i64_range (lm_head lm) (lm_tail lm)"
  have r: "?is = map (\<lambda>k. lm_head lm + word_of_nat k) ([0..<0] @ [0..<length xs])"
    using range_of_list(1)[of "lm_tail lm" "lm_head lm" "length xs"] cnt by (simp add: list_counts_def)
  have "unat (cm_bytes (lm_base lm)) = sum_list (map length xs)" using cnt by (simp add: list_counts_def)
  from mid_trim[OF mid this order_refl _ r] obtain b' w' where
    t: "trim_loop K S slot key ?v ?is (cm_bytes (lm_base lm), w) = (b', w')"
    and mid': "list_mid abs ok S slot key m l (lm\<lparr>lm_base := (lm_base lm)\<lparr>cm_bytes := b'\<rparr>,
      lm_tail := lm_head lm\<rparr>) [] w'"
    by (auto simp: sublist_def)
  have drop: "drop_rows K S slot key ?v ?is w = w'" using drop_rows_trim[of S slot key ?v ?is] t by (metis snd_conv)
  let ?lm = "lm\<lparr>lm_base := (lm_base lm)\<lparr>cm_bytes := lens ys\<rparr>, lm_tail := lm_head lm\<rparr>"
  have "list_mid abs ok S slot key m l ?lm [] w'" using mid' by (simp add: list_mid_def)
  from lay_rows[OF this, of ys] assms(3)
  have "list_mid abs ok S slot key m l (?lm\<lparr>lm_tail := lm_head lm + word_of_nat (length ys)\<rparr>) ys
      (lay_rows K S slot key ?v (lm_head lm) ys w')" by simp
  note wm = write_meta[OF this assms(4), of e]
  show "ok (w_kv (rewrite K S slot key lm ys w))"
    "val_post list_kind S slot key m l (rows (rewrite K S slot key lm ys w)) (w_last (rewrite K S slot key lm ys w)) (e, ys)"
    using wm e assms(5) lens_unat[of ys] by (simp_all add: rewrite_def Let_def drop)
qed

lemma lrem_spec:
  fixes cnt :: i64 and x :: bytes
  assumes "ok (w_kv w)" "val_ready list_kind S slot key (rows w) (w_last w)"
    and view: "val_view list_kind S slot key (rows w) (st_clock S (w_ticks w)) = Inr (e, xs)"
  defines "n \<equiv> nat \<bar>sint cnt\<bar>"
  defines "ys \<equiv> if cnt = 0 then removeAll x xs else if 0 < sint cnt then remove_first n x xs
    else rev (remove_first n x (rev xs))"
  shows "\<exists>w'. lrem K S slot key cnt x w = (Inr (word_of_nat (length xs - length ys)), w') \<and> ok (w_kv w') \<and>
    val_post list_kind S slot key (rows w) (w_last w) (rows w') (w_last w') (e, ys)"
  using assms(1-3)
proof (cases rule: list_read_cases)
  case (absent w1)
  then show ?thesis by (simp add: lrem_def ys_def)
next
  case (present lm w1)
  note len = mid_len[OF present(2,5)]
  let ?limit = "if cnt = 0 then - 1 else unsigned_abs cnt"
  have all: "unat (- 1 :: u64) \<ge> length xs" using len(2) by (simp add: unat_eq_nat_uint uint_word_ariths)
  have z: "sint cnt = 0 \<longleftrightarrow> cnt = 0" by (simp add: signed_eq_0_iff)
  let ?p = "if sint cnt \<ge> 0 then lrem_keep ?limit x 0 xs
      else (let (removed, kept) = lrem_keep ?limit x 0 (rev xs) in (removed, rev kept))"
  have le: "length ys \<le> length xs" "sum_list (map length ys) \<le> sum_list (map length xs)"
    using remove_first_le(1)[of n x xs] remove_first_le(1)[of n x "rev xs"]
      remove_first_le(2)[of n x xs] remove_first_le(2)[of n x "rev xs"]
      remove_first_all[of xs "length xs" x] remove_first_le(1)[of "length xs" x xs] remove_first_le(2)[of "length xs" x xs]
    by (auto simp: ys_def rev_map[symmetric])
  have p: "?p = (word_of_nat (length xs - length ys), ys)"
  proof (cases "cnt = 0")
    case True
    then show ?thesis using lrem_keep[of 0 ?limit x xs] remove_first_all[OF all, of x] by (simp add: ys_def)
  next
    case False
    then show ?thesis
      using lrem_keep[of 0 ?limit x] z by (auto simp: ys_def n_def unat_unsigned_abs Let_def)
  qed
  have eq: "lrem K S slot key cnt x w = (Inr (word_of_nat (length xs - length ys)),
      if (word_of_nat (length xs - length ys) :: u64) > 0 then rewrite K S slot key lm ys w1 else w1)"
    unfolding lrem_def present(1) prod.case sum.case option.case collect[OF present(2)] Let_def p[unfolded Let_def]
    by simp
  show ?thesis
  proof (cases "length ys = length xs")
    case True
    have same: "ys = xs"
      using True remove_first_same[of "length xs" x xs] remove_first_same[of n x xs] remove_first_same[of n x "rev xs"]
        remove_first_all[of xs "length xs" x] by (auto simp: ys_def split: if_splits)
    then show ?thesis unfolding eq using True present(2,8) by (simp add: list_mid_def)
  next
    case False
    have "unat (word_of_nat (length xs - length ys) :: u64) = length xs - length ys"
      using len(2) by (simp add: unat_of_nat)
    then have "(word_of_nat (length xs - length ys) :: u64) > 0" using False le(1) by (simp add: word_less_nat_alt)
    moreover have "sint (lm_head lm) + int (length ys) < 2 ^ 63"
      using present(5) le(1) i64_bounds[of "lm_tail lm"] by (simp add: list_counts_def)
    moreover have "sum_list (map length ys) < 2 ^ 64"
      using le(2) present(5) unsigned_less[of "cm_bytes (lm_base lm)", where 'a = nat] by (simp add: list_counts_def)
    ultimately show ?thesis
      unfolding eq using rewrite_spec[OF present(2,5), of ys e] le(1) len(2) present(6) by simp
  qed
qed

end

lemma lpos_loop:
  assumes "\<And>r. r \<in> set rs \<Longrightarrow>
    w_get K w (elem_key S slot key (cm_version (lm_base lm)) (lm_head lm + r)) = Some (g r)"
    and "cnt = 0 \<or> length out < unat cnt" "length out + length rs < 2 ^ 64"
  shows "lpos_loop K S slot key lm x cnt w rs skip out =
    out @ (let ms = drop (unat skip) (filter (\<lambda>r. g r = x) rs)
           in if cnt = 0 then ms else take (unat cnt - length out) ms)"
  using assms
proof (induction rs arbitrary: skip out)
  case (Cons r rs)
  show ?case
  proof (cases "g r = x")
    case False
    then show ?thesis using Cons by simp
  next
    case hit: True
    show ?thesis
    proof (cases "skip > 0")
      case True
      then have "unat skip = Suc (unat (skip - 1))" using unat_sub[of 1 skip] by (simp add: word_less_nat_alt word_le_nat_alt)
      then show ?thesis using Cons hit True by simp
    next
      case False
      then have sk: "unat skip = 0" by (simp add: word_less_nat_alt)
      have len: "unat (word_of_nat (Suc (length out)) :: u64) = Suc (length out)"
        using Cons.prems(3) unfolding unat_of_nat by simp
      show ?thesis
      proof (cases "cnt \<noteq> 0 \<and> cnt \<le> word_of_nat (Suc (length out))")
        case True
        then have "unat cnt = Suc (length out)" using Cons.prems(2) len by (auto simp: word_le_nat_alt)
        then show ?thesis using Cons.prems(1) hit False sk True by simp
      next
        case stop: False
        then have "cnt = 0 \<or> length (out @ [r]) < unat cnt" using len by (auto simp: word_le_nat_alt)
        moreover have "lpos_loop K S slot key lm x cnt w (r # rs) skip out = lpos_loop K S slot key lm x cnt w rs skip (out @ [r])"
          using Cons.prems(1) hit False stop by (auto simp: Let_def)
        ultimately show ?thesis
          using Cons.IH[of "out @ [r]" skip] Cons.prems(1,3) hit sk
          by (auto simp: Let_def take_Cons' Suc_diff_Suc)
      qed
    qed
  qed
qed simp

context kv_store
begin

lemma linsert_spec:
  assumes "ok (w_kv w)" "val_ready list_kind S slot key (rows w) (w_last w)"
    and view: "val_view list_kind S slot key (rows w) (st_clock S (w_ticks w)) = Inr (e, xs)"
    and room: "list_room S slot key (rows w) 1" and small: "length xs + 1 < 2 ^ 32"
    and fits: "sum_list (map length xs) + length x < 2 ^ 64"
  defines "big \<equiv> sum_list (map length xs) + length x > unat (st_max_value_bytes S)"
  shows "\<exists>w' ys. linsert K S slot key before pivot x w =
      (if xs = [] then Inr 0 else if big then Inl ValueTooLarge
       else if pivot \<notin> set xs then Inr (- 1) else Inr (word_of_nat (length xs + 1)), w') \<and> ok (w_kv w') \<and>
    val_post list_kind S slot key (rows w) (w_last w) (rows w') (w_last w') (e, ys) \<and>
    (if big \<or> pivot \<notin> set xs then ys = xs
     else \<exists>us vs. xs = us @ pivot # vs \<and> pivot \<notin> set us \<and>
       ys = (if before then us @ x # pivot # vs else us @ pivot # x # vs))"
  using assms(1,2) view
proof (cases rule: list_read_cases)
  case (absent w1)
  then show ?thesis by (auto simp: linsert_def)
next
  case (present lm w1)
  note len = mid_len[OF present(2,5)]
  have b: "unat (cm_bytes (lm_base lm) + word_of_nat (length x)) = sum_list (map length xs) + length x"
    using present(5) fits by (simp add: list_counts_def u64_len_add)
  then have big: "cm_bytes (lm_base lm) + word_of_nat (length x) > st_max_value_bytes S \<longleftrightarrow> big"
    by (simp add: big_def word_less_nat_alt)
  show ?thesis
  proof (cases "big \<or> pivot \<notin> set xs")
    case True
    then have "linsert K S slot key before pivot x w = (if big then Inl ValueTooLarge else Inr (- 1), w1)"
      using present(1) big collect[OF present(2)] iter_position_None[of "\<lambda>v. v = pivot" xs]
      by (auto simp: linsert_def Let_def)
    then show ?thesis using True present(2,4,8) by (auto simp: list_mid_def)
  next
    case False
    then obtain p where p: "iter_position (\<lambda>v. v = pivot) xs = Some p"
      using iter_position_None[of "\<lambda>v. v = pivot" xs] by (cases "iter_position (\<lambda>v. v = pivot) xs") auto
    then have P: "p < length xs" "xs ! p = pivot" "\<forall>j < p. xs ! j \<noteq> pivot" by (simp_all add: iter_position_Some)
    let ?at = "if before then p else p + 1"
    define ys where "ys = take ?at xs @ [x] @ drop ?at xs"
    have split: "xs = take p xs @ pivot # drop (Suc p) xs" using P(1,2) id_take_nth_drop by blast
    have "pivot \<notin> set (take p xs)" using P(1,3) by (auto simp: in_set_conv_nth)
    moreover have "ys = (if before then take p xs @ x # pivot # drop (Suc p) xs else take p xs @ pivot # x # drop (Suc p) xs)"
      using P(1,2) by (auto simp: ys_def Cons_nth_drop_Suc take_Suc_conv_app_nth)
    ultimately have shape: "\<exists>us vs. xs = us @ pivot # vs \<and> pivot \<notin> set us \<and>
       ys = (if before then us @ x # pivot # vs else us @ pivot # x # vs)" using split by blast
    have ylen: "length ys = length xs + 1" "sum_list (map length ys) = sum_list (map length xs) + length x"
      using shape by (auto split: if_splits)
    have eq: "linsert K S slot key before pivot x w = (Inr (word_of_nat (length xs + 1)), rewrite K S slot key lm ys w1)"
      unfolding linsert_def present(1) prod.case sum.case option.case collect[OF present(2)] Let_def p
      using False big ylen(1) by (simp add: ys_def)
    have "sint (lm_head lm) + int (length ys) < 2 ^ 63"
      using present(5,7) room ylen(1) by (simp add: list_counts_def list_room_def)
    note rw = rewrite_spec[OF present(2,5) this, of e]
    have "ok (w_kv (rewrite K S slot key lm ys w1))" "val_post list_kind S slot key (rows w) (w_last w)
        (rows (rewrite K S slot key lm ys w1)) (w_last (rewrite K S slot key lm ys w1)) (e, ys)"
      using rw ylen small fits present(6) by simp_all
    moreover have "(if big \<or> pivot \<notin> set xs then ys = xs else \<exists>us vs. xs = us @ pivot # vs \<and> pivot \<notin> set us \<and>
       ys = (if before then us @ x # pivot # vs else us @ pivot # x # vs))" using False shape by (simp only: if_False)
    ultimately show ?thesis
      unfolding eq using False present(4) by (intro exI[of _ "rewrite K S slot key lm ys w1"] exI[of _ ys]) simp
  qed
qed

lemma lpos_spec:
  fixes rank :: i64 and x :: bytes and maxlen :: u64
  assumes "ok (w_kv w)" "val_ready list_kind S slot key (rows w) (w_last w)"
    and view: "val_view list_kind S slot key (rows w) (st_clock S (w_ticks w)) = Inr (e, xs)"
    and "rank \<noteq> 0"
  defines "ns \<equiv> if 0 < sint rank then [0..<length xs] else rev [0..<length xs]"
  defines "ms \<equiv> drop (nat \<bar>sint rank\<bar> - 1) (filter (\<lambda>i. xs ! i = x) (if maxlen = 0 then ns else take (unat maxlen) ns))"
  shows "\<exists>w1. lpos K S slot key x rank cnt maxlen w =
      (Inr (map word_of_nat (if cnt = 0 then ms else take (unat cnt) ms)), w1) \<and> ok (w_kv w1) \<and>
    val_post list_kind S slot key (rows w) (w_last w) (rows w1) (w_last w1) (e, xs)"
  using assms(1,2) view
proof (cases rule: list_read_cases)
  case (absent w1)
  then show ?thesis by (auto simp: lpos_def ms_def ns_def)
next
  case (present lm w1)
  note len = mid_len[OF present(2,5)]
  let ?cut = "\<lambda>rs. if maxlen = 0 then rs else take (unat maxlen) rs"
  have range: "i64_range 0 (word_of_nat (length xs)) = map word_of_nat [0..<length xs]"
    using sint_len[OF len(2)] by (simp add: i64_range_def)
  let ?rs = "map word_of_nat (?cut ns) :: i64 list"
  have rs: "(let ranks = if 0 < sint rank then i64_range 0 (word_of_nat (length xs)) else rev (i64_range 0 (word_of_nat (length xs)))
      in if maxlen \<noteq> 0 then take (unat maxlen) ranks else ranks) = ?rs"
    unfolding range by (auto simp: ns_def Let_def rev_map take_map)
  have ns: "i < length xs" if "i \<in> set (?cut ns)" for i
    using that by (auto simp: ns_def dest: in_set_takeD split: if_splits)
  have un: "unat (word_of_nat i :: i64) = i" if "i < length xs" for i
    using that len(2) unfolding unat_of_nat by simp
  have g: "w_get K w1 (elem_key S slot key (cm_version (lm_base lm)) (lm_head lm + r)) = Some (xs ! unat r)" if "r \<in> set ?rs" for r
    using that ns elem_nth[OF present(2)] un by auto
  have sk: "unat (saturating_sub (unsigned_abs rank) 1) = nat \<bar>sint rank\<bar> - 1"
    by (simp add: unat_saturating_sub unat_unsigned_abs)
  have "length ?rs < 2 ^ 64" using len(2) by (simp add: ns_def min_def)
  then have loop: "lpos_loop K S slot key lm x cnt w1 ?rs (saturating_sub (unsigned_abs rank) 1) [] =
      (let ms = drop (nat \<bar>sint rank\<bar> - 1) (filter (\<lambda>r. xs ! unat r = x) ?rs) in if cnt = 0 then ms else take (unat cnt) ms)"
    using lpos_loop[OF g, of ?rs cnt "[]" x "saturating_sub (unsigned_abs rank) 1"] sk
    by (cases "cnt = 0") (simp_all add: unat_gt_0)
  have "filter (\<lambda>r. xs ! unat r = x) ?rs = map word_of_nat (filter (\<lambda>i. xs ! i = x) (?cut ns))"
    using ns un by (auto simp: filter_map comp_def intro!: arg_cong[where f = "map word_of_nat"] filter_cong)
  then have "lpos_loop K S slot key lm x cnt w1 ?rs (saturating_sub (unsigned_abs rank) 1) [] =
      map word_of_nat (if cnt = 0 then ms else take (unat cnt) ms)"
    unfolding loop Let_def by (simp add: ms_def drop_map take_map)
  then have "lpos K S slot key x rank cnt maxlen w = (Inr (map word_of_nat (if cnt = 0 then ms else take (unat cnt) ms)), w1)"
    using present(1) len(1) rs by (simp add: lpos_def Let_def)
  then show ?thesis using present(2,8) by (simp add: list_mid_def)
qed

lemma list_wrongtype:
  assumes "ok (w_kv w)" "val_view list_kind S slot key (rows w) (st_clock S (w_ticks w)) = Inl err"
  obtains w1 where "ok (w_kv w1)" "rows w1 = rows w" "w_last w1 = w_last w"
    and "\<And>vs left. push K S slot key vs left w = (Inl WrongType, w1)"
    and "\<And>vs left. push_existing K S slot key vs left w = (Inl WrongType, w1)"
    and "\<And>left. pop K S slot key left w = (Inl WrongType, w1)" "\<And>n left. pop_n K S slot key n left w = (Inl WrongType, w1)"
    and "llen K S slot key w = (Inl WrongType, w1)" "\<And>i. lindex K S slot key i w = (Inl WrongType, w1)"
    and "\<And>i v. lset K S slot key i v w = (Inl WrongType, w1)" "\<And>x r c n. lpos K S slot key x r c n w = (Inl WrongType, w1)"
    and "\<And>n x. lrem K S slot key n x w = (Inl WrongType, w1)" "\<And>b x y. linsert K S slot key b x y w = (Inl WrongType, w1)"
    and "\<And>a b. lrange K S slot key a b w = (Inl WrongType, w1)" "\<And>a b. ltrim K S slot key a b w = (Inl WrongType, w1)"
    and "\<And>a b. range_bytes K S slot key a b w = (Inl WrongType, w1)"
  by (rule list_read_error[OF assms], rule that)
    (auto simp: push_def push_existing_def pop_def pop_n_def llen_def lindex_def lset_def lpos_def lrem_def linsert_def
      lrange_def ltrim_def range_bytes_def)

end

lemma sublist_map: "b \<le> length xs \<Longrightarrow> sublist (a, b) xs = map (\<lambda>i. xs ! i) [a..<b]"
  by (intro nth_equalityI) (simp_all add: sublist_def)

text \<open>A list of three elements in an otherwise empty store, for the witnesses.\<close>

lemma test_list:
  obtains w :: "MemKv world" where "mem_ok (w_kv w)" "val_ready list_kind test_store 0 [107] (map_of (w_kv w)) (w_last w)"
    "\<And>now. val_view list_kind test_store 0 [107] (map_of (w_kv w)) now = Inr (0, [[1], [2], [1]])"
proof -
  obtain w :: "MemKv world" where "mem_ok (w_kv w)" "val_post list_kind test_store 0 [107] Map.empty (w_last empty_world)
      (map_of (w_kv w)) (w_last w) (0, [[1], [2], [1]])"
    using mem.push_spec[of empty_world test_store 0 "[107]" 0 "[]" "[[1], [2], [1]]" False]
    by (auto simp: empty_val_ready empty_val_view test_world list_room_def meta_at_def)
  then show ?thesis using that[of w] by (auto simp: val_post_def val_aged_def)
qed

section \<open>Properties\<close>

text \<open>
  C3. LPUSH and RPUSH on a list as a reader sees it: the values are afterwards at the head, last
  pushed first, or at the tail in order, the answer is the new length, the counters are right and no
  row of another key has changed; a push over the size limit is an error and the list is as it was.
\<close>

theorem push_extends_list:
  assumes "kv_store K \<alpha> ok" "ok (w_kv w)" "val_ready list_kind S slot key (\<alpha> (w_kv w)) (w_last w)"
    and "clock_sane S (w_last w)"
    and "val_view list_kind S slot key (\<alpha> (w_kv w)) (st_clock S (w_ticks w)) = Inr (e, xs)"
    and "list_room S slot key (\<alpha> (w_kv w)) (length vs)" "length xs + length vs < 2 ^ 32"
    and "sum_list (map length (xs @ vs)) < 2 ^ 64"
  shows "\<exists>w'. let big = sum_list (map length (xs @ vs)) > unat (st_max_value_bytes S) in
    push K S slot key vs left w =
      (if big then Inl ValueTooLarge else Inr (word_of_nat (length xs + length vs)), w') \<and> ok (w_kv w') \<and>
    val_post list_kind S slot key (\<alpha> (w_kv w)) (w_last w) (\<alpha> (w_kv w')) (w_last w')
      (e, if big then xs else if left then rev vs @ xs else xs @ vs)"
  unfolding Let_def using assms by (rule kv_store.push_spec)

theorem push_extends_list_witness:
  "\<exists>w'. push mem_kv test_store 0 [107] [[1], [2]] True empty_world = (Inr 2, w') \<and>
     val_view list_kind test_store 0 [107] (map_of (w_kv w')) 5 = Inr (0, [[2], [1]])"
  using push_extends_list[OF mem.kv_store_axioms, of empty_world test_store 0 "[107]" 0 "[]" "[[1], [2]]" True]
  by (auto simp: empty_val_ready empty_val_view test_world list_room_def meta_at_def Let_def val_post_def val_aged_def)

text \<open>
  C20. LPOP and RPOP with a count return the elements in the order they leave that end and keep
  exactly the others; a list whose last element leaves is no key any more.
\<close>

theorem pop_n_splits_list:
  assumes "kv_store K \<alpha> ok" "ok (w_kv w)" "val_ready list_kind S slot key (\<alpha> (w_kv w)) (w_last w)"
    and "val_view list_kind S slot key (\<alpha> (w_kv w)) (st_clock S (w_ticks w)) = Inr (e, xs)"
  shows "\<exists>w' out. pop_n K S slot key n left w = (Inr (if xs = [] then None else Some out), w') \<and> ok (w_kv w') \<and>
    length out = min (unat n) (length xs) \<and>
    (\<exists>ys. (if left then xs = out @ ys else xs = ys @ rev out) \<and>
      val_post list_kind S slot key (\<alpha> (w_kv w)) (w_last w) (\<alpha> (w_kv w')) (w_last w') (e, ys))"
proof -
  obtain w' where w': "pop_n K S slot key n left w =
      (Inr (if xs = [] then None else Some (take (unat n) (if left then xs else rev xs))), w')" "ok (w_kv w')"
    "val_post list_kind S slot key (\<alpha> (w_kv w)) (w_last w) (\<alpha> (w_kv w')) (w_last w')
      (e, if left then drop (unat n) xs else rev (drop (unat n) (rev xs)))"
    using kv_store.pop_n_spec[OF assms] by blast
  have "(if left then xs = take (unat n) xs @ drop (unat n) xs
      else xs = rev (drop (unat n) (rev xs)) @ rev (take (unat n) (rev xs)))"
    by (simp flip: rev_append)
  then show ?thesis
    using w' by (intro exI[of _ w'] exI[of _ "take (unat n) (if left then xs else rev xs)"] conjI
      exI[of _ "if left then drop (unat n) xs else rev (drop (unat n) (rev xs))"]) (simp_all add: min.commute)
qed

theorem pop_n_splits_list_witness:
  "\<exists>w w'. pop_n mem_kv test_store 0 [107] 2 False w = (Inr (Some [[1], [2]]), w') \<and>
     val_view list_kind test_store 0 [107] (map_of (w_kv w')) 5 = Inr (0, [[1]])"
proof -
  obtain w :: "MemKv world" where "mem_ok (w_kv w)" "val_ready list_kind test_store 0 [107] (map_of (w_kv w)) (w_last w)"
    "\<And>now. val_view list_kind test_store 0 [107] (map_of (w_kv w)) now = Inr (0, [[1], [2], [1]])"
    by (rule test_list) blast
  from pop_n_splits_list[OF mem.kv_store_axioms this, of 2 False] obtain w' out ys where
    "pop_n mem_kv test_store 0 [107] 2 False w = (Inr (Some out), w')" "length out = 2"
    "[[1], [2], [1]] = ys @ rev out" "val_view list_kind test_store 0 [107] (map_of (w_kv w')) 5 = Inr (val_aged list_kind (0, ys) 5)"
    by (auto simp: val_post_def)
  moreover have "out = [[1], [2]]" "ys = [[1]]"
    using calculation(2,3) by (auto simp: append_eq_Cons_conv Cons_eq_append_conv length_Suc_conv numeral_2_eq_2)
  ultimately show ?thesis by (auto simp: val_aged_def)
qed

text \<open>
  C21. LTRIM keeps what LRANGE reads: for any two bounds, negative, beyond the end or crossed, the
  list after LTRIM is the answer LRANGE gives for them, which is the elements from the one rank to
  the other in order.
\<close>

theorem ltrim_keeps_lrange:
  assumes "kv_store K \<alpha> ok" "ok (w_kv w)" "val_ready list_kind S slot key (\<alpha> (w_kv w)) (w_last w)"
    and "val_view list_kind S slot key (\<alpha> (w_kv w)) (st_clock S (w_ticks w)) = Inr (e, xs)"
  shows "\<exists>w1 w2 ys. lrange K S slot key a b w = (Inr ys, w1) \<and> ltrim K S slot key a b w = (Inr (), w2) \<and>
    val_post list_kind S slot key (\<alpha> (w_kv w)) (w_last w) (\<alpha> (w_kv w1)) (w_last w1) (e, xs) \<and>
    val_post list_kind S slot key (\<alpha> (w_kv w)) (w_last w) (\<alpha> (w_kv w2)) (w_last w2) (e, ys) \<and>
    ys = map (\<lambda>i. xs ! i) (filter (\<lambda>i. rank_of (length xs) a \<le> int i \<and> int i \<le> rank_of (length xs) b) [0..<length xs])"
proof -
  let ?f = "rank_of (length xs) a" and ?t = "rank_of (length xs) b"
  let ?p = "nat (max 0 ?f)" and ?q = "nat (?t + 1)"
  have iff: "?f \<le> int i \<and> int i \<le> ?t \<longleftrightarrow> ?p \<le> i \<and> i < ?q" for i by linarith
  have filt: "filter (\<lambda>i. p \<le> i \<and> i < q) [0..<n] = [p..<min q n]" for p q n :: nat
    by (induction n) (auto simp: min_def le_Suc_eq)
  have "sublist (range_of (length xs) a b) xs = map (\<lambda>i. xs ! i) [?p..<min ?q (length xs)]"
  proof (cases "max 0 ?f > min ?t (int (length xs) - 1)")
    case True
    then have "min ?q (length xs) \<le> ?p" by linarith
    then show ?thesis using True by (simp add: range_of_def sublist_def)
  next
    case False
    then have "range_of (length xs) a b = (?p, nat (min ?t (int (length xs) - 1) + 1))" by (simp add: range_of_def Let_def)
    moreover have "nat (min ?t (int (length xs) - 1) + 1) = min ?q (length xs)" by linarith
    ultimately show ?thesis using sublist_map[of "min ?q (length xs)" xs ?p] by simp
  qed
  then have "sublist (range_of (length xs) a b) xs =
      map (\<lambda>i. xs ! i) (filter (\<lambda>i. ?f \<le> int i \<and> int i \<le> ?t) [0..<length xs])"
    unfolding iff filt .
  then show ?thesis
    using kv_store.list_read_spec[OF assms] kv_store.ltrim_spec[OF assms, of a b] by auto
qed

theorem ltrim_keeps_lrange_witness:
  "\<exists>w w1 w2. lrange mem_kv test_store 0 [107] 1 (- 1) w = (Inr [[2], [1]], w1) \<and>
     ltrim mem_kv test_store 0 [107] 1 (- 1) w = (Inr (), w2) \<and>
     val_view list_kind test_store 0 [107] (map_of (w_kv w2)) 5 = Inr (0, [[2], [1]])"
proof -
  obtain w :: "MemKv world" where w: "mem_ok (w_kv w)" "val_ready list_kind test_store 0 [107] (map_of (w_kv w)) (w_last w)"
    "\<And>now. val_view list_kind test_store 0 [107] (map_of (w_kv w)) now = Inr (0, [[1], [2], [1]])"
    by (rule test_list) blast
  have "[0..<3] = [0, 1, 2]" by code_simp
  then show ?thesis
    using ltrim_keeps_lrange[OF mem.kv_store_axioms w, of 1 "- 1"]
    by (auto simp: rank_of_def val_post_def val_aged_def)
qed

text \<open>
  LREM removes the first matches from the end its sign names and no other element: the answer is
  their number, and the rest of the list keeps its order.
\<close>

theorem lrem_removes_counted:
  assumes "kv_store K \<alpha> ok" "ok (w_kv w)" "val_ready list_kind S slot key (\<alpha> (w_kv w)) (w_last w)"
    and "val_view list_kind S slot key (\<alpha> (w_kv w)) (st_clock S (w_ticks w)) = Inr (e, xs)"
  shows "\<exists>w' ys. lrem K S slot key cnt x w = (Inr (word_of_nat (length xs - length ys)), w') \<and> ok (w_kv w') \<and>
    val_post list_kind S slot key (\<alpha> (w_kv w)) (w_last w) (\<alpha> (w_kv w')) (w_last w') (e, ys) \<and>
    ys = (if cnt = 0 then removeAll x xs else if 0 < sint cnt then remove_first (nat \<bar>sint cnt\<bar>) x xs
          else rev (remove_first (nat \<bar>sint cnt\<bar>) x (rev xs)))"
  using kv_store.lrem_spec[OF assms, of cnt x] by blast

theorem lrem_removes_counted_witness:
  "\<exists>w w'. lrem mem_kv test_store 0 [107] (- 1) [1] w = (Inr 1, w') \<and>
     val_view list_kind test_store 0 [107] (map_of (w_kv w')) 5 = Inr (0, [[1], [2]])"
proof -
  obtain w :: "MemKv world" where w: "mem_ok (w_kv w)" "val_ready list_kind test_store 0 [107] (map_of (w_kv w)) (w_last w)"
    "\<And>now. val_view list_kind test_store 0 [107] (map_of (w_kv w)) now = Inr (0, [[1], [2], [1]])"
    by (rule test_list) blast
  show ?thesis
    using lrem_removes_counted[OF mem.kv_store_axioms w, of "- 1" "[1]"]
    by (auto simp: val_post_def val_aged_def)
qed

end
