(* ===== verification/Flint_Glob.thy ===== *)
theory Flint_Glob
  imports Flint_Prelude
begin

text \<open>
  The glob matcher of \<open>crates/flint-server/src/glob.rs\<close>, which filters the SCAN family and
  matches pattern subscriptions. The code walks pattern and string with two indices and remembers
  the last star only; the loop is a partial function here, so that it ends is a theorem.

  The reference is the language of a pattern: the pattern read as a list of tokens, each one byte
  of a set or any run of bytes.
\<close>

section \<open>The matcher\<close>

text \<open>Match a byte against the class that opens at an index: whether it matches, where the class ends.\<close>

function class_loop :: "bytes \<Rightarrow> u8 \<Rightarrow> nat \<Rightarrow> bool \<Rightarrow> bool \<times> nat" where
  "class_loop pattern c p matched =
     (if p < length pattern \<and> pattern ! p \<noteq> 93 then
        (if pattern ! p = 92 \<and> p + 1 < length pattern then
           class_loop pattern c (p + 2) (matched \<or> pattern ! (p + 1) = c)
         else if p + 2 < length pattern \<and> pattern ! (p + 1) = 45 then
           (let (lo, hi) =
              (if pattern ! p \<le> pattern ! (p + 2) then (pattern ! p, pattern ! (p + 2))
               else (pattern ! (p + 2), pattern ! p))
            in class_loop pattern c (p + 3) (matched \<or> lo \<le> c \<and> c \<le> hi))
         else class_loop pattern c (p + 1) (matched \<or> pattern ! p = c))
      else (matched, p))"
  by pat_completeness auto
termination
  by (relation "measure (\<lambda>(pattern, c, p, matched). length pattern - p)") auto

declare class_loop.simps [simp del]

definition glob_class :: "bytes \<Rightarrow> nat \<Rightarrow> u8 \<Rightarrow> bool \<times> nat" where
  "glob_class pattern open c =
     (let p = open + 1;
          negate = (elem_get pattern p = Some 94);
          p = (if negate then p + 1 else p);
          (matched, p) = class_loop pattern c p False
      in (matched \<noteq> negate, min (p + 1) (length pattern)))"

text \<open>The end of a run of stars.\<close>

function skip_stars :: "bytes \<Rightarrow> nat \<Rightarrow> nat" where
  "skip_stars pattern p =
     (if p < length pattern \<and> pattern ! p = 42 then skip_stars pattern (p + 1) else p)"
  by pat_completeness auto
termination
  by (relation "measure (\<lambda>(pattern, p). length pattern - p)") auto

declare skip_stars.simps [simp del]

text \<open>One byte of the string against the pattern at an index: where the pattern continues.\<close>

definition glob_step :: "bytes \<Rightarrow> nat \<Rightarrow> u8 \<Rightarrow> nat option" where
  "glob_step pattern p c =
     (if p < length pattern then
        (if pattern ! p = 63 then Some (p + 1)
         else if pattern ! p = 91 then
           (let (matched, next) = glob_class pattern p c in if matched then Some next else None)
         else if pattern ! p = 92 \<and> p + 1 < length pattern then
           (if pattern ! (p + 1) = c then Some (p + 2) else None)
         else if pattern ! p = c then Some (p + 1) else None)
      else None)"

partial_function (option) glob_loop ::
  "bytes \<Rightarrow> bytes \<Rightarrow> nat \<Rightarrow> nat \<Rightarrow> (nat \<times> nat) option \<Rightarrow> bool option"
where
  "glob_loop pattern s p i star =
     (if i < length s then
        (if p < length pattern \<and> pattern ! p = 42 then
           (let p = skip_stars pattern p
            in if p = length pattern then Some True else glob_loop pattern s p i (Some (p, i)))
         else
           (case glob_step pattern p (s ! i) of
              Some p' \<Rightarrow> glob_loop pattern s p' (i + 1) star
            | None \<Rightarrow>
                (case star of
                   Some (sp, si) \<Rightarrow> glob_loop pattern s sp (si + 1) (Some (sp, si + 1))
                 | None \<Rightarrow> Some False)))
      else Some (skip_stars pattern p = length pattern))"

declare glob_loop.simps [code]

definition glob_match :: "bytes \<Rightarrow> bytes \<Rightarrow> bool option" where
  "glob_match pattern s = glob_loop pattern s 0 0 None"

section \<open>Notions the lemmas use\<close>

text \<open>The language of a pattern.\<close>

datatype glob_token = AnyRun | OneOf "u8 \<Rightarrow> bool"

inductive in_language :: "glob_token list \<Rightarrow> bytes \<Rightarrow> bool" where
  empty: "in_language [] []"
| byte: "P c \<Longrightarrow> in_language ts s \<Longrightarrow> in_language (OneOf P # ts) (c # s)"
| run: "in_language ts s \<Longrightarrow> in_language (AnyRun # ts) (u @ s)"

inductive_simps in_language_simps: "in_language [] s" "in_language (OneOf P # ts) s" "in_language (AnyRun # ts) s"

lemma class_loop_le: "p \<le> snd (class_loop pattern c p matched)"
proof (induction pattern c p matched rule: class_loop.induct)
  case (1 pattern c p matched)
  then show ?case
    by (subst class_loop.simps) (fastforce simp: Let_def split: if_splits)
qed

lemma glob_class_less: "p < length pattern \<Longrightarrow> p < snd (glob_class pattern p c)"
  using class_loop_le[of "p + 1" pattern c False] class_loop_le[of "p + 2" pattern c False]
  by (auto simp: glob_class_def Let_def case_prod_beta)

function glob_tokens :: "bytes \<Rightarrow> nat \<Rightarrow> glob_token list" where
  "glob_tokens pattern p =
     (if p < length pattern then
        (if pattern ! p = 42 then AnyRun # glob_tokens pattern (p + 1)
         else if pattern ! p = 63 then OneOf (\<lambda>_. True) # glob_tokens pattern (p + 1)
         else if pattern ! p = 91 then
           OneOf (\<lambda>c. fst (glob_class pattern p c)) # glob_tokens pattern (snd (glob_class pattern p 0))
         else if pattern ! p = 92 \<and> p + 1 < length pattern then
           OneOf (\<lambda>c. pattern ! (p + 1) = c) # glob_tokens pattern (p + 2)
         else OneOf (\<lambda>c. pattern ! p = c) # glob_tokens pattern (p + 1))
      else [])"
  by pat_completeness auto
termination
  by (relation "measure (\<lambda>(pattern, p). length pattern - p)") (auto simp: glob_class_less diff_less_mono2)

declare glob_tokens.simps [simp del]

text \<open>
  The invariant of the loop. The string is in the language iff a match of the rest of the pattern
  at the last star starts at or after the position tried; the tokens from there to the index
  reached consume one byte each, so any match of the rest passes through the index reached.
\<close>

definition glob_inv :: "bytes \<Rightarrow> bytes \<Rightarrow> nat \<Rightarrow> nat \<Rightarrow> (nat \<times> nat) option \<Rightarrow> bool" where
  "glob_inv pattern s p i star \<longleftrightarrow> p \<le> length pattern \<and> i \<le> length s \<and>
     (let L = (\<lambda>p k. in_language (glob_tokens pattern p) (drop k s)) in
      case star of
        None \<Rightarrow> L 0 0 \<longleftrightarrow> L p i
      | Some (sp, si) \<Rightarrow> sp \<le> p \<and> si \<le> i \<and>
          (L 0 0 \<longleftrightarrow> (\<exists>k. si \<le> k \<and> k \<le> length s \<and> L sp k)) \<and>
          (L p i \<longrightarrow> L sp si) \<and>
          (\<forall>k \<le> length s. L sp k \<longrightarrow> (\<exists>j \<le> length s. k + i = j + si \<and> L p j)))"

section \<open>Lemmas\<close>

lemma class_loop_end: "snd (class_loop pattern c p matched) = snd (class_loop pattern c' p matched')"
proof (induction pattern c p matched arbitrary: matched' rule: class_loop.induct)
  case (1 pattern c p matched)
  show ?case
    by (subst (1 2) class_loop.simps) (use 1 in \<open>auto simp: Let_def split: if_splits\<close>)
qed

lemma glob_class_end: "snd (glob_class pattern p c) = snd (glob_class pattern p c')"
  using class_loop_end[of pattern c _ False c' False] by (simp add: glob_class_def Let_def case_prod_beta)

lemma step_iff:
  assumes "\<not> (p < length pattern \<and> pattern ! p = 42)"
  shows "in_language (glob_tokens pattern p) (c # s) \<longleftrightarrow>
    (\<exists>p'. glob_step pattern p c = Some p' \<and> in_language (glob_tokens pattern p') s)"
  using assms glob_class_end[of pattern p c 0]
  by (subst glob_tokens.simps) (auto simp: glob_step_def in_language_simps case_prod_beta Let_def)

lemma step_bounds: "glob_step pattern p c = Some p' \<Longrightarrow> p < p' \<and> p' \<le> length pattern"
  using glob_class_less[of p pattern c]
  by (auto simp: glob_step_def case_prod_beta Let_def glob_class_def split: if_splits)

lemma skip_stars_bounds: "p \<le> skip_stars pattern p" "p \<le> length pattern \<Longrightarrow> skip_stars pattern p \<le> length pattern"
proof -
  show "p \<le> skip_stars pattern p"
  proof (induction pattern p rule: skip_stars.induct)
    case (1 pattern p)
    then show ?case by (subst skip_stars.simps) auto
  qed
  show "p \<le> length pattern \<Longrightarrow> skip_stars pattern p \<le> length pattern"
  proof (induction pattern p rule: skip_stars.induct)
    case (1 pattern p)
    then show ?case by (subst skip_stars.simps) auto
  qed
qed

lemma skip_stars_less: "p < length pattern \<Longrightarrow> pattern ! p = 42 \<Longrightarrow> p < skip_stars pattern p"
  using skip_stars_bounds(1)[of "p + 1" pattern] by (subst skip_stars.simps) simp

lemma run_drop: "in_language (AnyRun # ts) s \<longleftrightarrow> (\<exists>k \<le> length s. in_language ts (drop k s))"
proof
  assume "in_language (AnyRun # ts) s"
  then obtain u v where "s = u @ v" "in_language ts v" by (auto simp: in_language_simps)
  then show "\<exists>k \<le> length s. in_language ts (drop k s)" by (intro exI[of _ "length u"]) simp
next
  assume "\<exists>k \<le> length s. in_language ts (drop k s)"
  then obtain k where "in_language ts (drop k s)" by blast
  then have "in_language (AnyRun # ts) (take k s @ drop k s)" by (rule in_language.run)
  then show "in_language (AnyRun # ts) s" by simp
qed

lemma run_run: "in_language (AnyRun # AnyRun # ts) s \<longleftrightarrow> in_language (AnyRun # ts) s"
  by (auto simp: in_language_simps) (metis append.assoc)+

lemma stars_iff:
  "p < length pattern \<Longrightarrow> pattern ! p = 42 \<Longrightarrow>
   in_language (glob_tokens pattern p) s \<longleftrightarrow> in_language (AnyRun # glob_tokens pattern (skip_stars pattern p)) s"
proof (induction pattern p rule: skip_stars.induct)
  case (1 pattern p)
  show ?case
  proof (cases "p + 1 < length pattern \<and> pattern ! (p + 1) = 42")
    case True
    have t: "glob_tokens pattern p = AnyRun # glob_tokens pattern (p + 1)"
      "glob_tokens pattern (p + 1) = AnyRun # glob_tokens pattern (p + 2)"
      using "1.prems" True by (subst glob_tokens.simps, simp)+
    show ?thesis
      using "1.IH"[OF conjI[OF "1.prems"]] True "1.prems" skip_stars.simps[of pattern p] run_run t by metis
  next
    case False
    have "skip_stars pattern p = p + 1"
      using "1.prems" False by (subst skip_stars.simps, subst skip_stars.simps) auto
    then show ?thesis using "1.prems" by (subst glob_tokens.simps) simp
  qed
qed

lemma end_iff: "p \<le> length pattern \<Longrightarrow> in_language (glob_tokens pattern p) [] \<longleftrightarrow> skip_stars pattern p = length pattern"
proof (induction pattern p rule: skip_stars.induct)
  case (1 pattern p)
  show ?case
  proof (cases "p < length pattern \<and> pattern ! p = 42")
    case True
    then show ?thesis
      using 1 skip_stars.simps[of pattern p] by (subst glob_tokens.simps) (simp add: in_language_simps)
  next
    case False
    then show ?thesis
      using skip_stars.simps[of pattern p] "1.prems" by (subst glob_tokens.simps) (auto simp: in_language_simps)
  qed
qed

lemma step_unique: "glob_step pattern p c = Some q \<Longrightarrow> glob_step pattern p c' = Some q' \<Longrightarrow> q = q'"
  using glob_class_end[of pattern p c c'] by (auto simp: glob_step_def case_prod_beta Let_def split: if_splits)

lemma step_at:
  assumes "\<not> (p < length pattern \<and> pattern ! p = 42)" "p < length pattern \<or> k < length s" "k \<le> length s" "p \<le> length pattern"
  shows "in_language (glob_tokens pattern p) (drop k s) \<longleftrightarrow> k < length s \<and>
    (\<exists>q. glob_step pattern p (s ! k) = Some q \<and> in_language (glob_tokens pattern q) (drop (k + 1) s))"
proof (cases "k < length s")
  case True
  then have "drop k s = s ! k # drop (k + 1) s" by (simp add: Cons_nth_drop_Suc)
  then show ?thesis using step_iff[OF assms(1)] True by simp
next
  case False
  then have "drop k s = []" by simp
  then show ?thesis
    using False assms end_iff[of p pattern] skip_stars.simps[of pattern p] by auto
qed

lemma inv_advance:
  assumes inv: "glob_inv pattern s p i star" and i: "i < length s" and "\<not> (p < length pattern \<and> pattern ! p = 42)"
    and step: "glob_step pattern p (s ! i) = Some p'"
  shows "glob_inv pattern s p' (i + 1) star"
proof -
  let ?L = "\<lambda>p k. in_language (glob_tokens pattern p) (drop k s)"
  have p: "p < p'" "p' \<le> length pattern" "p < length pattern" using step_bounds[OF step] by simp_all
  have nxt: "?L p k \<longleftrightarrow> k < length s \<and> (\<exists>q. glob_step pattern p (s ! k) = Some q \<and> ?L q (k + 1))"
    if "k \<le> length s" for k
    using step_at[OF assms(3) _ that] p by simp
  then have fwd: "k < length s \<and> ?L p' (k + 1)" if "k \<le> length s" "?L p k" for k
    using step_unique[OF _ step] that by blast
  have here: "?L p i \<longleftrightarrow> ?L p' (i + 1)" using nxt[of i] i step step_unique by auto
  show ?thesis
  proof (cases star)
    case None
    then show ?thesis using inv here i p by (simp add: glob_inv_def)
  next
    case (Some a)
    obtain sp si where a: "a = (sp, si)" by fastforce
    have I: "sp \<le> p" "si \<le> i" "?L 0 0 \<longleftrightarrow> (\<exists>k. si \<le> k \<and> k \<le> length s \<and> ?L sp k)" "?L p i \<longrightarrow> ?L sp si"
      "\<And>k. k \<le> length s \<Longrightarrow> ?L sp k \<Longrightarrow> \<exists>j \<le> length s. k + i = j + si \<and> ?L p j"
      using inv Some a by (simp_all add: glob_inv_def)
    have "\<exists>j \<le> length s. k + (i + 1) = j + si \<and> ?L p' j" if k: "k \<le> length s" "?L sp k" for k
    proof -
      obtain j where "j \<le> length s" "k + i = j + si" "?L p j" using I(5)[OF k] by blast
      then show ?thesis using fwd[of j] by (intro exI[of _ "j + 1"]) auto
    qed
    then show ?thesis using I here i p Some a by (simp add: glob_inv_def)
  qed
qed

lemma inv_star:
  assumes inv: "glob_inv pattern s p i star" and "i < length s" and star: "p < length pattern" "pattern ! p = 42"
  defines "p' \<equiv> skip_stars pattern p"
  shows "glob_inv pattern s p' i (Some (p', i))"
    and "p' = length pattern \<Longrightarrow> in_language (glob_tokens pattern 0) s"
proof -
  let ?L = "\<lambda>p k. in_language (glob_tokens pattern p) (drop k s)"
  have run: "?L p k \<longleftrightarrow> (\<exists>j. k \<le> j \<and> j \<le> length s \<and> ?L p' j)" if "k \<le> length s" for k
  proof -
    have "?L p k \<longleftrightarrow> (\<exists>j \<le> length (drop k s). in_language (glob_tokens pattern p') (drop j (drop k s)))"
      using stars_iff[OF star] run_drop by (simp add: p'_def)
    also have "\<dots> \<longleftrightarrow> (\<exists>j. k \<le> j \<and> j \<le> length s \<and> ?L p' j)"
    proof
      assume "\<exists>j \<le> length (drop k s). in_language (glob_tokens pattern p') (drop j (drop k s))"
      then obtain j where "j \<le> length s - k" "?L p' (j + k)" by auto
      then show "\<exists>j. k \<le> j \<and> j \<le> length s \<and> ?L p' j" using that by (intro exI[of _ "j + k"]) auto
    next
      assume "\<exists>j. k \<le> j \<and> j \<le> length s \<and> ?L p' j"
      then obtain j where "k \<le> j" "j \<le> length s" "?L p' j" by blast
      then show "\<exists>j \<le> length (drop k s). in_language (glob_tokens pattern p') (drop j (drop k s))"
        by (intro exI[of _ "j - k"]) auto
    qed
    finally show ?thesis .
  qed
  have p': "p' \<le> length pattern" using skip_stars_bounds(2) star(1) by (simp add: p'_def)
  have G: "?L 0 0 \<longleftrightarrow> ?L p i"
  proof (cases star)
    case None
    then show ?thesis using inv by (simp add: glob_inv_def)
  next
    case (Some a)
    obtain sp si where a: "a = (sp, si)" by fastforce
    have I: "?L 0 0 \<longleftrightarrow> (\<exists>k. si \<le> k \<and> k \<le> length s \<and> ?L sp k)" "?L p i \<longrightarrow> ?L sp si" "si \<le> i"
      "\<And>k. k \<le> length s \<Longrightarrow> ?L sp k \<Longrightarrow> \<exists>j \<le> length s. k + i = j + si \<and> ?L p j"
      using inv Some a by (simp_all add: glob_inv_def)
    show ?thesis
    proof
      assume "?L 0 0"
      then obtain k j where "si \<le> k" "j \<le> length s" "k + i = j + si" "?L p j" using I(1,4) by blast
      then show "?L p i" using run[of j] run[of i] assms(2) by (auto intro: le_trans)
    qed (use I assms(2) in auto)
  qed
  show "glob_inv pattern s p' i (Some (p', i))"
    using G run[of i] assms(2) p' by (simp add: glob_inv_def)
  assume "p' = length pattern"
  then have "?L p' (length s)" by (subst glob_tokens.simps) (simp add: in_language_simps)
  then have "?L p i" unfolding run[OF less_imp_le[OF assms(2)]]
    using assms(2) by (intro exI[of _ "length s"]) simp
  then show "in_language (glob_tokens pattern 0) s" using G by simp
qed

lemma inv_mismatch:
  assumes inv: "glob_inv pattern s p i star" and "i < length s" and "\<not> (p < length pattern \<and> pattern ! p = 42)"
    and "glob_step pattern p (s ! i) = None"
  shows "case star of None \<Rightarrow> \<not> in_language (glob_tokens pattern 0) s
    | Some (sp, si) \<Rightarrow> glob_inv pattern s sp (si + 1) (Some (sp, si + 1))"
proof -
  let ?L = "\<lambda>p k. in_language (glob_tokens pattern p) (drop k s)"
  have no: "\<not> ?L p i" using step_at[OF assms(3)] assms(2,4) inv by (simp add: glob_inv_def)
  show ?thesis
  proof (cases star)
    case None
    then show ?thesis using inv no by (simp add: glob_inv_def)
  next
    case (Some a)
    obtain sp si where a: "a = (sp, si)" by fastforce
    have I: "?L 0 0 \<longleftrightarrow> (\<exists>k. si \<le> k \<and> k \<le> length s \<and> ?L sp k)" "si \<le> i" "sp \<le> p" "p \<le> length pattern"
      "\<And>k. k \<le> length s \<Longrightarrow> ?L sp k \<Longrightarrow> \<exists>j \<le> length s. k + i = j + si \<and> ?L p j"
      using inv Some a by (simp_all add: glob_inv_def)
    have "\<not> ?L sp si" using I(5)[of si] I(2) assms(2) no by auto
    then have "?L 0 0 \<longleftrightarrow> (\<exists>k. si + 1 \<le> k \<and> k \<le> length s \<and> ?L sp k)"
      using I(1) by (metis Suc_eq_plus1 Suc_leD le_antisym not_less_eq_eq)
    then show ?thesis using I(2-4) assms(2) Some a by (simp add: glob_inv_def)
  qed
qed

lemma inv_end:
  assumes "glob_inv pattern s p (length s) star"
  shows "skip_stars pattern p = length pattern \<longleftrightarrow> in_language (glob_tokens pattern 0) s"
proof -
  let ?L = "\<lambda>p k. in_language (glob_tokens pattern p) (drop k s)"
  have p: "?L p (length s) \<longleftrightarrow> skip_stars pattern p = length pattern"
    using end_iff assms by (simp add: glob_inv_def)
  show ?thesis
  proof (cases star)
    case None
    then show ?thesis using assms p by (simp add: glob_inv_def)
  next
    case (Some a)
    obtain sp si where a: "a = (sp, si)" by fastforce
    have I: "?L 0 0 \<longleftrightarrow> (\<exists>k. si \<le> k \<and> k \<le> length s \<and> ?L sp k)" "?L p (length s) \<longrightarrow> ?L sp si" "si \<le> length s"
      "\<And>k. k \<le> length s \<Longrightarrow> ?L sp k \<Longrightarrow> \<exists>j \<le> length s. k + length s = j + si \<and> ?L p j"
      using assms Some a by (simp_all add: glob_inv_def)
    have "?L p (length s)" if G: "?L 0 0"
    proof -
      obtain k j where "si \<le> k" "j \<le> length s" "k + length s = j + si" "?L p j" using I(1,4) G by blast
      moreover from this have "j = length s" by linarith
      ultimately show ?thesis by simp
    qed
    then show ?thesis using I(1-3) p by auto
  qed
qed

text \<open>The loop ends, from every state of the invariant, with whether the string is in the language.\<close>

lemma glob_loop_correct:
  "glob_inv pattern s p i star \<Longrightarrow> glob_loop pattern s p i star = Some (in_language (glob_tokens pattern 0) s)"
proof (induction "(p, i, star)" arbitrary: p i star rule: wf_induct_rule[OF wf_measures[of
    "[\<lambda>(p, i, star). case star of None \<Rightarrow> length pattern + 1 | Some (sp, si) \<Rightarrow> length pattern - sp,
      \<lambda>(p, i, star). case star of None \<Rightarrow> 0 | Some (sp, si) \<Rightarrow> length s - si,
      \<lambda>(p, i, star). length s - i]"]])
  case 1
  note inv = 1(2)
  show ?case
  proof (cases "i < length s")
    case False
    then have "i = length s" using inv by (simp add: glob_inv_def)
    then show ?thesis using inv_end[of pattern s p star] inv by (subst glob_loop.simps) simp
  next
    case i: True
    show ?thesis
    proof (cases "p < length pattern \<and> pattern ! p = 42")
      case True
      let ?p = "skip_stars pattern p"
      note st = inv_star[OF inv i conjunct1[OF True] conjunct2[OF True]]
      have lt: "p < ?p" using skip_stars_less True by simp
      have "?p \<noteq> length pattern \<Longrightarrow> glob_loop pattern s ?p i (Some (?p, i)) = Some (in_language (glob_tokens pattern 0) s)"
        using st(1) lt inv skip_stars_bounds(2)[of p pattern] True
        by (intro 1(1)) (auto simp: glob_inv_def split: option.splits)
      then show ?thesis using i True st(2) by (subst glob_loop.simps) (auto simp: Let_def)
    next
      case False
      show ?thesis
      proof (cases "glob_step pattern p (s ! i)")
        case (Some p')
        have "glob_loop pattern s p' (i + 1) star = Some (in_language (glob_tokens pattern 0) s)"
          using inv_advance[OF inv i False Some] i by (intro 1(1)) (auto split: option.splits)
        then show ?thesis using i False Some by (subst glob_loop.simps) auto
      next
        case None
        note mis = inv_mismatch[OF inv i False None]
        show ?thesis
        proof (cases star)
          case no: None
          then show ?thesis using mis i False None by (subst glob_loop.simps) auto
        next
          case (Some a)
          obtain sp si where a: "a = (sp, si)" by fastforce
          have "si \<le> i" using inv Some a by (simp add: glob_inv_def)
          then have "glob_loop pattern s sp (si + 1) (Some (sp, si + 1)) = Some (in_language (glob_tokens pattern 0) s)"
            using mis Some a i by (intro 1(1)) auto
          then show ?thesis using i False None Some a by (subst glob_loop.simps) auto
        qed
      qed
    qed
  qed
qed

section \<open>Properties\<close>

text \<open>
  C16. The glob matcher always ends, and it accepts exactly the strings of the pattern's language:
  remembering the last star only loses no match.
\<close>

theorem glob_match_is_language: "glob_match pattern s = Some (in_language (glob_tokens pattern 0) s)"
  unfolding glob_match_def by (rule glob_loop_correct) (simp add: glob_inv_def)

end
