(* ===== verification/Flint_S3Fifo.thy ===== *)
theory Flint_S3Fifo
  imports Flint_Prelude "HOL-Library.AList"
begin

text \<open>
  The eviction policy of \<open>crates/flint-storage/src/s3fifo.rs\<close>: two queues of resident keys and
  one of remembered ones. Hash maps are association lists with distinct keys, the hash set is a set;
  byte counters are 64-bit words, whose multiplication and addition wrap.

  The lemmas show that every operation keeps the queues, the maps and the byte counters consistent,
  what a reclaim returns, and how soon an eviction step finds a victim.
\<close>

section \<open>State and operations\<close>

definition SMALL_SHARE_PCT :: u64 where [flint_eval]: "SMALL_SHARE_PCT = 10"
definition FREQ_MAX :: u8 where [flint_eval]: "FREQ_MAX = 3"
definition GHOST_MIN :: nat where [flint_eval]: "GHOST_MIN = 16"

record S3Fifo =
  s3_capacity_bytes :: u64
  s3_small :: "bytes list"
  s3_main :: "bytes list"
  s3_ghost :: "bytes list"
  s3_ghost_set :: "bytes set"
  s3_sizes :: "(bytes \<times> u64) list"
  s3_freq :: "(bytes \<times> u8) list"
  s3_small_bytes :: u64
  s3_main_bytes :: u64

definition s3_new :: "u64 \<Rightarrow> S3Fifo" where
  "s3_new capacity = \<lparr>s3_capacity_bytes = capacity, s3_small = [], s3_main = [], s3_ghost = [],
     s3_ghost_set = {}, s3_sizes = [], s3_freq = [], s3_small_bytes = 0, s3_main_bytes = 0\<rparr>"

definition set_capacity_bytes :: "u64 \<Rightarrow> S3Fifo \<Rightarrow> S3Fifo" where
  "set_capacity_bytes b c = c\<lparr>s3_capacity_bytes := b\<rparr>"

definition resident_bytes :: "S3Fifo \<Rightarrow> u64" where
  "resident_bytes c = s3_small_bytes c + s3_main_bytes c"

definition resident_keys :: "S3Fifo \<Rightarrow> nat" where
  "resident_keys c = length (s3_sizes c)"

definition s3_contains :: "S3Fifo \<Rightarrow> bytes \<Rightarrow> bool" where
  "s3_contains c key = (map_of (s3_sizes c) key \<noteq> None)"

definition on_access :: "bytes \<Rightarrow> S3Fifo \<Rightarrow> S3Fifo" where
  "on_access key c =
     (case map_of (s3_freq c) key of
        Some f \<Rightarrow> c\<lparr>s3_freq := AList.update key (min (f + 1) FREQ_MAX) (s3_freq c)\<rparr>
      | None \<Rightarrow> c)"

definition on_admit :: "bytes \<Rightarrow> u64 \<Rightarrow> S3Fifo \<Rightarrow> S3Fifo" where
  "on_admit key b c =
     (if s3_contains c key then on_access key c
      else
        (let c = c\<lparr>s3_sizes := AList.update key b (s3_sizes c), s3_freq := AList.update key 0 (s3_freq c)\<rparr>
         in if key \<in> s3_ghost_set c then
              c\<lparr>s3_ghost_set := s3_ghost_set c - {key}, s3_ghost := remove1 key (s3_ghost c),
                s3_main := s3_main c @ [key], s3_main_bytes := s3_main_bytes c + b\<rparr>
            else c\<lparr>s3_small := s3_small c @ [key], s3_small_bytes := s3_small_bytes c + b\<rparr>))"

definition forget :: "bytes \<Rightarrow> S3Fifo \<Rightarrow> S3Fifo" where
  "forget key c =
     (case map_of (s3_sizes c) key of
        None \<Rightarrow> c
      | Some b \<Rightarrow>
          (let c = c\<lparr>s3_sizes := AList.delete key (s3_sizes c)\<rparr>;
               c = (if key \<in> set (s3_small c) then
                      c\<lparr>s3_small := remove1 key (s3_small c), s3_small_bytes := saturating_sub (s3_small_bytes c) b\<rparr>
                    else if key \<in> set (s3_main c) then
                      c\<lparr>s3_main := remove1 key (s3_main c), s3_main_bytes := saturating_sub (s3_main_bytes c) b\<rparr>
                    else c)
           in c\<lparr>s3_freq := AList.delete key (s3_freq c)\<rparr>))"

definition small_limit :: "S3Fifo \<Rightarrow> u64" where
  "small_limit c = s3_capacity_bytes c * SMALL_SHARE_PCT div 100"

text \<open>The ghost queue drops its oldest keys down to the limit.\<close>

fun trim_ghost :: "nat \<Rightarrow> bytes list \<Rightarrow> bytes set \<Rightarrow> bytes list \<times> bytes set" where
  "trim_ghost limit [] gs = ([], gs)"
| "trim_ghost limit (g # ghost) gs =
     (if length (g # ghost) > limit then trim_ghost limit ghost (gs - {g}) else (g # ghost, gs))"

definition push_ghost :: "bytes \<Rightarrow> S3Fifo \<Rightarrow> S3Fifo" where
  "push_ghost key c =
     (let limit = max (length (s3_sizes c)) GHOST_MIN;
          (ghost, gs) = trim_ghost limit (s3_ghost c @ [key]) (insert key (s3_ghost_set c))
      in c\<lparr>s3_ghost := ghost, s3_ghost_set := gs\<rparr>)"

definition step_small :: "S3Fifo \<Rightarrow> bytes option \<times> S3Fifo" where
  "step_small c =
     (case s3_small c of
        [] \<Rightarrow> (None, c)
      | key # rest \<Rightarrow>
          (let c = c\<lparr>s3_small := rest\<rparr>
           in case map_of (s3_sizes c) key of
                None \<Rightarrow> (None, c)
              | Some b \<Rightarrow>
                  (let c = c\<lparr>s3_small_bytes := saturating_sub (s3_small_bytes c) b\<rparr>
                   in if (case map_of (s3_freq c) key of Some f \<Rightarrow> f | None \<Rightarrow> 0) > 0 then
                        (None, c\<lparr>s3_freq := AList.update key 0 (s3_freq c), s3_main := s3_main c @ [key],
                           s3_main_bytes := s3_main_bytes c + b\<rparr>)
                      else
                        (Some key, push_ghost key
                           (c\<lparr>s3_sizes := AList.delete key (s3_sizes c), s3_freq := AList.delete key (s3_freq c)\<rparr>)))))"

definition step_main :: "S3Fifo \<Rightarrow> bytes option \<times> S3Fifo" where
  "step_main c =
     (case s3_main c of
        [] \<Rightarrow> (None, c)
      | key # rest \<Rightarrow>
          (let c = c\<lparr>s3_main := rest\<rparr>
           in case map_of (s3_sizes c) key of
                None \<Rightarrow> (None, c)
              | Some b \<Rightarrow>
                  (let f = (case map_of (s3_freq c) key of Some f \<Rightarrow> f | None \<Rightarrow> 0)
                   in if f > 0 then
                        (None, c\<lparr>s3_freq := AList.update key (f - 1) (s3_freq c), s3_main := s3_main c @ [key]\<rparr>)
                      else
                        (Some key, c\<lparr>s3_main_bytes := saturating_sub (s3_main_bytes c) b,
                           s3_sizes := AList.delete key (s3_sizes c), s3_freq := AList.delete key (s3_freq c)\<rparr>))))"

text \<open>The rounds of one eviction, at most as many as the budget.\<close>

fun evict_rounds :: "nat \<Rightarrow> S3Fifo \<Rightarrow> bytes option \<times> S3Fifo" where
  "evict_rounds 0 c = (None, c)"
| "evict_rounds (Suc n) c =
     (if s3_small_bytes c > small_limit c \<and> s3_small c \<noteq> [] then
        (case step_small c of (Some k, c) \<Rightarrow> (Some k, c) | (None, c) \<Rightarrow> evict_rounds n c)
      else if s3_main c \<noteq> [] then
        (case step_main c of (Some k, c) \<Rightarrow> (Some k, c) | (None, c) \<Rightarrow> evict_rounds n c)
      else if s3_small c \<noteq> [] then
        (case step_small c of (Some k, c) \<Rightarrow> (Some k, c) | (None, c) \<Rightarrow> evict_rounds n c)
      else (None, c))"

definition evict_one :: "S3Fifo \<Rightarrow> bytes option \<times> S3Fifo" where
  "evict_one c = evict_rounds (length (s3_small c) + length (s3_main c) + 1) c"

lemma step_small_length:
  "length (s3_small (snd (step_small c))) + length (s3_main (snd (step_small c))) \<le>
     length (s3_small c) + length (s3_main c) - (if fst (step_small c) = None then 0 else 1)"
  by (auto simp: step_small_def push_ghost_def Let_def case_prod_beta split: list.split option.split)

lemma step_main_length:
  "length (s3_small (snd (step_main c))) + length (s3_main (snd (step_main c))) \<le>
     length (s3_small c) + length (s3_main c) - (if fst (step_main c) = None then 0 else 1)"
  by (auto simp: step_main_def Let_def split: list.split option.split)

lemma evict_rounds_length:
  "evict_rounds n c = (r, c') \<Longrightarrow> length (s3_small c') + length (s3_main c') \<le>
     length (s3_small c) + length (s3_main c) - (if r = None then 0 else 1)"
proof (induction n arbitrary: c)
  case (Suc n)
  show ?case
    using Suc step_small_length[of c] step_main_length[of c]
    by (auto split: if_splits prod.splits option.splits dest!: Suc.IH)
qed simp

lemma evict_one_shrinks:
  assumes "evict_one c = (Some k, c')"
  shows "length (s3_small c') + length (s3_main c') < length (s3_small c) + length (s3_main c)"
proof -
  have pos: "0 < length (s3_small c) + length (s3_main c)"
    using assms by (cases "s3_small c = [] \<and> s3_main c = []") (auto simp: evict_one_def)
  have "length (s3_small c') + length (s3_main c') \<le> length (s3_small c) + length (s3_main c) - 1"
    using evict_rounds_length[OF assms[unfolded evict_one_def]] by simp
  with pos show ?thesis by linarith
qed

function reclaim_to :: "u64 \<Rightarrow> S3Fifo \<Rightarrow> bytes list \<times> S3Fifo" where
  "reclaim_to target c =
     (if resident_bytes c > target then
        (case evict_one c of
           (Some k, c) \<Rightarrow> (let (out, c) = reclaim_to target c in (k # out, c))
         | (None, c) \<Rightarrow> ([], c))
      else ([], c))"
  by pat_completeness auto
termination
  by (relation "measure (\<lambda>(target, c). length (s3_small c) + length (s3_main c))") (auto dest!: evict_one_shrinks[OF sym])

declare reclaim_to.simps [simp del]

section \<open>Notions the lemmas use\<close>

definition bytes_of :: "(bytes \<times> u64) list \<Rightarrow> bytes list \<Rightarrow> nat" where
  "bytes_of sizes ks = sum_list (map (\<lambda>k. unat (the (map_of sizes k))) ks)"

definition residents :: "S3Fifo \<Rightarrow> bytes set" where
  "residents c = set (s3_small c) \<union> set (s3_main c)"

text \<open>
  A consistent cache: every resident key is in one queue once, has a size and a frequency, the byte
  counters are the sums of the sizes, and the ghosts are remembered keys that are not resident.
\<close>

definition s3_ok :: "S3Fifo \<Rightarrow> bool" where
  "s3_ok c \<longleftrightarrow> distinct (s3_small c @ s3_main c) \<and>
     distinct (map fst (s3_sizes c)) \<and> distinct (map fst (s3_freq c)) \<and>
     dom (map_of (s3_sizes c)) = residents c \<and> dom (map_of (s3_freq c)) = residents c \<and>
     (\<forall>k f. map_of (s3_freq c) k = Some f \<longrightarrow> f \<le> FREQ_MAX) \<and>
     distinct (s3_ghost c) \<and> s3_ghost_set c = set (s3_ghost c) \<and> set (s3_ghost c) \<inter> residents c = {} \<and>
     unat (s3_small_bytes c) = bytes_of (s3_sizes c) (s3_small c) \<and>
     unat (s3_main_bytes c) = bytes_of (s3_sizes c) (s3_main c) \<and>
     unat (s3_small_bytes c) + unat (s3_main_bytes c) < 2 ^ 64"

text \<open>The reprieves left: every key of \<open>small\<close> may be promoted once, every key of \<open>main\<close> has its frequency.\<close>

definition reprieves :: "S3Fifo \<Rightarrow> nat" where
  "reprieves c = length (s3_small c) + sum_list (map (\<lambda>k. unat (the (map_of (s3_freq c) k))) (s3_main c))"

text \<open>The caches a program can have: every sequence of operations from an empty one.\<close>

inductive s3_reach :: "S3Fifo \<Rightarrow> bool" where
  new: "s3_reach (s3_new capacity)"
| resize: "s3_reach c \<Longrightarrow> s3_reach (set_capacity_bytes b c)"
| access: "s3_reach c \<Longrightarrow> s3_reach (on_access key c)"
| admit: "s3_reach c \<Longrightarrow> unat (s3_small_bytes c) + unat (s3_main_bytes c) + unat b < 2 ^ 64 \<Longrightarrow> s3_reach (on_admit key b c)"
| forget: "s3_reach c \<Longrightarrow> s3_reach (forget key c)"
| reclaim: "s3_reach c \<Longrightarrow> s3_reach (snd (reclaim_to target c))"

text \<open>A cache in which an eviction step gives up.\<close>

definition s3_stuck :: S3Fifo where
  "s3_stuck = on_access [1] (on_access [1] (on_access [1] (on_admit [1] 5 (snd (reclaim_to 0 (on_admit [1] 5 (s3_new 100)))))))"

section \<open>Lemmas\<close>

lemma map_of_alist [simp]:
  "map_of (AList.update k v al) = (map_of al)(k \<mapsto> v)" "map_of (AList.delete k al) = (map_of al)(k := None)"
  by (simp_all add: update_conv' delete_conv')

lemma bytes_of_Cons [simp]: "bytes_of al (k # ks) = unat (the (map_of al k)) + bytes_of al ks"
  "bytes_of al [] = 0" "bytes_of al (ks @ ks') = bytes_of al ks + bytes_of al ks'"
  by (simp_all add: bytes_of_def)

lemma bytes_of_other [simp]:
  "k \<notin> set ks \<Longrightarrow> bytes_of (AList.update k b al) ks = bytes_of al ks"
  "k \<notin> set ks \<Longrightarrow> bytes_of (AList.delete k al) ks = bytes_of al ks"
  by (auto simp: bytes_of_def intro!: arg_cong[where f = sum_list])

lemma bytes_of_remove1: "k \<in> set ks \<Longrightarrow> bytes_of al ks = unat (the (map_of al k)) + bytes_of al (remove1 k ks)"
  by (induction ks) auto

lemma reprieves_other: "k \<notin> set ks \<Longrightarrow>
   sum_list (map (\<lambda>x. unat (the (if x = k then Some f else g x))) ks) = sum_list (map (\<lambda>x. unat (the (g x))) ks)"
  by (auto intro!: arg_cong[where f = sum_list])

lemma trim_ghost:
  assumes "distinct ghost" "gs = set ghost"
  shows "\<exists>ghost'. trim_ghost n ghost gs = (ghost', set ghost') \<and> distinct ghost' \<and> set ghost' \<subseteq> set ghost \<and> length ghost' \<le> n"
  using assms by (induction n ghost gs rule: trim_ghost.induct) auto

lemma step_small_ok:
  assumes ok: "s3_ok c" and small: "s3_small c \<noteq> []"
  obtains (kept) c' where "step_small c = (None, c')" "s3_ok c'" "residents c' = residents c" "reprieves c = reprieves c' + 1"
      "length (s3_small c') + length (s3_main c') = length (s3_small c) + length (s3_main c)"
  | (evicted) k c' where "step_small c = (Some k, c')" "s3_ok c'" "k \<in> residents c" "residents c' = residents c - {k}"
proof -
  obtain k rest where kr: "s3_small c = k # rest" using small by (cases "s3_small c") auto
  have k: "k \<in> residents c" using kr by (simp add: residents_def)
  then have "k \<in> dom (map_of (s3_sizes c))" "k \<in> dom (map_of (s3_freq c))" using ok by (simp_all add: s3_ok_def)
  then obtain b f where bf: "map_of (s3_sizes c) k = Some b" "map_of (s3_freq c) k = Some f" by blast
  have sub: "unat (saturating_sub (s3_small_bytes c) b) = bytes_of (s3_sizes c) rest"
    using ok kr bf by (simp add: s3_ok_def unat_saturating_sub)
  show ?thesis
  proof (cases "f > 0")
    case True
    let ?c = "c\<lparr>s3_small := rest, s3_small_bytes := saturating_sub (s3_small_bytes c) b,
      s3_freq := AList.update k 0 (s3_freq c), s3_main := s3_main c @ [k], s3_main_bytes := s3_main_bytes c + b\<rparr>"
    have step: "step_small c = (None, ?c)" using kr bf True by (simp add: step_small_def Let_def)
    have "unat (s3_main_bytes c + b) = unat (s3_main_bytes c) + unat b"
      using ok kr bf by (simp add: s3_ok_def unat_word_ariths(1))
    moreover have res: "residents ?c = residents c" using kr by (auto simp: residents_def)
    moreover have "distinct (s3_small ?c @ s3_main ?c)" using ok kr by (auto simp: s3_ok_def)
    moreover have "\<forall>k' f. map_of (s3_freq ?c) k' = Some f \<longrightarrow> f \<le> FREQ_MAX" using ok by (simp add: s3_ok_def)
    ultimately have "s3_ok ?c"
      using ok kr bf sub k unfolding s3_ok_def res by (simp add: distinct_update insert_absorb)
    moreover have "reprieves c = reprieves ?c + 1"
      using ok kr by (simp add: reprieves_def s3_ok_def reprieves_other)
    ultimately show ?thesis using kept[OF step] kr by (auto simp: residents_def)
  next
    case False
    then have f: "f = 0" by (simp add: word_less_nat_alt unat_eq_0)
    let ?c = "c\<lparr>s3_small := rest, s3_small_bytes := saturating_sub (s3_small_bytes c) b,
      s3_sizes := AList.delete k (s3_sizes c), s3_freq := AList.delete k (s3_freq c)\<rparr>"
    have step: "step_small c = (Some k, push_ghost k ?c)" using kr bf f by (simp add: step_small_def Let_def)
    have "distinct (s3_ghost c @ [k])" "insert k (s3_ghost_set c) = set (s3_ghost c @ [k])"
      using ok k by (auto simp: s3_ok_def)
    from trim_ghost[OF this, of "max (length (AList.delete k (s3_sizes c))) GHOST_MIN"] obtain ghost where
      t: "trim_ghost (max (length (AList.delete k (s3_sizes c))) GHOST_MIN) (s3_ghost c @ [k]) (insert k (s3_ghost_set c)) =
        (ghost, set ghost)" "distinct ghost" "set ghost \<subseteq> set (s3_ghost c @ [k])" by blast
    then have g: "push_ghost k ?c = ?c\<lparr>s3_ghost := ghost, s3_ghost_set := set ghost\<rparr>"
      "distinct ghost" "set ghost \<subseteq> insert k (set (s3_ghost c))"
      by (simp_all add: push_ghost_def Let_def)
    have res: "residents (push_ghost k ?c) = residents c - {k}"
      unfolding g(1) using ok kr by (auto simp: residents_def s3_ok_def)
    moreover have "\<forall>k' f. map_of (s3_freq (push_ghost k ?c)) k' = Some f \<longrightarrow> f \<le> FREQ_MAX"
      using ok unfolding g(1) by (auto simp: s3_ok_def)
    moreover have "set ghost \<inter> (residents c - {k}) = {}" using ok g(3) unfolding s3_ok_def by blast
    moreover have "k \<notin> set rest" "k \<notin> set (s3_main c)" "distinct (rest @ s3_main c)"
      using ok kr by (simp_all add: s3_ok_def)
    ultimately have "s3_ok (push_ghost k ?c)"
      using ok kr bf sub g(2) unfolding s3_ok_def res g(1) by (simp add: distinct_delete)
    with res show ?thesis using evicted[OF step] k by blast
  qed
qed

lemma step_main_ok:
  assumes ok: "s3_ok c" and main: "s3_main c \<noteq> []"
  obtains (kept) c' where "step_main c = (None, c')" "s3_ok c'" "residents c' = residents c" "reprieves c = reprieves c' + 1"
      "length (s3_small c') + length (s3_main c') = length (s3_small c) + length (s3_main c)"
  | (evicted) k c' where "step_main c = (Some k, c')" "s3_ok c'" "k \<in> residents c" "residents c' = residents c - {k}"
proof -
  obtain k rest where kr: "s3_main c = k # rest" using main by (cases "s3_main c") auto
  have k: "k \<in> residents c" using kr by (simp add: residents_def)
  then have "k \<in> dom (map_of (s3_sizes c))" "k \<in> dom (map_of (s3_freq c))" using ok by (simp_all add: s3_ok_def)
  then obtain b f where bf: "map_of (s3_sizes c) k = Some b" "map_of (s3_freq c) k = Some f" by blast
  have nk: "k \<notin> set rest" "k \<notin> set (s3_small c)" "distinct (s3_small c @ rest)" using ok kr by (auto simp: s3_ok_def)
  show ?thesis
  proof (cases "f > 0")
    case True
    let ?c = "c\<lparr>s3_main := rest @ [k], s3_freq := AList.update k (f - 1) (s3_freq c)\<rparr>"
    have step: "step_main c = (None, ?c)" using kr bf True by (simp add: step_main_def Let_def)
    have f1: "unat f = unat (f - 1) + 1"
      using unat_sub[of 1 f] True by (simp add: word_less_nat_alt word_le_nat_alt)
    have "f \<le> FREQ_MAX" using ok bf(2) unfolding s3_ok_def by blast
    then have "f - 1 \<le> FREQ_MAX" using f1 by (simp add: word_le_nat_alt)
    then have "\<forall>k' f. map_of (s3_freq ?c) k' = Some f \<longrightarrow> f \<le> FREQ_MAX" using ok by (simp add: s3_ok_def)
    moreover have res: "residents ?c = residents c" using kr by (auto simp: residents_def)
    moreover have "distinct (s3_small ?c @ s3_main ?c)" using nk by auto
    ultimately have "s3_ok ?c"
      using ok kr k unfolding s3_ok_def res by (simp add: distinct_update insert_absorb)
    moreover have "reprieves c = reprieves ?c + 1"
      using nk kr bf f1 by (simp add: reprieves_def reprieves_other)
    ultimately show ?thesis using kept[OF step] kr res by simp
  next
    case False
    then have f: "f = 0" by (simp add: word_less_nat_alt unat_eq_0)
    let ?c = "c\<lparr>s3_main := rest, s3_main_bytes := saturating_sub (s3_main_bytes c) b,
      s3_sizes := AList.delete k (s3_sizes c), s3_freq := AList.delete k (s3_freq c)\<rparr>"
    have step: "step_main c = (Some k, ?c)" using kr bf f by (simp add: step_main_def Let_def)
    have res: "residents ?c = residents c - {k}" using nk kr by (auto simp: residents_def)
    have "unat (saturating_sub (s3_main_bytes c) b) = bytes_of (s3_sizes c) rest"
      using ok kr bf by (simp add: s3_ok_def unat_saturating_sub)
    moreover have "\<forall>k' f. map_of (s3_freq ?c) k' = Some f \<longrightarrow> f \<le> FREQ_MAX" using ok by (simp add: s3_ok_def)
    moreover have "set (s3_ghost c) \<inter> (residents c - {k}) = {}" using ok unfolding s3_ok_def by blast
    ultimately have "s3_ok ?c"
      using ok kr nk unfolding s3_ok_def res by (simp add: distinct_delete)
    then show ?thesis using evicted[OF step] k res by blast
  qed
qed

text \<open>A round evicts a resident key or uses up a reprieve.\<close>

lemma evict_rounds_ok:
  assumes "s3_ok c" "evict_rounds n c = (r, c')"
  shows "s3_ok c'"
    and "case r of Some k \<Rightarrow> k \<in> residents c \<and> residents c' = residents c - {k}
      | None \<Rightarrow> residents c' = residents c \<and> length (s3_small c') + length (s3_main c') = length (s3_small c) + length (s3_main c) \<and>
          (residents c = {} \<or> reprieves c = reprieves c' + n)"
proof -
  have "s3_ok c' \<and> (case r of Some k \<Rightarrow> k \<in> residents c \<and> residents c' = residents c - {k}
      | None \<Rightarrow> residents c' = residents c \<and> length (s3_small c') + length (s3_main c') = length (s3_small c) + length (s3_main c) \<and>
          (residents c = {} \<or> reprieves c = reprieves c' + n))"
    using assms
  proof (induction n arbitrary: c)
    case (Suc n)
    consider (small) "s3_small c \<noteq> []" "evict_rounds (Suc n) c =
          (case step_small c of (Some k, c) \<Rightarrow> (Some k, c) | (None, c) \<Rightarrow> evict_rounds n c)"
      | (main) "s3_main c \<noteq> []" "evict_rounds (Suc n) c =
          (case step_main c of (Some k, c) \<Rightarrow> (Some k, c) | (None, c) \<Rightarrow> evict_rounds n c)"
      | (empty) "s3_small c = []" "s3_main c = []" "evict_rounds (Suc n) c = (None, c)"
      by (cases "s3_small_bytes c > small_limit c \<and> s3_small c \<noteq> []"; cases "s3_small c = []"; cases "s3_main c = []") auto
    then show ?case
    proof cases
      case small
      from Suc.prems(1) small(1) show ?thesis
      proof (cases rule: step_small_ok)
        case (kept c1)
        then show ?thesis using Suc.IH[OF kept(2)] Suc.prems(2) small(2) by (auto split: option.splits)
      next
        case (evicted k c1)
        then show ?thesis using Suc.prems(2) small(2) by auto
      qed
    next
      case main
      from Suc.prems(1) main(1) show ?thesis
      proof (cases rule: step_main_ok)
        case (kept c1)
        then show ?thesis using Suc.IH[OF kept(2)] Suc.prems(2) main(2) by (auto split: option.splits)
      next
        case (evicted k c1)
        then show ?thesis using Suc.prems(2) main(2) by auto
      qed
    next
      case empty
      then show ?thesis using Suc.prems by (simp add: residents_def)
    qed
  qed simp
  then show "s3_ok c'" "case r of Some k \<Rightarrow> k \<in> residents c \<and> residents c' = residents c - {k}
      | None \<Rightarrow> residents c' = residents c \<and> length (s3_small c') + length (s3_main c') = length (s3_small c) + length (s3_main c) \<and>
          (residents c = {} \<or> reprieves c = reprieves c' + n)" by simp_all
qed

lemma reprieves_bound: "s3_ok c \<Longrightarrow> reprieves c \<le> 3 * (length (s3_small c) + length (s3_main c))"
proof -
  assume ok: "s3_ok c"
  have "unat (the (map_of (s3_freq c) k)) \<le> 3" if "k \<in> set (s3_main c)" for k
  proof -
    have "k \<in> dom (map_of (s3_freq c))" using ok that by (simp add: s3_ok_def residents_def)
    then obtain f where f: "map_of (s3_freq c) k = Some f" by blast
    then have "f \<le> FREQ_MAX" using ok by (simp add: s3_ok_def)
    then show ?thesis using f by (simp add: FREQ_MAX_def word_le_nat_alt)
  qed
  then have "sum_list (map (\<lambda>k. unat (the (map_of (s3_freq c) k))) (s3_main c)) \<le> sum_list (map (\<lambda>_. 3) (s3_main c))"
    by (rule sum_list_mono)
  then show ?thesis by (simp add: reprieves_def sum_list_triv)
qed

lemma on_access_ok: "s3_ok c \<Longrightarrow> s3_ok (on_access key c)" and on_access_residents: "residents (on_access key c) = residents c"
proof -
  assume ok: "s3_ok c"
  show "s3_ok (on_access key c)"
  proof (cases "map_of (s3_freq c) key")
    case (Some f)
    then have "key \<in> residents c" using ok by (auto simp: s3_ok_def)
    moreover have "\<forall>k' g. ((map_of (s3_freq c))(key \<mapsto> min (f + 1) FREQ_MAX)) k' = Some g \<longrightarrow> g \<le> FREQ_MAX"
      using ok by (simp add: s3_ok_def)
    ultimately show ?thesis
      using ok Some by (simp add: on_access_def s3_ok_def residents_def distinct_update insert_absorb)
  qed (use ok in \<open>simp add: on_access_def\<close>)
next
  show "residents (on_access key c) = residents c"
    by (auto simp: on_access_def residents_def split: option.split)
qed

lemma on_admit_ok:
  assumes ok: "s3_ok c" and fits: "unat (s3_small_bytes c) + unat (s3_main_bytes c) + unat b < 2 ^ 64"
  shows "s3_ok (on_admit key b c)" "residents (on_admit key b c) = insert key (residents c)"
proof -
  have "s3_ok (on_admit key b c) \<and> residents (on_admit key b c) = insert key (residents c)"
  proof (cases "s3_contains c key")
    case True
    then have "key \<in> dom (map_of (s3_sizes c))" by (auto simp: s3_contains_def)
    then have "key \<in> residents c" using ok by (simp add: s3_ok_def)
    then show ?thesis using True on_access_ok[OF ok] on_access_residents by (simp add: on_admit_def insert_absorb)
  next
    case False
    then have "key \<notin> dom (map_of (s3_sizes c))" by (auto simp: s3_contains_def)
    then have k: "key \<notin> residents c" using ok by (simp add: s3_ok_def)
    then have nk: "key \<notin> set (s3_small c)" "key \<notin> set (s3_main c)" by (simp_all add: residents_def)
    have u: "unat (s3_small_bytes c + b) = unat (s3_small_bytes c) + unat b"
      "unat (s3_main_bytes c + b) = unat (s3_main_bytes c) + unat b"
      using fits by (simp_all add: unat_word_ariths(1))
    have le: "\<forall>k f. ((map_of (s3_freq c))(key \<mapsto> 0)) k = Some f \<longrightarrow> f \<le> FREQ_MAX" using ok by (simp add: s3_ok_def)
    have res: "residents (on_admit key b c) = insert key (residents c)"
      using False by (auto simp: on_admit_def Let_def residents_def)
    show ?thesis
    proof (cases "key \<in> s3_ghost_set c")
      case True
      have "set (remove1 key (s3_ghost c)) = set (s3_ghost c) - {key}" "distinct (remove1 key (s3_ghost c))"
        using ok by (simp_all add: s3_ok_def set_remove1_eq)
      moreover have "(set (s3_ghost c) - {key}) \<inter> insert key (residents c) = {}" using ok unfolding s3_ok_def by blast
      ultimately have "s3_ok (on_admit key b c)"
        using ok False nk u le True fits unfolding s3_ok_def res
        by (simp add: on_admit_def Let_def distinct_update s3_contains_def)
      then show ?thesis using res by simp
    next
      case no: False
      have "set (s3_ghost c) \<inter> insert key (residents c) = {}" using ok no unfolding s3_ok_def by blast
      then have "s3_ok (on_admit key b c)"
        using ok False nk u le no fits unfolding s3_ok_def res
        by (simp add: on_admit_def Let_def distinct_update s3_contains_def)
      then show ?thesis using res by simp
    qed
  qed
  then show "s3_ok (on_admit key b c)" "residents (on_admit key b c) = insert key (residents c)" by simp_all
qed

lemma forget_ok:
  assumes ok: "s3_ok c"
  shows "s3_ok (forget key c)" "residents (forget key c) = residents c - {key}"
proof -
  have "s3_ok (forget key c) \<and> residents (forget key c) = residents c - {key}"
  proof (cases "map_of (s3_sizes c) key")
    case None
    then have "key \<notin> dom (map_of (s3_sizes c))" by auto
    then have "key \<notin> residents c" using ok by (simp add: s3_ok_def)
    then show ?thesis using ok None by (simp add: forget_def)
  next
    case (Some b)
    then have "key \<in> dom (map_of (s3_sizes c))" by auto
    then have k: "key \<in> set (s3_small c) \<or> key \<in> set (s3_main c)" using ok by (simp add: s3_ok_def residents_def)
    have d: "distinct (s3_small c)" "distinct (s3_main c)" "set (s3_small c) \<inter> set (s3_main c) = {}"
      using ok by (simp_all add: s3_ok_def)
    have sets: "set (remove1 key (s3_small c)) = set (s3_small c) - {key}" "set (remove1 key (s3_main c)) = set (s3_main c) - {key}"
      using d by (simp_all add: set_remove1_eq)
    have le: "\<forall>k' f. ((map_of (s3_freq c))(key := None)) k' = Some f \<longrightarrow> f \<le> FREQ_MAX" using ok by (simp add: s3_ok_def)
    have gh: "set (s3_ghost c) \<inter> (residents c - {key}) = {}" using ok unfolding s3_ok_def by blast
    have res: "residents (forget key c) = residents c - {key}"
      using Some k d sets by (auto simp: forget_def Let_def residents_def)
    show ?thesis
    proof (cases "key \<in> set (s3_small c)")
      case True
      then have m: "key \<notin> set (s3_main c)" using d by blast
      have b: "unat (saturating_sub (s3_small_bytes c) b) = bytes_of (s3_sizes c) (remove1 key (s3_small c))"
        using ok Some bytes_of_remove1[OF True, of "s3_sizes c"] by (simp add: s3_ok_def unat_saturating_sub)
      have "set (remove1 key (s3_small c)) \<inter> set (s3_main c) = {}" using sets d by blast
      moreover have "bytes_of (s3_sizes c) (remove1 key (s3_small c)) \<le> bytes_of (s3_sizes c) (s3_small c)"
        using bytes_of_remove1[OF True, of "s3_sizes c"] by simp
      ultimately have "s3_ok (forget key c)"
        using ok Some True m b le gh d sets unfolding s3_ok_def res
        by (simp add: forget_def Let_def distinct_delete)
      then show ?thesis using res by simp
    next
      case False
      then have m: "key \<in> set (s3_main c)" using k by blast
      have b: "unat (saturating_sub (s3_main_bytes c) b) = bytes_of (s3_sizes c) (remove1 key (s3_main c))"
        using ok Some bytes_of_remove1[OF m, of "s3_sizes c"] by (simp add: s3_ok_def unat_saturating_sub)
      have "set (s3_small c) \<inter> set (remove1 key (s3_main c)) = {}" using sets d by blast
      moreover have "bytes_of (s3_sizes c) (remove1 key (s3_main c)) \<le> bytes_of (s3_sizes c) (s3_main c)"
        using bytes_of_remove1[OF m, of "s3_sizes c"] by simp
      ultimately have "s3_ok (forget key c)"
        using ok Some False m b le gh d sets unfolding s3_ok_def res
        by (simp add: forget_def Let_def distinct_delete)
      then show ?thesis using res by simp
    qed
  qed
  then show "s3_ok (forget key c)" "residents (forget key c) = residents c - {key}" by simp_all
qed

lemma reclaim_ok:
  "s3_ok c \<Longrightarrow> reclaim_to target c = (out, c') \<Longrightarrow>
   s3_ok c' \<and> distinct out \<and> set out \<subseteq> residents c \<and> residents c' = residents c - set out \<and>
   (resident_bytes c' \<le> target \<or> (\<exists>c1. s3_ok c1 \<and> fst (evict_one c1) = None \<and> snd (evict_one c1) = c'))"
proof (induction target c arbitrary: out c' rule: reclaim_to.induct)
  case (1 target c)
  show ?case
  proof (cases "resident_bytes c > target")
    case False
    then show ?thesis using "1.prems" by (subst (asm) reclaim_to.simps) auto
  next
    case True
    obtain r c1 where e: "evict_one c = (r, c1)" by fastforce
    note ev = evict_rounds_ok[OF "1.prems"(1) e[unfolded evict_one_def]]
    show ?thesis
    proof (cases r)
      case None
      then have "out = []" "c' = c1" using "1.prems"(2) True e by (subst (asm) reclaim_to.simps, simp)+
      then show ?thesis using ev e None "1.prems"(1) by force
    next
      case (Some k)
      obtain out1 c2 where r: "reclaim_to target c1 = (out1, c2)" by fastforce
      have "out = k # out1" "c' = c2" using "1.prems"(2) True e Some r by (subst (asm) reclaim_to.simps, simp)+
      then show ?thesis using "1.IH"[OF True e[symmetric] Some ev(1) r] ev(2) Some by auto
    qed
  qed
qed

lemma reach_ok: "s3_reach c \<Longrightarrow> s3_ok c"
proof (induction rule: s3_reach.induct)
  case (new capacity)
  then show ?case by (simp add: s3_ok_def s3_new_def residents_def)
next
  case (resize c b)
  then show ?case by (simp add: s3_ok_def set_capacity_bytes_def residents_def)
next
  case (reclaim c target)
  then show ?case using reclaim_ok[of c target] by (metis prod.collapse)
qed (simp_all add: on_access_ok on_admit_ok forget_ok)

text \<open>
  A reachable cache with one resident key, read three times since it came back from the ghost queue:
  the eviction step gives up although the key could be evicted, and a reclaim returns nothing.
\<close>

lemma stuck_reach: "s3_reach s3_stuck"
proof -
  have "s3_small_bytes (snd (reclaim_to 0 (on_admit [1] 5 (s3_new 100)))) = 0 \<and>
    s3_main_bytes (snd (reclaim_to 0 (on_admit [1] 5 (s3_new 100)))) = 0" by code_simp
  then show ?thesis
    unfolding s3_stuck_def by (intro s3_reach.intros) (simp_all add: s3_new_def)
qed

lemma stuck_gives_up: "residents s3_stuck = {[1]} \<and> evict_one s3_stuck = (None, snd (evict_one s3_stuck)) \<and> fst (reclaim_to 0 s3_stuck) = []"
  by code_simp

section \<open>Properties\<close>

text \<open>
  C12. However a cache is used, its queues, maps and byte counters stay consistent: every resident
  key is in exactly one queue with a size and a frequency, the byte counters are the sums of the
  sizes, and no remembered key is resident.
\<close>

theorem s3_always_consistent: "s3_reach c \<Longrightarrow> s3_ok c"
  by (rule reach_ok)

theorem s3_always_consistent_witness: "s3_ok (on_admit [1] 5 (s3_new 100))"
  by (rule s3_always_consistent, intro s3_reach.intros) (simp add: s3_new_def)

text \<open>
  C32. A reclaim returns distinct resident keys and takes exactly those out of the cache; it stops at
  the target or when an eviction step gave up.
\<close>

theorem reclaim_takes_what_it_returns:
  assumes "s3_reach c" "reclaim_to target c = (out, c')"
  shows "distinct out \<and> set out \<subseteq> residents c \<and> residents c' = residents c - set out \<and> s3_ok c' \<and>
    (resident_bytes c' \<le> target \<or> (\<exists>c1. s3_ok c1 \<and> evict_one c1 = (None, c')))"
  using reclaim_ok[OF reach_ok[OF assms(1)] assms(2)] by (metis prod.collapse)

theorem reclaim_takes_what_it_returns_witness:
  "residents (snd (reclaim_to 4 (on_admit [2] 3 (on_admit [1] 5 (s3_new 100))))) = {[2]}"
proof -
  let ?c = "on_admit [2] 3 (on_admit [1] 5 (s3_new 100))"
  have "s3_reach ?c" by (intro s3_reach.intros) (simp_all add: s3_new_def on_admit_def s3_contains_def Let_def)
  moreover have "reclaim_to 4 ?c = ([[1]], snd (reclaim_to 4 ?c))" by code_simp
  ultimately have "residents (snd (reclaim_to 4 ?c)) = residents ?c - set [[1]]"
    using reclaim_takes_what_it_returns by blast
  moreover have "residents ?c = {[1], [2]}" by (simp add: s3_new_def on_admit_def s3_contains_def Let_def residents_def)
  ultimately show ?thesis by auto
qed

text \<open>
  C31. An eviction step may give up although keys are resident, but never three times in a row: on a
  cache that is not empty, one of any three successive eviction steps evicts a key.
\<close>

theorem third_eviction_succeeds:
  assumes "s3_reach c" "residents c \<noteq> {}" "evict_one c = (r1, c1)" "evict_one c1 = (r2, c2)" "evict_one c2 = (r3, c3)"
  shows "\<exists>k \<in> residents c. k \<in> {x. Some x = r1 \<or> Some x = r2 \<or> Some x = r3}"
proof -
  have ok: "s3_ok c" using assms(1) by (rule reach_ok)
  note e1 = evict_rounds_ok[OF ok assms(3)[unfolded evict_one_def]]
  note e2 = evict_rounds_ok[OF e1(1) assms(4)[unfolded evict_one_def]]
  note e3 = evict_rounds_ok[OF e2(1) assms(5)[unfolded evict_one_def]]
  show ?thesis
  proof (cases "r1 = None \<and> r2 = None \<and> r3 = None")
    case True
    then have "reprieves c = reprieves c3 + 3 * (length (s3_small c) + length (s3_main c) + 1)"
      using e1(2) e2(2) e3(2) assms(2) by simp
    then show ?thesis using reprieves_bound[OF ok] by simp
  next
    case False
    then show ?thesis using e1(2) e2(2) e3(2) by (cases r1; cases r2; cases r3) auto
  qed
qed

theorem third_eviction_succeeds_witness:
  "fst (evict_one s3_stuck) = None \<and> fst (evict_one (snd (evict_one s3_stuck))) = Some [1]"
proof -
  have a: "fst (evict_one s3_stuck) = None" "fst (evict_one (snd (evict_one (snd (evict_one s3_stuck))))) = None"
    "residents s3_stuck = {[1]}" by code_simp+
  show ?thesis
    using third_eviction_succeeds[OF stuck_reach _ prod.collapse[symmetric] prod.collapse[symmetric] prod.collapse[symmetric]] a
    by auto
qed

end
