(* ===== verification/Flint_Balance.thy ===== *)
theory Flint_Balance
  imports Flint_Prelude "HOL-Library.Product_Lexorder" "HOL-Library.Multiset"
begin

text \<open>
  The unit selection and the balance policies of \<open>crates/flint-balance/src/lib.rs\<close>. A unit is a
  namespace and a slot; strings are byte lists, ordered as Rust orders them. The planner of moves
  works on floating-point means and is not modelled.
\<close>

section \<open>Units and policies\<close>

type_synonym unit_stat = "(bytes \<times> u16) \<times> u64"

text \<open>The order of the candidates: largest first, then by namespace and slot.\<close>

definition unit_before :: "unit_stat \<Rightarrow> unit_stat \<Rightarrow> bool" where
  "unit_before a b \<longleftrightarrow> snd a > snd b \<or> snd a = snd b \<and> fst a \<le> fst b"

text \<open>The standard library's stable sort, by insertion.\<close>

fun insert_unit :: "unit_stat \<Rightarrow> unit_stat list \<Rightarrow> unit_stat list" where
  "insert_unit x [] = [x]"
| "insert_unit x (y # ys) = (if unit_before x y then x # y # ys else y # insert_unit x ys)"

definition sort_units :: "unit_stat list \<Rightarrow> unit_stat list" where
  "sort_units stats = foldr insert_unit stats []"

fun pick_loop :: "u64 \<Rightarrow> nat \<Rightarrow> unit_stat list \<Rightarrow> (bytes \<times> u16) list \<Rightarrow> u64 \<Rightarrow> (bytes \<times> u16) list" where
  "pick_loop amount cap [] picked tot = picked"
| "pick_loop amount cap ((u, n) # rest) picked tot =
     (if length picked \<ge> cap \<or> tot \<ge> amount \<and> picked \<noteq> [] then picked
      else pick_loop amount cap rest (picked @ [u]) (tot + n))"

definition select_units :: "unit_stat list \<Rightarrow> u64 \<Rightarrow> nat \<Rightarrow> (bytes \<times> u16) list" where
  "select_units stats amount cap =
     (let ranked = sort_units (filter (\<lambda>(_, n). n > 0) stats);
          picked = pick_loop amount cap ranked [] 0
      in if amount = 0 then [] else picked)"

definition size_pair_load :: "unit_stat list \<Rightarrow> u64" where
  "size_pair_load per_slot = foldl (\<lambda>acc (_, n). acc + n) 0 per_slot"

section \<open>Lemmas\<close>

lemma unit_before_trans: "unit_before a b \<Longrightarrow> unit_before b c \<Longrightarrow> unit_before a c"
  by (auto simp: unit_before_def)

lemma unit_before_total: "unit_before a b \<or> unit_before b a"
  by (auto simp: unit_before_def)

lemma unit_before_antisym: "unit_before a b \<Longrightarrow> unit_before b a \<Longrightarrow> a = b"
  by (auto simp: unit_before_def prod_eq_iff)

lemma mset_insert_unit [simp]: "mset (insert_unit x ys) = add_mset x (mset ys)"
  by (induction ys) auto

lemma mset_sort_units [simp]: "mset (sort_units xs) = mset xs"
  by (induction xs) (simp_all add: sort_units_def)

lemma set_sort_units [simp]: "set (sort_units xs) = set xs"
  by (rule mset_eq_setD) simp

lemma sorted_insert_unit: "sorted_wrt unit_before ys \<Longrightarrow> sorted_wrt unit_before (insert_unit x ys)"
proof (induction ys)
  case (Cons y ys)
  have "set (insert_unit x ys) = insert x (set ys)"
    using mset_insert_unit[of x ys] by (metis set_mset_add_mset_insert set_mset_mset)
  then show ?case
    using Cons unit_before_total[of x y] by (auto intro: unit_before_trans)
qed simp

lemma sorted_sort_units: "sorted_wrt unit_before (sort_units xs)"
  by (induction xs) (simp_all add: sort_units_def sorted_insert_unit)

lemma sorted_unique:
  "sorted_wrt unit_before xs \<Longrightarrow> sorted_wrt unit_before ys \<Longrightarrow> mset xs = mset ys \<Longrightarrow> xs = ys"
proof (induction xs arbitrary: ys)
  case (Cons x xs)
  then obtain y zs where ys: "ys = y # zs" by (cases ys) auto
  have "x \<in> set ys" "y \<in> set (x # xs)" using Cons.prems(3) ys by (metis list.set_intros(1) set_mset_mset)+
  then have "x = y" using Cons.prems(1,2) ys unit_before_antisym[of x y] by auto
  then show ?case using Cons ys by simp
qed simp

lemma pick_loop_prefix:
  "\<exists>k \<le> length xs. pick_loop amount cap xs picked tot = picked @ map fst (take k xs)"
proof (induction amount cap xs picked tot rule: pick_loop.induct)
  case (2 amount cap u n rest picked tot)
  show ?case
  proof (cases "length picked \<ge> cap \<or> tot \<ge> amount \<and> picked \<noteq> []")
    case True
    then show ?thesis by (intro exI[of _ 0]) simp
  next
    case False
    from "2.IH"[OF False] obtain k where "k \<le> length rest"
      "pick_loop amount cap rest (picked @ [u]) (tot + n) = (picked @ [u]) @ map fst (take k rest)" by blast
    then show ?thesis using False by (intro exI[of _ "Suc k"]) auto
  qed
qed simp

text \<open>The picked units are a prefix whose length is bounded and whose sum without the last stays below the amount.\<close>

lemma pick_loop_bounds:
  assumes "unat tot + sum_list (map (\<lambda>x. unat (snd x)) xs) < 2 ^ 64" "length picked \<le> cap"
    and "picked = [] \<longleftrightarrow> tot = 0" "\<forall>x \<in> set xs. snd x > 0" "amount > 0"
  shows "\<exists>k \<le> length xs. pick_loop amount cap xs picked tot = picked @ map fst (take k xs) \<and>
    length picked + k \<le> cap \<and>
    (k < length xs \<longrightarrow> length picked + k = cap \<or> unat tot + sum_list (map (\<lambda>x. unat (snd x)) (take k xs)) \<ge> unat amount) \<and>
    (k > 0 \<longrightarrow> unat tot + sum_list (map (\<lambda>x. unat (snd x)) (take (k - 1) xs)) < unat amount)"
  using assms
proof (induction amount cap xs picked tot rule: pick_loop.induct)
  case (1 amount cap picked tot)
  then show ?case by simp
next
  case (2 amount cap u n rest picked tot)
  show ?case
  proof (cases "length picked \<ge> cap \<or> tot \<ge> amount \<and> picked \<noteq> []")
    case True
    then show ?thesis using "2.prems"(2) by (intro exI[of _ 0]) (auto simp: word_le_nat_alt)
  next
    case False
    have n: "unat (tot + n) = unat tot + unat n" using "2.prems"(1) by (simp add: unat_word_ariths(1))
    have "tot + n \<noteq> 0" using n "2.prems"(4) by (auto simp: unat_eq_0[symmetric] word_less_nat_alt)
    then have "unat (tot + n) + sum_list (map (\<lambda>x. unat (snd x)) rest) < 2 ^ 64" "length (picked @ [u]) \<le> cap"
      "picked @ [u] = [] \<longleftrightarrow> tot + n = 0" "\<forall>x \<in> set rest. snd x > 0"
      using "2.prems" False n by simp_all
    from "2.IH"[OF False this "2.prems"(5)] obtain k where k: "k \<le> length rest"
      "pick_loop amount cap rest (picked @ [u]) (tot + n) = (picked @ [u]) @ map fst (take k rest)"
      "length (picked @ [u]) + k \<le> cap"
      "k < length rest \<longrightarrow> length (picked @ [u]) + k = cap \<or> unat (tot + n) + sum_list (map (\<lambda>x. unat (snd x)) (take k rest)) \<ge> unat amount"
      "k > 0 \<longrightarrow> unat (tot + n) + sum_list (map (\<lambda>x. unat (snd x)) (take (k - 1) rest)) < unat amount"
      by blast
    have lt: "unat tot < unat amount"
      using False "2.prems"(3,5) by (auto simp: word_le_nat_alt word_less_nat_alt)
    show ?thesis
      using False k n lt
      by (intro exI[of _ "Suc k"]) (cases k; auto)
  qed
qed

section \<open>Properties\<close>

text \<open>
  The choice of units does not depend on the order in which their loads were observed: any two
  orders of the same statistics give the same units in the same order.
\<close>

theorem select_units_order_independent:
  assumes "mset stats = mset stats'"
  shows "select_units stats amount cap = select_units stats' amount cap"
proof -
  have "sort_units (filter (\<lambda>(_, n). n > 0) stats) = sort_units (filter (\<lambda>(_, n). n > 0) stats')"
    by (rule sorted_unique) (simp_all add: sorted_sort_units assms mset_filter)
  then show ?thesis by (simp add: select_units_def)
qed

theorem select_units_order_independent_witness:
  "select_units [(([1], 2), 5), (([1], 1), 9)] 6 3 = select_units [(([1], 1), 9), (([1], 2), 5)] 6 3"
  by (rule select_units_order_independent) simp

text \<open>
  C38. The units picked are the first of the units with a load in the order largest load first, then by
  namespace and slot: no unit left out comes before one picked. They are at most as many as the cap
  and stop as soon as they reach the amount: without the last of them their load is below the amount,
  and when a unit is left out the cap or the amount is reached. A unit is picked whenever there is a load to
  move and a unit that is not empty, so a plan cannot stall; nothing is picked for an amount or a cap of zero.
\<close>

theorem select_units_largest_first:
  assumes "sum_list (map (\<lambda>x. unat (snd x)) stats) < 2 ^ 64"
  shows "if amount = 0 \<or> cap = 0 then select_units stats amount cap = []
    else \<exists>picked rest. select_units stats amount cap = map fst picked \<and>
      mset (picked @ rest) = filter_mset (\<lambda>x. snd x > 0) (mset stats) \<and>
      sorted_wrt (\<lambda>a b. snd a > snd b \<or> snd a = snd b \<and> (fst (fst a) < fst (fst b) \<or>
        fst (fst a) = fst (fst b) \<and> snd (fst a) \<le> snd (fst b))) (picked @ rest) \<and>
      length picked \<le> cap \<and>
      (picked = [] \<longleftrightarrow> (\<forall>x \<in> set stats. snd x = 0)) \<and>
      (picked \<noteq> [] \<longrightarrow> (\<Sum>x\<leftarrow>butlast picked. unat (snd x)) < unat amount) \<and>
      (rest \<noteq> [] \<longrightarrow> length picked = cap \<or> unat amount \<le> (\<Sum>x\<leftarrow>picked. unat (snd x)))"
proof (cases "amount = 0 \<or> cap = 0")
  case True
  have "pick_loop amount 0 xs [] 0 = []" for xs by (cases xs) auto
  then show ?thesis using True by (auto simp: select_units_def Let_def)
next
  case False
  define ranked where "ranked = sort_units (filter (\<lambda>(_, n). n > 0) stats)"
  have m: "mset ranked = filter_mset (\<lambda>x. snd x > 0) (mset stats)"
    by (simp add: ranked_def case_prod_beta mset_filter)
  have set: "set ranked = {x \<in> set stats. snd x > 0}"
    by (auto simp: ranked_def)
  have "sum_mset (image_mset (\<lambda>x. unat (snd x)) (mset ranked)) =
      sum_mset (image_mset (\<lambda>x. unat (snd x)) (mset (filter (\<lambda>(_, n). n > 0) stats)))" by (simp add: ranked_def)
  then have "sum_list (map (\<lambda>x. unat (snd x)) ranked) = sum_list (map (\<lambda>x. unat (snd x)) (filter (\<lambda>(_, n). n > 0) stats))"
    by (simp only: mset_map[symmetric] sum_mset_sum_list)
  also have "\<dots> \<le> sum_list (map (\<lambda>x. unat (snd x)) stats)" by (rule sum_list_filter_le_nat)
  finally have "sum_list (map (\<lambda>x. unat (snd x)) ranked) \<le> sum_list (map (\<lambda>x. unat (snd x)) stats)" .
  then have fits: "unat (0::u64) + sum_list (map (\<lambda>x. unat (snd x)) ranked) < 2 ^ 64" using assms by simp
  obtain k where k: "k \<le> length ranked" "pick_loop amount cap ranked [] 0 = map fst (take k ranked)" "k \<le> cap"
    "k < length ranked \<longrightarrow> k = cap \<or> sum_list (map (\<lambda>x. unat (snd x)) (take k ranked)) \<ge> unat amount"
    "k > 0 \<longrightarrow> sum_list (map (\<lambda>x. unat (snd x)) (take (k - 1) ranked)) < unat amount"
    using pick_loop_bounds[OF fits, of "[]" cap amount] False set by (auto simp: word_gt_0)
  have "k = 0 \<longleftrightarrow> ranked = []"
    using k(1,4) False by (cases "k = 0") (auto simp: unat_eq_0)
  moreover have "ranked = [] \<longleftrightarrow> (\<forall>x \<in> set stats. snd x = 0)"
    unfolding set_empty[symmetric] set by (auto simp: word_gt_0)
  ultimately have empty: "take k ranked = [] \<longleftrightarrow> (\<forall>x \<in> set stats. snd x = 0)" by auto
  have last: "butlast (take k ranked) = take (k - 1) ranked" using k(1) by (simp add: butlast_take)
  have order: "sorted_wrt (\<lambda>a b. snd a > snd b \<or> snd a = snd b \<and> (fst (fst a) < fst (fst b) \<or>
      fst (fst a) = fst (fst b) \<and> snd (fst a) \<le> snd (fst b))) ranked"
    unfolding ranked_def by (rule sorted_wrt_mono_rel[OF _ sorted_sort_units]) (auto simp: unit_before_def less_eq_prod_def)
  have "select_units stats amount cap = map fst (take k ranked)"
    using k(2) False by (simp add: select_units_def ranked_def Let_def)
  then show ?thesis
    unfolding if_not_P[OF False] using k(1,3-5) m order empty last
    by (intro exI[of _ "take k ranked"] exI[of _ "drop k ranked"]) (simp only: append_take_drop_id, auto)
qed

theorem select_units_largest_first_witness:
  "select_units [(([1], 2), 5), (([1], 1), 9)] 6 3 = [([1], 1)]"
proof -
  let ?s = "[(([1], 2), 5), (([1], 1), 9)] :: unit_stat list"
  obtain picked rest where p: "select_units ?s 6 3 = map fst picked" "mset (picked @ rest) = mset ?s"
    "sorted_wrt (\<lambda>a b. snd a > snd b \<or> snd a = snd b \<and> (fst (fst a) < fst (fst b) \<or>
        fst (fst a) = fst (fst b) \<and> snd (fst a) \<le> snd (fst b))) (picked @ rest)"
    "picked \<noteq> []" "(\<Sum>x\<leftarrow>butlast picked. unat (snd x)) < 6"
    using select_units_largest_first[of ?s 6 3] by (auto simp: add_mset_commute)
  have "length (picked @ rest) = length ?s" using p(2) mset_eq_length by blast
  then obtain a b where ab: "picked @ rest = [a, b]" by (cases "picked @ rest" rule: remdups_adj.cases) auto
  then have "[a, b] = [(([1], 1), 9), (([1], 2), 5)]" using p(2,3) by (auto simp: add_eq_conv_ex)
  then show ?thesis using p(1,4,5) ab by (auto simp: append_eq_Cons_conv)
qed

end
