(* ===== verification/Flint_Sched.thy ===== *)
theory Flint_Sched
  imports Flint_Prelude
begin

text \<open>
  The job scheduler of \<open>crates/flint-sched/src/lib.rs\<close>. Durations are nanoseconds with the
  ceiling of \<open>std::time::Duration\<close>, instants are points of the monotonic clock. What a job
  does is outside: a run is its outcome, the instant it finished and the wall clock then, taken from
  the sequence of runs the environment provides.
\<close>

section \<open>Jobs and the scheduler\<close>

definition DURATION_MAX :: nat where
  "DURATION_MAX = (2 ^ 64 - 1) * 1000000000 + 999999999"

definition duration_saturating_mul :: "nat \<Rightarrow> nat \<Rightarrow> nat" where
  "duration_saturating_mul d k = min (d * k) DURATION_MAX"

record JobStats =
  js_runs :: u64
  js_failures :: u64
  js_consecutive_failures :: u32
  js_last :: "(bytes + bytes) option"
  js_last_ok_wall_ms :: "u64 option"

record Slot =
  sl_every :: nat
  sl_retry_after :: nat
  sl_next :: nat
  sl_stats :: JobStats

record run_result =
  rr_outcome :: "bytes + bytes"
  rr_done :: nat
  rr_wall :: u64

definition stats_default :: JobStats where
  "stats_default = \<lparr>js_runs = 0, js_failures = 0, js_consecutive_failures = 0, js_last = None, js_last_ok_wall_ms = None\<rparr>"

definition sched_add :: "nat \<Rightarrow> nat \<Rightarrow> nat \<Rightarrow> nat \<Rightarrow> Slot list \<Rightarrow> Slot list" where
  "sched_add every retry_after now initial_delay slots =
     slots @ [\<lparr>sl_every = every, sl_retry_after = retry_after, sl_next = now + initial_delay, sl_stats = stats_default\<rparr>]"

definition startup_jitter :: "u64 \<Rightarrow> nat \<Rightarrow> nat" where
  "startup_jitter h mx =
     (if mx = 0 then 0 else unat (h mod word_of_nat (max (mx div 1000000) 1)) * 1000000)"

definition saturating_add_u32 :: "u32 \<Rightarrow> u32 \<Rightarrow> u32" where
  "saturating_add_u32 a b = (if unat a + unat b < 2 ^ 32 then a + b else - 1)"

definition backoff :: "Slot \<Rightarrow> u32 \<Rightarrow> nat" where
  "backoff slot fails =
     min (duration_saturating_mul (sl_retry_after slot) (unat (push_bit (min (unat (fails - 1)) 16) 1 :: u32)))
         (sl_every slot)"

text \<open>What a finished run does to its slot.\<close>

definition finish_run :: "run_result \<Rightarrow> Slot \<Rightarrow> Slot" where
  "finish_run r slot =
     (let st = (sl_stats slot)\<lparr>js_runs := js_runs (sl_stats slot) + 1\<rparr>
      in case rr_outcome r of
           Inr msg \<Rightarrow>
             slot\<lparr>sl_stats := st\<lparr>js_consecutive_failures := 0, js_last_ok_wall_ms := Some (rr_wall r), js_last := Some (Inr msg)\<rparr>,
                  sl_next := rr_done r + sl_every slot\<rparr>
         | Inl err \<Rightarrow>
             (let fails = saturating_add_u32 (js_consecutive_failures st) 1
              in slot\<lparr>sl_stats := st\<lparr>js_failures := js_failures st + 1, js_consecutive_failures := fails, js_last := Some (Inl err)\<rparr>,
                      sl_next := rr_done r + backoff slot fails\<rparr>))"

text \<open>One pass over the slots, due jobs one after another, each taking the next run of the environment.\<close>

fun tick_loop :: "nat \<Rightarrow> Slot list \<Rightarrow> (nat \<Rightarrow> run_result) \<Rightarrow> nat \<Rightarrow> Slot list \<times> nat" where
  "tick_loop now [] env n = ([], n)"
| "tick_loop now (slot # slots) env n =
     (if sl_next slot > now then
        (let (rest, n) = tick_loop now slots env n in (slot # rest, n))
      else
        (let (rest, n') = tick_loop now slots env (n + 1) in (finish_run (env n) slot # rest, n')))"

definition tick :: "nat \<Rightarrow> Slot list \<Rightarrow> (nat \<Rightarrow> run_result) \<Rightarrow> nat \<Rightarrow> nat option \<times> Slot list \<times> nat" where
  "tick now slots env n =
     (let (slots, n) = tick_loop now slots env n
      in (if slots = [] then None else Some (Min (set (map sl_next slots))), slots, n))"

section \<open>Lemmas\<close>

lemma backoff_value:
  assumes "unat fails > 0"
  shows "backoff slot fails = min (sl_every slot) (min (sl_retry_after slot * 2 ^ min (unat fails - 1) 16) DURATION_MAX)"
proof -
  have f: "unat (fails - 1) = unat fails - 1" using unat_sub[of 1 fails] assms by (simp add: word_le_nat_alt)
  have "unat (push_bit k 1 :: u32) = 2 ^ k" if "k \<le> 16" for k
  proof -
    have "(2::nat) ^ k < 2 ^ 32" using that by (intro power_strict_increasing) simp_all
    then have "unat (word_of_nat (2 ^ k) :: u32) = 2 ^ k" unfolding unat_of_nat by simp
    then show ?thesis by (simp add: push_bit_eq_mult)
  qed
  then show ?thesis by (simp add: backoff_def duration_saturating_mul_def f min.commute)
qed

lemma backoff_le: "backoff slot fails \<le> sl_every slot"
  by (simp add: backoff_def)

lemma unat_saturating_add_u32: "unat (saturating_add_u32 a 1) = min (unat a + 1) (2 ^ 32 - 1)"
proof (cases "unat a + 1 < 2 ^ 32")
  case True
  then show ?thesis by (simp add: saturating_add_u32_def unat_word_ariths(1))
next
  case False
  then have "unat a + 1 = 2 ^ 32" using unsigned_less[of a, where 'a = nat] by simp
  moreover have "unat (- 1 :: u32) = 2 ^ 32 - 1" by (simp add: unat_eq_nat_uint uint_word_ariths)
  ultimately show ?thesis using False by (simp add: saturating_add_u32_def)
qed

lemma tick_loop_nth:
  assumes "tick_loop now slots env n = (slots', n')"
  shows "length slots' = length slots" and "n' = n + length (filter (\<lambda>s. sl_next s \<le> now) slots)"
    and "i < length slots \<Longrightarrow> slots' ! i =
      (if sl_next (slots ! i) > now then slots ! i
       else finish_run (env (n + length (filter (\<lambda>s. sl_next s \<le> now) (take i slots)))) (slots ! i))"
proof -
  have "length slots' = length slots \<and> n' = n + length (filter (\<lambda>s. sl_next s \<le> now) slots) \<and>
    (\<forall>i < length slots. slots' ! i = (if sl_next (slots ! i) > now then slots ! i
       else finish_run (env (n + length (filter (\<lambda>s. sl_next s \<le> now) (take i slots)))) (slots ! i)))"
    using assms
  proof (induction now slots env n arbitrary: slots' n' rule: tick_loop.induct)
    case (2 now slot slots env n)
    show ?case
    proof (cases "sl_next slot > now")
      case True
      then obtain rest where r: "tick_loop now slots env n = (rest, n')" "slots' = slot # rest"
        using "2.prems" by (auto split: prod.splits)
      show ?thesis using "2.IH"(1)[OF True r(1)] r(2) True by (auto simp: nth_Cons split: nat.split)
    next
      case False
      then obtain rest where r: "tick_loop now slots env (n + 1) = (rest, n')" "slots' = finish_run (env n) slot # rest"
        using "2.prems" by (auto split: prod.splits)
      show ?thesis using "2.IH"(2)[OF False r(1)] r(2) False by (auto simp: nth_Cons split: nat.split)
    qed
  qed simp
  then show "length slots' = length slots" "n' = n + length (filter (\<lambda>s. sl_next s \<le> now) slots)"
    "i < length slots \<Longrightarrow> slots' ! i = (if sl_next (slots ! i) > now then slots ! i
       else finish_run (env (n + length (filter (\<lambda>s. sl_next s \<le> now) (take i slots)))) (slots ! i))"
    by simp_all
qed

lemma finish_run_next:
  "rr_done r \<le> sl_next (finish_run r slot)" "sl_next (finish_run r slot) \<le> rr_done r + sl_every slot"
  "sl_every slot > 0 \<Longrightarrow> sl_retry_after slot > 0 \<Longrightarrow> rr_done r < sl_next (finish_run r slot)"
proof -
  let ?f = "saturating_add_u32 (js_consecutive_failures (sl_stats slot)) 1"
  have pos: "backoff slot ?f > 0" if "sl_every slot > 0" "sl_retry_after slot > 0"
    using that backoff_value[of ?f slot] by (simp add: unat_saturating_add_u32 DURATION_MAX_def)
  show "rr_done r \<le> sl_next (finish_run r slot)" "sl_next (finish_run r slot) \<le> rr_done r + sl_every slot"
    "sl_every slot > 0 \<Longrightarrow> sl_retry_after slot > 0 \<Longrightarrow> rr_done r < sl_next (finish_run r slot)"
    using backoff_le[of slot ?f] pos by (auto simp: finish_run_def Let_def split: sum.split)
qed

section \<open>Properties\<close>

text \<open>
  C35. A tick runs every due job once and no other, and schedules it from its completion: on a clock
  that does not go back, no job is due after the tick that was due before it, none is put off by more
  than its interval, and the answer is the earliest next run.
\<close>

theorem tick_runs_due_once:
  assumes "tick now slots env n = (next, slots', n')"
    and "\<And>k. now \<le> rr_done (env k)" "\<And>s. s \<in> set slots \<Longrightarrow> sl_every s > 0 \<and> sl_retry_after s > 0"
  shows "length slots' = length slots \<and> n' - n = length (filter (\<lambda>s. sl_next s \<le> now) slots) \<and>
    (\<forall>s \<in> set slots'. now < sl_next s) \<and>
    (\<forall>i < length slots. if sl_next (slots ! i) > now then slots' ! i = slots ! i
       else \<exists>r \<in> range env. slots' ! i = finish_run r (slots ! i) \<and>
         rr_done r < sl_next (slots' ! i) \<and> sl_next (slots' ! i) \<le> rr_done r + sl_every (slots ! i)) \<and>
    (case next of None \<Rightarrow> slots = [] | Some t \<Rightarrow> t \<in> sl_next ` set slots' \<and> (\<forall>s \<in> set slots'. t \<le> sl_next s))"
proof -
  obtain l: "tick_loop now slots env n = (slots', n')" and
    nx: "next = (if slots' = [] then None else Some (Min (set (map sl_next slots'))))"
    using assms(1) by (auto simp: tick_def Let_def split: prod.splits)
  note nth = tick_loop_nth[OF l]
  have each: "if sl_next (slots ! i) > now then slots' ! i = slots ! i
       else \<exists>r \<in> range env. slots' ! i = finish_run r (slots ! i) \<and>
         rr_done r < sl_next (slots' ! i) \<and> sl_next (slots' ! i) \<le> rr_done r + sl_every (slots ! i)" if "i < length slots" for i
    using nth(3)[OF that] assms(3)[of "slots ! i"] that finish_run_next by auto
  have due: "now < sl_next s" if s: "s \<in> set slots'" for s
  proof -
    obtain i where i: "i < length slots" "s = slots' ! i" using s nth(1) by (auto simp: in_set_conv_nth)
    show ?thesis
    proof (cases "sl_next (slots ! i) > now")
      case True
      then show ?thesis using each[OF i(1)] i(2) by simp
    next
      case False
      then obtain k where "rr_done (env k) < sl_next s" using each[OF i(1)] i(2) by auto
      then show ?thesis using assms(2)[of k] by simp
    qed
  qed
  have "case next of None \<Rightarrow> slots = [] | Some t \<Rightarrow> t \<in> sl_next ` set slots' \<and> (\<forall>s \<in> set slots'. t \<le> sl_next s)"
    using nx nth(1) Min_in[of "sl_next ` set slots'"] by auto
  moreover have "n' - n = length (filter (\<lambda>s. sl_next s \<le> now) slots)" using nth(2) by simp
  ultimately show ?thesis using each due nth(1) by blast
qed

theorem tick_runs_due_once_witness:
  "\<exists>slots'. tick 10 (sched_add 100 5 0 3 []) (\<lambda>_. \<lparr>rr_outcome = Inl [], rr_done = 20, rr_wall = 7\<rparr>) 0 = (Some 25, slots', 1) \<and>
     (\<forall>s \<in> set slots'. 10 < sl_next s)"
proof -
  let ?env = "\<lambda>_ :: nat. \<lparr>rr_outcome = Inl [], rr_done = 20, rr_wall = 7\<rparr>" and ?s = "sched_add 100 5 0 3 []"
  have eq: "tick 10 ?s ?env 0 = (Some 25, [finish_run (?env 0) (hd ?s)], 1)"
    by (simp add: tick_def sched_add_def finish_run_def backoff_def stats_default_def Let_def saturating_add_u32_def
        duration_saturating_mul_def DURATION_MAX_def)
  have "\<forall>s \<in> set [finish_run (?env 0) (hd ?s)]. 10 < sl_next s"
    using tick_runs_due_once[OF eq] by (simp add: sched_add_def)
  with eq show ?thesis by blast
qed

text \<open>
  The retry delay of a job after its k-th failure in a row is its first delay doubled k - 1
  times, at most sixteen, and never more than its interval; a success resets the count.
\<close>

theorem retry_delay_bounds:
  assumes "unat (js_consecutive_failures (sl_stats slot)) + 1 < 2 ^ 32"
  shows "case rr_outcome r of
      Inl err \<Rightarrow> sl_next (finish_run r slot) = rr_done r + min (sl_every slot)
          (min (sl_retry_after slot * 2 ^ min (unat (js_consecutive_failures (sl_stats slot))) 16) DURATION_MAX) \<and>
        unat (js_consecutive_failures (sl_stats (finish_run r slot))) = unat (js_consecutive_failures (sl_stats slot)) + 1
    | Inr msg \<Rightarrow> sl_next (finish_run r slot) = rr_done r + sl_every slot \<and>
        js_consecutive_failures (sl_stats (finish_run r slot)) = 0"
  using assms backoff_value[of "saturating_add_u32 (js_consecutive_failures (sl_stats slot)) 1" slot]
  by (simp add: finish_run_def Let_def unat_saturating_add_u32 split: sum.split)

theorem retry_delay_bounds_witness:
  "sl_next (finish_run \<lparr>rr_outcome = Inl [], rr_done = 20, rr_wall = 7\<rparr>
     (hd (sched_add 100 5 0 3 []))) = 25"
  using retry_delay_bounds[of "hd (sched_add 100 5 0 3 [])" "\<lparr>rr_outcome = Inl [], rr_done = 20, rr_wall = 7\<rparr>"]
  by (simp add: sched_add_def stats_default_def DURATION_MAX_def)

end
