(* ===== verification/Flint_Admission.thy ===== *)
theory Flint_Admission
  imports Flint_Prelude
begin

text \<open>
  Admission of collection reads: \<open>crates/flint-storage/src/admission.rs\<close>. The atomics are
  fields of a record; what the node's memory sampler and the clock answer is an argument.

  A single \<open>admit\<close> is a function. Because it loads the counter and adds to it in two atomic
  steps, concurrent reads are a step relation on the shared record and one local state per thread:
  load, decide and add, release. The steps are restricted to counts that fit the 64-bit counter. The
  lemmas show that the counter is always the sum of what is held,
  and that the check is exact for reads that do not overlap and not for reads that do.
\<close>

section \<open>Decisions\<close>

definition READ_PEAK_MULTIPLIER_TENTHS :: nat where [flint_eval]: "READ_PEAK_MULTIPLIER_TENTHS = 35"
definition SAMPLE_TTL_MS :: u64 where [flint_eval]: "SAMPLE_TTL_MS = 250"

definition pack :: "u32 \<Rightarrow> u32 \<Rightarrow> u64" where
  "pack avail_mib taken_ms = or (push_bit 32 (ucast avail_mib)) (ucast taken_ms)"

definition unpack :: "u64 \<Rightarrow> u32 \<times> u32" where
  "unpack v = (ucast (drop_bit 32 v), ucast v)"

datatype Mode = Enforce | Observe

definition mode_parse :: "string \<Rightarrow> Mode option" where
  "mode_parse s = (if s = ''enforce'' then Some Enforce else if s = ''observe'' then Some Observe else None)"

definition mode_as_str :: "Mode \<Rightarrow> string" where
  "mode_as_str m = (case m of Enforce \<Rightarrow> ''enforce'' | Observe \<Rightarrow> ''observe'')"

text \<open>An outcome carries its estimate, and an outcome over budget what it saw: in flight, budget, available.\<close>

datatype Admit =
  Disabled | Admitted u64 | AdmittedUnmeasured u64 | WouldRefuse u64 u64 u64 u64 | Refused u64 u64 u64 u64

record ReadAdmission =
  ra_pct :: u8
  ra_mode :: Mode
  ra_in_flight :: u64
  ra_sample :: u64
  ra_refused :: u64
  ra_would_refuse :: u64
  ra_unmeasured :: u64
  ra_avail_override :: "u64 option"

definition ra_new :: "u8 \<Rightarrow> Mode \<Rightarrow> ReadAdmission" where
  "ra_new pct mode = \<lparr>ra_pct = min pct 100, ra_mode = mode, ra_in_flight = 0, ra_sample = 0, ra_refused = 0,
     ra_would_refuse = 0, ra_unmeasured = 0, ra_avail_override = None\<rparr>"

definition with_fixed_avail :: "u8 \<Rightarrow> Mode \<Rightarrow> u64 \<Rightarrow> ReadAdmission" where
  "with_fixed_avail pct mode avail = (ra_new pct mode)\<lparr>ra_avail_override := Some avail\<rparr>"

definition ra_enabled :: "ReadAdmission \<Rightarrow> bool" where
  "ra_enabled ra = (ra_pct ra > 0)"

definition estimate :: "u64 \<Rightarrow> u64" where
  "estimate b =
     (let est = unat b * READ_PEAK_MULTIPLIER_TENTHS div 10
      in if est < 2 ^ 64 then word_of_nat est else - 1)"

text \<open>Available memory: the override, the cached sample while it is fresh, or a new sample.\<close>

definition avail_bytes :: "u64 \<Rightarrow> u64 option \<Rightarrow> ReadAdmission \<Rightarrow> u64 option \<times> ReadAdmission" where
  "avail_bytes now_ms sampled ra =
     (case ra_avail_override ra of
        Some fixed \<Rightarrow> (Some fixed, ra)
      | None \<Rightarrow>
          (let (cached_mib, taken_ms) = unpack (ra_sample ra)
           in if cached_mib > 0 \<and> saturating_sub now_ms (ucast taken_ms) < SAMPLE_TTL_MS
              then (Some (ucast cached_mib * 1024 * 1024), ra)
              else
                (case sampled of
                   None \<Rightarrow> (None, ra)
                 | Some avail \<Rightarrow>
                     (let mib = (if unat (avail div (1024 * 1024)) < 2 ^ 32 then ucast (avail div (1024 * 1024)) else - 1);
                          stamp = (if unat now_ms < 2 ^ 32 then ucast now_ms else - 1)
                      in (Some avail, if mib > 0 then ra\<lparr>ra_sample := pack mib stamp\<rparr> else ra)))))"

definition ra_budget :: "ReadAdmission \<Rightarrow> u64 \<Rightarrow> u64" where
  "ra_budget ra avail =
     (let b = unat avail * unat (ra_pct ra) div 100 in if b < 2 ^ 64 then word_of_nat b else - 1)"

definition saturating_add_u64 :: "u64 \<Rightarrow> u64 \<Rightarrow> u64" where
  "saturating_add_u64 a b = (if unat a + unat b < 2 ^ 64 then a + b else - 1)"

text \<open>The decision for a counter value that was loaded, and what it does to the shared state.\<close>

definition decide :: "u64 \<Rightarrow> u64 \<Rightarrow> u64 \<Rightarrow> u64 \<Rightarrow> ReadAdmission \<Rightarrow> Admit \<times> ReadAdmission" where
  "decide est in_flight budget avail ra =
     (if saturating_add_u64 in_flight est > budget then
        (if ra_mode ra = Observe then
           (WouldRefuse est in_flight budget avail,
            ra\<lparr>ra_would_refuse := ra_would_refuse ra + 1, ra_in_flight := ra_in_flight ra + est\<rparr>)
         else (Refused est in_flight budget avail, ra\<lparr>ra_refused := ra_refused ra + 1\<rparr>))
      else (Admitted est, ra\<lparr>ra_in_flight := ra_in_flight ra + est\<rparr>))"

definition admit :: "u64 \<Rightarrow> u64 \<Rightarrow> u64 option \<Rightarrow> ReadAdmission \<Rightarrow> Admit \<times> ReadAdmission" where
  "admit b now_ms sampled ra =
     (if \<not> ra_enabled ra then (Disabled, ra)
      else
        (let est = estimate b
         in case avail_bytes now_ms sampled ra of
              (None, ra) \<Rightarrow>
                (AdmittedUnmeasured est,
                 ra\<lparr>ra_in_flight := ra_in_flight ra + est, ra_unmeasured := ra_unmeasured ra + 1\<rparr>)
            | (Some avail, ra) \<Rightarrow> decide est (ra_in_flight ra) (ra_budget ra avail) avail ra))"

definition release :: "u64 \<Rightarrow> ReadAdmission \<Rightarrow> ReadAdmission" where
  "release est ra = ra\<lparr>ra_in_flight := saturating_sub (ra_in_flight ra) est\<rparr>"

text \<open>
  Concurrent reads. A thread has loaded the counter, or holds a reservation, or neither. Releasing is
  one step: a round of the code's loop whose exchange fails changes nothing.
\<close>

datatype adm_thread = Idle | Loaded u64 u64 u64 u64 | Holding u64

definition held :: "adm_thread \<Rightarrow> nat" where
  "held t = (case t of Holding est \<Rightarrow> unat est | _ \<Rightarrow> 0)"

definition after_decision :: "Admit \<Rightarrow> adm_thread" where
  "after_decision a = (case a of Admitted est \<Rightarrow> Holding est | WouldRefuse est _ _ _ \<Rightarrow> Holding est | _ \<Rightarrow> Idle)"

inductive adm_step :: "ReadAdmission \<times> adm_thread list \<Rightarrow> ReadAdmission \<times> adm_thread list \<Rightarrow> bool" where
  load: "i < length ts \<Longrightarrow> ts ! i = Idle \<Longrightarrow> ra_enabled ra \<Longrightarrow> avail_bytes now sampled ra = (Some avail, ra') \<Longrightarrow>
    adm_step (ra, ts) (ra', ts[i := Loaded (estimate b) (ra_in_flight ra) (ra_budget ra avail) avail])"
| unmeasured: "i < length ts \<Longrightarrow> ts ! i = Idle \<Longrightarrow> ra_enabled ra \<Longrightarrow> avail_bytes now sampled ra = (None, ra') \<Longrightarrow>
    sum_list (map held ts) + unat (estimate b) < 2 ^ 64 \<Longrightarrow>
    adm_step (ra, ts) (ra'\<lparr>ra_in_flight := ra_in_flight ra' + estimate b, ra_unmeasured := ra_unmeasured ra' + 1\<rparr>,
      ts[i := Holding (estimate b)])"
| settle: "i < length ts \<Longrightarrow> ts ! i = Loaded est in_flight budget avail \<Longrightarrow> decide est in_flight budget avail ra = (a, ra') \<Longrightarrow>
    sum_list (map held ts) + unat est < 2 ^ 64 \<Longrightarrow>
    adm_step (ra, ts) (ra', ts[i := after_decision a])"
| finish: "i < length ts \<Longrightarrow> ts ! i = Holding est \<Longrightarrow>
    adm_step (ra, ts) (release est ra, ts[i := Idle])"

section \<open>Notions the lemmas use\<close>

inductive adm_reach :: "ReadAdmission \<Rightarrow> nat \<Rightarrow> ReadAdmission \<times> adm_thread list \<Rightarrow> bool" for ra0 n where
  start: "adm_reach ra0 n (ra0, replicate n Idle)"
| step: "adm_reach ra0 n s \<Longrightarrow> adm_step s s' \<Longrightarrow> adm_reach ra0 n s'"

section \<open>Lemmas\<close>

lemma replicate_2: "replicate 2 x = [x, x]"
  by (simp add: numeral_2_eq_2)

lemma sum_held_update:
  "i < length ts \<Longrightarrow> sum_list (map held (ts[i := t])) + held (ts ! i) = sum_list (map held ts) + held t"
proof (induction ts arbitrary: i)
  case (Cons x xs)
  then show ?case by (cases i) auto
qed simp

lemma held_le_sum: "i < length ts \<Longrightarrow> held (ts ! i) \<le> sum_list (map held ts)"
  by (rule member_le_sum_list, force, simp)

lemma avail_bytes_in_flight: "avail_bytes now sampled ra = (r, ra') \<Longrightarrow>
    ra_in_flight ra' = ra_in_flight ra \<and> ra_pct ra' = ra_pct ra \<and> ra_mode ra' = ra_mode ra"
  by (auto simp: avail_bytes_def Let_def case_prod_beta split: option.splits if_splits)

lemma decide_in_flight:
  "decide est f b avail ra = (a, ra') \<Longrightarrow> ra_in_flight ra' = ra_in_flight ra + word_of_nat (held (after_decision a)) \<and>
     held (after_decision a) \<le> unat est"
  by (auto simp: decide_def after_decision_def held_def split: if_splits)

lemma adm_step_sum:
  assumes "adm_step (ra, ts) (ra', ts')" "unat (ra_in_flight ra) = sum_list (map held ts)"
  shows "unat (ra_in_flight ra') = sum_list (map held ts')"
  using assms
proof (cases rule: adm_step.cases)
  case (load i now sampled avail b)
  then show ?thesis
    using assms(2) avail_bytes_in_flight[OF load(5)] sum_held_update[of i ts] by (simp add: held_def)
next
  case (unmeasured i now sampled ra1 b)
  then show ?thesis
    using assms(2) avail_bytes_in_flight[OF unmeasured(6)] sum_held_update[of i ts "Holding (estimate b)"]
    by (simp add: held_def unat_word_ariths(1))
next
  case (settle i est in_flight budget avail a)
  then show ?thesis
    using assms(2) decide_in_flight[OF settle(4)] sum_held_update[of i ts "after_decision a"]
      u64_len_add[of "ra_in_flight ra" "held (after_decision a)"]
    by (simp add: held_def[of "Loaded _ _ _ _"])
next
  case (finish i est)
  then show ?thesis
    using assms(2) sum_held_update[of i ts Idle] held_le_sum[of i ts]
    by (simp add: release_def unat_saturating_sub held_def)
qed

lemma adm_reach_sum:
  assumes "adm_reach ra0 n s" "ra_in_flight ra0 = 0"
  shows "unat (ra_in_flight (fst s)) = sum_list (map held (snd s)) \<and> length (snd s) = n"
  using assms
proof (induction rule: adm_reach.induct)
  case start
  then show ?case by (simp add: sum_list_replicate held_def)
next
  case (step s s')
  then have "length (snd s') = length (snd s)" by (auto elim: adm_step.cases)
  then show ?case using step adm_step_sum[of "fst s" "snd s" "fst s'" "snd s'"] by simp
qed

lemma unat_saturating_add_u64: "unat (saturating_add_u64 a b) = min (unat a + unat b) (2 ^ 64 - 1)"
proof (cases "unat a + unat b < 2 ^ 64")
  case True
  then show ?thesis by (simp add: saturating_add_u64_def unat_word_ariths(1))
next
  case False
  have "unat (- 1 :: u64) = 2 ^ 64 - 1" by (simp add: unat_eq_nat_uint uint_word_ariths)
  then show ?thesis using False by (simp add: saturating_add_u64_def)
qed

lemma unat_ra_budget: "ra_pct ra \<le> 100 \<Longrightarrow> unat (ra_budget ra avail) = unat avail * unat (ra_pct ra) div 100"
proof -
  assume "ra_pct ra \<le> 100"
  then have "unat (ra_pct ra) \<le> 100" by (simp add: word_le_nat_alt)
  then have "unat avail * unat (ra_pct ra) \<le> unat avail * 100" by (rule mult_le_mono2)
  then have "unat avail * unat (ra_pct ra) div 100 \<le> unat avail * 100 div 100" by (rule div_le_mono)
  also have "\<dots> < 2 ^ 64" using unsigned_less[of avail, where 'a = nat] by simp
  finally have "unat avail * unat (ra_pct ra) div 100 < 2 ^ 64" .
  then show ?thesis unfolding ra_budget_def Let_def by (simp add: unat_of_nat)
qed

section \<open>Properties\<close>

text \<open>
  C33. In every interleaving of reads, the counter is the sum of the reservations the threads hold; in
  particular it is back at zero when no read is running.
\<close>

theorem in_flight_is_what_is_held:
  assumes "adm_reach (ra_new pct mode) n (ra, ts)"
  shows "unat (ra_in_flight ra) = sum_list (map held ts) \<and>
    (list_all (\<lambda>t. held t = 0) ts \<longrightarrow> ra_in_flight ra = 0)"
proof
  show sum: "unat (ra_in_flight ra) = sum_list (map held ts)"
    using adm_reach_sum[OF assms] by (simp add: ra_new_def)
  show "list_all (\<lambda>t. held t = 0) ts \<longrightarrow> ra_in_flight ra = 0"
  proof
    assume "list_all (\<lambda>t. held t = 0) ts"
    then have "sum_list (map held ts) = 0" by (simp add: list_all_iff)
    then have "unat (ra_in_flight ra) = 0" using sum by argo
    then show "ra_in_flight ra = 0" by (rule unat_eq_zero[THEN iffD1])
  qed
qed

theorem in_flight_is_what_is_held_witness:
  "\<exists>ra. adm_reach (ra_new 25 Enforce) 2 (ra, [Holding 350, Idle]) \<and> unat (ra_in_flight ra) = 350"
proof -
  let ?r = "ra_new 25 Enforce"
  let ?ra = "?r\<lparr>ra_in_flight := 350, ra_unmeasured := 1\<rparr>"
  have e: "estimate 100 = 350" by (simp add: estimate_def READ_PEAK_MULTIPLIER_TENTHS_def)
  have f: "ra_in_flight ?r = 0" "ra_unmeasured ?r = 0" "ra_enabled ?r" "avail_bytes 0 None ?r = (None, ?r)"
    by (simp_all add: ra_new_def ra_enabled_def avail_bytes_def unpack_def)
  have "adm_step (?r, [Idle, Idle]) (?ra, [Holding 350, Idle])"
    using adm_step.unmeasured[of 0 "[Idle, Idle]" ?r 0 None ?r 100] by (simp add: e f held_def)
  then have r: "adm_reach ?r 2 (?ra, [Holding 350, Idle])"
    by (rule adm_reach.step[OF adm_reach.start[of ?r 2, unfolded replicate_2]])
  show ?thesis using r in_flight_is_what_is_held[OF r] by (intro exI[of _ ?ra]) (simp add: held_def)
qed

text \<open>
  C34. A read that finds the counter unchanged is admitted exactly when its estimate fits in what is
  left of the budget; a read that is refused reserves nothing.
\<close>

theorem admit_respects_budget:
  assumes "ra_mode ra = Enforce" "0 < ra_pct ra" "ra_pct ra \<le> 100" "avail_bytes now sampled ra = (Some avail, ra1)"
    and "admit b now sampled ra = (a, ra')" "unat avail * unat (ra_pct ra) div 100 < 2 ^ 64 - 1"
  shows "if unat (ra_in_flight ra) + unat (estimate b) \<le> unat avail * unat (ra_pct ra) div 100
    then a = Admitted (estimate b) \<and> unat (ra_in_flight ra') = unat (ra_in_flight ra) + unat (estimate b)
    else (\<exists>f bud. a = Refused (estimate b) f bud avail) \<and> ra_in_flight ra' = ra_in_flight ra"
proof -
  note f = avail_bytes_in_flight[OF assms(4)]
  have d: "decide (estimate b) (ra_in_flight ra) (ra_budget ra1 avail) avail ra1 = (a, ra')"
    using assms(2,4,5) f by (simp add: admit_def ra_enabled_def)
  have "unat (ra_budget ra1 avail) = unat avail * unat (ra_pct ra) div 100"
    using unat_ra_budget[of ra1] assms(3) f by simp
  then have over: "saturating_add_u64 (ra_in_flight ra) (estimate b) > ra_budget ra1 avail \<longleftrightarrow>
      \<not> unat (ra_in_flight ra) + unat (estimate b) \<le> unat avail * unat (ra_pct ra) div 100"
    using assms(6) by (auto simp: word_less_nat_alt unat_saturating_add_u64)
  show ?thesis
    using d f assms(1,6) over by (auto simp: decide_def unat_word_ariths(1) split: if_splits)
qed

theorem admit_respects_budget_witness:
  "fst (admit 100 0 None (with_fixed_avail 50 Enforce 1000)) = Admitted 350"
proof -
  let ?ra = "with_fixed_avail 50 Enforce 1000"
  have e: "estimate 100 = 350" by (simp add: estimate_def READ_PEAK_MULTIPLIER_TENTHS_def)
  show ?thesis
    using admit_respects_budget[of ?ra 0 None 1000 ?ra 100 "fst (admit 100 0 None ?ra)" "snd (admit 100 0 None ?ra)"]
    by (simp add: e with_fixed_avail_def ra_new_def avail_bytes_def)
qed

section \<open>Overlapping reads\<close>

text \<open>
  Two reads that both load the counter before either adds to it are both admitted, although together
  they exceed the budget.
\<close>

lemma overlapping_reads_exceed_budget:
  fixes ra0 :: ReadAdmission
  defines "ra0 \<equiv> with_fixed_avail 50 Enforce 1000"
  shows "\<exists>ra. adm_reach ra0 2 (ra, [Holding 350, Holding 350]) \<and> ra_in_flight ra > ra_budget ra0 1000"
proof -
  let ?l = "Loaded 350 0 500 1000" and ?ra1 = "ra0\<lparr>ra_in_flight := 350\<rparr>" and ?ra2 = "ra0\<lparr>ra_in_flight := 700\<rparr>"
  have e: "estimate 100 = 350" and b: "ra_budget ra0 1000 = 500"
    by (simp_all add: estimate_def READ_PEAK_MULTIPLIER_TENTHS_def ra_budget_def ra0_def with_fixed_avail_def ra_new_def)
  have f: "ra_in_flight ra0 = 0" "ra_enabled ra0" "avail_bytes 0 None ra0 = (Some 1000, ra0)"
    by (simp_all add: ra0_def with_fixed_avail_def ra_new_def ra_enabled_def avail_bytes_def)
  have d: "decide 350 0 500 1000 ra0 = (Admitted 350, ?ra1)" "decide 350 0 500 1000 ?ra1 = (Admitted 350, ?ra2)"
    by (simp_all add: decide_def saturating_add_u64_def f)
  have s1: "adm_step (ra0, [Idle, Idle]) (ra0, [?l, Idle])"
    using adm_step.load[of 0 "[Idle, Idle]" ra0 0 None 1000 ra0 100] by (simp add: e b f)
  have s2: "adm_step (ra0, [?l, Idle]) (ra0, [?l, ?l])"
    using adm_step.load[of 1 "[?l, Idle]" ra0 0 None 1000 ra0 100] by (simp add: e b f)
  have s3: "adm_step (ra0, [?l, ?l]) (?ra1, [Holding 350, ?l])"
    using adm_step.settle[of 0 "[?l, ?l]" 350 0 500 1000 ra0, OF _ _ d(1)] by (simp add: held_def after_decision_def)
  have s4: "adm_step (?ra1, [Holding 350, ?l]) (?ra2, [Holding 350, Holding 350])"
    using adm_step.settle[of 1 "[Holding 350, ?l]" 350 0 500 1000 ?ra1, OF _ _ d(2)]
    by (simp add: held_def after_decision_def)
  have "adm_reach ra0 2 (?ra2, [Holding 350, Holding 350])"
    using adm_reach.start[of ra0 2, unfolded replicate_2, THEN adm_reach.step, OF s1, THEN adm_reach.step, OF s2,
      THEN adm_reach.step, OF s3, THEN adm_reach.step, OF s4] .
  then show ?thesis by (intro exI[of _ ?ra2]) (simp add: b)
qed

end
