(* ===== verification/Flint_Keyspace.thy ===== *)
theory Flint_Keyspace
  imports Flint_Value
begin

text \<open>
  The operations that work on a key of any type: \<open>crates/flint-storage/src/keyspace.rs\<close>. They read
  only the common header of a metadata row. The state is that of the typed stores; a \<open>Keyspace\<close>
  has no size limit, and the field of \<open>TypeStore\<close> that holds one is not used.

  The lemmas say what each operation does to the map the store stands for: a copy gives the
  destination the rows of the source under a version of its own, a rename moves them, and the
  expiry operations change the expiry and nothing else. Reading the remaining time takes two clock
  readings, and the last lemmas show when their difference wraps.
\<close>

section \<open>Operations\<close>

datatype RenameOutcome = Renamed | DestinationExists | NoSuchKey

datatype Ttl = Missing | NoExpiry | Ms u64

record KeyStat =
  ks_size_bytes :: u64
  ks_written_ms :: u64
  ks_created_ms :: u64

definition read_live_row ::
  "'s Kv \<Rightarrow> TypeStore \<Rightarrow> u16 \<Rightarrow> bytes \<Rightarrow> 's world \<Rightarrow> (MetaHeader \<times> bytes) option \<times> 's world"
where
  "read_live_row K S slot key w =
     (let mk = meta_key S slot key
      in case w_get K w mk of
           None \<Rightarrow> (None, w)
         | Some row \<Rightarrow>
             (case mh_decode row of
                None \<Rightarrow> (None, w)
              | Some header \<Rightarrow>
                  (let (now, w) = read_clock S w
                   in if mh_is_expired header now then (None, snd (w_delete K w mk))
                      else (Some (header, row), w))))"

definition ks_exists :: "'s Kv \<Rightarrow> TypeStore \<Rightarrow> u16 \<Rightarrow> bytes \<Rightarrow> 's world \<Rightarrow> bool \<times> 's world" where
  "ks_exists K S slot key w = (let (r, w) = read_live_row K S slot key w in (r \<noteq> None, w))"

definition ks_value_type :: "'s Kv \<Rightarrow> TypeStore \<Rightarrow> u16 \<Rightarrow> bytes \<Rightarrow> 's world \<Rightarrow> ValueType option \<times> 's world" where
  "ks_value_type K S slot key w =
     (let (r, w) = read_live_row K S slot key w in (Option.bind r (\<lambda>(h, _). mh_value_type h), w))"

definition ks_del :: "'s Kv \<Rightarrow> TypeStore \<Rightarrow> u16 \<Rightarrow> bytes \<Rightarrow> 's world \<Rightarrow> bool \<times> 's world" where
  "ks_del K S slot key w =
     (let (r, w) = read_live_row K S slot key w
      in if r \<noteq> None then (True, snd (w_delete K w (meta_key S slot key))) else (False, w))"

text \<open>The scan delivers the rows there were when it began; the writes go to another prefix.\<close>

definition rekey_rows :: "'s Kv \<Rightarrow> bytes \<Rightarrow> bytes \<Rightarrow> 's world \<Rightarrow> 's world" where
  "rekey_rows K from to w =
     foldl (\<lambda>w (k, v). w_put K w (to @ drop (length from) k) v) w (kv_for_each_prefix K (w_kv w) from)"

definition copy_rows ::
  "'s Kv \<Rightarrow> TypeStore \<Rightarrow> u16 \<Rightarrow> bytes \<Rightarrow> bytes \<Rightarrow> ValueType \<Rightarrow> bytes \<Rightarrow> 's world \<Rightarrow> bool \<times> 's world"
where
  "copy_rows K S slot src dst kind row w =
     (case cm_decode row of
        None \<Rightarrow> (False, w)
      | Some meta \<Rightarrow>
          (let (now, w) = read_clock S w;
               (version, w) = next_version now w;
               dst_row = write_version row version;
               w = rekey_rows K (subkey_prefix (st_ns S) slot src (cm_version meta))
                     (subkey_prefix (st_ns S) slot dst version) w;
               w = (if kind = ZSet
                    then rekey_rows K (zscore_prefix (st_ns S) slot src (cm_version meta))
                           (zscore_prefix (st_ns S) slot dst version) w
                    else w)
           in (True, w_put K w (meta_key S slot dst) dst_row)))"

definition ks_copy ::
  "'s Kv \<Rightarrow> TypeStore \<Rightarrow> u16 \<Rightarrow> bytes \<Rightarrow> bytes \<Rightarrow> bool \<Rightarrow> 's world \<Rightarrow> bool \<times> 's world"
where
  "ks_copy K S slot src dst replace w =
     (case read_live_row K S slot src w of
        (None, w) \<Rightarrow> (False, w)
      | (Some (header, row), w) \<Rightarrow>
          (let (taken, w) = ks_exists K S slot dst w
           in if taken \<and> \<not> replace then (False, w)
              else
                (let w = (if taken then snd (w_delete K w (meta_key S slot dst)) else w)
                 in case mh_value_type header of
                      None \<Rightarrow> (False, w)
                    | Some kind \<Rightarrow>
                        if kind = StringT \<or> kind = Json then (True, w_put K w (meta_key S slot dst) row)
                        else copy_rows K S slot src dst kind row w)))"

definition ks_rename ::
  "'s Kv \<Rightarrow> TypeStore \<Rightarrow> u16 \<Rightarrow> bytes \<Rightarrow> bytes \<Rightarrow> bool \<Rightarrow> 's world \<Rightarrow> RenameOutcome \<times> 's world"
where
  "ks_rename K S slot src dst nx w =
     (let (present, w) = ks_exists K S slot src w
      in if \<not> present then (NoSuchKey, w)
         else if src = dst then (if nx then DestinationExists else Renamed, w)
         else
           (let (taken, w) = (if nx then ks_exists K S slot dst w else (False, w))
            in if taken then (DestinationExists, w)
               else
                 (let (copied, w) = ks_copy K S slot src dst True w
                  in if \<not> copied then (NoSuchKey, w)
                     else (Renamed, snd (ks_del K S slot src w)))))"

definition ks_expire_at :: "'s Kv \<Rightarrow> TypeStore \<Rightarrow> u16 \<Rightarrow> bytes \<Rightarrow> u64 \<Rightarrow> 's world \<Rightarrow> bool \<times> 's world" where
  "ks_expire_at K S slot key at_ms w =
     (case read_live_row K S slot key w of
        (None, w) \<Rightarrow> (False, w)
      | (Some (_, row), w) \<Rightarrow>
          (let (now, w) = read_clock S w
           in if at_ms \<le> now then (True, snd (w_delete K w (meta_key S slot key)))
              else (True, w_put K w (meta_key S slot key) (write_expire row at_ms))))"

definition ks_expire_time_ms :: "'s Kv \<Rightarrow> TypeStore \<Rightarrow> u16 \<Rightarrow> bytes \<Rightarrow> 's world \<Rightarrow> u64 option \<times> 's world" where
  "ks_expire_time_ms K S slot key w =
     (let (r, w) = read_live_row K S slot key w in (map_option (\<lambda>(h, _). mh_expire_ms h) r, w))"

text \<open>The subtraction is that of a build without overflow checks, which wraps.\<close>

definition ks_ttl :: "'s Kv \<Rightarrow> TypeStore \<Rightarrow> u16 \<Rightarrow> bytes \<Rightarrow> 's world \<Rightarrow> Ttl \<times> 's world" where
  "ks_ttl K S slot key w =
     (case read_live_row K S slot key w of
        (None, w) \<Rightarrow> (Missing, w)
      | (Some (h, _), w) \<Rightarrow>
          if mh_expire_ms h = 0 then (NoExpiry, w)
          else (let (now, w) = read_clock S w in (Ms (mh_expire_ms h - now), w)))"

definition ks_key_stat :: "'s Kv \<Rightarrow> TypeStore \<Rightarrow> u16 \<Rightarrow> bytes \<Rightarrow> 's world \<Rightarrow> KeyStat option \<times> 's world" where
  "ks_key_stat K S slot key w =
     (case read_live_row K S slot key w of
        (None, w) \<Rightarrow> (None, w)
      | (Some (header, row), w) \<Rightarrow>
          (let written_ms = written_ms_of row
           in case mh_value_type header of
                None \<Rightarrow> (None, w)
              | Some kind \<Rightarrow>
                  if kind = StringT \<or> kind = Json
                  then (Some \<lparr>ks_size_bytes = word_of_nat (length row) - word_of_nat (head_len (mh_flags header)),
                              ks_written_ms = written_ms, ks_created_ms = 0\<rparr>, w)
                  else (map_option (\<lambda>m. \<lparr>ks_size_bytes = cm_bytes m, ks_written_ms = written_ms,
                              ks_created_ms = drop_bit 20 (cm_version m)\<rparr>) (cm_decode row), w)))"

definition ks_persist :: "'s Kv \<Rightarrow> TypeStore \<Rightarrow> u16 \<Rightarrow> bytes \<Rightarrow> 's world \<Rightarrow> bool \<times> 's world" where
  "ks_persist K S slot key w =
     (case read_live_row K S slot key w of
        (None, w) \<Rightarrow> (False, w)
      | (Some (h, row), w) \<Rightarrow>
          if mh_expire_ms h = 0 then (False, w)
          else (True, w_put K w (meta_key S slot key) (write_expire row 0)))"

section \<open>Notions the lemmas use\<close>

definition live_row :: "(bytes \<rightharpoonup> bytes) \<Rightarrow> u64 \<Rightarrow> bytes \<Rightarrow> (MetaHeader \<times> bytes) option" where
  "live_row m now mk =
     (case m mk of
        None \<Rightarrow> None
      | Some row \<Rightarrow>
          (case mh_decode row of
             None \<Rightarrow> None
           | Some h \<Rightarrow> if mh_is_expired h now then None else Some (h, row)))"

text \<open>All the rows that belong to a key: its metadata row, and what parses as a row of it.\<close>

definition key_rows :: "bytes \<Rightarrow> u16 \<Rightarrow> bytes \<Rightarrow> bytes set" where
  "key_rows ns slot key =
     {envelope Metadata ns slot key} \<union> {k. \<exists>v. parse_subkey_envelope k = Some (ns, slot, key, v)}"

text \<open>
  The value of one key is the value another had: the row is the same, or it is the same but for the
  version and the rows under the two versions agree.
\<close>

definition same_value ::
  "bytes \<Rightarrow> u16 \<Rightarrow> (bytes \<rightharpoonup> bytes) \<Rightarrow> bytes \<Rightarrow> (bytes \<rightharpoonup> bytes) \<Rightarrow> bytes \<Rightarrow> bool"
where
  "same_value ns slot m src m' dst \<longleftrightarrow>
     (\<exists>row h t. m (envelope Metadata ns slot src) = Some row \<and> mh_decode row = Some h \<and> mh_value_type h = Some t \<and>
        (if t = StringT \<or> t = Json then m' (envelope Metadata ns slot dst) = Some row
         else \<exists>cm v. cm_decode row = Some cm \<and> m' (envelope Metadata ns slot dst) = Some (write_version row v) \<and>
           (\<forall>f. m' (subkey_envelope ns slot dst v f) = m (subkey_envelope ns slot src (cm_version cm) f)) \<and>
           (t = ZSet \<longrightarrow> (\<forall>sc f. m' (zscore_envelope ns slot dst v sc f) =
              m (zscore_envelope ns slot src (cm_version cm) sc f)))))"

text \<open>The rows of one prefix laid under a prefix that has none.\<close>

definition rekeyed :: "bytes \<Rightarrow> bytes \<Rightarrow> (bytes \<rightharpoonup> bytes) \<Rightarrow> bytes \<rightharpoonup> bytes" where
  "rekeyed p q m = (\<lambda>k. if prefix q k then m (p @ drop (length q) k) else m k)"

text \<open>A store that holds one hash with one field.\<close>

definition one_hash :: "MemKv world" where
  "one_hash = \<lparr>w_kv = mem_put (mem_put [] (subkey_envelope [116] 0 [97] 5 [102]) [118])
     (envelope Metadata [116] 0 [97]) (cm_encode (cm_new Hash 5)), w_last = 5, w_ticks = 0\<rparr>"

section \<open>Lemmas\<close>

lemma only_rows_mono: "only_rows R m m' \<Longrightarrow> R \<subseteq> R' \<Longrightarrow> only_rows R' m m'"
  by (auto simp: only_rows_def)

lemma own_rows_key_rows: "ns_ok ns \<Longrightarrow> key_framed key \<Longrightarrow> own_rows ns slot key \<subseteq> key_rows ns slot key"
  by (auto simp: own_rows_def key_rows_def)

lemma parse_meta [simp]: "parse_subkey_envelope (envelope Metadata ns slot key) = None"
  by (simp add: parse_subkey_envelope_def envelope_def)

lemma key_rows_disjoint:
  assumes "ns_ok ns" "ns_ok ns'" "(ns, slot, key) \<noteq> (ns', slot', key')"
  shows "key_rows ns slot key \<inter> key_rows ns' slot' key' = {}"
  using assms by (auto simp: key_rows_def envelope_inject)

lemma foldl_rekey:
  assumes "distinct (map fst xs)" "\<And>k v. (k, v) \<in> set xs \<Longrightarrow> prefix p k"
  shows "foldl (\<lambda>m (k, v). m(q @ drop (length p) k \<mapsto> v)) m0 xs =
    (\<lambda>k. case (if prefix q k then map_of xs (p @ drop (length q) k) else None) of Some v \<Rightarrow> Some v | None \<Rightarrow> m0 k)"
  using assms
proof (induction xs arbitrary: m0)
  case Nil
  then show ?case by (simp add: fun_eq_iff)
next
  case (Cons x xs)
  obtain k v where x: "x = (k, v)" by fastforce
  then obtain r where r: "k = p @ r" using Cons.prems(2) by (auto simp: prefix_def)
  have new: "map_of xs k = None" using Cons.prems(1) by (simp add: x map_of_eq_None_iff)
  have step: "foldl (\<lambda>m (k, v). m(q @ drop (length p) k \<mapsto> v)) m0 (x # xs) =
      foldl (\<lambda>m (k, v). m(q @ drop (length p) k \<mapsto> v)) (m0(q @ r \<mapsto> v)) xs"
    by (simp add: x r)
  have IH: "foldl (\<lambda>m (k, v). m(q @ drop (length p) k \<mapsto> v)) (m0(q @ r \<mapsto> v)) xs =
    (\<lambda>k. case (if prefix q k then map_of xs (p @ drop (length q) k) else None) of
        Some v \<Rightarrow> Some v | None \<Rightarrow> (m0(q @ r \<mapsto> v)) k)"
    using Cons.prems by (intro Cons.IH) auto
  show ?case
    unfolding step IH using new by (auto simp: x r fun_eq_iff prefix_def split: option.split_asm)
qed

context kv_store
begin

lemma read_live_row:
  assumes "ok (w_kv w)"
  obtains w1 where
    "read_live_row K S slot key w = (live_row (rows w) (st_clock S (w_ticks w)) (meta_key S slot key), w1)"
    and "ok (w_kv w1)" and "w_last w1 = w_last w"
    and "rows w1 = reaped (rows w) (st_clock S (w_ticks w)) (meta_key S slot key)"
proof -
  let ?mk = "meta_key S slot key" and ?now = "st_clock S (w_ticks w)"
  let ?w1 = "snd (read_live_row K S slot key w)"
  have "fst (read_live_row K S slot key w) = live_row (rows w) ?now ?mk \<and>
    ok (w_kv ?w1) \<and> w_last ?w1 = w_last w \<and> rows ?w1 = reaped (rows w) ?now ?mk"
    using assms
    by (auto simp: read_live_row_def live_row_def reaped_def read_clock_def world Let_def split: option.splits)
  then show ?thesis using that[of ?w1] by (simp add: prod_eq_iff)
qed

lemma read_live_row_ticks: "read_live_row K S slot key w = (Some x, w1) \<Longrightarrow> w_ticks w1 = Suc (w_ticks w)"
  by (auto simp: read_live_row_def read_clock_def Let_def split: option.splits if_splits)

lemma rekey_rows:
  assumes "ok (w_kv w)"
  shows "ok (w_kv (rekey_rows K p q w))" "w_last (rekey_rows K p q w) = w_last w"
    and "rows (rekey_rows K p q w) =
      (\<lambda>k. case (if prefix q k then rows w (p @ drop (length q) k) else None) of Some v \<Rightarrow> Some v | None \<Rightarrow> rows w k)"
proof -
  let ?xs = "rows_of (rows w) (prefix p)"
  have run: "ok (w_kv (foldl (\<lambda>w (k, v). w_put K w (q @ drop (length p) k) v) w' xs)) \<and>
      w_last (foldl (\<lambda>w (k, v). w_put K w (q @ drop (length p) k) v) w' xs) = w_last w' \<and>
      rows (foldl (\<lambda>w (k, v). w_put K w (q @ drop (length p) k) v) w' xs) =
        foldl (\<lambda>m (k, v). m(q @ drop (length p) k \<mapsto> v)) (rows w') xs" if "ok (w_kv w')" for w' xs
    using that by (induction xs arbitrary: w') (auto simp: world)
  have fin: "finite (dom (rows w))" using assms by (rule finite_abs)
  have d: "distinct (map fst ?xs)" unfolding rows_of_keys by simp
  have in_xs: "(k, v) \<in> set ?xs \<Longrightarrow> prefix p k" for k v using rows_of_set[OF fin] by auto
  have look: "map_of ?xs (p @ r) = rows w (p @ r)" for r
  proof (cases "rows w (p @ r)")
    case None
    then show ?thesis using rows_of_set[OF fin, of "prefix p"] by (auto simp: map_of_eq_None_iff)
  next
    case (Some v)
    then show ?thesis using rows_of_set[OF fin, of "prefix p"] d by simp
  qed
  show "ok (w_kv (rekey_rows K p q w))" "w_last (rekey_rows K p q w) = w_last w"
    using run[OF assms] by (simp_all add: rekey_rows_def for_each_prefix[OF assms])
  show "rows (rekey_rows K p q w) =
      (\<lambda>k. case (if prefix q k then rows w (p @ drop (length q) k) else None) of Some v \<Rightarrow> Some v | None \<Rightarrow> rows w k)"
    using run[OF assms, of ?xs] foldl_rekey[of ?xs p q "rows w", OF d, OF in_xs]
    by (simp add: rekey_rows_def for_each_prefix[OF assms] look cong: if_cong)
qed

end

lemma parse_prefixed:
  assumes "ns_ok ns" "key_framed key"
  shows "parse_subkey_envelope (subkey_prefix ns slot key v @ r) = Some (ns, slot, key, v)"
    and "parse_subkey_envelope (zscore_prefix ns slot key v @ r) = Some (ns, slot, key, v)"
  using parse_tagged[OF assms, of "cf_byte Subkey" slot v r] parse_tagged[OF assms, of "cf_byte ZScore" slot v r]
  by (simp_all add: subkey_prefix_def zscore_prefix_def)

lemma versions_below_parsed:
  assumes "versions_below m l" "parse_subkey_envelope k = Some (ns, slot, key, v)" "l < v"
  shows "m k = None"
  using assms by (cases "m k") (auto simp: versions_below_def dest!: bspec)

context kv_store
begin

lemma rekey_fresh:
  assumes "ok (w_kv w)" "\<And>r. rows w (q @ r) = None"
  shows "ok (w_kv (rekey_rows K p q w))" "w_last (rekey_rows K p q w) = w_last w"
    and "rows (rekey_rows K p q w) = rekeyed p q (rows w)"
  using rekey_rows[OF assms(1), where p = p and q = q] assms(2)
  by (auto simp: rekeyed_def fun_eq_iff prefix_def split: option.splits)

end

lemma rekeyed_below:
  assumes "versions_below m l" "\<And>r. \<exists>ns slot key v. parse_subkey_envelope (q @ r) = Some (ns, slot, key, v) \<and> v \<le> l"
  shows "versions_below (rekeyed p q m) l"
  unfolding versions_below_def
proof
  fix k
  assume k: "k \<in> dom (rekeyed p q m)"
  show "case parse_subkey_envelope k of Some (ns, slot, key, v) \<Rightarrow> v \<le> l | None \<Rightarrow> True"
  proof (cases "prefix q k")
    case True
    then obtain r where "k = q @ r" by (auto simp: prefix_def)
    then show ?thesis using assms(2)[of r] by auto
  next
    case False
    then show ?thesis using k assms(1) by (auto simp: rekeyed_def versions_below_def)
  qed
qed

lemma rekeyed_only:
  assumes "\<And>r. q @ r \<in> R"
  shows "only_rows R m (rekeyed p q m)"
  using assms by (auto simp: only_rows_def rekeyed_def prefix_def)

lemma rekeyed_other: "\<not> prefix q k \<Longrightarrow> rekeyed p q m k = m k"
  by (simp add: rekeyed_def)

lemma rekeyed_at:
  "rekeyed (subkey_prefix ns slot src v) (subkey_prefix ns slot dst v') m (subkey_envelope ns slot dst v' f) =
     m (subkey_envelope ns slot src v f)"
  "rekeyed (zscore_prefix ns slot src v) (zscore_prefix ns slot dst v') m (zscore_envelope ns slot dst v' sc f) =
     m (zscore_envelope ns slot src v sc f)"
  by (simp_all add: rekeyed_def subkey_envelope_def zscore_envelope_def)

lemma prefix_of_other_family:
  "\<not> prefix (zscore_prefix ns slot key v) (subkey_envelope ns' slot' key' v' f)"
  "\<not> prefix (subkey_prefix ns slot key v) (zscore_envelope ns' slot' key' v' sc f)"
  "\<not> prefix (subkey_prefix ns slot key v) (zscore_prefix ns' slot' key' v' @ r)"
  by (auto simp: prefix_def subkey_prefix_def zscore_prefix_def subkey_envelope_def zscore_envelope_def)

context kv_store
begin

lemma copy_rows:
  assumes "ok (w_kv w)" "ns_ok (st_ns S)" "key_framed src" "key_framed dst"
    and "versions_below (rows w) (w_last w)" "clock_sane S (w_last w)" "cm_decode row = Some cm"
  obtains w' v where "copy_rows K S slot src dst t row w = (True, w')" "ok (w_kv w')" "w_last w \<le> w_last w'"
    "versions_below (rows w') (w_last w')" "only_rows (key_rows (st_ns S) slot dst) (rows w) (rows w')"
    "rows w' (meta_key S slot dst) = Some (write_version row v)"
    "\<And>f. rows w' (subkey_envelope (st_ns S) slot dst v f) = rows w (subkey_envelope (st_ns S) slot src (cm_version cm) f)"
    "\<And>sc f. t = ZSet \<Longrightarrow> rows w' (zscore_envelope (st_ns S) slot dst v sc f) =
       rows w (zscore_envelope (st_ns S) slot src (cm_version cm) sc f)"
proof -
  let ?ns = "st_ns S"
  define w1 where "w1 = snd (next_version (st_clock S (w_ticks w)) (snd (read_clock S w)))"
  define v where "v = w_last w1"
  have c: "can_advance (w_last w) (st_clock S (w_ticks w))" using assms(6) by (simp add: clock_sane_def)
  have w1: "w_kv w1 = w_kv w" "w_last w < v" "w_last w1 = v"
    using fresh_version(2)[OF assms(5) c assms(2,4)] by (simp_all add: w1_def v_def)
  have vn: "version_next (w_last w) (st_clock S (w_ticks w)) = v" by (simp add: v_def w1_def)
  define p1 q1 p2 q2 where "p1 = subkey_prefix ?ns slot src (cm_version cm)" and "q1 = subkey_prefix ?ns slot dst v"
    and "p2 = zscore_prefix ?ns slot src (cm_version cm)" and "q2 = zscore_prefix ?ns slot dst v"
  note parse = parse_prefixed[OF assms(2,4), of slot v, folded q1_def q2_def]
  have free: "rows w (q1 @ r) = None" "rows w (q2 @ r) = None" for r
    using versions_below_parsed[OF assms(5)] parse w1(2) by blast+
  define w2 where "w2 = rekey_rows K p1 q1 w1"
  have w2: "ok (w_kv w2)" "w_last w2 = v" "rows w2 = rekeyed p1 q1 (rows w)"
    using rekey_fresh[of w1 q1 p1] assms(1) free(1) w1 by (simp_all add: w2_def)
  have below1: "versions_below (rows w) v" using assms(5) by (rule versions_below_mono) (use w1(2) in simp)
  have below2: "versions_below (rows w2) v" unfolding w2(3) using below1 parse(1) by (intro rekeyed_below) auto
  have key: "q1 @ r \<in> key_rows ?ns slot dst" "q2 @ r \<in> key_rows ?ns slot dst" for r
    using parse by (auto simp: key_rows_def)
  define w3 where "w3 = (if t = ZSet then rekey_rows K p2 q2 w2 else w2)"
  have free2: "rows w2 (q2 @ r) = None" for r
    using free(2) prefix_of_other_family(3) by (simp add: w2(3) rekeyed_def q1_def q2_def)
  have w3: "ok (w_kv w3)" "w_last w3 = v" "rows w3 = (if t = ZSet then rekeyed p2 q2 (rows w2) else rows w2)"
    using rekey_fresh[of w2 q2 p2] w2(1,2) free2 by (simp_all add: w3_def)
  have below3: "versions_below (rows w3) v"
    using below2 parse(2) rekeyed_below[of "rows w2" v q2 p2] by (simp add: w3(3))
  have only: "only_rows (key_rows ?ns slot dst) (rows w) (rows w3)"
    using rekeyed_only[of q1, OF key(1)] rekeyed_only[of q2, OF key(2)] only_rows_trans
    by (simp add: w3(3) w2(3)) metis
  let ?w' = "w_put K w3 (meta_key S slot dst) (write_version row v)"
  have rows: "rows ?w' = (rows w3)(meta_key S slot dst \<mapsto> write_version row v)" using w3(1) by (simp add: world)
  have own: "meta_key S slot dst \<in> key_rows ?ns slot dst" by (simp add: key_rows_def meta_key_def)
  have below': "versions_below ((rows w3)(meta_key S slot dst \<mapsto> write_version row v)) v"
    unfolding meta_key_def using below3 by (rule versions_below_meta)
  have "copy_rows K S slot src dst t row w = (True, ?w')"
    using vn by (simp add: copy_rows_def assms(7) Let_def case_prod_beta w1_def[symmetric]
        w3_def w2_def p1_def p2_def q1_def q2_def)
  moreover have "rows ?w' (subkey_envelope ?ns slot dst v f) = rows w (subkey_envelope ?ns slot src (cm_version cm) f)" for f
    unfolding rows
    by (simp add: w3(3) w2(3) meta_key_def p1_def q1_def p2_def q2_def rekeyed_other prefix_of_other_family rekeyed_at)
  moreover have "rows ?w' (zscore_envelope ?ns slot dst v sc f) = rows w (zscore_envelope ?ns slot src (cm_version cm) sc f)"
    if "t = ZSet" for sc f
    unfolding rows using that
    by (simp add: w3(3) w2(3) meta_key_def p1_def q1_def p2_def q2_def rekeyed_other prefix_of_other_family rekeyed_at)
  ultimately show ?thesis
    using that[of ?w' v] w3(1,2) less_imp_le[OF w1(2)] only_rows_upd[OF only own] below' by (simp add: rows w_put)
qed


text \<open>What every operation relies on, and the frame every one keeps.\<close>

lemma read_live_row_frame:
  assumes "ok (w_kv w)" "versions_below (rows w) (w_last w)"
  obtains w1 where
    "read_live_row K S slot key w = (live_row (rows w) (st_clock S (w_ticks w)) (meta_key S slot key), w1)"
    "ok (w_kv w1)" "w_last w1 = w_last w" "rows w1 = reaped (rows w) (st_clock S (w_ticks w)) (meta_key S slot key)"
    "versions_below (rows w1) (w_last w1)" "only_rows {meta_key S slot key} (rows w) (rows w1)"
proof -
  let ?now = "st_clock S (w_ticks w)"
  obtain w1 where w1: "read_live_row K S slot key w = (live_row (rows w) ?now (meta_key S slot key), w1)"
    "ok (w_kv w1)" "w_last w1 = w_last w" "rows w1 = reaped (rows w) ?now (meta_key S slot key)"
    by (rule read_live_row[OF assms(1)])
  have "only_rows {meta_key S slot key} (rows w) (rows w1)"
    unfolding w1(4) by (auto simp: only_rows_def reaped_def split: option.split)
  moreover have "versions_below (rows w1) (w_last w1)"
    unfolding w1(3,4) meta_key_def using assms(2) by (rule versions_below_reaped)
  ultimately show ?thesis using that w1 by blast
qed

lemma copied:
  assumes "ok (w_kv w)" "ns_ok (st_ns S)" "key_framed src" "key_framed dst" "src \<noteq> dst"
    and "versions_below (rows w) (w_last w)" "clock_sane S (w_last w)"
    and live: "live_row (rows w) now (meta_key S slot src) = Some (h, row)"
    and t: "mh_value_type h = Some t" "t = StringT \<or> t = Json \<or> cm_decode row \<noteq> None"
    and w3: "ok (w_kv w3)" "w_last w3 = w_last w" "\<And>k. k \<noteq> meta_key S slot dst \<Longrightarrow> rows w3 k = rows w k"
      "versions_below (rows w3) (w_last w3)"
    and res: "res = (if t = StringT \<or> t = Json then (True, w_put K w3 (meta_key S slot dst) row)
      else copy_rows K S slot src dst t row w3)"
  obtains w' where "res = (True, w')" "ok (w_kv w')" "w_last w \<le> w_last w'" "versions_below (rows w') (w_last w')"
    "only_rows (key_rows (st_ns S) slot dst) (rows w) (rows w')"
    "same_value (st_ns S) slot (rows w) src (rows w') dst"
proof -
  let ?ns = "st_ns S" and ?dst = "meta_key S slot dst"
  have src: "rows w (meta_key S slot src) = Some row" "mh_decode row = Some h"
    using live by (auto simp: live_row_def split: option.splits if_splits)
  have only: "only_rows (key_rows ?ns slot dst) (rows w) (rows w3)"
    using w3(3) by (auto simp: only_rows_def key_rows_def meta_key_def)
  show ?thesis
  proof (cases "t = StringT \<or> t = Json")
    case True
    have "rows (w_put K w3 ?dst row) = (rows w3)(?dst \<mapsto> row)" using w3(1) by (simp add: world)
    moreover have "versions_below ((rows w3)(?dst \<mapsto> row)) (w_last w3)"
      using w3(4) by (simp add: meta_key_def versions_below_meta)
    moreover have "only_rows (key_rows ?ns slot dst) (rows w) ((rows w3)(?dst \<mapsto> row))"
      using only by (rule only_rows_upd) (simp add: key_rows_def meta_key_def)
    moreover have "same_value ?ns slot (rows w) src ((rows w3)(?dst \<mapsto> row)) dst"
      using True src t(1) by (auto simp: same_value_def meta_key_def)
    ultimately show ?thesis using that[of "w_put K w3 ?dst row"] True w3(1,2) res by (simp add: w_put)
  next
    case False
    then obtain cm where cm: "cm_decode row = Some cm" using t(2) by blast
    have sane: "clock_sane S (w_last w3)" using assms(7) w3(2) by simp
    obtain w' v where w': "copy_rows K S slot src dst t row w3 = (True, w')" "ok (w_kv w')" "w_last w3 \<le> w_last w'"
      "versions_below (rows w') (w_last w')" "only_rows (key_rows ?ns slot dst) (rows w3) (rows w')"
      "rows w' ?dst = Some (write_version row v)"
      "\<And>f. rows w' (subkey_envelope ?ns slot dst v f) = rows w3 (subkey_envelope ?ns slot src (cm_version cm) f)"
      "\<And>sc f. t = ZSet \<Longrightarrow> rows w' (zscore_envelope ?ns slot dst v sc f) =
         rows w3 (zscore_envelope ?ns slot src (cm_version cm) sc f)"
      using copy_rows[OF w3(1) assms(2-4) w3(4) sane cm] by metis
    have "same_value ?ns slot (rows w) src (rows w') dst"
      unfolding same_value_def using False src t(1) cm w'(6-8) w3(3)
      by (intro exI[of _ row] exI[of _ h] exI[of _ t]) (auto simp: meta_key_def)
    then show ?thesis using that[of w'] w'(1-5) False w3(2) res only_rows_trans[OF only w'(5)] by simp
  qed
qed

lemma copy_spec:
  assumes "ok (w_kv w)" "ns_ok (st_ns S)" "key_framed src" "key_framed dst" "src \<noteq> dst"
    and "versions_below (rows w) (w_last w)" "clock_sane S (w_last w)"
    and live: "live_row (rows w) (st_clock S (w_ticks w)) (meta_key S slot src) = Some (h, row)"
    and "mh_value_type h = Some t" "t = StringT \<or> t = Json \<or> cm_decode row \<noteq> None"
  obtains r w' where "ks_copy K S slot src dst replace w = (r, w')" "ok (w_kv w')" "w_last w \<le> w_last w'"
    "versions_below (rows w') (w_last w')" "only_rows (key_rows (st_ns S) slot dst) (rows w) (rows w')"
    "r \<Longrightarrow> same_value (st_ns S) slot (rows w) src (rows w') dst" "\<not> r \<Longrightarrow> rows w' = rows w"
    "r \<longleftrightarrow> replace \<or> live_row (rows w) (st_clock S (Suc (w_ticks w))) (meta_key S slot dst) = None"
proof -
  let ?ns = "st_ns S" and ?src = "meta_key S slot src" and ?dst = "meta_key S slot dst"
  obtain w1 where w1: "read_live_row K S slot src w = (Some (h, row), w1)" "ok (w_kv w1)" "w_last w1 = w_last w"
    "rows w1 = reaped (rows w) (st_clock S (w_ticks w)) ?src"
    using read_live_row[OF assms(1), of S slot src] live by metis
  have same1: "rows w1 = rows w"
    unfolding w1(4) using live by (auto simp: live_row_def reaped_def split: option.splits if_splits)
  obtain w2 where w2: "read_live_row K S slot dst w1 = (live_row (rows w1) (st_clock S (w_ticks w1)) ?dst, w2)"
    "ok (w_kv w2)" "w_last w2 = w_last w1" "rows w2 = reaped (rows w1) (st_clock S (w_ticks w1)) ?dst"
    "versions_below (rows w2) (w_last w2)" "only_rows {?dst} (rows w1) (rows w2)"
    using read_live_row_frame[of w1 S slot dst] w1(2,3) same1 assms(6) by metis
  have same2: "rows w2 k = rows w k" if "k \<noteq> ?dst" for k using w2(6) same1 that by (simp add: only_rows_def)
  define taken where "taken \<longleftrightarrow> live_row (rows w1) (st_clock S (w_ticks w1)) ?dst \<noteq> None"
  have tk: "taken \<longleftrightarrow> live_row (rows w) (st_clock S (Suc (w_ticks w))) ?dst \<noteq> None"
    by (simp add: taken_def same1 read_live_row_ticks[OF w1(1)])
  have ex: "ks_exists K S slot dst w1 = (taken, w2)" by (simp add: ks_exists_def w2(1) taken_def)
  show ?thesis
  proof (cases "taken \<and> \<not> replace")
    case True
    then have "rows w2 = rows w"
      using w2(4) by (auto simp: taken_def same1 live_row_def reaped_def split: option.splits if_splits)
    moreover have "ks_copy K S slot src dst replace w = (False, w2)"
      using True w1(1) ex by (simp add: ks_copy_def)
    ultimately show ?thesis using that[of False w2] True w2(2,3,5) w1(3) tk by simp
  next
    case False
    define w3 where "w3 = (if taken then snd (w_delete K w2 ?dst) else w2)"
    have w3: "ok (w_kv w3)" "w_last w3 = w_last w" "\<And>k. k \<noteq> ?dst \<Longrightarrow> rows w3 k = rows w k"
      "versions_below (rows w3) (w_last w3)"
      using w2(2,3,5) w1(3) same2 by (auto simp: w3_def world meta_key_def versions_below_meta)
    have res: "ks_copy K S slot src dst replace w =
        (if t = StringT \<or> t = Json then (True, w_put K w3 ?dst row) else copy_rows K S slot src dst t row w3)"
      using False w1(1) ex assms(9) by (auto simp: ks_copy_def w3_def)
    show ?thesis
      by (rule copied[OF assms(1-7) live assms(9,10) w3 res], assumption, rule that) (use False tk in auto)
  qed
qed


lemma copy_true:
  assumes "ok (w_kv w)" "ks_copy K S slot src dst replace w = (True, w')"
  obtains h row t where "live_row (rows w) (st_clock S (w_ticks w)) (meta_key S slot src) = Some (h, row)"
    "mh_value_type h = Some t" "t = StringT \<or> t = Json \<or> cm_decode row \<noteq> None"
proof -
  obtain w1 where w1: "read_live_row K S slot src w =
      (live_row (rows w) (st_clock S (w_ticks w)) (meta_key S slot src), w1)"
    by (rule read_live_row[OF assms(1)])
  show ?thesis
    using assms(2) that unfolding ks_copy_def w1
    by (auto simp: Let_def case_prod_beta copy_rows_def split: option.splits if_splits)
qed

lemma exists_frame:
  assumes "ok (w_kv w)" "versions_below (rows w) (w_last w)" "ks_exists K S slot key w = (r, w1)"
  shows "ok (w_kv w1)" "w_last w1 = w_last w" "versions_below (rows w1) (w_last w1)"
    and "only_rows {meta_key S slot key} (rows w) (rows w1)"
    and "r = (live_row (rows w) (st_clock S (w_ticks w)) (meta_key S slot key) \<noteq> None)" "r \<Longrightarrow> rows w1 = rows w"
proof -
  let ?now = "st_clock S (w_ticks w)" and ?mk = "meta_key S slot key"
  obtain w2 where w2: "read_live_row K S slot key w = (live_row (rows w) ?now ?mk, w2)"
    "ok (w_kv w2)" "w_last w2 = w_last w" "rows w2 = reaped (rows w) ?now ?mk"
    "versions_below (rows w2) (w_last w2)" "only_rows {?mk} (rows w) (rows w2)"
    using read_live_row_frame[OF assms(1,2)] by metis
  have "w1 = w2" and r: "r = (live_row (rows w) ?now ?mk \<noteq> None)" using assms(3) w2(1) by (auto simp: ks_exists_def)
  then show "ok (w_kv w1)" "w_last w1 = w_last w" "versions_below (rows w1) (w_last w1)"
    "only_rows {?mk} (rows w) (rows w1)" "r = (live_row (rows w) ?now ?mk \<noteq> None)" using w2 by simp_all
  show "r \<Longrightarrow> rows w1 = rows w"
    using r w2(4) \<open>w1 = w2\<close> by (auto simp: live_row_def reaped_def split: option.splits if_splits)
qed

lemma del_spec:
  assumes "ok (w_kv w)" "versions_below (rows w) (w_last w)"
  obtains w' where "ks_del K S slot key w =
      (live_row (rows w) (st_clock S (w_ticks w)) (meta_key S slot key) \<noteq> None, w')"
    "ok (w_kv w')" "w_last w' = w_last w" "versions_below (rows w') (w_last w')"
    "rows w' = (if Option.bind (rows w (meta_key S slot key)) mh_decode = None then rows w
       else (rows w)(meta_key S slot key := None))"
proof -
  let ?now = "st_clock S (w_ticks w)" and ?mk = "meta_key S slot key"
  obtain w1 where w1: "read_live_row K S slot key w = (live_row (rows w) ?now ?mk, w1)"
    "ok (w_kv w1)" "w_last w1 = w_last w" "rows w1 = reaped (rows w) ?now ?mk"
    "versions_below (rows w1) (w_last w1)" "only_rows {?mk} (rows w) (rows w1)"
    using read_live_row_frame[OF assms] by metis
  let ?w' = "if live_row (rows w) ?now ?mk \<noteq> None then snd (w_delete K w1 ?mk) else w1"
  have "ks_del K S slot key w = (live_row (rows w) ?now ?mk \<noteq> None, ?w')"
    using w1(1) by (simp add: ks_del_def)
  moreover have "rows ?w' = (if Option.bind (rows w ?mk) mh_decode = None then rows w else (rows w)(?mk := None))"
    using w1(2,4) by (auto simp: world live_row_def reaped_def split: option.splits)
  moreover have "versions_below (rows ?w') (w_last ?w')"
    using w1(2,3,5) by (simp add: world meta_key_def versions_below_meta)
  moreover have "ok (w_kv ?w')" "w_last ?w' = w_last w" using w1(2,3) by (simp_all add: w_delete)
  ultimately show ?thesis using that by blast
qed

end

lemma same_value_frame:
  assumes "same_value ns slot m src m' dst" "ns_ok ns" "key_framed src" "key_framed dst"
    and "only_rows R n m" "only_rows R' m' n'" "R \<inter> own_rows ns slot src = {}" "R' \<inter> own_rows ns slot dst = {}"
  shows "same_value ns slot n src n' dst"
proof -
  have n: "n k = m k" if "k \<in> own_rows ns slot src" for k using assms(5,7) that by (auto simp: only_rows_def)
  have n': "n' k = m' k" if "k \<in> own_rows ns slot dst" for k
    using assms(6,8) that by (auto simp: only_rows_def)
  show ?thesis
    using assms(1)
    unfolding same_value_def n[OF own_rows_meta] n[OF own_rows_subkey] n[OF own_rows_zscore]
      n'[OF own_rows_meta] n'[OF own_rows_subkey] n'[OF own_rows_zscore] .
qed

lemma same_value_coll:
  assumes "same_value (st_ns S) slot m src m' dst" "Option.bind (m (meta_key S slot src)) mh_decode = Some h"
    and "mh_value_type h = Some t" "t \<noteq> StringT" "t \<noteq> Json"
  shows "coll_view t S slot dst m' now = coll_view t S slot src m now"
proof -
  obtain row cm v where r: "m (meta_key S slot src) = Some row" "mh_decode row = Some h" "cm_decode row = Some cm"
    "m' (meta_key S slot dst) = Some (write_version row v)"
    "\<And>f. m' (subkey_envelope (st_ns S) slot dst v f) = m (subkey_envelope (st_ns S) slot src (cm_version cm) f)"
    using assms by (fastforce simp: same_value_def meta_key_def)
  have d: "cm_decode (write_version row v) = Some (cm\<lparr>cm_version := v\<rparr>)" using cm_decode_write_version[OF r(3)] by simp
  have h: "mh_decode (write_version row v) = Some h"
    using cm_decode_header[OF d] cm_decode_header[OF r(3)] r(2) by simp
  show ?thesis
    using r d h assms(3) cm_decode_header[OF r(3)] by (simp add: coll_view_def typed_row_def coll_def)
qed

context kv_store
begin

lemma rename_spec:
  assumes "ok (w_kv w)" "ns_ok (st_ns S)" "key_framed src" "key_framed dst" "src \<noteq> dst"
    and "versions_below (rows w) (w_last w)" "clock_sane S (w_last w)"
    and "ks_rename K S slot src dst nx w = (Renamed, w')"
  shows "same_value (st_ns S) slot (rows w) src (rows w') dst" "rows w' (meta_key S slot src) = None"
    and "ok (w_kv w')" "w_last w \<le> w_last w'" "versions_below (rows w') (w_last w')"
    and "only_rows (key_rows (st_ns S) slot dst \<union> {meta_key S slot src}) (rows w) (rows w')"
proof -
  let ?ns = "st_ns S" and ?src = "meta_key S slot src" and ?dst = "meta_key S slot dst"
  obtain w1 where e1: "ks_exists K S slot src w = (True, w1)"
    using assms(8) by (cases "ks_exists K S slot src w") (auto simp: ks_rename_def split: if_splits)
  note f1 = exists_frame[OF assms(1,6) e1]
  define w2 where "w2 = (if nx then snd (ks_exists K S slot dst w1) else w1)"
  have f2: "ok (w_kv w2)" "w_last w2 = w_last w" "versions_below (rows w2) (w_last w2)" "only_rows {?dst} (rows w) (rows w2)"
    using f1 exists_frame[OF f1(1,3) prod.collapse[symmetric], of S slot dst] by (auto simp: w2_def)
  define w3 where "w3 = snd (ks_copy K S slot src dst True w2)"
  have "fst (ks_copy K S slot src dst True w2) \<and> w' = snd (ks_del K S slot src w3)"
    using assms(5,8) e1 by (auto simp: ks_rename_def w2_def w3_def case_prod_beta Let_def split: if_splits)
  then have c: "ks_copy K S slot src dst True w2 = (True, w3)" "w' = snd (ks_del K S slot src w3)"
    by (simp_all add: w3_def prod_eq_iff)
  obtain h row t where live: "live_row (rows w2) (st_clock S (w_ticks w2)) ?src = Some (h, row)"
    "mh_value_type h = Some t" "t = StringT \<or> t = Json \<or> cm_decode row \<noteq> None"
    by (rule copy_true[OF f2(1) c(1)])
  have sane: "clock_sane S (w_last w2)" using assms(7) f2(2) by simp
  have f3: "ok (w_kv w3)" "w_last w2 \<le> w_last w3" "versions_below (rows w3) (w_last w3)"
    "only_rows (key_rows ?ns slot dst) (rows w2) (rows w3)" "same_value ?ns slot (rows w2) src (rows w3) dst"
    using copy_spec[OF f2(1) assms(2-5) f2(3) sane live, of True] c(1) by (metis prod.inject)+
  obtain w4 where w4: "ks_del K S slot src w3 = (live_row (rows w3) (st_clock S (w_ticks w3)) ?src \<noteq> None, w4)"
    "ok (w_kv w4)" "w_last w4 = w_last w3" "versions_below (rows w4) (w_last w4)"
    "rows w4 = (if Option.bind (rows w3 ?src) mh_decode = None then rows w3 else (rows w3)(?src := None))"
    by (rule del_spec[OF f3(1,3)])
  have w': "w' = w4" using c(2) w4(1) by simp
  have disj: "key_rows ?ns slot src \<inter> key_rows ?ns slot dst = {}"
    using key_rows_disjoint[OF assms(2,2)] assms(5) by simp
  have own: "?src \<in> key_rows ?ns slot src" "?dst \<in> key_rows ?ns slot dst" by (simp_all add: key_rows_def meta_key_def)
  then have "rows w3 ?src = rows w2 ?src" using f3(4) disj by (auto simp: only_rows_def)
  moreover have "rows w2 ?src = Some row" "mh_decode row = Some h"
    using live(1) by (auto simp: live_row_def split: option.splits if_splits)
  ultimately have rows': "rows w' = (rows w3)(?src := None)" using w4(5) w' by simp
  then show "rows w' ?src = None" by simp
  show "ok (w_kv w')" "w_last w \<le> w_last w'" "versions_below (rows w') (w_last w')"
    using w4(2-4) w' f3(2) f2(2) by simp_all
  have o2: "only_rows (key_rows ?ns slot dst) (rows w) (rows w2)"
    using f2(4) by (rule only_rows_mono) (use own(2) in simp)
  have o4: "only_rows {?src} (rows w3) (rows w')" by (simp add: rows' only_rows_def)
  show "only_rows (key_rows ?ns slot dst \<union> {?src}) (rows w) (rows w')"
    using o2 f3(4) o4 by (simp add: only_rows_def)
  show "same_value ?ns slot (rows w) src (rows w') dst"
  proof (rule same_value_frame[OF f3(5) assms(2-4) o2 o4])
    show "key_rows ?ns slot dst \<inter> own_rows ?ns slot src = {}"
      using disj own_rows_key_rows[OF assms(2,3), of slot] by blast
    show "{?src} \<inter> own_rows ?ns slot dst = {}"
      using disj own(1) own_rows_key_rows[OF assms(2,4), of slot] by blast
  qed
qed

end

lemma write_expire_again:
  "mh_decode row = Some h \<Longrightarrow> write_expire (write_expire row a) b = write_expire row b"
  by (cases row) (auto simp: write_expire_def mh_decode_def HEADER_LEN_def split: if_splits)

lemma write_expire_same:
  assumes "mh_decode row = Some h" shows "write_expire row (mh_expire_ms h) = row"
proof -
  have l: "9 \<le> length row" and e: "mh_expire_ms h = of_be (take 8 (drop 1 row))"
    using assms by (auto simp: mh_decode_def HEADER_LEN_def split: if_splits)
  have "to_be64 (mh_expire_ms h) = take 8 (drop 1 row)" unfolding e using l by (simp add: to_be64_of_be)
  moreover have "drop 9 row = drop 8 (drop 1 row)" by simp
  ultimately show ?thesis unfolding write_expire_def by (simp only: append_take_drop_id)
qed

context kv_store
begin

lemma expire_spec:
  assumes "ok (w_kv w)" "live_row (rows w) (st_clock S (w_ticks w)) (meta_key S slot key) = Some (h, row)"
  obtains w1 where "ks_expire_at K S slot key at_ms w = (True, w1)" "ok (w_kv w1)"
    "rows w1 = (if at_ms \<le> st_clock S (w_ticks w + 1) then (rows w)(meta_key S slot key := None)
       else (rows w)(meta_key S slot key \<mapsto> write_expire row at_ms))"
proof -
  let ?mk = "meta_key S slot key"
  have row: "rows w ?mk = Some row" "mh_decode row = Some h" "\<not> mh_is_expired h (st_clock S (w_ticks w))"
    using assms(2) by (auto simp: live_row_def split: option.splits if_splits)
  let ?w = "w\<lparr>w_ticks := w_ticks w + 2\<rparr>"
  have "ks_expire_at K S slot key at_ms w = (True, if at_ms \<le> st_clock S (w_ticks w + 1)
      then snd (w_delete K ?w ?mk) else w_put K ?w ?mk (write_expire row at_ms))"
    using row assms(1) by (simp add: ks_expire_at_def read_live_row_def world read_clock_def)
  then show ?thesis using that assms(1) by (auto simp: world)
qed

lemma ttl_spec:
  assumes "ok (w_kv w)" "live_row (rows w) (st_clock S (w_ticks w)) (meta_key S slot key) = Some (h, row)"
    and "mh_expire_ms h \<noteq> 0"
  shows "ks_ttl K S slot key w = (Ms (mh_expire_ms h - st_clock S (w_ticks w + 1)), w\<lparr>w_ticks := w_ticks w + 2\<rparr>)"
    and "ks_persist K S slot key w =
      (True, w_put K (w\<lparr>w_ticks := w_ticks w + 1\<rparr>) (meta_key S slot key) (write_expire row 0))"
  using assms
  by (auto simp: ks_ttl_def ks_persist_def read_live_row_def world read_clock_def live_row_def
      split: option.splits if_splits)

end

lemma one_hash:
  "mem_ok (w_kv one_hash)" "versions_below (map_of (w_kv one_hash)) (w_last one_hash)"
  "live_row (map_of (w_kv one_hash)) now (meta_key test_store 0 [97]) =
     Some (cm_header (cm_v2 (cm_new Hash 5)), cm_encode (cm_new Hash 5))"
  "map_of (w_kv one_hash) (meta_key test_store 0 [98]) = None"
  "clock_sane test_store (w_last one_hash)"
proof -
  have ok: "mem_ok []" "ns_ok [116]" "key_framed [97]" by (simp_all add: mem_ok_def ns_ok_def key_framed_def)
  then show mok: "mem_ok (w_kv one_hash)" by (simp add: one_hash_def mem_ok_put del: mem_put.simps)
  have m: "map_of (w_kv one_hash) = [subkey_envelope [116] 0 [97] 5 [102] \<mapsto> [118],
      envelope Metadata [116] 0 [97] \<mapsto> cm_encode (cm_new Hash 5)]"
    using ok(1) by (simp add: one_hash_def map_of_mem_put mem_ok_put del: mem_put.simps)
  have "versions_below [subkey_envelope [116] 0 [97] 5 [102] \<mapsto> [118]] 5"
    using ok(2,3) by (simp add: versions_below_def)
  then show "versions_below (map_of (w_kv one_hash)) (w_last one_hash)"
    unfolding m by (simp add: one_hash_def versions_below_meta)
  have k: "meta_key test_store 0 k = envelope Metadata [116] 0 k" for k
    by (simp add: meta_key_def test_store_def store_new_def with_max_value_bytes_def)
  show "live_row (map_of (w_kv one_hash)) now (meta_key test_store 0 [97]) =
     Some (cm_header (cm_v2 (cm_new Hash 5)), cm_encode (cm_new Hash 5))"
    using cm_decode_header[OF cm_decode_encode[of "cm_new Hash 5" "[]"]]
    by (simp add: m k live_row_def mh_is_expired_def)
  show "map_of (w_kv one_hash) (meta_key test_store 0 [98]) = None"
    using ok(2) by (simp add: m k envelope_inject)
  show "clock_sane test_store (w_last one_hash)"
    by (simp add: one_hash_def clock_sane_def can_advance_def test_store_def store_new_def with_max_value_bytes_def)
qed

section \<open>Properties\<close>

text \<open>
  C8. COPY: for a live source of any type, the destination gets the same value under a version of its
  own, with every subkey row and, for a sorted set, every index row; a collection read at the
  destination is at every time the one at the source. The source and all other keys are untouched.
  The copy is refused exactly when there is no REPLACE and the destination is live, and nothing changes then.
\<close>

theorem copy_gives_same_value:
  assumes "kv_store K \<alpha> ok" "ok (w_kv w)" "ns_ok (st_ns S)" "key_framed src" "key_framed dst" "src \<noteq> dst"
    and "versions_below (\<alpha> (w_kv w)) (w_last w)" "clock_sane S (w_last w)"
    and live: "live_row (\<alpha> (w_kv w)) (st_clock S (w_ticks w)) (meta_key S slot src) = Some (h, row)"
    and t: "mh_value_type h = Some t" "t = StringT \<or> t = Json \<or> cm_decode row \<noteq> None"
  shows "\<exists>r w'. ks_copy K S slot src dst replace w = (r, w') \<and> ok (w_kv w') \<and>
    (r \<longleftrightarrow> replace \<or> live_row (\<alpha> (w_kv w)) (st_clock S (w_ticks w + 1)) (meta_key S slot dst) = None) \<and>
    (if r then same_value (st_ns S) slot (\<alpha> (w_kv w)) src (\<alpha> (w_kv w')) dst \<and>
       (t \<noteq> StringT \<and> t \<noteq> Json \<longrightarrow>
          (\<forall>now. coll_view t S slot dst (\<alpha> (w_kv w')) now = coll_view t S slot src (\<alpha> (w_kv w)) now))
     else \<alpha> (w_kv w') = \<alpha> (w_kv w)) \<and>
    only_rows (key_rows (st_ns S) slot dst) (\<alpha> (w_kv w)) (\<alpha> (w_kv w')) \<and>
    versions_below (\<alpha> (w_kv w')) (w_last w') \<and> w_last w \<le> w_last w'"
proof (rule kv_store.copy_spec[OF assms(1-8) live t, where replace = replace])
  fix r w'
  assume c: "ks_copy K S slot src dst replace w = (r, w')" "ok (w_kv w')" "w_last w \<le> w_last w'"
    "versions_below (\<alpha> (w_kv w')) (w_last w')" "only_rows (key_rows (st_ns S) slot dst) (\<alpha> (w_kv w)) (\<alpha> (w_kv w'))"
    "r \<Longrightarrow> same_value (st_ns S) slot (\<alpha> (w_kv w)) src (\<alpha> (w_kv w')) dst" "\<not> r \<Longrightarrow> \<alpha> (w_kv w') = \<alpha> (w_kv w)"
    "r \<longleftrightarrow> replace \<or> live_row (\<alpha> (w_kv w)) (st_clock S (Suc (w_ticks w))) (meta_key S slot dst) = None"
  have "Option.bind (\<alpha> (w_kv w) (meta_key S slot src)) mh_decode = Some h"
    using live by (auto simp: live_row_def split: option.splits if_splits)
  then show ?thesis using c same_value_coll[OF c(6) _ t(1)] by (intro exI[of _ r] exI[of _ w']) simp
qed

theorem copy_gives_same_value_witness:
  "\<exists>w'. ks_copy mem_kv test_store 0 [97] [98] True one_hash = (True, w') \<and>
     coll_view Hash test_store 0 [98] (map_of (w_kv w')) 7 = coll_view Hash test_store 0 [97] (map_of (w_kv one_hash)) 7"
proof -
  have t: "mh_value_type (cm_header (cm_v2 (cm_new Hash 5))) = Some Hash"
    by (simp add: cm_v2_def cm_new_def mh_value_type_def)
  have "cm_decode (cm_encode (cm_new Hash 5)) \<noteq> None" using cm_decode_encode[of "cm_new Hash 5" "[]"] by simp
  then show ?thesis
    using copy_gives_same_value[OF mem.kv_store_axioms one_hash(1) _ _ _ _ one_hash(2,5,3) t, of "[98]" True]
    by (auto simp: ns_ok_def key_framed_def test_store_def store_new_def with_max_value_bytes_def)
qed

text \<open>
  C15. RENAME: when it answers that the key was renamed, the destination has the value the source
  had, the source is gone, and no other key has changed.
\<close>

theorem rename_moves_value:
  assumes "kv_store K \<alpha> ok" "ok (w_kv w)" "ns_ok (st_ns S)" "key_framed src" "key_framed dst" "src \<noteq> dst"
    and "versions_below (\<alpha> (w_kv w)) (w_last w)" "clock_sane S (w_last w)"
    and "ks_rename K S slot src dst nx w = (Renamed, w')"
  shows "same_value (st_ns S) slot (\<alpha> (w_kv w)) src (\<alpha> (w_kv w')) dst \<and>
    \<alpha> (w_kv w') (meta_key S slot src) = None \<and>
    only_rows (key_rows (st_ns S) slot dst \<union> {meta_key S slot src}) (\<alpha> (w_kv w)) (\<alpha> (w_kv w')) \<and>
    versions_below (\<alpha> (w_kv w')) (w_last w')"
  using kv_store.rename_spec[OF assms] by blast

theorem rename_moves_value_witness:
  "\<exists>w'. ks_rename mem_kv test_store 0 [97] [98] False one_hash = (Renamed, w') \<and>
     map_of (w_kv w') (meta_key test_store 0 [97]) = None"
proof -
  have "fst (ks_rename mem_kv test_store 0 [97] [98] False one_hash) = Renamed" by code_simp
  then obtain w' where r: "ks_rename mem_kv test_store 0 [97] [98] False one_hash = (Renamed, w')"
    by (metis prod.collapse)
  then show ?thesis
    using rename_moves_value[OF mem.kv_store_axioms one_hash(1) _ _ _ _ one_hash(2,5) r]
    by (auto simp: ns_ok_def key_framed_def test_store_def store_new_def with_max_value_bytes_def)
qed

text \<open>
  C25. EXPIRE, TTL and PERSIST: an expiry in the past removes the key; one in the future changes only
  the expiry, TTL then answers the time left at its reading of the clock and EXPIRETIME the expiry itself,
  and PERSIST gives back the row the key had, if that had no expiry.
\<close>

theorem expire_ttl_persist:
  assumes "kv_store K \<alpha> ok" "ok (w_kv w)"
    and live: "live_row (\<alpha> (w_kv w)) (st_clock S (w_ticks w)) (meta_key S slot key) = Some (h, row)"
  shows "\<exists>w1. ks_expire_at K S slot key at_ms w = (True, w1) \<and>
    (at_ms \<le> st_clock S (w_ticks w + 1) \<longrightarrow> \<alpha> (w_kv w1) = (\<alpha> (w_kv w))(meta_key S slot key := None)) \<and>
    ((\<forall>n. st_clock S n < at_ms) \<longrightarrow>
      (\<exists>w2 w3. ks_ttl K S slot key w1 = (Ms (at_ms - st_clock S (w_ticks w1 + 1)), w2) \<and>
         fst (ks_expire_time_ms K S slot key w1) = Some at_ms \<and>
         ks_persist K S slot key w2 = (True, w3) \<and>
         \<alpha> (w_kv w3) = (\<alpha> (w_kv w))(meta_key S slot key \<mapsto> write_expire row 0) \<and>
         (mh_expire_ms h = 0 \<longrightarrow> \<alpha> (w_kv w3) = \<alpha> (w_kv w))))"
proof -
  let ?mk = "meta_key S slot key"
  obtain w1 where w1: "ks_expire_at K S slot key at_ms w = (True, w1)" "ok (w_kv w1)"
    "\<alpha> (w_kv w1) = (if at_ms \<le> st_clock S (w_ticks w + 1) then (\<alpha> (w_kv w))(?mk := None)
       else (\<alpha> (w_kv w))(?mk \<mapsto> write_expire row at_ms))"
    by (rule kv_store.expire_spec[OF assms]) blast
  have row: "\<alpha> (w_kv w) ?mk = Some row" "mh_decode row = Some h"
    using live by (auto simp: live_row_def split: option.splits if_splits)
  have "\<exists>w2 w3. ks_ttl K S slot key w1 = (Ms (at_ms - st_clock S (w_ticks w1 + 1)), w2) \<and>
      fst (ks_expire_time_ms K S slot key w1) = Some at_ms \<and> ks_persist K S slot key w2 = (True, w3) \<and>
      \<alpha> (w_kv w3) = (\<alpha> (w_kv w))(?mk \<mapsto> write_expire row 0) \<and> (mh_expire_ms h = 0 \<longrightarrow> \<alpha> (w_kv w3) = \<alpha> (w_kv w))"
    if future: "\<forall>n. st_clock S n < at_ms"
  proof -
    let ?h = "h\<lparr>mh_expire_ms := at_ms\<rparr>" and ?row = "write_expire row at_ms"
    have a: "at_ms \<noteq> 0" "\<alpha> (w_kv w1) = (\<alpha> (w_kv w))(?mk \<mapsto> ?row)"
      using future[rule_format, of 0] future[rule_format, of "w_ticks w + 1"] w1(3) by (auto simp: not_le)
    have live1: "live_row (\<alpha> (w_kv w1)) (st_clock S n) ?mk = Some (?h, ?row)" for n
      using future by (simp add: live_row_def a(2) mh_decode_write_expire[OF row(2)] mh_is_expired_def not_le)
    let ?w2 = "w1\<lparr>w_ticks := w_ticks w1 + 2\<rparr>"
    let ?w3 = "w_put K (?w2\<lparr>w_ticks := w_ticks ?w2 + 1\<rparr>) ?mk (write_expire ?row 0)"
    have "ks_ttl K S slot key w1 = (Ms (at_ms - st_clock S (w_ticks w1 + 1)), ?w2)"
      using kv_store.ttl_spec(1)[OF assms(1) w1(2) live1] a(1) by simp
    moreover have "fst (ks_expire_time_ms K S slot key w1) = Some at_ms"
      by (rule kv_store.read_live_row[OF assms(1) w1(2), of S slot key]) (simp add: ks_expire_time_ms_def live1)
    moreover have "ks_persist K S slot key ?w2 = (True, ?w3)"
      using kv_store.ttl_spec(2)[OF assms(1), of ?w2 S slot key ?h ?row] w1(2) live1 a(1) by simp
    moreover have "\<alpha> (w_kv ?w3) = (\<alpha> (w_kv w))(?mk \<mapsto> write_expire row 0)"
      using kv_store.w_put(2)[OF assms(1)] w1(2) a(2) write_expire_again[OF row(2)] by simp
    moreover have "mh_expire_ms h = 0 \<longrightarrow> (\<alpha> (w_kv w))(?mk \<mapsto> write_expire row 0) = \<alpha> (w_kv w)"
      using write_expire_same[OF row(2)] row(1) by auto
    ultimately show ?thesis by metis
  qed
  then show ?thesis using w1 by auto
qed

theorem expire_ttl_persist_witness:
  "\<exists>w1 w2. ks_expire_at mem_kv test_store 0 [97] 9 one_hash = (True, w1) \<and>
     ks_ttl mem_kv test_store 0 [97] w1 = (Ms 8, w2)"
  using expire_ttl_persist[OF mem.kv_store_axioms one_hash(1,3), of 9] by auto

section \<open>Two readings of the clock\<close>

text \<open>
  TTL reads the clock once to see that the key is live and again to subtract. When the key expires
  between the two, the difference wraps to almost two to the 64th milliseconds.
\<close>

lemma ttl_wraps:
  "fst (ks_ttl mem_kv (test_store\<lparr>st_clock := \<lambda>n. if n = 0 then 9 else 11\<rparr>) 0 [97]
     \<lparr>w_kv = mem_put [] (envelope Metadata [116] 0 [97]) (sm_encode (sm_new [120] 10 1)), w_last = 0, w_ticks = 0\<rparr>) =
   Ms (- 1)"
  by code_simp

end
