(* ===== verification/Flint_Gc.thy ===== *)
theory Flint_Gc
  imports Flint_Keyspace
begin

text \<open>
  Garbage collection: \<open>crates/flint-storage/src/gc.rs\<close>. A sweep deletes expired metadata rows, then
  the subkey and index rows whose version no live metadata row claims.

  The lock the sweeper takes before each delete is a parameter: a function from the number of
  earlier locks, the namespace and the key to what the other threads do to the store until the
  sweeper has the lock. What each pass visits is another: rows written or removed during a scan may be
  visited or not. The lemmas show that a sweep with nobody else at work removes exactly the
  dead rows and counts them, and that with anybody at work it removes no row that is live when
  it has the lock.
\<close>

section \<open>The sweep\<close>

record SweepReport =
  sr_expired_meta :: u64
  sr_orphan_rows :: u64

definition parse_meta_envelope :: "bytes \<Rightarrow> (bytes \<times> bytes) option" where
  [flint_eval]: "parse_meta_envelope k =
     (if elem_get k 0 \<noteq> Some (cf_byte Metadata) then None
      else (case elem_get k 1 of
              None \<Rightarrow> None
            | Some l \<Rightarrow>
                (case slice_get k 2 (2 + unat l) of
                   None \<Rightarrow> None
                 | Some ns \<Rightarrow>
                     (case slice_get k (2 + unat l + 2) (length k) of
                        None \<Rightarrow> None
                      | Some user_key \<Rightarrow> Some (ns, user_key)))))"

definition row_expired :: "u64 \<Rightarrow> bytes option \<Rightarrow> bool" where
  [flint_eval]: "row_expired now_ms row =
     (case Option.bind row mh_decode of None \<Rightarrow> False | Some h \<Rightarrow> mh_is_expired h now_ms)"

definition live_version :: "u64 \<Rightarrow> bytes option \<Rightarrow> u64 option" where
  [flint_eval]: "live_version now_ms row =
     (case row of
        None \<Rightarrow> None
      | Some row \<Rightarrow>
          (case mh_decode row of
             None \<Rightarrow> None
           | Some header \<Rightarrow> if mh_is_expired header now_ms then None else map_option cm_version (cm_decode row)))"

definition sweep_meta ::
  "'s Kv \<Rightarrow> u64 \<Rightarrow> (nat \<Rightarrow> bytes \<Rightarrow> bytes \<Rightarrow> 's \<Rightarrow> 's) \<Rightarrow> 's \<times> nat \<times> SweepReport \<Rightarrow> row \<Rightarrow> 's \<times> nat \<times> SweepReport"
where
  [flint_eval]: "sweep_meta K now_ms lock_key st kv =
     (let (s, n, report) = st; (k, row) = kv
      in if row_expired now_ms (Some row) then
           (case parse_meta_envelope k of
              None \<Rightarrow> (s, n, report)
            | Some (ns, user_key) \<Rightarrow>
                (let s = lock_key n ns user_key s
                 in if row_expired now_ms (kv_get K s k)
                    then (let (existed, s) = kv_delete K s k
                          in (s, n + 1, if existed then report\<lparr>sr_expired_meta := sr_expired_meta report + 1\<rparr> else report))
                    else (s, n + 1, report)))
         else (s, n, report))"

definition judge :: "'s Kv \<Rightarrow> u64 \<Rightarrow> 's \<Rightarrow> bytes \<times> u16 \<times> bytes \<times> u64 \<Rightarrow> bool" where
  [flint_eval]: "judge K now_ms s p =
     (let (ns, slot, user_key, version) = p
      in live_version now_ms (kv_get K s (envelope Metadata ns slot user_key)) \<noteq> Some version)"

definition sweep_orphan ::
  "'s Kv \<Rightarrow> u64 \<Rightarrow> (nat \<Rightarrow> bytes \<Rightarrow> bytes \<Rightarrow> 's \<Rightarrow> 's) \<Rightarrow> 's \<times> nat \<times> SweepReport \<Rightarrow> row \<Rightarrow> 's \<times> nat \<times> SweepReport"
where
  [flint_eval]: "sweep_orphan K now_ms lock_key st kv =
     (let (s, n, report) = st; (k, _) = kv
      in case parse_subkey_envelope k of
           None \<Rightarrow> (s, n, report)
         | Some p \<Rightarrow>
             if judge K now_ms s p then
               (let s = lock_key n (fst p) (fst (snd (snd p))) s
                in if judge K now_ms s p
                   then (let (existed, s) = kv_delete K s k
                         in (s, n + 1, if existed then report\<lparr>sr_orphan_rows := sr_orphan_rows report + 1\<rparr> else report))
                   else (s, n + 1, report))
             else (s, n, report))"

text \<open>
  Each pass visits what \<open>seen\<close> makes of the rows there were when it began; \<open>all_rows\<close> is a scan nobody
  interferes with. The number that a sweep carries along is that of the locks it has taken.
\<close>

definition sweep_pass ::
  "'s Kv \<Rightarrow> ('s \<times> nat \<times> SweepReport \<Rightarrow> row \<Rightarrow> 's \<times> nat \<times> SweepReport) \<Rightarrow> (Cf \<Rightarrow> row list \<Rightarrow> row list) \<Rightarrow> Cf
   \<Rightarrow> 's \<times> nat \<times> SweepReport \<Rightarrow> 's \<times> nat \<times> SweepReport"
where
  [flint_eval]: "sweep_pass K visit seen cf st = foldl visit st (seen cf (kv_for_each_prefix K (fst st) [cf_byte cf]))"

definition sweep_passes ::
  "'s Kv \<Rightarrow> u64 \<Rightarrow> (nat \<Rightarrow> bytes \<Rightarrow> bytes \<Rightarrow> 's \<Rightarrow> 's) \<Rightarrow> (Cf \<Rightarrow> row list \<Rightarrow> row list) \<Rightarrow> 's \<Rightarrow> 's \<times> nat \<times> SweepReport"
where
  [flint_eval]: "sweep_passes K now_ms lock_key seen s =
     (let st = sweep_pass K (sweep_meta K now_ms lock_key) seen Metadata (s, 0, \<lparr>sr_expired_meta = 0, sr_orphan_rows = 0\<rparr>);
          st = sweep_pass K (sweep_orphan K now_ms lock_key) seen Subkey st
      in sweep_pass K (sweep_orphan K now_ms lock_key) seen ZScore st)"

definition all_rows :: "Cf \<Rightarrow> row list \<Rightarrow> row list" where
  [flint_eval]: "all_rows cf rws = rws"

definition sweep ::
  "'s Kv \<Rightarrow> u64 \<Rightarrow> (nat \<Rightarrow> bytes \<Rightarrow> bytes \<Rightarrow> 's \<Rightarrow> 's) \<Rightarrow> 's \<Rightarrow> SweepReport \<times> 's"
where
  [flint_eval]: "sweep K now_ms lock_key s =
     (let (s, _, report) = sweep_passes K now_ms lock_key all_rows s in (report, s))"

definition unguarded :: "nat \<Rightarrow> bytes \<Rightarrow> bytes \<Rightarrow> 's \<Rightarrow> 's" where
  [flint_eval]: "unguarded n ns key s = s"

section \<open>Notions the lemmas use\<close>

text \<open>The rows a sweep may delete: expired metadata, and rows of a version that is not live.\<close>

definition dead_meta :: "u64 \<Rightarrow> (bytes \<rightharpoonup> bytes) \<Rightarrow> bytes \<Rightarrow> bool" where
  "dead_meta now m k \<longleftrightarrow> row_expired now (m k) \<and> parse_meta_envelope k \<noteq> None"

definition dead_sub :: "u64 \<Rightarrow> (bytes \<rightharpoonup> bytes) \<Rightarrow> bytes \<Rightarrow> bool" where
  "dead_sub now m k \<longleftrightarrow>
     (case parse_subkey_envelope k of
        None \<Rightarrow> False
      | Some (ns, slot, key, v) \<Rightarrow> live_version now (m (envelope Metadata ns slot key)) \<noteq> Some v)"

definition dead :: "u64 \<Rightarrow> (bytes \<rightharpoonup> bytes) \<Rightarrow> bytes \<Rightarrow> bool" where
  "dead now m k \<longleftrightarrow> dead_meta now m k \<or> dead_sub now m k"

definition swept :: "u64 \<Rightarrow> (bytes \<rightharpoonup> bytes) \<Rightarrow> bytes \<rightharpoonup> bytes" where
  "swept now m = (\<lambda>k. if dead now m k then None else m k)"

text \<open>The rows that make up a live value: its metadata row and the rows of its version.\<close>

definition value_rows :: "bytes \<Rightarrow> u16 \<Rightarrow> bytes \<Rightarrow> u64 option \<Rightarrow> bytes set" where
  "value_rows ns slot key v =
     {envelope Metadata ns slot key} \<union> {k. \<exists>v'. v = Some v' \<and> parse_subkey_envelope k = Some (ns, slot, key, v')}"

text \<open>A store holds a value when its rows are those of \<open>V\<close>.\<close>

definition holds_value :: "bytes set \<Rightarrow> (bytes \<rightharpoonup> bytes) \<Rightarrow> (bytes \<rightharpoonup> bytes) \<Rightarrow> bool" where
  "holds_value R V m \<longleftrightarrow> (\<forall>k \<in> R. m k = V k)"

section \<open>Lemmas: what one visit does\<close>

lemma parse_meta_envelope_head: "parse_meta_envelope k \<noteq> None \<Longrightarrow> \<exists>r. k = cf_byte Metadata # r"
  by (cases k) (auto simp: parse_meta_envelope_def elem_get_def split: if_splits)

lemma parse_subkey_head:
  "parse_subkey_envelope k = Some p \<Longrightarrow> (\<exists>r. k = cf_byte Subkey # r) \<or> (\<exists>r. k = cf_byte ZScore # r)"
  by (cases k) (auto simp: parse_subkey_envelope_def split: if_splits)

lemma envelope_head: "envelope cf ns slot key = cf_byte cf # tl (envelope cf ns slot key)"
  by (simp add: envelope_def)

lemma live_version_expired: "row_expired now row \<Longrightarrow> live_version now row = None"
  by (auto simp: row_expired_def live_version_def split: option.splits bind_splits)

text \<open>Every change the sweep makes itself is the deletion of a row that is dead at that moment.\<close>

context kv_store
begin

lemma sweep_meta_keeps:
  assumes env: "\<And>n ns k s. ok s \<Longrightarrow> I n (abs s) \<Longrightarrow> ok (lock n ns k s) \<and> I (Suc n) (abs (lock n ns k s))"
    and del: "\<And>n m k. I n m \<Longrightarrow> dead now m k \<Longrightarrow> I n (m(k := None))"
    and "ok s" "I n (abs s)" "sweep_meta K now lock (s, n, rep) kv = (s', n', rep')"
  shows "ok s' \<and> I n' (abs s')"
proof (cases "row_expired now (Some (snd kv)) \<and> parse_meta_envelope (fst kv) \<noteq> None")
  case True
  then obtain ns key where p: "parse_meta_envelope (fst kv) = Some (ns, key)" by auto
  let ?s = "lock n ns key s"
  have l: "ok ?s" "I (Suc n) (abs ?s)" using env[OF assms(3,4)] by auto
  have "s' = (if row_expired now (abs ?s (fst kv)) then snd (kv_delete K ?s (fst kv)) else ?s)" "n' = Suc n"
    using assms(5) True p by (auto simp: sweep_meta_def case_prod_beta Let_def get[OF l(1)] split: if_splits)
  moreover have "I (Suc n) ((abs ?s)(fst kv := None))" if "row_expired now (abs ?s (fst kv))"
    using del[OF l(2)] that p by (simp add: dead_def dead_meta_def)
  ultimately show ?thesis using l delete[OF l(1)] by simp
next
  case False
  then have "s' = s" "n' = n" using assms(5) by (auto simp: sweep_meta_def case_prod_beta Let_def split: option.splits if_splits)
  then show ?thesis using assms(3,4) by simp
qed

lemma judge_eq: "ok s \<Longrightarrow> parse_subkey_envelope k = Some p \<Longrightarrow> judge K now s p = dead_sub now (abs s) k"
  by (simp add: judge_def dead_sub_def get split: prod.split)

lemma sweep_orphan_keeps:
  assumes env: "\<And>n ns k s. ok s \<Longrightarrow> I n (abs s) \<Longrightarrow> ok (lock n ns k s) \<and> I (Suc n) (abs (lock n ns k s))"
    and del: "\<And>n m k. I n m \<Longrightarrow> dead now m k \<Longrightarrow> I n (m(k := None))"
    and "ok s" "I n (abs s)" "sweep_orphan K now lock (s, n, rep) kv = (s', n', rep')"
  shows "ok s' \<and> I n' (abs s')"
proof (cases "\<exists>p. parse_subkey_envelope (fst kv) = Some p \<and> judge K now s p")
  case True
  then obtain p where p: "parse_subkey_envelope (fst kv) = Some p" "judge K now s p" by auto
  let ?s = "lock n (fst p) (fst (snd (snd p))) s"
  have l: "ok ?s" "I (Suc n) (abs ?s)" using env[OF assms(3,4)] by auto
  have "s' = (if dead_sub now (abs ?s) (fst kv) then snd (kv_delete K ?s (fst kv)) else ?s)" "n' = Suc n"
    using assms(5) p by (auto simp: sweep_orphan_def case_prod_beta Let_def judge_eq[OF l(1) p(1)] split: if_splits)
  moreover have "I (Suc n) ((abs ?s)(fst kv := None))" if "dead_sub now (abs ?s) (fst kv)"
    using del[OF l(2)] that by (simp add: dead_def)
  ultimately show ?thesis using l delete[OF l(1)] by simp
next
  case False
  then have "s' = s" "n' = n"
    using assms(5) by (auto simp: sweep_orphan_def case_prod_beta Let_def split: option.splits if_splits)
  then show ?thesis using assms(3,4) by simp
qed

lemma pass_keeps:
  assumes "\<And>s n rep kv s' n' rep'. ok s \<Longrightarrow> I n (abs s) \<Longrightarrow> visit (s, n, rep) kv = (s', n', rep') \<Longrightarrow> ok s' \<and> I n' (abs s')"
    and "ok s" "I n (abs s)" "sweep_pass K visit seen cf (s, n, rep) = (s', n', rep')"
  shows "ok s' \<and> I n' (abs s')"
proof -
  have "foldl visit (s, n, rep) xs = (s', n', rep') \<Longrightarrow> ok s' \<and> I n' (abs s')" for xs
    using assms(2,3)
  proof (induction xs arbitrary: s n rep)
    case (Cons x xs)
    obtain s1 n1 rep1 where v: "visit (s, n, rep) x = (s1, n1, rep1)" using prod_cases3 by blast
    show ?case using Cons.IH[of s1 n1 rep1] Cons.prems(1) assms(1)[OF Cons.prems(2,3) v] v by simp
  qed simp
  then show ?thesis using assms(4) by (simp add: sweep_pass_def)
qed

text \<open>
  What holds of the store after any number of locks, kept by the other threads and by the deletion of dead
  rows, holds at the end of the sweep.
\<close>

lemma sweep_keeps:
  assumes env: "\<And>n ns k s. ok s \<Longrightarrow> I n (abs s) \<Longrightarrow> ok (lock n ns k s) \<and> I (Suc n) (abs (lock n ns k s))"
    and del: "\<And>n m k. I n m \<Longrightarrow> dead now m k \<Longrightarrow> I n (m(k := None))"
    and "ok s" "I 0 (abs s)" "sweep_passes K now lock seen s = (s', n', rep')"
  shows "ok s' \<and> I n' (abs s')"
proof -
  have m: "\<And>s n rep kv s' n' rep'. ok s \<Longrightarrow> I n (abs s) \<Longrightarrow>
      sweep_meta K now lock (s, n, rep) kv = (s', n', rep') \<Longrightarrow> ok s' \<and> I n' (abs s')"
    by (rule sweep_meta_keeps[of I, OF env del]) blast+
  have o: "\<And>s n rep kv s' n' rep'. ok s \<Longrightarrow> I n (abs s) \<Longrightarrow>
      sweep_orphan K now lock (s, n, rep) kv = (s', n', rep') \<Longrightarrow> ok s' \<and> I n' (abs s')"
    by (rule sweep_orphan_keeps[of I, OF env del]) blast+
  obtain s1 n1 r1 where 1: "sweep_pass K (sweep_meta K now lock) seen Metadata (s, 0, \<lparr>sr_expired_meta = 0, sr_orphan_rows = 0\<rparr>) = (s1, n1, r1)"
    using prod_cases3 by blast
  obtain s2 n2 r2 where 2: "sweep_pass K (sweep_orphan K now lock) seen Subkey (s1, n1, r1) = (s2, n2, r2)"
    using prod_cases3 by blast
  have 3: "sweep_pass K (sweep_orphan K now lock) seen ZScore (s2, n2, r2) = (s', n', rep')"
    using assms(5) by (simp add: sweep_passes_def 1 2)
  have s1: "ok s1 \<and> I n1 (abs s1)"
    by (rule pass_keeps[where I = I, OF _ _ _ 1]) (rule m, assumption+, simp_all add: assms(3,4))
  have s2: "ok s2 \<and> I n2 (abs s2)"
    by (rule pass_keeps[where I = I, OF _ _ _ 2]) (rule o, assumption+, simp_all add: s1)
  show ?thesis
    by (rule pass_keeps[where I = I, OF _ _ _ 3]) (rule o, assumption+, simp_all add: s2)
qed

end

section \<open>Lemmas: a sweep alone\<close>

text \<open>
  A pass whose visits delete a row exactly when a judgement on it says so, and leave the judgement on
  the others as it was.
\<close>

context kv_store
begin

lemma pass_alone:
  assumes "ok s" "distinct (map fst xs)" "\<And>k v. (k, v) \<in> set xs \<Longrightarrow> abs s k = Some v"
    and visit: "\<And>s n rep k v. ok s \<Longrightarrow> abs s k = Some v \<Longrightarrow> J (abs s) \<Longrightarrow>
      \<exists>n'. visit (s, n, rep) (k, v) = (if D k then (snd (kv_delete K s k), n', bump rep) else (s, n', rep))"
    and "J (abs s)" "\<And>m k. J m \<Longrightarrow> D k \<Longrightarrow> J (m(k := None))"
  obtains s' n' where "foldl visit (s, n, rep) xs = (s', n', (bump ^^ length (filter D (map fst xs))) rep)" "ok s'"
    "abs s' = (\<lambda>k. if k \<in> fst ` set xs \<and> D k then None else abs s k)" "J (abs s')"
proof -
  have "\<exists>s' n'. foldl visit (s, n, rep) xs = (s', n', (bump ^^ length (filter D (map fst xs))) rep) \<and> ok s' \<and>
      abs s' = (\<lambda>k. if k \<in> fst ` set xs \<and> D k then None else abs s k) \<and> J (abs s')"
    using assms(1-3,5)
  proof (induction xs arbitrary: s n rep)
    case (Cons x xs)
    obtain k v where x: "x = (k, v)" by fastforce
    have here: "abs s k = Some v" using Cons.prems(3) x by simp
    obtain n1 where v1: "visit (s, n, rep) (k, v) = (if D k then (snd (kv_delete K s k), n1, bump rep) else (s, n1, rep))"
      using visit[OF Cons.prems(1) here Cons.prems(4)] by blast
    define s1 where "s1 = (if D k then snd (kv_delete K s k) else s)"
    have s1: "ok s1" "abs s1 = (if D k then (abs s)(k := None) else abs s)" "J (abs s1)"
      using Cons.prems(1,4) assms(6) delete[OF Cons.prems(1)] by (auto simp: s1_def)
    have ahead: "abs s1 k' = Some v'" if "(k', v') \<in> set xs" for k' v'
      using that Cons.prems(2,3) s1(2) by (force simp: x)
    obtain s' n' where r: "foldl visit (s1, n1, if D k then bump rep else rep) xs =
        (s', n', (bump ^^ length (filter D (map fst xs))) (if D k then bump rep else rep))" "ok s'"
        "abs s' = (\<lambda>k. if k \<in> fst ` set xs \<and> D k then None else abs s1 k)" "J (abs s')"
      using Cons.IH[OF s1(1) _ ahead s1(3), of n1 "if D k then bump rep else rep"] Cons.prems(2) by auto
    have "abs s' = (\<lambda>k'. if k' \<in> fst ` set (x # xs) \<and> D k' then None else abs s k')"
      unfolding r(3) s1(2) by (auto simp: x)
    moreover have "foldl visit (s, n, rep) (x # xs) = (s', n', (bump ^^ length (filter D (map fst (x # xs)))) rep)"
      using r(1) v1 by (simp add: x s1_def funpow_swap1 split: if_splits)
    ultimately show ?case using r(2,4) by blast
  qed auto
  then show ?thesis using that by blast
qed

end

lemma bump_meta: "((\<lambda>r. r\<lparr>sr_expired_meta := sr_expired_meta r + 1\<rparr>) ^^ n) rep =
    rep\<lparr>sr_expired_meta := sr_expired_meta rep + word_of_nat n\<rparr>"
  by (induction n) (simp_all add: add.commute)

lemma bump_orphan: "((\<lambda>r. r\<lparr>sr_orphan_rows := sr_orphan_rows r + 1\<rparr>) ^^ n) rep =
    rep\<lparr>sr_orphan_rows := sr_orphan_rows rep + word_of_nat n\<rparr>"
  by (induction n) (simp_all add: add.commute)

lemma rows_of_keys_set: "finite (dom m) \<Longrightarrow> fst ` set (rows_of m P) = {k \<in> dom m. P k}"
  by (simp add: rows_of_def image_image)

lemma filter_rows_count:
  assumes "finite (dom m)"
  shows "length (filter D (map fst (rows_of m P))) = card {k \<in> dom m. P k \<and> D k}"
proof -
  have "set (filter D (map fst (rows_of m P))) = {k \<in> dom m. P k \<and> D k}"
    using assms by (auto simp: rows_of_keys)
  moreover have d: "distinct (filter D (map fst (rows_of m P)))" by (simp add: rows_of_keys)
  ultimately show ?thesis using distinct_card[OF d] by (simp only:)
qed

lemma prefix_cf: "prefix [cf_byte cf] k \<longleftrightarrow> (\<exists>r. k = cf_byte cf # r)"
  by (auto simp: prefix_def)

lemma dead_sub_same:
  assumes "\<And>ns slot key. live_version now (m' (envelope Metadata ns slot key)) = live_version now (m (envelope Metadata ns slot key))"
  shows "dead_sub now m' k = dead_sub now m k"
  using assms by (simp add: dead_sub_def split: option.split)

context kv_store
begin

lemma meta_pass_alone:
  fixes s defines "m \<equiv> abs s"
  assumes "ok s"
  obtains s' n' where "sweep_pass K (sweep_meta K now unguarded) all_rows Metadata (s, n, rep) =
      (s', n', rep\<lparr>sr_expired_meta := sr_expired_meta rep + word_of_nat (card {k \<in> dom m. dead_meta now m k})\<rparr>)"
    "ok s'" "abs s' = (\<lambda>k. if dead_meta now m k then None else m k)"
proof -
  let ?xs = "rows_of m (prefix [cf_byte Metadata])" and ?bump = "\<lambda>r. r\<lparr>sr_expired_meta := sr_expired_meta r + 1\<rparr>"
  let ?J = "\<lambda>m'. \<forall>k. m' k = None \<or> m' k = m k"
  have fin: "finite (dom m)" using finite_abs[OF assms(2)] by (simp add: m_def)
  have d: "distinct (map fst ?xs)" by (simp add: rows_of_keys)
  have at: "(k, v) \<in> set ?xs \<Longrightarrow> abs s k = Some v" for k v using rows_of_set[OF fin] by (simp add: m_def)
  have visit: "\<exists>n'. sweep_meta K now unguarded (s, n, rep) (k, v) =
      (if dead_meta now m k then (snd (kv_delete K s k), n', ?bump rep) else (s, n', rep))"
    if st: "ok s" "abs s k = Some v" "?J (abs s)" for s n rep k v
  proof -
    have mk: "m k = Some v" using st(2,3) by (metis option.distinct(1))
    obtain s2 where del: "kv_delete K s k = (True, s2)"
      using delete[OF st(1), of k] st(2) by (cases "kv_delete K s k") simp
    show ?thesis
      by (simp add: sweep_meta_def unguarded_def Let_def get[OF st(1)] st(2) dead_meta_def mk del split: option.split)
  qed
  obtain s' n' where r: "foldl (sweep_meta K now unguarded) (s, n, rep) ?xs =
      (s', n', (?bump ^^ length (filter (dead_meta now m) (map fst ?xs))) rep)" "ok s'"
    "abs s' = (\<lambda>k. if k \<in> fst ` set ?xs \<and> dead_meta now m k then None else abs s k)"
    by (rule pass_alone[OF assms(2) d at, where J = ?J and D = "dead_meta now m" and bump = ?bump and visit = "sweep_meta K now unguarded"])
      (use visit in \<open>auto simp: m_def\<close>)
  have head: "prefix [cf_byte Metadata] k \<and> k \<in> dom m" if "dead_meta now m k" for k
    using that parse_meta_envelope_head[of k] by (auto simp: dead_meta_def prefix_cf row_expired_def split: option.splits bind_splits)
  then have "{k \<in> dom m. prefix [cf_byte Metadata] k \<and> dead_meta now m k} = {k \<in> dom m. dead_meta now m k}" by blast
  then have c: "length (filter (dead_meta now m) (map fst ?xs)) = card {k \<in> dom m. dead_meta now m k}"
    by (simp only: filter_rows_count[OF fin])
  have a: "abs s' = (\<lambda>k. if dead_meta now m k then None else m k)" 
    unfolding r(3) rows_of_keys_set[OF fin] m_def[symmetric] by (rule ext) (use head in simp)
  show ?thesis
    by (rule that[of s' n'])
      (simp_all only: sweep_pass_def all_rows_def fst_conv for_each_prefix[OF assms(2)] m_def[symmetric] r(1,2) c bump_meta a)
qed

lemma orphan_pass_alone:
  fixes s defines "m \<equiv> abs s"
  assumes "ok s" "cf \<noteq> Metadata"
  obtains s' n' where "sweep_pass K (sweep_orphan K now unguarded) all_rows cf (s, n, rep) =
      (s', n', rep\<lparr>sr_orphan_rows := sr_orphan_rows rep +
         word_of_nat (card {k \<in> dom m. prefix [cf_byte cf] k \<and> dead_sub now m k})\<rparr>)"
    "ok s'" "abs s' = (\<lambda>k. if prefix [cf_byte cf] k \<and> dead_sub now m k then None else m k)"
proof -
  let ?xs = "rows_of m (prefix [cf_byte cf])" and ?bump = "\<lambda>r. r\<lparr>sr_orphan_rows := sr_orphan_rows r + 1\<rparr>"
  let ?J = "\<lambda>m'. \<forall>ns slot key. m' (envelope Metadata ns slot key) = m (envelope Metadata ns slot key)"
  have fin: "finite (dom m)" using finite_abs[OF assms(2)] by (simp add: m_def)
  have d: "distinct (map fst ?xs)" by (simp add: rows_of_keys)
  have at: "(k, v) \<in> set ?xs \<Longrightarrow> abs s k = Some v" for k v using rows_of_set[OF fin] by (simp add: m_def)
  have visit: "\<exists>n'. sweep_orphan K now unguarded (s, n, rep) (k, v) =
      (if dead_sub now m k then (snd (kv_delete K s k), n', ?bump rep) else (s, n', rep))"
    if st: "ok s" "abs s k = Some v" "?J (abs s)" for s n rep k v
  proof (cases "parse_subkey_envelope k")
    case None
    then show ?thesis by (simp add: sweep_orphan_def dead_sub_def)
  next
    case (Some p)
    have "dead_sub now (abs s) k = dead_sub now m k" by (rule dead_sub_same) (use st(3) in simp)
    then have j: "judge K now s p = dead_sub now m k" using judge_eq[OF st(1) Some] by simp
    obtain s2 where del: "kv_delete K s k = (True, s2)"
      using delete[OF st(1), of k] st(2) by (cases "kv_delete K s k") simp
    show ?thesis by (simp add: sweep_orphan_def unguarded_def Let_def Some j del)
  qed
  have stay: "?J (m'(k := None))" if "?J m'" "dead_sub now m k" for m' k
    using that by (auto simp: dead_sub_def split: option.splits)
  obtain s' n' where r: "foldl (sweep_orphan K now unguarded) (s, n, rep) ?xs =
      (s', n', (?bump ^^ length (filter (dead_sub now m) (map fst ?xs))) rep)" "ok s'"
    "abs s' = (\<lambda>k. if k \<in> fst ` set ?xs \<and> dead_sub now m k then None else abs s k)"
    by (rule pass_alone[OF assms(2) d at, where J = ?J and D = "dead_sub now m" and bump = ?bump and visit = "sweep_orphan K now unguarded"])
      (use visit stay in \<open>auto simp: m_def\<close>)
  have a: "abs s' = (\<lambda>k. if prefix [cf_byte cf] k \<and> dead_sub now m k then None else m k)"
    unfolding r(3) rows_of_keys_set[OF fin] m_def[symmetric] by (rule ext) auto
  show ?thesis
    by (rule that[of s' n'])
      (simp_all only: sweep_pass_def all_rows_def fst_conv for_each_prefix[OF assms(2)] m_def[symmetric] r(1,2)
        filter_rows_count[OF fin] bump_orphan a)
qed


lemma sweep_alone:
  fixes s defines "m \<equiv> abs s"
  assumes "ok s"
  obtains s' where "sweep K now unguarded s =
      (\<lparr>sr_expired_meta = word_of_nat (card {k \<in> dom m. dead_meta now m k}),
        sr_orphan_rows = word_of_nat (card {k \<in> dom m. dead_sub now m k})\<rparr>, s')" "ok s'" "abs s' = swept now m"
proof -
  have fin: "finite (dom m)" using finite_abs[OF assms(2)] by (simp add: m_def)
  define a :: u64 where "a = word_of_nat (card {k \<in> dom m. dead_meta now m k})"
  obtain s1 n1 where p1: "sweep_pass K (sweep_meta K now unguarded) all_rows Metadata (s, 0, \<lparr>sr_expired_meta = 0, sr_orphan_rows = 0\<rparr>) =
      (s1, n1, \<lparr>sr_expired_meta = a, sr_orphan_rows = 0\<rparr>)"
    "ok s1" "abs s1 = (\<lambda>k. if dead_meta now m k then None else m k)"
    by (rule meta_pass_alone[OF assms(2), of now 0 "\<lparr>sr_expired_meta = 0, sr_orphan_rows = 0\<rparr>", folded m_def]) (simp add: a_def)
  have not_both: "\<not> (dead_meta now m k \<and> dead_sub now m k)" for k
    using parse_meta_envelope_head[of k] parse_subkey_head[of k]
    by (auto simp: dead_meta_def dead_sub_def split: option.splits)
  have same1: "dead_sub now (abs s1) = dead_sub now m"
    by (rule ext, rule dead_sub_same) (auto simp: p1(3) dead_meta_def live_version_expired live_version_def[of _ None])
  define b1 where "b1 = card {k \<in> dom (abs s1). prefix [cf_byte Subkey] k \<and> dead_sub now m k}"
  obtain s2 n2 where p2: "sweep_pass K (sweep_orphan K now unguarded) all_rows Subkey (s1, n1, \<lparr>sr_expired_meta = a, sr_orphan_rows = 0\<rparr>) =
      (s2, n2, \<lparr>sr_expired_meta = a, sr_orphan_rows = word_of_nat b1\<rparr>)"
    "ok s2" "abs s2 = (\<lambda>k. if prefix [cf_byte Subkey] k \<and> dead_sub now m k then None else abs s1 k)"
    by (rule orphan_pass_alone[OF p1(2), of Subkey now n1 "\<lparr>sr_expired_meta = a, sr_orphan_rows = 0\<rparr>", unfolded same1])
      (simp_all add: b1_def)
  have same2: "dead_sub now (abs s2) = dead_sub now m"
    unfolding same1[symmetric] by (rule ext, rule dead_sub_same) (subst (1 2) envelope_head, simp add: p2(3) prefix_cf)
  define b2 where "b2 = card {k \<in> dom (abs s2). prefix [cf_byte ZScore] k \<and> dead_sub now m k}"
  obtain s3 n3 where p3: "sweep_pass K (sweep_orphan K now unguarded) all_rows ZScore (s2, n2, \<lparr>sr_expired_meta = a, sr_orphan_rows = word_of_nat b1\<rparr>) =
      (s3, n3, \<lparr>sr_expired_meta = a, sr_orphan_rows = word_of_nat b1 + word_of_nat b2\<rparr>)"
    "ok s3" "abs s3 = (\<lambda>k. if prefix [cf_byte ZScore] k \<and> dead_sub now m k then None else abs s2 k)"
    by (rule orphan_pass_alone[OF p2(2), of ZScore now n2 "\<lparr>sr_expired_meta = a, sr_orphan_rows = word_of_nat b1\<rparr>", unfolded same2])
      (simp_all add: b2_def)
  have head: "dead_sub now m k \<Longrightarrow> prefix [cf_byte Subkey] k \<noteq> prefix [cf_byte ZScore] k" for k
    using parse_subkey_head[of k] by (auto simp: dead_sub_def prefix_cf split: option.splits)
  have dom1: "k \<in> dom (abs s1) \<longleftrightarrow> k \<in> dom m" if "dead_sub now m k" for k
    using that not_both[of k] by (simp add: p1(3) domIff)
  have "b1 + b2 = card {k \<in> dom m. dead_sub now m k}"
  proof -
    have B1: "{k \<in> dom (abs s1). prefix [cf_byte Subkey] k \<and> dead_sub now m k} =
        {k \<in> dom m. dead_sub now m k \<and> prefix [cf_byte Subkey] k}" using dom1 by blast
    have "k \<in> dom (abs s2) \<longleftrightarrow> k \<in> dom m" if "dead_sub now m k" "prefix [cf_byte ZScore] k" for k
      using that head[of k] dom1[of k] by (simp add: p2(3) domIff)
    then have B2: "{k \<in> dom (abs s2). prefix [cf_byte ZScore] k \<and> dead_sub now m k} =
        {k \<in> dom m. dead_sub now m k \<and> \<not> prefix [cf_byte Subkey] k}" using head by blast
    have "{k \<in> dom m. dead_sub now m k} = {k \<in> dom m. dead_sub now m k \<and> prefix [cf_byte Subkey] k} \<union>
        {k \<in> dom m. dead_sub now m k \<and> \<not> prefix [cf_byte Subkey] k}" by blast
    then show ?thesis unfolding b1_def b2_def B1 B2 using fin by (subst card_Un_disjoint[symmetric]) auto
  qed
  then have b: "word_of_nat b1 + word_of_nat b2 = (word_of_nat (card {k \<in> dom m. dead_sub now m k}) :: u64)"
    by (metis of_nat_add)
  have "abs s3 = swept now m"
    unfolding p3(3) p2(3) p1(3) swept_def dead_def using head by (intro ext) auto
  moreover have "sweep K now unguarded s = (\<lparr>sr_expired_meta = a, sr_orphan_rows = word_of_nat b1 + word_of_nat b2\<rparr>, s3)"
    by (simp add: sweep_def sweep_passes_def p1(1) p2(1) p3(1))
  ultimately show ?thesis using that[of s3] p3(2) by (simp add: a_def b)
qed

end

section \<open>Properties\<close>

text \<open>
  C24. A sweep with nobody else at work removes exactly the dead rows, that is the expired metadata
  rows and the subkey and index rows of versions that are not live, and reports how many there were.
\<close>

theorem sweep_removes_the_dead:
  assumes "kv_store K \<alpha> ok" "ok s"
  shows "\<exists>s'. sweep K now unguarded s =
      (\<lparr>sr_expired_meta = word_of_nat (card {k \<in> dom (\<alpha> s). dead_meta now (\<alpha> s) k}),
        sr_orphan_rows = word_of_nat (card {k \<in> dom (\<alpha> s). dead_sub now (\<alpha> s) k})\<rparr>, s') \<and>
    ok s' \<and> \<alpha> s' = swept now (\<alpha> s)"
  by (rule kv_store.sweep_alone[OF assms]) blast

theorem sweep_removes_the_dead_witness:
  "sr_orphan_rows (fst (sweep mem_kv 1 unguarded (mem_put [] (subkey_envelope [116] 0 [97] 5 [102]) [118]))) = 1"
proof -
  let ?k = "subkey_envelope [116] 0 [97] 5 [102]" and ?s = "mem_put [] (subkey_envelope [116] 0 [97] 5 [102]) [118]"
  have ok: "mem_ok []" "ns_ok [116]" "key_framed [97]" by (simp_all add: mem_ok_def ns_ok_def key_framed_def)
  have m: "map_of ?s = [?k \<mapsto> [118]]" using ok(1) by (simp add: map_of_mem_put del: mem_put.simps)
  have "dead_sub 1 (map_of ?s) ?k" using ok(2,3) unfolding m by (simp add: dead_sub_def live_version_def)
  then have "{k \<in> dom (map_of ?s). dead_sub 1 (map_of ?s) k} = {?k}" unfolding m by auto
  then show ?thesis
    using sweep_removes_the_dead[OF mem.kv_store_axioms mem_ok_put[OF ok(1)], of 1 ?k "[118]"]
    by (auto simp del: mem_put.simps)
qed

text \<open>
  C13. A sweep spares every value that is live once it has its lock, whatever other threads do meanwhile and
  whatever its scans happen to visit. The value may be there from the start, or be written by another thread
  while the sweeper waits for its \<open>N\<close>th lock, at a key the scan has judged expired just before: if the
  metadata row is not expired and the others leave alone, from then on, that row and the rows of its version,
  then at the end of the sweep these rows are as they were written.
\<close>

theorem sweep_keeps_live_values:
  assumes "kv_store K \<alpha> ok" "ok s" "J (\<alpha> s)"
    and others: "\<And>n ns' key' s. ok s \<Longrightarrow> J (\<alpha> s) \<Longrightarrow> ok (lock n ns' key' s) \<and> J (\<alpha> (lock n ns' key' s))"
    and "\<And>m k. J m \<Longrightarrow> J (m(k := None))"
    and V: "V (envelope Metadata ns slot key) = Some row" "\<not> row_expired now (Some row)"
    and R: "R = value_rows ns slot key (live_version now (Some row))"
    and start: "N = 0 \<Longrightarrow> holds_value R V (\<alpha> s)"
    and written: "\<And>n ns' key' s. N = Suc n \<Longrightarrow> ok s \<Longrightarrow> J (\<alpha> s) \<Longrightarrow> holds_value R V (\<alpha> (lock n ns' key' s))"
    and after: "\<And>n ns' key' s. N \<le> n \<Longrightarrow> ok s \<Longrightarrow> holds_value R V (\<alpha> s) \<Longrightarrow> holds_value R V (\<alpha> (lock n ns' key' s))"
    and "sweep_passes K now lock seen s = (s', n', report)" "N \<le> n'"
  shows "holds_value R V (\<alpha> s')"
proof -
  let ?I = "\<lambda>n m. J m \<and> (N \<le> n \<longrightarrow> holds_value R V m)"
  have live: "\<not> dead now m k" if inR: "holds_value R V m" "k \<in> R" for m k
  proof -
    have meta: "m (envelope Metadata ns slot key) = Some row" using inR(1) V(1) by (simp add: holds_value_def value_rows_def R)
    show ?thesis
    proof (cases "k = envelope Metadata ns slot key")
      case True
      then show ?thesis using meta V(2) by (simp add: dead_def dead_meta_def dead_sub_def)
    next
      case False
      then obtain v where v: "live_version now (Some row) = Some v" "parse_subkey_envelope k = Some (ns, slot, key, v)"
        using inR(2) by (auto simp: value_rows_def R)
      then show ?thesis
        using meta parse_meta_envelope_head[of k] parse_subkey_head[of k] by (auto simp: dead_def dead_meta_def dead_sub_def)
    qed
  qed
  have "ok s' \<and> ?I n' (\<alpha> s')"
  proof (rule kv_store.sweep_keeps[OF assms(1), where I = ?I])
    show "ok (lock n ns' key' s1) \<and> ?I (Suc n) (\<alpha> (lock n ns' key' s1))" if "ok s1" "?I n (\<alpha> s1)" for n ns' key' s1
    proof -
      have "ok (lock n ns' key' s1) \<and> J (\<alpha> (lock n ns' key' s1))" using others that by blast
      moreover have "holds_value R V (\<alpha> (lock n ns' key' s1))" if "N \<le> Suc n"
        using that written[of n s1] after[of n s1] \<open>ok s1\<close> \<open>?I n (\<alpha> s1)\<close> by (auto simp: le_Suc_eq)
      ultimately show ?thesis by blast
    qed
    show "?I n (m(k := None))" if "?I n m" "dead now m k" for n m k
      using that live[of m k] assms(5) by (auto simp: holds_value_def)
    show "?I 0 (\<alpha> s)" using assms(3) start by simp
  qed (use assms(2,12) in simp_all)
  then show ?thesis using assms(13) by simp
qed

text \<open>
  A hash has expired and the sweep has found it so; while it waits for the lock another thread writes a
  new hash at the key. The new one stays.
\<close>

theorem sweep_keeps_live_values_witness:
  "map_of (fst (sweep_passes mem_kv 3
      (\<lambda>n ns key s. if n = 0 then mem_put s (envelope Metadata [116] 0 [97]) (cm_encode (cm_new Hash 9)) else s) all_rows
      [(envelope Metadata [116] 0 [97], write_expire (cm_encode (cm_new Hash 5)) 2)]))
     (envelope Metadata [116] 0 [97]) = Some (cm_encode (cm_new Hash 9))"
proof -
  let ?mk = "envelope Metadata [116] 0 [97]" and ?new = "cm_encode (cm_new Hash 9)"
  let ?lock = "\<lambda>n ns key s. if n = 0 then mem_put s ?mk ?new else s" and ?s = "[(?mk, write_expire (cm_encode (cm_new Hash 5)) 2)]"
  let ?J = "\<lambda>m. \<forall>k. parse_subkey_envelope k = Some ([116], 0, [97], 9) \<longrightarrow> m k = None"
  let ?R = "value_rows [116] 0 [97] (live_version 3 (Some ?new))"
  have d: "cm_decode ?new = Some (cm_v2 (cm_new Hash 9))" using cm_decode_encode[of "cm_new Hash 9" "[]"] by simp
  have e: "\<not> row_expired 3 (Some ?new)" and v: "live_version 3 (Some ?new) = Some 9"
    by (simp_all add: row_expired_def live_version_def d cm_decode_header[OF d] mh_is_expired_def)
  have mk: "parse_subkey_envelope ?mk = None" by (simp add: parse_subkey_envelope_def envelope_def)
  have locked: "fst (snd (sweep_passes mem_kv 3 ?lock all_rows ?s)) \<ge> 1" by code_simp
  obtain s' n' report where p: "sweep_passes mem_kv 3 ?lock all_rows ?s = (s', n', report)" using prod_cases3 by blast
  have ok: "mem_ok ?s" by (simp add: mem_ok_def)
  have written: "holds_value ?R [?mk \<mapsto> ?new] (map_of (mem_put s ?mk ?new))" if "mem_ok s" "?J (map_of s)" for s
    using that mk by (auto simp: v holds_value_def value_rows_def map_of_mem_put simp del: mem_put.simps)
  have "holds_value ?R [?mk \<mapsto> ?new] (map_of s')"
    by (rule sweep_keeps_live_values[OF mem.kv_store_axioms ok, where J = ?J and N = 1 and lock = ?lock and row = ?new and now = 3
          and ns = "[116]" and slot = 0 and key = "[97]" and seen = all_rows])
      (use e mk p locked written in \<open>auto simp: map_of_mem_put mem_ok_put simp del: mem_put.simps\<close>)
  then show ?thesis by (simp add: p holds_value_def value_rows_def)
qed

end
