(* ===== verification/Flint_Bits.thy ===== *)
theory Flint_Bits
  imports Flint_Prelude
begin

text \<open>
  Bits of byte strings: the pure functions of \<open>crates/flint-storage/src/strings.rs\<close> behind BITCOUNT,
  BITPOS, BITOP and BITFIELD. Bit zero is the high bit of the first byte. Indexes the code keeps
  in an \<open>i64\<close> are \<open>int\<close>: a string's length times eight fits, so the additions here do not
  overflow; the field arithmetic of BITFIELD does wrap and is on 64-bit words.

  The traits \<open>ByteSource\<close> and \<open>BitBuf\<close> are records of functions. The locale \<open>bit_buf\<close> states
  what an implementation of the second promises: its bytes are those of a byte string that reads
  zero past its end and grows when it is written past it, up to a limit. A plain byte string is the
  reference, and every implementation does what the reference does (\<open>op_read_ref\<close>,
  \<open>write_bits_ref\<close>). The lemmas say which bits are counted, which bit is found, what each operator
  computes of every bit, when a field overflows and what is stored then, and that a field
  written is the field read.
\<close>

section \<open>Counting and searching\<close>

record ByteSource =
  bs_len :: nat
  bs_window :: "nat \<Rightarrow> nat \<Rightarrow> bytes"

definition slice_source :: "bytes \<Rightarrow> ByteSource" where
  "slice_source payload = \<lparr>bs_len = length payload, bs_window = \<lambda>from upto. take (upto + 1 - from) (drop from payload)\<rparr>"

definition MAX_BIT_OFFSET :: u64 where
  "MAX_BIT_OFFSET = 512 * 1024 * 1024 * 8 - 1"

definition bit_window :: "int \<Rightarrow> int \<Rightarrow> int \<Rightarrow> int \<times> int" where
  "bit_window len start stop =
     (let start = (if start < 0 then len + start else start);
          stop = (if stop < 0 then len + stop else stop);
          start = max start 0;
          stop = max stop 0
      in (start, if stop \<ge> len then len - 1 else stop))"

definition bit_at :: "bytes \<Rightarrow> nat \<Rightarrow> bool" where
  "bit_at payload i =
     (case elem_get payload (i div 8) of None \<Rightarrow> False | Some b \<Rightarrow> and b (push_bit (7 - i mod 8) 1) \<noteq> 0)"

definition count_ones :: "u8 \<Rightarrow> nat" where
  "count_ones b = length (filter (bit b) [0..<8])"

definition popcount :: "bytes \<Rightarrow> nat" where
  "popcount bs = sum_list (map count_ones bs)"

definition bitcount_in :: "ByteSource \<Rightarrow> (int \<times> int \<times> bool) option \<Rightarrow> nat" where
  "bitcount_in src rng =
     (case rng of
        None \<Rightarrow> if bs_len src = 0 then 0 else popcount (bs_window src 0 (bs_len src - 1))
      | Some (start, stop, bits) \<Rightarrow>
          if start < 0 \<and> stop < 0 \<and> start > stop then 0
          else
            (let len = int (bs_len src) * (if bits then 8 else 1);
                 (start, stop) = bit_window len start stop
             in if start > stop then 0
                else if \<not> bits then popcount (bs_window src (nat start) (nat stop))
                else
                  (let window = bs_window src (nat (start div 8)) (nat (stop div 8));
                       before = and (window ! 0) (not (drop_bit (nat (start mod 8)) 0xff));
                       after = and (window ! (length window - 1)) (ucast (drop_bit (nat (stop mod 8) + 1) (0xff :: u16)))
                   in popcount window - count_ones before - count_ones after)))"

definition bitcount_of :: "bytes \<Rightarrow> (int \<times> int \<times> bool) option \<Rightarrow> nat" where
  "bitcount_of payload rng = bitcount_in (slice_source payload) rng"

text \<open>One byte of the window of BITPOS: skipped when it is wholly inside and has no such bit.\<close>

definition bitpos_byte :: "bytes \<Rightarrow> bool \<Rightarrow> nat \<Rightarrow> nat \<Rightarrow> nat \<Rightarrow> nat option" where
  "bitpos_byte window b lo hi j =
     (let base = lo div 8;
          whole = (j * 8 \<ge> lo \<and> j * 8 + 7 \<le> hi)
      in if whole \<and> window ! (j - base) = (if b then 0 else 0xff) then None
         else List.find (\<lambda>i. bit_at window (i - base * 8) = b) (filter (\<lambda>i. i \<ge> lo \<and> i \<le> hi) [j * 8..<j * 8 + 8]))"

fun find_map :: "('a \<Rightarrow> 'b option) \<Rightarrow> 'a list \<Rightarrow> 'b option" where
  "find_map f [] = None"
| "find_map f (x # xs) = (case f x of Some y \<Rightarrow> Some y | None \<Rightarrow> find_map f xs)"

definition bitpos_in :: "ByteSource \<Rightarrow> bool \<Rightarrow> (int \<times> int option \<times> bool) option \<Rightarrow> int" where
  "bitpos_in src b rng =
     (let len = int (bs_len src);
          (start, stop, bits, end_given) =
            (case rng of
               None \<Rightarrow> (0, len - 1, False, False)
             | Some (start, stop, bits) \<Rightarrow>
                 (let units = (if bits then len * 8 else len);
                      (s, e) = bit_window units start (case stop of Some e \<Rightarrow> e | None \<Rightarrow> units - 1)
                  in (s, e, bits, stop \<noteq> None)))
      in if start > stop then - 1
         else
           (let (lo, hi) = (if bits then (nat start, nat stop) else (nat start * 8, nat stop * 8 + 7));
                window = bs_window src (lo div 8) (hi div 8)
            in case find_map (bitpos_byte window b lo hi) [lo div 8..<hi div 8 + 1] of
                 Some i \<Rightarrow> int i
               | None \<Rightarrow> if \<not> b \<and> \<not> end_given then int hi + 1 else - 1))"

definition bitpos_of :: "bytes \<Rightarrow> bool \<Rightarrow> (int \<times> int option \<times> bool) option \<Rightarrow> int" where
  "bitpos_of payload b rng = bitpos_in (slice_source payload) b rng"

section \<open>BITOP\<close>

datatype BitOp = BAnd | BOr | BXor | BNot | Diff | Diff1 | AndOr | One

definition byte_or_zero :: "nat \<Rightarrow> bytes \<Rightarrow> u8" where
  "byte_or_zero j s = (case elem_get s j of Some b \<Rightarrow> b | None \<Rightarrow> 0)"

definition bitop_byte :: "BitOp \<Rightarrow> bytes list \<Rightarrow> nat \<Rightarrow> u8" where
  "bitop_byte op sources j =
     (let first = (case sources of [] \<Rightarrow> 0 | s # _ \<Rightarrow> byte_or_zero j s);
          rest = map (byte_or_zero j) (tl sources)
      in case op of
           BAnd \<Rightarrow> foldl and first rest
         | BOr \<Rightarrow> foldl or first rest
         | BXor \<Rightarrow> foldl xor first rest
         | BNot \<Rightarrow> not first
         | Diff \<Rightarrow> and first (not (foldl or 0 rest))
         | Diff1 \<Rightarrow> and (not first) (foldl or 0 rest)
         | AndOr \<Rightarrow> and first (foldl or 0 rest)
         | One \<Rightarrow>
             (let (once, again) = foldl (\<lambda>(once, again) s. (let b = byte_or_zero j s in (xor once b, or again (and once b)))) (0, 0) sources
              in and once (not again)))"

definition bitop_of :: "BitOp \<Rightarrow> bytes list \<Rightarrow> bytes" where
  "bitop_of op sources =
     map (bitop_byte op sources) [0..<foldl max 0 (map length sources)]"

section \<open>BITFIELD\<close>

datatype BitfieldOverflow = Wrap | Sat | Fail

datatype BitfieldKind = BfGet | BfSet i64 BitfieldOverflow | BfIncrBy i64 BitfieldOverflow

record BitfieldOp =
  bo_signed :: bool
  bo_bits :: nat
  bo_offset :: nat
  bo_kind :: BitfieldKind

text \<open>The trait \<open>BitBuf\<close>; reading a byte may load it.\<close>

record 'b BitBuf =
  bb_byte :: "'b \<Rightarrow> nat \<Rightarrow> u8 \<times> 'b"
  bb_set_byte :: "'b \<Rightarrow> nat \<Rightarrow> u8 \<Rightarrow> 'b"

fun read_bits :: "'b BitBuf \<Rightarrow> nat \<Rightarrow> nat list \<Rightarrow> u64 \<Rightarrow> 'b \<Rightarrow> u64 \<times> 'b" where
  "read_bits B offset [] v buf = (v, buf)"
| "read_bits B offset (i # is) v buf =
     (let b = offset + i;
          (byte, buf) = bb_byte B buf (b div 8)
      in read_bits B offset is (or (push_bit 1 v) (ucast (and (drop_bit (7 - b mod 8) byte) 1))) buf)"

definition op_read :: "'b BitBuf \<Rightarrow> BitfieldOp \<Rightarrow> 'b \<Rightarrow> i64 \<times> 'b" where
  "op_read B op buf =
     (let (v, buf) = read_bits B (bo_offset op) [0..<bo_bits op] 0 buf
      in (if bo_signed op \<and> bo_bits op < 64 \<and> and v (push_bit (bo_bits op - 1) 1) \<noteq> 0
          then or v (push_bit (bo_bits op) (- 1)) else v, buf))"

fun write_bits_loop :: "'b BitBuf \<Rightarrow> nat \<Rightarrow> nat \<Rightarrow> u64 \<Rightarrow> nat list \<Rightarrow> 'b \<Rightarrow> 'b" where
  "write_bits_loop B offset bits v [] buf = buf"
| "write_bits_loop B offset bits v (i # is) buf =
     (let b = offset + i;
          set = (and (drop_bit (bits - 1 - i) v) 1 = 1);
          mask = push_bit (7 - b mod 8) 1;
          (byte, buf) = bb_byte B buf (b div 8);
          buf = bb_set_byte B buf (b div 8) (if set then or byte mask else and byte (not mask))
      in write_bits_loop B offset bits v is buf)"

definition write_bits :: "'b BitBuf \<Rightarrow> nat \<Rightarrow> nat \<Rightarrow> u64 \<Rightarrow> 'b \<Rightarrow> 'b" where
  "write_bits B offset bits v buf = write_bits_loop B offset bits v [0..<bits] buf"

definition signed_overflow :: "i64 \<Rightarrow> i64 \<Rightarrow> nat \<Rightarrow> BitfieldOverflow \<Rightarrow> i64 option" where
  "signed_overflow v incr bits overflow =
     (let mx = (if bits = 64 then 2 ^ 63 - 1 else push_bit (bits - 1) 1 - 1);
          mn = - mx - 1;
          max_incr = mx - v;
          min_incr = mn - v;
          wrapped =
            (let c = v + incr
             in if bits < 64
                then (let mask = push_bit bits (- 1)
                      in if and c (push_bit (bits - 1) 1) \<noteq> 0 then or c mask else and c (not mask))
                else c);
          limit = (\<lambda>bound. case overflow of Wrap \<Rightarrow> wrapped | Sat \<Rightarrow> bound | Fail \<Rightarrow> 0)
      in if sint v > sint mx \<or> bits \<noteq> 64 \<and> sint incr > sint max_incr \<or>
            sint v \<ge> 0 \<and> sint incr > 0 \<and> sint incr > sint max_incr
         then Some (limit mx)
         else if sint v < sint mn \<or> bits \<noteq> 64 \<and> sint incr < sint min_incr \<or>
            sint v < 0 \<and> sint incr < 0 \<and> sint incr < sint min_incr
         then Some (limit mn)
         else None)"

definition unsigned_overflow :: "u64 \<Rightarrow> i64 \<Rightarrow> nat \<Rightarrow> BitfieldOverflow \<Rightarrow> u64 option" where
  "unsigned_overflow v incr bits overflow =
     (let mx = push_bit bits 1 - 1;
          max_incr = mx - v;
          min_incr = - v;
          limit = (\<lambda>bound. case overflow of
                     Wrap \<Rightarrow> and (v + incr) (not (push_bit bits (- 1))) | Sat \<Rightarrow> bound | Fail \<Rightarrow> 0)
      in if v > mx \<or> sint incr > 0 \<and> sint incr > sint max_incr then Some (limit mx)
         else if sint incr < 0 \<and> sint incr < sint min_incr then Some (limit 0)
         else None)"

section \<open>The interface of a bit buffer\<close>

definition grown :: "nat \<Rightarrow> bytes \<Rightarrow> bytes" where
  "grown n xs = xs @ replicate (n - length xs) 0"

locale bit_buf =
  fixes B :: "'b BitBuf" and str :: "'b \<Rightarrow> bytes" and good :: "'b \<Rightarrow> bool" and lim :: nat
  assumes byte: "good buf \<Longrightarrow> bb_byte B buf i = (b, buf') \<Longrightarrow>
      b = byte_or_zero i (str buf) \<and> good buf' \<and> str buf' = str buf"
    and set_byte: "good buf \<Longrightarrow> i < lim \<Longrightarrow>
      good (bb_set_byte B buf i v) \<and> str (bb_set_byte B buf i v) = (grown (i + 1) (str buf))[i := v]"
    and limit: "good buf \<Longrightarrow> length (str buf) \<le> lim"

section \<open>Notions the lemmas use\<close>

text \<open>A byte string as a buffer of its own.\<close>

definition list_buf :: "bytes BitBuf" where
  "list_buf = \<lparr>bb_byte = \<lambda>xs i. (byte_or_zero i xs, xs), bb_set_byte = \<lambda>xs i v. (grown (i + 1) xs)[i := v]\<rparr>"

text \<open>The set bits at the positions from one up to another.\<close>

definition bits_in :: "bytes \<Rightarrow> nat \<Rightarrow> nat \<Rightarrow> nat" where
  "bits_in p lo hi = length (filter (bit_at p) [lo..<hi])"

text \<open>The positions a range of bytes or bits addresses, from the first up to the second; and the first position there with a bit.\<close>

definition bit_span :: "nat \<Rightarrow> int \<Rightarrow> int \<Rightarrow> bool \<Rightarrow> nat \<times> nat" where
  "bit_span len start stop bits =
     (let (s, e) = bit_window (int len * (if bits then 8 else 1)) start stop
      in if s > e then (0, 0) else if bits then (nat s, nat e + 1) else (8 * nat s, 8 * (nat e + 1)))"

definition first_bit :: "bytes \<Rightarrow> bool \<Rightarrow> nat \<times> nat \<Rightarrow> nat option" where
  "first_bit p b span = List.find (\<lambda>i. bit_at p i = b) [fst span..<snd span]"

text \<open>
  The same positions one by one: a negative end counts from the end of the string, and stops at its start.
\<close>

definition addressed :: "nat \<Rightarrow> int \<Rightarrow> int \<Rightarrow> bool \<Rightarrow> nat \<Rightarrow> bool" where
  "addressed len start stop bits i \<longleftrightarrow>
     (let n = int len * (if bits then 8 else 1);
          unit = int (if bits then i else i div 8);
          at = (\<lambda>x. if x < 0 then max 0 (n + x) else x)
      in i < 8 * len \<and> at start \<le> unit \<and> unit \<le> at stop)"

section \<open>Lemmas: single bits\<close>

lemma and_mask_bit: "and (b :: 'a::len word) (2 ^ n) = 0 \<longleftrightarrow> \<not> bit b n"
  by (simp add: and_exp_eq_0_iff_not_bit)

lemma bit_at_iff: "bit_at p i \<longleftrightarrow> i div 8 < length p \<and> bit (p ! (i div 8)) (7 - i mod 8)"
  by (simp add: bit_at_def elem_get_def and_mask_bit)

lemma bit_at_byte: "bit_at p i = bit (byte_or_zero (i div 8) p) (7 - i mod 8)"
  by (simp add: bit_at_iff byte_or_zero_def elem_get_def)

lemma bit_at_append: "i < 8 * length p \<Longrightarrow> bit_at (p @ q) i = bit_at p i"
  by (simp add: bit_at_iff nth_append)

lemma bit_at_last: "r < 8 \<Longrightarrow> bit_at (p @ [b]) (8 * length p + r) = bit b (7 - r)"
  by (simp add: bit_at_iff nth_append)

lemma bit_at_slice:
  assumes "s + n \<le> length p" "i < 8 * n"
  shows "bit_at (take n (drop s p)) i = bit_at p (8 * s + i)"
proof -
  have "i div 8 < n" using assms(2) by (simp add: less_mult_imp_div_less mult.commute)
  then show ?thesis using assms(1) by (simp add: bit_at_iff)
qed

lemma upt8: "[0..<8] = [0, 1, 2, 3, 4, 5, 6, 7 :: nat]"
  by (simp add: upt_rec)

lemma upt_shift: "[k + lo..<k + hi] = map (\<lambda>r. k + r) [lo..<hi]"
  by (induction hi) auto

lemma filter_upt_shift:
  "filter P [k + lo..<k + hi] = map (\<lambda>r. k + r) (filter (\<lambda>r. P (k + r)) [lo..<hi])"
  by (simp add: upt_shift filter_map comp_def)

lemma filter_upt_less: "r \<le> n \<Longrightarrow> filter (\<lambda>i. P i \<and> i < r) [0..<n] = filter P [0..<r]"
proof -
  assume "r \<le> n"
  then have "[0..<n] = [0..<r] @ [r..<n]" using upt_add_eq_append[of 0 r "n - r"] by simp
  moreover have "filter (\<lambda>i. P i \<and> i < r) [0..<r] = filter P [0..<r]" by (rule filter_cong) simp_all
  ultimately show ?thesis by simp
qed

lemma filter_upt_ge: "r \<le> n \<Longrightarrow> filter (\<lambda>i. P i \<and> r \<le> i) [0..<n] = filter P [r..<n]"
proof -
  assume "r \<le> n"
  then have "[0..<n] = [0..<r] @ [r..<n]" using upt_add_eq_append[of 0 r "n - r"] by simp
  moreover have "filter (\<lambda>i. P i \<and> r \<le> i) [r..<n] = filter P [r..<n]" by (rule filter_cong) simp_all
  ultimately show ?thesis by simp
qed

lemma count_ones_rev: "count_ones b = length (filter (\<lambda>r. bit b (7 - r)) [0..<8])"
  unfolding count_ones_def upt8 by simp

lemma popcount_bits: "popcount p = bits_in p 0 (8 * length p)"
proof (induction p rule: rev_induct)
  case Nil
  then show ?case by (simp add: popcount_def bits_in_def)
next
  case (snoc b p)
  let ?n = "8 * length p"
  have "filter (bit_at (p @ [b])) [0..<?n] = filter (bit_at p) [0..<?n]"
    by (rule filter_cong) (simp_all add: bit_at_append)
  moreover have "filter (\<lambda>r. bit_at (p @ [b]) (?n + r)) [0..<8] = filter (\<lambda>r. bit b (7 - r)) [0..<8]"
    by (rule filter_cong) (simp_all add: bit_at_last)
  then have "length (filter (bit_at (p @ [b])) [?n..<?n + 8]) = count_ones b"
    using filter_upt_shift[of "bit_at (p @ [b])" ?n 0 8] by (simp add: count_ones_rev)
  moreover have "[0..<8 * length (p @ [b])] = [0..<?n] @ [?n..<?n + 8]"
    using upt_add_eq_append[of 0 ?n 8] by (simp add: add.commute)
  ultimately show ?case using snoc by (simp add: popcount_def bits_in_def)
qed

lemma bits_in_split: "lo \<le> mid \<Longrightarrow> mid \<le> hi \<Longrightarrow> bits_in p lo hi = bits_in p lo mid + bits_in p mid hi"
  using upt_add_eq_append[of lo mid "hi - mid"] by (simp add: bits_in_def)

lemma bits_in_slice:
  assumes "s + n \<le> length p"
  shows "bits_in (take n (drop s p)) 0 (8 * n) = bits_in p (8 * s) (8 * (s + n))"
proof -
  have "8 * (s + n) = 8 * s + 8 * n" by simp
  moreover have "filter (bit_at (take n (drop s p))) [0..<8 * n] = filter (\<lambda>r. bit_at p (8 * s + r)) [0..<8 * n]"
    by (rule filter_cong) (simp_all add: bit_at_slice[OF assms])
  ultimately show ?thesis
    unfolding bits_in_def using filter_upt_shift[of "bit_at p" "8 * s" 0 "8 * n"] by simp
qed

lemma ff_bit [simp]: "bit (0xff :: int) n \<longleftrightarrow> n < 8" "bit (0x7f :: int) n \<longleftrightarrow> n < 7"
proof -
  have e: "(0xff :: int) = mask 8" "(0x7f :: int) = mask 7" by (simp_all add: mask_eq_exp_minus_1)
  show "bit (0xff :: int) n \<longleftrightarrow> n < 8" "bit (0x7f :: int) n \<longleftrightarrow> n < 7"
    unfolding e bit_mask_iff by simp_all
qed

lemma bits_before:
  assumes "r < 8"
  shows "count_ones (and b (not (drop_bit r 0xff))) = length (filter (\<lambda>i. bit b (7 - i)) [0..<r])"
proof -
  have "bit (and b (not (drop_bit r 0xff))) n \<longleftrightarrow> bit b n \<and> 8 \<le> r + n" if "n < 8" for n
    using that by (auto simp: bit_and_iff bit_not_iff bit_drop_bit_eq add.commute)
  then have "filter (\<lambda>i. bit (and b (not (drop_bit r 0xff))) (7 - i)) [0..<8] = filter (\<lambda>i. bit b (7 - i) \<and> i < r) [0..<8]"
    by (intro filter_cong) auto
  also have "\<dots> = filter (\<lambda>i. bit b (7 - i)) [0..<r]"
    using assms by (intro filter_upt_less) simp
  finally show ?thesis by (simp add: count_ones_rev)
qed

lemma bits_after:
  assumes "r < 8"
  shows "count_ones (and b (ucast (drop_bit (r + 1) (0xff :: u16)))) = length (filter (\<lambda>i. bit b (7 - i)) [r + 1..<8])"
proof -
  have "bit (and b (ucast (drop_bit (r + 1) (0xff :: u16)))) n \<longleftrightarrow> bit b n \<and> n + r + 1 < 8" if "n < 8" for n
    unfolding bit_and_iff bit_ucast_iff bit_drop_bit_eq comp_def using that by (auto simp: ac_simps)
  then have "filter (\<lambda>i. bit (and b (ucast (drop_bit (r + 1) (0xff :: u16)))) (7 - i)) [0..<8] =
      filter (\<lambda>i. bit b (7 - i) \<and> r + 1 \<le> i) [0..<8]"
    by (intro filter_cong) auto
  also have "\<dots> = filter (\<lambda>i. bit b (7 - i)) [r + 1..<8]"
    using assms by (intro filter_upt_ge) simp
  finally show ?thesis by (simp add: count_ones_rev)
qed

lemma bits_of_byte:
  assumes "j < length p" "lo \<le> hi" "hi \<le> 8"
  shows "bits_in p (8 * j + lo) (8 * j + hi) = length (filter (\<lambda>i. bit (p ! j) (7 - i)) [lo..<hi])"
proof -
  have "filter (\<lambda>r. bit_at p (8 * j + r)) [lo..<hi] = filter (\<lambda>i. bit (p ! j) (7 - i)) [lo..<hi]"
    using assms by (intro filter_cong) (simp_all add: bit_at_iff)
  then show ?thesis unfolding bits_in_def filter_upt_shift by simp
qed

section \<open>Lemmas: counting\<close>

lemma window_bits:
  assumes "s \<le> e" "e < length p"
  shows "popcount (bs_window (slice_source p) s e) = bits_in p (8 * s) (8 * (e + 1))"
proof -
  have "s + (e + 1 - s) = e + 1" "length (bs_window (slice_source p) s e) = e + 1 - s" using assms by (simp_all add: slice_source_def)
  then show ?thesis
    using assms bits_in_slice[of s "e + 1 - s" p] by (simp add: popcount_bits slice_source_def)
qed

lemma bitcount_window:
  fixes start stop :: nat
  assumes "start \<le> stop" "stop < 8 * length p"
  defines "window \<equiv> bs_window (slice_source p) (start div 8) (stop div 8)"
  shows "popcount window - count_ones (and (window ! 0) (not (drop_bit (start mod 8) 0xff))) -
      count_ones (and (window ! (length window - 1)) (ucast (drop_bit (stop mod 8 + 1) (0xff :: u16)))) =
    bits_in p start (stop + 1)"
proof -
  let ?f = "start div 8" and ?l = "stop div 8"
  have fl: "?f \<le> ?l" "?l < length p" using assms(1,2) by (simp_all add: div_le_mono less_mult_imp_div_less mult.commute)
  have first: "window ! 0 = p ! ?f" and last: "window ! (length window - 1) = p ! ?l"
    using fl by (simp_all add: window_def slice_source_def)
  have s: "8 * ?f + start mod 8 = start" "8 * ?l + stop mod 8 = stop" by simp_all
  have "count_ones (and (p ! ?f) (not (drop_bit (start mod 8) 0xff))) = bits_in p (8 * ?f) start"
    using bits_of_byte[of ?f p 0 "start mod 8"] fl by (simp add: bits_before s)
  moreover have "count_ones (and (p ! ?l) (ucast (drop_bit (stop mod 8 + 1) (0xff :: u16)))) = bits_in p (stop + 1) (8 * (?l + 1))"
  proof -
    have m: "stop mod 8 < 8" by simp
    have "bits_in p (8 * ?l + (stop mod 8 + 1)) (8 * ?l + 8) = length (filter (\<lambda>i. bit (p ! ?l) (7 - i)) [stop mod 8 + 1..<8])"
      using m by (intro bits_of_byte[OF fl(2)]) simp_all
    moreover have "8 * ?l + (stop mod 8 + 1) = stop + 1" "8 * ?l + 8 = 8 * (?l + 1)" by simp_all
    ultimately show ?thesis unfolding bits_after[OF m] by simp
  qed
  moreover have "popcount window = bits_in p (8 * ?f) start + bits_in p start (stop + 1) + bits_in p (stop + 1) (8 * (?l + 1))"
  proof -
    have "8 * ?f \<le> start" "stop + 1 \<le> 8 * (?l + 1)" by simp_all
    then show ?thesis
      unfolding window_def window_bits[OF fl]
      using bits_in_split[of "8 * ?f" start "8 * (?l + 1)" p] bits_in_split[of start "stop + 1" "8 * (?l + 1)" p] assms(1) by simp
  qed
  ultimately show ?thesis unfolding first last by simp
qed

lemma bit_window_bounds:
  assumes "bit_window len start stop = (s, e)" "0 \<le> len"
  shows "0 \<le> s" "e < len"
  using assms by (auto simp: bit_window_def Let_def split: if_splits)

lemma bitcount_bytes:
  assumes "\<not> (start < 0 \<and> stop < 0 \<and> start > stop)" "bit_window (int (length p)) start stop = (s, e)"
  shows "bitcount_of p (Some (start, stop, False)) = (if s > e then 0 else bits_in p (8 * nat s) (8 * (nat e + 1)))"
proof (cases "s > e")
  case False
  then have "nat s \<le> nat e" "nat e < length p" using bit_window_bounds[OF assms(2)] by auto
  from window_bits[OF this] show ?thesis
    using False assms by (auto simp: bitcount_of_def bitcount_in_def slice_source_def[of p])
next
  case True
  then show ?thesis using assms by (auto simp: bitcount_of_def bitcount_in_def slice_source_def)
qed

lemma bitcount_bits:
  assumes "\<not> (start < 0 \<and> stop < 0 \<and> start > stop)" "bit_window (int (length p) * 8) start stop = (s, e)"
  shows "bitcount_of p (Some (start, stop, True)) = (if s > e then 0 else bits_in p (nat s) (nat e + 1))"
proof (cases "s > e")
  case False
  note b = bit_window_bounds[OF assms(2)]
  have le: "nat s \<le> nat e" "nat e < 8 * length p" using False b by auto
  have d: "nat (s div 8) = nat s div 8" "nat (e div 8) = nat e div 8" "nat (s mod 8) = nat s mod 8" "nat (e mod 8) = nat e mod 8"
    using b(1) False by (simp_all add: nat_div_distrib nat_mod_distrib)
  have len: "bs_len (slice_source p) = length p" by (simp add: slice_source_def)
  show ?thesis
    using bitcount_window[OF le] False assms
    unfolding bitcount_of_def bitcount_in_def len by (auto simp: Let_def d)
next
  case True
  then show ?thesis using assms by (auto simp: bitcount_of_def bitcount_in_def slice_source_def)
qed

lemma bitcount_all: "bitcount_of p None = bits_in p 0 (8 * length p)"
proof (cases "p = []")
  case False
  then show ?thesis
    using window_bits[of 0 "length p - 1" p] by (simp add: bitcount_of_def bitcount_in_def slice_source_def)
qed (simp add: bitcount_of_def bitcount_in_def slice_source_def bits_in_def)

section \<open>Lemmas: searching\<close>

lemma find_append: "List.find P (xs @ ys) = (case List.find P xs of Some x \<Rightarrow> Some x | None \<Rightarrow> List.find P ys)"
  by (induction xs) auto

lemma find_map_concat: "find_map (\<lambda>x. List.find P (f x)) xs = List.find P (concat (map f xs))"
  by (induction xs) (auto split: option.split simp: find_append)

lemma concat_bytes: "a \<le> b \<Longrightarrow> concat (map (\<lambda>j. [j * 8..<j * 8 + 8]) [a..<b]) = [a * 8..<b * 8]"
proof (induction b)
  case (Suc b)
  show ?case
  proof (cases "a \<le> b")
    case True
    then show ?thesis using Suc.IH upt_add_eq_append[of "a * 8" "b * 8" 8] by (simp add: add.commute)
  next
    case False
    then show ?thesis using Suc.prems by simp
  qed
qed simp

lemma filter_upt_window: "a \<le> lo \<Longrightarrow> hi < b \<Longrightarrow> filter (\<lambda>i. i \<ge> lo \<and> i \<le> hi) [a..<b] = [lo..<hi + 1]"
proof -
  assume ab: "a \<le> lo" "hi < b"
  have "sorted (filter (\<lambda>i. i \<ge> lo \<and> i \<le> hi) [a..<b])" "distinct (filter (\<lambda>i. i \<ge> lo \<and> i \<le> hi) [a..<b])"
    by (simp_all add: sorted_wrt_filter)
  moreover have "set (filter (\<lambda>i. i \<ge> lo \<and> i \<le> hi) [a..<b]) = set [lo..<hi + 1]" using ab by auto
  ultimately show ?thesis using sorted_upt[of lo "hi + 1"] distinct_upt[of lo "hi + 1"] sorted_distinct_set_unique by blast
qed

lemma find_filter_cong: "(\<And>x. x \<in> set xs \<Longrightarrow> P x = Q x) \<Longrightarrow> List.find P xs = List.find Q xs"
  by (induction xs) auto

lemma no_such_bit: "n < 8 \<Longrightarrow> bit (if b then 0 else 0xff :: u8) n \<noteq> b"
  by simp

lemma bitpos_byte_find:
  assumes "lo \<le> hi" "hi div 8 < length p" "lo div 8 \<le> j" "j \<le> hi div 8"
  shows "bitpos_byte (bs_window (slice_source p) (lo div 8) (hi div 8)) b lo hi j =
    List.find (\<lambda>i. bit_at p i = b) (filter (\<lambda>i. i \<ge> lo \<and> i \<le> hi) [j * 8..<j * 8 + 8])"
proof -
  let ?base = "lo div 8"
  let ?w = "bs_window (slice_source p) ?base (hi div 8)"
  let ?is = "filter (\<lambda>i. i \<ge> lo \<and> i \<le> hi) [j * 8..<j * 8 + 8]"
  have w: "?w = take (hi div 8 + 1 - ?base) (drop ?base p)" by (simp add: slice_source_def)
  have at: "bit_at ?w (i - ?base * 8) = bit_at p i" if "i \<in> set ?is" for i
  proof -
    have "i < j * 8 + 8" "lo \<le> i" using that by simp_all
    then have "i - ?base * 8 < 8 * (hi div 8 + 1 - ?base)" "8 * ?base + (i - ?base * 8) = i" using assms(3,4) by auto
    then show ?thesis using bit_at_slice[of ?base "hi div 8 + 1 - ?base" p "i - ?base * 8"] assms(2-4) by (simp add: w)
  qed
  have find: "List.find (\<lambda>i. bit_at ?w (i - ?base * 8) = b) ?is = List.find (\<lambda>i. bit_at p i = b) ?is"
    using at by (intro find_filter_cong) simp
  show ?thesis
  proof (cases "j * 8 \<ge> lo \<and> j * 8 + 7 \<le> hi \<and> ?w ! (j - ?base) = (if b then 0 else 0xff)")
    case True
    have byte: "p ! j = (if b then 0 else 0xff)" "j < length p" using True assms(2-4) by (simp_all add: w)
    have "bit_at p i \<noteq> b" if "i \<in> set ?is" for i
    proof -
      have "i div 8 = j" using that by auto
      then show ?thesis using byte no_such_bit[of "7 - i mod 8" b] by (simp add: bit_at_iff)
    qed
    then have "List.find (\<lambda>i. bit_at p i = b) ?is = None" by (simp add: find_None_iff)
    then show ?thesis using True by (simp add: bitpos_byte_def Let_def)
  next
    case False
    then show ?thesis unfolding bitpos_byte_def Let_def find[symmetric] by auto
  qed
qed

lemma find_map_cong: "(\<And>x. x \<in> set xs \<Longrightarrow> f x = g x) \<Longrightarrow> find_map f xs = find_map g xs"
  by (induction xs) (auto split: option.split)

lemma bitpos_window:
  assumes "lo \<le> hi" "hi < 8 * length p"
  shows "find_map (bitpos_byte (bs_window (slice_source p) (lo div 8) (hi div 8)) b lo hi) [lo div 8..<hi div 8 + 1] =
    List.find (\<lambda>i. bit_at p i = b) [lo..<hi + 1]"
proof -
  let ?P = "\<lambda>i. bit_at p i = b" and ?f = "\<lambda>j. filter (\<lambda>i. i \<ge> lo \<and> i \<le> hi) [j * 8..<j * 8 + 8]"
  have l: "hi div 8 < length p" using assms(2) by (simp add: less_mult_imp_div_less mult.commute)
  have le: "lo div 8 \<le> hi div 8 + 1" using assms(1) by (simp add: div_le_mono le_SucI)
  have "find_map (bitpos_byte (bs_window (slice_source p) (lo div 8) (hi div 8)) b lo hi) [lo div 8..<hi div 8 + 1] =
      find_map (\<lambda>j. List.find ?P (?f j)) [lo div 8..<hi div 8 + 1]"
    using l assms(1) by (intro find_map_cong bitpos_byte_find) auto
  also have "\<dots> = List.find ?P (concat (map ?f [lo div 8..<hi div 8 + 1]))" by (rule find_map_concat)
  also have "concat (map ?f [lo div 8..<hi div 8 + 1]) =
      filter (\<lambda>i. i \<ge> lo \<and> i \<le> hi) (concat (map (\<lambda>j. [j * 8..<j * 8 + 8]) [lo div 8..<hi div 8 + 1]))"
    by (simp add: filter_concat comp_def)
  also have "\<dots> = [lo..<hi + 1]"
    unfolding concat_bytes[OF le] by (rule filter_upt_window) simp_all
  finally show ?thesis .
qed

lemma bitcount_span:
  "bitcount_of p (Some (start, stop, bits)) =
     (if start < 0 \<and> stop < 0 \<and> start > stop then 0
      else bits_in p (fst (bit_span (length p) start stop bits)) (snd (bit_span (length p) start stop bits)))"
proof (cases "start < 0 \<and> stop < 0 \<and> start > stop")
  case True
  then show ?thesis by (simp add: bitcount_of_def bitcount_in_def)
next
  case False
  obtain s e where w: "bit_window (int (length p) * (if bits then 8 else 1)) start stop = (s, e)" by fastforce
  have none: "bits_in p 0 0 = 0" by (simp add: bits_in_def)
  show ?thesis
    unfolding if_not_P[OF False]
    using w bitcount_bytes[OF False, of p s e] bitcount_bits[OF False, of p s e] none
    by (cases bits) (simp_all add: bit_span_def)
qed

lemma bitpos_found:
  assumes "s \<le> e" "e < int (length p) * (if bits then 8 else 1)" "0 \<le> s"
  defines "lo \<equiv> if bits then nat s else nat s * 8" and "hi \<equiv> if bits then nat e else nat e * 8 + 7"
  shows "find_map (bitpos_byte (bs_window (slice_source p) (lo div 8) (hi div 8)) b lo hi) [lo div 8..<hi div 8 + 1] =
    first_bit p b (lo, hi + 1)"
proof -
  have "lo \<le> hi" "hi < 8 * length p" using assms(1-3) by (auto simp: lo_def hi_def nat_le_iff) 
  from bitpos_window[OF this, of b] show ?thesis by (simp add: first_bit_def)
qed

lemma bitpos_span:
  assumes "bit_window (int (length p) * (if bits then 8 else 1)) start stop' = (s, e)"
    and "stop' = (case stop of Some x \<Rightarrow> x | None \<Rightarrow> int (length p) * (if bits then 8 else 1) - 1)"
  shows "bitpos_of p b (Some (start, stop, bits)) =
    (let span = bit_span (length p) start stop' bits
     in if s > e then - 1
        else (case first_bit p b span of
                Some i \<Rightarrow> int i
              | None \<Rightarrow> if \<not> b \<and> stop = None then int (snd span) else - 1))"
proof (cases "s > e")
  case True
  then show ?thesis
    using assms by (cases bits) (auto simp: bitpos_of_def bitpos_in_def slice_source_def Let_def split: option.splits)
next
  case False
  have len: "bs_len (slice_source p) = length p" by (simp add: slice_source_def)
  have b: "0 \<le> s" "e < int (length p) * (if bits then 8 else 1)" using bit_window_bounds[OF assms(1)] by auto
  have le: "s \<le> e" using False by simp
  define lo hi where "lo = (if bits then nat s else nat s * 8)" and "hi = (if bits then nat e else nat e * 8 + 7)"
  have u: "(if bits then int (length p) * 8 else int (length p)) = int (length p) * (if bits then 8 else 1)" by simp
  have w: "bit_window (int (length p) * (if bits then 8 else 1)) start
      (case stop of None \<Rightarrow> int (length p) * (if bits then 8 else 1) - 1 | Some e \<Rightarrow> e) = (s, e)"
    using assms by simp
  have pair: "(if bits then (nat s, nat e) else (nat s * 8, nat e * 8 + 7)) = (lo, hi)" by (simp add: lo_def hi_def)
  have "bitpos_of p b (Some (start, stop, bits)) =
      (case find_map (bitpos_byte (bs_window (slice_source p) (lo div 8) (hi div 8)) b lo hi) [lo div 8..<hi div 8 + 1] of
         Some i \<Rightarrow> int i | None \<Rightarrow> if \<not> b \<and> stop = None then int hi + 1 else - 1)"
    unfolding bitpos_of_def bitpos_in_def len option.case Let_def prod.case u w pair if_not_P[OF False] not_not ..
  moreover have "bit_span (length p) start stop' bits = (lo, hi + 1)"
    using assms(1) le by (simp add: bit_span_def lo_def hi_def)
  ultimately show ?thesis
    using False bitpos_found[OF le b(2,1), of b]
    by (auto simp: Let_def lo_def[symmetric] hi_def[symmetric] simp del: upt_Suc split: option.split)
qed

section \<open>Lemmas: operators\<close>

lemma bit_foldl_or: "bit (foldl or a xs :: u8) n \<longleftrightarrow> bit a n \<or> (\<exists>x \<in> set xs. bit x n)"
  by (induction xs arbitrary: a) (auto simp: bit_or_iff)

lemma bit_foldl_and: "bit (foldl and a xs :: u8) n \<longleftrightarrow> bit a n \<and> (\<forall>x \<in> set xs. bit x n)"
  by (induction xs arbitrary: a) (auto simp: bit_and_iff)

lemma bit_foldl_xor: "bit (foldl xor a xs :: u8) n \<longleftrightarrow> odd (of_bool (bit a n) + length (filter (\<lambda>x. bit x n) xs) :: nat)"
  by (induction xs arbitrary: a) (auto simp: bit_xor_iff)

lemma once_more:
  fixes j n and sources :: "bytes list"
  defines "hit \<equiv> \<lambda>s. bit (byte_or_zero j s) n"
  assumes "bit o0 n \<longleftrightarrow> odd c" "bit m0 n \<longleftrightarrow> c \<ge> 2"
  shows "case foldl (\<lambda>(once, again) s. (let b = byte_or_zero j s in (xor once b, or again (and once b)))) (o0, m0) sources of
      (once, again) \<Rightarrow> (bit once n \<longleftrightarrow> odd (c + length (filter hit sources))) \<and> (bit again n \<longleftrightarrow> c + length (filter hit sources) \<ge> 2)"
  using assms(2,3)
proof (induction sources arbitrary: o0 m0 c)
  case (Cons s sources)
  let ?b = "byte_or_zero j s" and ?c = "if hit s then c + 1 else c"
  have "bit (xor o0 ?b) n \<longleftrightarrow> odd ?c" using Cons.prems by (simp add: bit_xor_iff hit_def)
  moreover have "bit (or m0 (and o0 ?b)) n \<longleftrightarrow> ?c \<ge> 2"
    using Cons.prems by (cases c rule: nat.exhaust) (auto simp: bit_or_iff bit_and_iff hit_def elim!: oddE)
  ultimately have "case foldl (\<lambda>(once, again) s. (let b = byte_or_zero j s in (xor once b, or again (and once b))))
      (xor o0 ?b, or m0 (and o0 ?b)) sources of
      (once, again) \<Rightarrow> (bit once n \<longleftrightarrow> odd (?c + length (filter hit sources))) \<and> (bit again n \<longleftrightarrow> ?c + length (filter hit sources) \<ge> 2)"
    by (rule Cons.IH)
  then show ?case by (simp add: Let_def split: if_splits prod.splits)
qed simp

lemma bitop_bit:
  fixes j n and sources :: "bytes list"
  defines "hit \<equiv> \<lambda>s. bit (byte_or_zero j s) n"
  assumes "sources \<noteq> []" "n < 8"
  shows "bit (bitop_byte op sources j) n \<longleftrightarrow>
    (case op of
       BAnd \<Rightarrow> \<forall>s \<in> set sources. hit s
     | BOr \<Rightarrow> \<exists>s \<in> set sources. hit s
     | BXor \<Rightarrow> odd (length (filter hit sources))
     | BNot \<Rightarrow> \<not> hit (hd sources)
     | Diff \<Rightarrow> hit (hd sources) \<and> \<not> (\<exists>s \<in> set (tl sources). hit s)
     | Diff1 \<Rightarrow> \<not> hit (hd sources) \<and> (\<exists>s \<in> set (tl sources). hit s)
     | AndOr \<Rightarrow> hit (hd sources) \<and> (\<exists>s \<in> set (tl sources). hit s)
     | One \<Rightarrow> length (filter hit sources) = 1)"
proof -
  obtain s ss where ss: "sources = s # ss" using assms(2) by (cases sources) auto
  have one: "bit (bitop_byte One sources j) n \<longleftrightarrow> length (filter hit sources) = 1"
  proof -
    have "odd k \<and> \<not> k \<ge> 2 \<longleftrightarrow> k = 1" for k :: nat by (auto elim: oddE)
    then show ?thesis
      using once_more[of 0 n 0 0 j sources] assms(3)
      by (auto simp: bitop_byte_def Let_def hit_def bit_and_iff bit_not_iff split: prod.splits)
  qed
  have xor: "length (filter (\<lambda>x. bit x n) (map (byte_or_zero j) ss)) = length (filter hit ss)"
    by (simp add: filter_map comp_def hit_def)
  show ?thesis
    using assms(3) one xor unfolding ss
    by (cases op) (auto simp: bitop_byte_def Let_def bit_foldl_and bit_foldl_or bit_foldl_xor bit_and_iff bit_not_iff hit_def)
qed

lemma length_bitop: "sources \<noteq> [] \<Longrightarrow> length (bitop_of op sources) = Max (set (map length sources))"
proof -
  assume ne: "sources \<noteq> []"
  have "foldl max a xs = Max (insert a (set xs))" for a :: nat and xs
  proof (induction xs arbitrary: a)
    case (Cons x xs)
    then show ?case by (cases "xs = []") (simp_all add: ac_simps)
  qed simp
  then have "foldl max 0 (map length sources) = Max (insert 0 (set (map length sources)))" .
  also have "\<dots> = Max (set (map length sources))" using ne by (subst Max_insert) auto
  finally show ?thesis by (simp add: bitop_of_def)
qed

section \<open>Lemmas: fields that overflow\<close>

lemma i64_sub: "- (2 ^ 63) \<le> sint a - sint b \<Longrightarrow> sint a - sint b < 2 ^ 63 \<Longrightarrow> sint ((a::i64) - b) = sint a - sint b"
proof -
  assume r: "- (2 ^ 63) \<le> sint a - sint b" "sint a - sint b < 2 ^ 63"
  have "a - b = word_of_int (sint a - sint b)" by simp
  then show ?thesis using i64_of_int[OF r] by simp
qed

lemma field_max:
  assumes "1 \<le> bits" "bits \<le> 64"
  shows "sint (if bits = 64 then 2 ^ 63 - 1 else push_bit (bits - 1) 1 - 1 :: i64) = 2 ^ (bits - 1) - 1"
proof -
  have e: "(if bits = 64 then 2 ^ 63 - 1 else push_bit (bits - 1) 1 - 1 :: i64) = word_of_int (2 ^ (bits - 1) - 1)"
    by (simp add: push_bit_of_1)
  have "(2 :: int) ^ (bits - 1) \<le> 2 ^ 63" using assms by (intro power_increasing) auto
  moreover have "(1 :: int) \<le> 2 ^ (bits - 1)" by simp
  ultimately show ?thesis unfolding e by (intro i64_of_int) linarith+
qed

lemma field_wrapped:
  assumes "1 \<le> bits" "bits \<le> 64"
  shows "(if bits < 64
      then (let mask = push_bit bits (- 1)
            in if and c (push_bit (bits - 1) 1) \<noteq> 0 then or c mask else and c (not mask))
      else c :: i64) = word_of_int (signed_take_bit (bits - 1) (sint c))"
proof (cases "bits < 64")
  case True
  show ?thesis
  proof (rule bit_word_eqI)
    fix n assume n: "n < LENGTH(64)"
    have "bit (if bits < 64
      then (let mask = push_bit bits (- 1)
            in if and c (push_bit (bits - 1) 1) \<noteq> 0 then or c mask else and c (not mask))
      else c :: i64) n \<longleftrightarrow> (if n < bits then bit c n else bit c (bits - 1))"
      using True n by (auto simp: Let_def push_bit_of_1 and_mask_bit bit_or_iff bit_and_iff bit_not_iff bit_push_bit_iff bit_mask_iff)
    also have "\<dots> \<longleftrightarrow> bit (sint c) (min (bits - 1) n)"
    proof -
      have m: "min (bits - 1) n = (if n < bits then n else bits - 1)" using assms(1) by auto
      show ?thesis unfolding m using True n by (auto simp: bit_sint_iff)
    qed
    also have "\<dots> \<longleftrightarrow> bit (word_of_int (signed_take_bit (bits - 1) (sint c)) :: i64) n"
      using n by (simp add: bit_word_of_int_iff bit_signed_take_bit_iff)
    finally show "bit (if bits < 64
      then (let mask = push_bit bits (- 1)
            in if and c (push_bit (bits - 1) 1) \<noteq> 0 then or c mask else and c (not mask))
      else c :: i64) n \<longleftrightarrow> bit (word_of_int (signed_take_bit (bits - 1) (sint c)) :: i64) n" .
  qed
next
  case False
  then have b: "bits = 64" using assms(2) by simp
  have "signed_take_bit 63 (sint c) = sint c" using i64_bounds[of c] by (simp add: signed_take_bit_int_eq_self)
  then show ?thesis by (simp add: b)
qed

text \<open>The arithmetic of a signed field: exact while it fits, else what the overflow mode says.\<close>

lemma signed_overflow_spec:
  fixes v incr :: i64 and bits :: nat
  defines "M \<equiv> (2 :: int) ^ (bits - 1)" and "x \<equiv> sint v + sint incr"
  assumes "1 \<le> bits" "bits \<le> 64" "- M \<le> sint v \<and> sint v < M \<or> sint incr = 0 \<and> M - 1 - 2 ^ 63 < sint v"
  shows "signed_overflow v incr bits overflow =
    (if - M \<le> x \<and> x < M then None
     else Some (case overflow of
                  Wrap \<Rightarrow> word_of_int (signed_take_bit (bits - 1) x)
                | Sat \<Rightarrow> word_of_int (if x < 0 then - M else M - 1)
                | Fail \<Rightarrow> 0))"
proof -
  define mx :: i64 where "mx = (if bits = 64 then 2 ^ 63 - 1 else push_bit (bits - 1) 1 - 1)"
  define mn where "mn = - mx - 1"
  have M: "1 \<le> M" "M \<le> 2 ^ 63" "bits \<noteq> 64 \<Longrightarrow> 2 * M \<le> 2 ^ 63"
  proof -
    show "1 \<le> M" by (simp add: M_def)
    show "M \<le> 2 ^ 63" unfolding M_def using assms(4) by (intro power_increasing) auto
    assume "bits \<noteq> 64"
    then have "(2 :: int) ^ (bits - 1 + 1) \<le> 2 ^ 63" using assms(3,4) by (intro power_increasing) auto
    then show "2 * M \<le> 2 ^ 63" by (simp add: M_def)
  qed
  have M64: "bits = 64 \<Longrightarrow> M = 2 ^ 63" by (simp add: M_def)
  have mx: "sint mx = M - 1" using field_max[OF assms(3,4)] by (simp add: mx_def M_def)
  have "mn = word_of_int (- sint mx - 1)" by (simp add: mn_def)
  then have mn: "sint mn = - M" using M mx i64_of_int[of "- M"] by simp
  have wrapped: "(if bits < 64 then (let mask = push_bit bits (- 1)
            in if and (v + incr) (push_bit (bits - 1) 1) \<noteq> 0 then or (v + incr) mask else and (v + incr) (not mask))
      else v + incr) = word_of_int (signed_take_bit (bits - 1) x)"
  proof -
    have "v + incr = word_of_int x" by (simp add: x_def)
    then have "sint (v + incr) = signed_take_bit 63 x" by (simp add: sint_uint uint_word_of_int_eq signed_take_bit_take_bit)
    then have "signed_take_bit (bits - 1) (sint (v + incr)) = signed_take_bit (bits - 1) x" using assms(4) by simp
    then show ?thesis using field_wrapped[OF assms(3,4), of "v + incr"] by simp
  qed
  note b = i64_bounds[of v] i64_bounds[of incr]
  have hi: "sint v > sint mx \<or> bits \<noteq> 64 \<and> sint incr > sint (mx - v) \<or> sint v \<ge> 0 \<and> sint incr > 0 \<and> sint incr > sint (mx - v) \<longleftrightarrow> x \<ge> M"
  proof (cases "sint v > sint mx \<or> bits = 64 \<and> sint v < 0")
    case True
    then show ?thesis using assms(5) b M M64 mx by (auto simp: x_def)
  next
    case False
    then have "sint (mx - v) = M - 1 - sint v" using assms(5) b M M64 mx by (subst i64_sub) auto
    then show ?thesis using False assms(5) b M M64 mx by (auto simp: x_def)
  qed
  have lo: "sint v < sint mn \<or> bits \<noteq> 64 \<and> sint incr < sint (mn - v) \<or> sint v < 0 \<and> sint incr < 0 \<and> sint incr < sint (mn - v) \<longleftrightarrow> x < - M" if "x < M"
  proof (cases "sint v < sint mn \<or> bits = 64 \<and> sint v \<ge> 0")
    case True
    then show ?thesis using that assms(5) b M M64 mn by (auto simp: x_def)
  next
    case False
    then have "sint (mn - v) = - M - sint v" using that assms(5) b M M64 mn by (subst i64_sub) (auto simp: x_def)
    then show ?thesis using that False assms(5) b M M64 mn by (auto simp: x_def)
  qed
  have sat: "word_of_int (M - 1) = mx" "word_of_int (- M) = mn" using mx[symmetric] mn by (simp_all flip: mn)
  show ?thesis
    unfolding signed_overflow_def Let_def[of "v + incr"] 
    using hi lo M(1) wrapped sat
    by (auto simp: Let_def mx_def[symmetric] mn_def[symmetric] split: BitfieldOverflow.split)
qed

text \<open>A value set far below the range of its field.\<close>

lemma signed_set_far:
  fixes v :: i64 and bits :: nat
  assumes "1 \<le> bits" "bits \<le> 64" "\<not> 2 ^ (bits - 1) - 1 - 2 ^ 63 < sint v"
  shows "signed_overflow v 0 bits overflow =
    (if - (2 ^ (bits - 1)) \<le> sint v then None
     else Some (case overflow of
                  Wrap \<Rightarrow> word_of_int (signed_take_bit (bits - 1) (sint v)) | Sat \<Rightarrow> word_of_int (2 ^ (bits - 1) - 1) | Fail \<Rightarrow> 0))"
proof (cases "bits = 64")
  case True
  then show ?thesis using signed_overflow_spec[of bits v 0 overflow] assms(3) i64_bounds[of v] by simp
next
  case False
  define M :: int where "M = 2 ^ (bits - 1)"
  define mx :: i64 where "mx = (if bits = 64 then 2 ^ 63 - 1 else push_bit (bits - 1) 1 - 1)"
  have "(2 :: int) ^ (bits - 1 + 1) \<le> 2 ^ 63" using False assms(1,2) by (intro power_increasing) auto
  then have M: "1 \<le> M" "2 * M \<le> 2 ^ 63" by (simp_all add: M_def)
  have mx: "sint mx = M - 1" using field_max[OF assms(1,2)] by (simp add: mx_def M_def)
  have v: "sint v \<le> M - 1 - 2 ^ 63" "- (2 ^ 63) \<le> sint v" using assms(3) i64_bounds[of v] by (simp_all add: M_def)
  have "mx - v = word_of_int (sint mx - sint v - 2 ^ 64)" by simp
  also have "sint \<dots> = sint mx - sint v - 2 ^ 64" by (rule i64_of_int) (use v M mx in simp_all)
  finally have far: "sint (mx - v) < 0" using v M mx by simp
  note wrapped = field_wrapped[OF assms(1,2), of v]
  have "\<not> - M \<le> sint v" using v M by linarith
  moreover have "word_of_int (M - 1) = mx" using mx[symmetric] by simp
  ultimately show ?thesis
    using far False wrapped
    unfolding M_def[symmetric] signed_overflow_def add_0_right mx_def[symmetric] Let_def signed_0
    by (cases overflow) simp_all
qed

lemma unsigned_overflow_spec:
  fixes v :: u64 and incr :: i64 and bits :: nat
  defines "x \<equiv> uint v + sint incr"
  assumes "bits < 64" "uint v < 2 ^ bits \<or> sint incr = 0"
  shows "unsigned_overflow v incr bits overflow =
    (if 0 \<le> x \<and> x < 2 ^ bits then None
     else Some (case overflow of
                  Wrap \<Rightarrow> word_of_int (x mod 2 ^ bits)
                | Sat \<Rightarrow> word_of_int (if x < 0 then 0 else 2 ^ bits - 1)
                | Fail \<Rightarrow> 0))"
proof -
  define mx :: u64 where "mx = push_bit bits 1 - 1"
  have M: "(1 :: int) \<le> 2 ^ bits" "(2 :: int) ^ bits \<le> 2 ^ 63" using assms(2) by (simp, intro power_increasing) auto
  have mxe: "mx = word_of_int (2 ^ bits - 1)" by (simp add: mx_def push_bit_of_1)
  have mx: "uint mx = 2 ^ bits - 1"
    unfolding mxe uint_word_of_int_eq using M by (intro take_bit_int_eq_self) auto
  have gt: "v > mx \<longleftrightarrow> uint v \<ge> 2 ^ bits" unfolding word_less_def mx by auto
  have big: "2 ^ bits \<le> uint v \<Longrightarrow> x \<ge> 2 ^ bits" using assms(3) by (auto simp: x_def)
  have diff: "sint (mx - v) = 2 ^ bits - 1 - uint v" if "uint v < 2 ^ bits"
  proof -
    have "mx - v = word_of_int (2 ^ bits - 1 - uint v)" by (simp add: mxe)
    then show ?thesis using that M i64_of_int[of "2 ^ bits - 1 - uint v"] uint_ge_0[of v] by simp
  qed
  have neg: "sint (- v) = - uint v" if "uint v < 2 ^ bits"
  proof -
    have "- v = word_of_int (- uint v)" by simp
    then show ?thesis using that M i64_of_int[of "- uint v"] uint_ge_0[of v] by simp
  qed
  have hi: "v > mx \<or> sint incr > 0 \<and> sint incr > sint (mx - v) \<longleftrightarrow> x \<ge> 2 ^ bits"
    using gt big diff uint_ge_0[of v] by (cases "uint v < 2 ^ bits") (auto simp: x_def)
  have lo: "sint incr < 0 \<and> sint incr < sint (- v) \<longleftrightarrow> x < 0" if "x < 2 ^ bits"
  proof (cases "uint v < 2 ^ bits")
    case True
    then show ?thesis unfolding x_def neg[OF True] using uint_ge_0[of v] by linarith
  qed (use that big in auto)
  have wrap: "and (v + incr) (not (push_bit bits (- 1))) = word_of_int (x mod 2 ^ bits)"
  proof -
    have e: "v + incr = word_of_int x" by (simp add: x_def)
    show ?thesis
      unfolding e by (rule bit_word_eqI)
        (auto simp: bit_and_iff bit_not_iff bit_push_bit_iff bit_mask_iff bit_word_of_int_iff bit_take_bit_iff
          simp flip: take_bit_eq_mod)
  qed
  have nn: "2 ^ bits \<le> x \<Longrightarrow> \<not> x < 0" using M(1) by linarith
  show ?thesis
    unfolding unsigned_overflow_def using hi lo nn wrap mxe
    by (auto simp: Let_def mx_def[symmetric] split: BitfieldOverflow.split)
qed

section \<open>Lemmas: fields of a buffer\<close>

text \<open>The field at an offset, as the bits of a word; and a byte string with a field replaced.\<close>

lemma shift_in_bit:
  "bit (or (push_bit 1 v) (ucast (and (drop_bit k (byte :: u8)) 1)) :: u64) n \<longleftrightarrow>
     n < 64 \<and> (if n = 0 then bit byte k else bit v (n - 1))"
  unfolding bit_or_iff bit_push_bit_iff bit_ucast_iff bit_and_iff bit_drop_bit_eq bit_1_iff comp_def
  by (cases n) auto

context bit_buf
begin

lemma read_bits_step:
  assumes "good buf"
  shows "\<exists>v' buf'. read_bits B offset is v buf = (v', buf') \<and> good buf' \<and> str buf' = str buf \<and>
    (\<forall>n < 64. bit v' n \<longleftrightarrow> (if n < length is then bit_at (str buf) (offset + is ! (length is - 1 - n)) else bit v (n - length is)))"
  using assms
proof (induction "is" arbitrary: v buf)
  case Nil
  then show ?case by simp
next
  case (Cons i "is")
  let ?b = "offset + i"
  obtain b buf1 where b1: "bb_byte B buf (?b div 8) = (b, buf1)" by fastforce
  have g: "b = byte_or_zero (?b div 8) (str buf)" "good buf1" "str buf1 = str buf" using byte[OF Cons.prems b1] by auto
  let ?v = "or (push_bit 1 v) (ucast (and (drop_bit (7 - ?b mod 8) b) 1))"
  obtain v' buf' where r: "read_bits B offset is ?v buf1 = (v', buf')" "good buf'" "str buf' = str buf1"
    "\<forall>n < 64. bit v' n \<longleftrightarrow> (if n < length is then bit_at (str buf1) (offset + is ! (length is - 1 - n)) else bit ?v (n - length is))"
    using Cons.IH[OF g(2), of ?v] by blast
  have "bit v' n \<longleftrightarrow> (if n < length (i # is) then bit_at (str buf) (offset + (i # is) ! (length (i # is) - 1 - n))
      else bit v (n - length (i # is)))" if "n < 64" for n
  proof -
    consider "n < length is" | "n = length is" | "n > length is" by linarith
    then show ?thesis
    proof cases
      case 1
      then have "length (i # is) - 1 - n = Suc (length is - 1 - n)" by simp
      then show ?thesis using 1 r(4) that g(3) by simp
    next
      case 2
      then show ?thesis using r(4) that shift_in_bit[of v _ b 0] g(1) by (simp add: bit_at_byte)
    next
      case 3
      then have "n - length is \<noteq> 0" "n - length is - 1 = n - length (i # is)" "n - length is < 64" using that by auto
      then show ?thesis using 3 r(4) that shift_in_bit[of v _ b "n - length is"] by simp
    qed
  qed
  then show ?case using r b1 g by (simp add: Let_def)
qed

lemma read_bits_field:
  assumes "good buf" "bits \<le> 64" "read_bits B offset [0..<bits] 0 buf = (v, buf')"
  shows "good buf'" "str buf' = str buf"
    and "n < 64 \<Longrightarrow> bit v n \<longleftrightarrow> n < bits \<and> bit_at (str buf) (offset + (bits - 1 - n))"
  using read_bits_step[OF assms(1), of offset "[0..<bits]" 0] assms(2,3) by (auto split: if_splits)

end

lemma set_one_bit:
  assumes "b div 8 < length xs"
  shows "bit_at (xs[b div 8 := (if on then or (byte_or_zero (b div 8) xs) (push_bit (7 - b mod 8) 1)
      else and (byte_or_zero (b div 8) xs) (not (push_bit (7 - b mod 8) 1)))]) i = (if i = b then on else bit_at xs i)"
proof (cases "i div 8 = b div 8")
  case True
  have ib: "i = b \<longleftrightarrow> 7 - i mod 8 = 7 - b mod 8"
  proof
    assume "7 - i mod 8 = 7 - b mod 8"
    moreover have "i mod 8 < 8" "b mod 8 < 8" by simp_all
    ultimately have "i mod 8 = b mod 8" by linarith
    then show "i = b" using True by (metis div_mult_mod_eq)
  qed simp
  have byte: "byte_or_zero (b div 8) xs = xs ! (b div 8)" using assms by (simp add: byte_or_zero_def elem_get_def)
  show ?thesis
    unfolding bit_at_iff byte using True assms ib
    by (auto simp: bit_or_iff bit_and_iff bit_not_iff bit_push_bit_iff bit_exp_iff)
next
  case False
  then show ?thesis by (auto simp: bit_at_iff)
qed

lemma grown_same [simp]: "n \<le> length xs \<Longrightarrow> grown n xs = xs"
  by (simp add: grown_def)

lemma odd_bit: "and (drop_bit k (v :: u64)) 1 = 1 \<longleftrightarrow> bit v k"
  by (simp add: and_one_eq bit_iff_odd_drop_bit flip: odd_iff_mod_2_eq_one)

context bit_buf
begin

lemma write_bits_loop:
  assumes "good buf" "offset + bits \<le> 8 * length (str buf)"
  shows "good (write_bits_loop B offset bits v [k..<bits] buf) \<and>
    length (str (write_bits_loop B offset bits v [k..<bits] buf)) = length (str buf) \<and>
    (\<forall>i. bit_at (str (write_bits_loop B offset bits v [k..<bits] buf)) i =
      (if offset + k \<le> i \<and> i < offset + bits then bit v (bits - 1 - (i - offset)) else bit_at (str buf) i))"
  using assms
proof (induction "bits - k" arbitrary: k buf)
  case 0
  then show ?case by auto
next
  case (Suc d)
  then have k: "[k..<bits] = k # [Suc k..<bits]" by (simp add: upt_conv_Cons)
  let ?b = "offset + k" and ?mask = "push_bit (7 - (offset + k) mod 8) 1 :: u8"
  obtain byte buf1 where b1: "bb_byte B buf (?b div 8) = (byte, buf1)" by fastforce
  have g: "byte = byte_or_zero (?b div 8) (str buf)" "good buf1" "str buf1 = str buf" using byte[OF Suc.prems(1) b1] by auto
  let ?new = "if bit v (bits - 1 - k) then or byte ?mask else and byte (not ?mask)"
  define buf2 where "buf2 = bb_set_byte B buf1 (?b div 8) ?new"
  have inside: "?b div 8 < length (str buf)" using Suc by (simp add: less_mult_imp_div_less)
  have b2: "good buf2" "str buf2 = (str buf)[?b div 8 := ?new]"
    using set_byte[OF g(2), of "?b div 8" ?new] limit[OF g(2)] inside g(3) by (simp_all add: buf2_def)
  have at: "bit_at (str buf2) i = (if i = ?b then bit v (bits - 1 - k) else bit_at (str buf) i)" for i
    unfolding b2(2) g(1) using set_one_bit[OF inside] by simp
  have IH: "good (write_bits_loop B offset bits v [Suc k..<bits] buf2) \<and>
    length (str (write_bits_loop B offset bits v [Suc k..<bits] buf2)) = length (str buf2) \<and>
    (\<forall>i. bit_at (str (write_bits_loop B offset bits v [Suc k..<bits] buf2)) i =
      (if offset + Suc k \<le> i \<and> i < offset + bits then bit v (bits - 1 - (i - offset)) else bit_at (str buf2) i))"
    using Suc.hyps(2) Suc.prems b2 by (intro Suc.hyps(1)) auto
  have eq: "write_bits_loop B offset bits v [k..<bits] buf = write_bits_loop B offset bits v [Suc k..<bits] buf2"
    unfolding k by (simp add: Let_def b1 buf2_def odd_bit)
  have "k < bits" using Suc.hyps(2) by simp
  then show ?case unfolding eq using IH at b2(2) by (auto simp: Suc_le_eq)
qed

lemma write_bits_field:
  assumes "good buf" "offset + bits \<le> 8 * length (str buf)"
  shows "good (write_bits B offset bits v buf)" "length (str (write_bits B offset bits v buf)) = length (str buf)"
    and "bit_at (str (write_bits B offset bits v buf)) i =
      (if offset \<le> i \<and> i < offset + bits then bit v (bits - 1 - (i - offset)) else bit_at (str buf) i)"
  using write_bits_loop[OF assms, of v 0] by (auto simp: write_bits_def)

text \<open>An implementation reads and writes what the reference does.\<close>

lemma read_bits_ref:
  assumes "good buf" "read_bits B offset is v buf = (u, buf')"
  shows "read_bits list_buf offset is v (str buf) = (u, str buf) \<and> good buf' \<and> str buf' = str buf"
  using assms
proof (induction "is" arbitrary: v buf)
  case (Cons i "is")
  obtain b buf1 where b1: "bb_byte B buf ((offset + i) div 8) = (b, buf1)" by fastforce
  have g: "b = byte_or_zero ((offset + i) div 8) (str buf)" "good buf1" "str buf1 = str buf"
    using byte[OF Cons.prems(1) b1] by auto
  show ?case using Cons.IH[OF g(2)] Cons.prems(2) b1 g(1,3) by (simp add: Let_def list_buf_def)
qed simp

lemma op_read_ref:
  assumes "good buf" "op_read B op buf = (x, buf')"
  shows "op_read list_buf op (str buf) = (x, str buf)" "good buf'" "str buf' = str buf"
proof -
  obtain u buf1 where r: "read_bits B (bo_offset op) [0..<bo_bits op] 0 buf = (u, buf1)" by fastforce
  note ref = read_bits_ref[OF assms(1) r]
  show "op_read list_buf op (str buf) = (x, str buf)" "good buf'" "str buf' = str buf"
    using ref assms(2) r by (auto simp: op_read_def Let_def)
qed

lemma write_bits_loop_ref:
  assumes "good buf" "\<forall>i \<in> set is. (offset + i) div 8 < lim"
  shows "good (write_bits_loop B offset bits v is buf) \<and>
    str (write_bits_loop B offset bits v is buf) = write_bits_loop list_buf offset bits v is (str buf)"
  using assms
proof (induction "is" arbitrary: buf)
  case (Cons i "is")
  obtain b buf1 where b1: "bb_byte B buf ((offset + i) div 8) = (b, buf1)" by fastforce
  have g: "b = byte_or_zero ((offset + i) div 8) (str buf)" "good buf1" "str buf1 = str buf"
    using byte[OF Cons.prems(1) b1] by auto
  show ?case
    using Cons.IH[of "bb_set_byte B buf1 ((offset + i) div 8) x" for x] set_byte[OF g(2), of "(offset + i) div 8"]
      Cons.prems(2) b1 g(1,3)
    by (simp add: Let_def list_buf_def)
qed simp

lemma write_bits_ref:
  assumes "good buf" "offset + bits \<le> 8 * lim"
  shows "good (write_bits B offset bits v buf)"
    and "str (write_bits B offset bits v buf) = write_bits list_buf offset bits v (str buf)"
  using write_bits_loop_ref[OF assms(1), of "[0..<bits]" offset bits v] assms(2)
  by (auto simp: write_bits_def less_mult_imp_div_less)

text \<open>A field reads as it was written: its low bits, sign-extended when it is signed.\<close>

lemma read_after_write:
  assumes "good buf" "bo_offset op + bo_bits op \<le> 8 * length (str buf)" "1 \<le> bo_bits op" "bo_bits op \<le> 64"
    and "op_read B op (write_bits B (bo_offset op) (bo_bits op) v buf) = (x, buf')"
  shows "x = (if bo_signed op then signed_take_bit (bo_bits op - 1) v else take_bit (bo_bits op) v)"
    and "str buf' = str (write_bits B (bo_offset op) (bo_bits op) v buf)" "good buf'"
proof -
  let ?n = "bo_bits op" and ?o = "bo_offset op"
  let ?w = "write_bits B ?o ?n v buf"
  obtain u buf1 where r: "read_bits B ?o [0..<?n] 0 ?w = (u, buf1)" by fastforce
  note w = write_bits_field[OF assms(1,2), of v]
  note f = read_bits_field[OF w(1) assms(4) r]
  have buf': "buf' = buf1" and x: "x = (if bo_signed op \<and> ?n < 64 \<and> and u (push_bit (?n - 1) 1) \<noteq> 0
      then or u (push_bit ?n (- 1)) else u)"
    using assms(5) r by (auto simp: op_read_def Let_def)
  show "str buf' = str ?w" "good buf'" using f buf' by simp_all
  have u: "bit u i \<longleftrightarrow> i < ?n \<and> bit v i" if "i < 64" for i
    using f(3)[OF that] w(3)[of "?o + (?n - 1 - i)"] by auto
  show "x = (if bo_signed op then signed_take_bit (?n - 1) v else take_bit ?n v)"
  proof (rule bit_word_eqI)
    fix i assume i: "i < LENGTH(64)"
    have m: "min (?n - Suc 0) i = (if i < ?n then i else ?n - 1)" using assms(3) by auto
    have top: "and u (push_bit (?n - 1) 1) \<noteq> 0 \<longleftrightarrow> bit v (?n - 1)"
      using u[of "?n - 1"] assms(3,4) by (simp add: push_bit_of_1 and_mask_bit)
    show "bit x i = bit (if bo_signed op then signed_take_bit (?n - 1) v else take_bit ?n v) i"
      unfolding x top using u[of i] i assms(3,4)
      by (auto simp: bit_or_iff bit_push_bit_iff bit_mask_iff bit_not_iff bit_take_bit_iff bit_signed_take_bit_iff m)
  qed
qed

end

section \<open>Lemmas: the positions addressed\<close>

lemma addressed_span:
  "addressed len start stop bits i \<longleftrightarrow> fst (bit_span len start stop bits) \<le> i \<and> i < snd (bit_span len start stop bits)"
proof (cases bits)
  case True
  then show ?thesis by (auto simp: addressed_def bit_span_def bit_window_def Let_def nat_le_iff split: if_splits)
next
  case False
  have byte: "8 * a \<le> i \<longleftrightarrow> a \<le> i div 8" "i < 8 * (a + 1) \<longleftrightarrow> i div 8 \<le> a" "i < 8 * a \<longleftrightarrow> i div 8 < a" for a
    by (linarith, auto)
  obtain s e where w: "bit_window (int len) start stop = (s, e)" by fastforce
  have "addressed len start stop bits i \<longleftrightarrow> s \<le> int (i div 8) \<and> int (i div 8) \<le> e"
    using w False by (auto simp: addressed_def bit_window_def Let_def byte(3) split: if_splits)
  moreover have "0 \<le> s" using bit_window_bounds[OF w] by simp
  ultimately show ?thesis using w False byte(1,2) by (auto simp: bit_span_def nat_le_iff le_nat_iff)
qed

lemma find_filter: "List.find P (filter R xs) = List.find (\<lambda>x. R x \<and> P x) xs"
  by (induction xs) auto

lemma filter_upt_between: "hi \<le> n \<Longrightarrow> filter (\<lambda>i. lo \<le> i \<and> i < hi) [0..<n] = [lo..<hi]"
proof (cases "lo \<le> hi")
  case True
  assume "hi \<le> n"
  then show ?thesis using filter_upt_less[of hi n "\<lambda>i. lo \<le> i"] filter_upt_ge[OF True, of "\<lambda>_. True"] by simp
qed (simp add: filter_empty_conv)

lemma bit_span_bound: "snd (bit_span len start stop bits) \<le> 8 * len"
proof -
  obtain s e where w: "bit_window (int len * (if bits then 8 else 1)) start stop = (s, e)" by fastforce
  then show ?thesis using bit_window_bounds[OF w] by (auto simp: bit_span_def nat_le_iff)
qed

lemma first_addressed:
  "List.find (\<lambda>i. addressed (length p) start stop bits i \<and> bit_at p i = b) [0..<8 * length p] =
   first_bit p b (bit_span (length p) start stop bits)"
proof -
  let ?s = "bit_span (length p) start stop bits"
  have "[fst ?s..<snd ?s] = filter (\<lambda>i. fst ?s \<le> i \<and> i < snd ?s) [0..<8 * length p]"
    by (rule filter_upt_between[symmetric]) (rule bit_span_bound)
  then show ?thesis unfolding first_bit_def addressed_span by (simp add: find_filter)
qed

lemma bit_window_last: "0 \<le> n \<Longrightarrow> bit_window n start (n - 1) = bit_window n start (- 1)"
  by (auto simp: bit_window_def Let_def)

lemma bitpos_range:
  "bitpos_of p b (Some (start, stop, bits)) =
     (case first_bit p b (bit_span (length p) start (case stop of Some x \<Rightarrow> x | None \<Rightarrow> - 1) bits) of
        Some i \<Rightarrow> int i
      | None \<Rightarrow> if \<not> b \<and> stop = None \<and> (\<exists>i. addressed (length p) start (- 1) bits i) then int (8 * length p) else - 1)"
proof -
  let ?n = "int (length p) * (if bits then 8 else 1)" and ?x = "case stop of Some x \<Rightarrow> x | None \<Rightarrow> - 1"
  let ?y = "case stop of Some x \<Rightarrow> x | None \<Rightarrow> ?n - 1"
  obtain s e where w: "bit_window ?n start ?x = (s, e)" by fastforce
  have w': "bit_window ?n start ?y = (s, e)" using w bit_window_last[of ?n start] by (cases stop) auto
  then have span: "bit_span (length p) start ?y bits = bit_span (length p) start ?x bits" using w by (simp add: bit_span_def)
  have b: "0 \<le> s" "e < ?n" using bit_window_bounds[OF w] by auto
  show ?thesis
  proof (cases "s > e")
    case True
    then have "bit_span (length p) start ?x bits = (0, 0)" using w by (simp add: bit_span_def)
    then show ?thesis
      using bitpos_span[OF w' refl, of b] True by (auto simp: first_bit_def addressed_span)
  next
    case False
    have "e = ?n - 1" if "stop = None" using w False that b by (auto simp: bit_window_def Let_def split: if_splits)
    then have e: "snd (bit_span (length p) start ?x bits) = 8 * length p" if "stop = None"
      using w False that b by (auto simp: bit_span_def)
    have "fst (bit_span (length p) start ?x bits) < snd (bit_span (length p) start ?x bits)"
      using w False b by (auto simp: bit_span_def nat_less_iff)
    then have "\<exists>i. addressed (length p) start (- 1) bits i" if "stop = None" using that by (auto simp: addressed_span)
    then show ?thesis
      using bitpos_span[OF w' refl, of b] False e by (auto simp: span Let_def split: option.split)
  qed
qed

lemma bitpos_no_range: "bitpos_of p b None = bitpos_of p b (Some (0, None, False))"
proof -
  have "bit_window (int n) 0 (int n - 1) = (0, int n - 1)" for n by (auto simp: bit_window_def Let_def)
  then show ?thesis unfolding bitpos_of_def bitpos_in_def option.case Let_def prod.case if_False by simp
qed

section \<open>Properties\<close>

text \<open>
  C36. BITCOUNT answers the number of set bits at the positions its range addresses, in bytes or in
  bits, of all bits with no range, and none for a range that is backwards at the end. BITPOS answers the first
  position addressed that has the bit asked for, else minus one; a search for a zero with no end given, or with
  no range, answers the position just past the string, unless no position is addressed.
\<close>

theorem bitcount_bitpos_spec:
  "bitcount_of p None = card {i. i < 8 * length p \<and> bit_at p i} \<and>
   bitcount_of p (Some (start, stop, bits)) =
     (if start < 0 \<and> stop < 0 \<and> start > stop then 0 else card {i. addressed (length p) start stop bits i \<and> bit_at p i}) \<and>
   bitpos_of p b (Some (start, Some stop, bits)) =
     (case List.find (\<lambda>i. addressed (length p) start stop bits i \<and> bit_at p i = b) [0..<8 * length p] of
        Some i \<Rightarrow> int i | None \<Rightarrow> - 1) \<and>
   bitpos_of p b (Some (start, None, bits)) =
     (case List.find (\<lambda>i. addressed (length p) start (- 1) bits i \<and> bit_at p i = b) [0..<8 * length p] of
        Some i \<Rightarrow> int i
      | None \<Rightarrow> if \<not> b \<and> (\<exists>i. addressed (length p) start (- 1) bits i) then int (8 * length p) else - 1) \<and>
   bitpos_of p b None =
     (case List.find (\<lambda>i. bit_at p i = b) [0..<8 * length p] of
        Some i \<Rightarrow> int i | None \<Rightarrow> if \<not> b \<and> p \<noteq> [] then int (8 * length p) else - 1)"
    (is "?c1 \<and> ?c2 \<and> ?p1 \<and> ?p2 \<and> ?p3")
proof -
  have card: "bits_in p lo hi = card {i. lo \<le> i \<and> i < hi \<and> bit_at p i}" for lo hi
  proof -
    have "{i. lo \<le> i \<and> i < hi \<and> bit_at p i} = set (filter (bit_at p) [lo..<hi])" by auto
    then show ?thesis unfolding bits_in_def by (simp only: distinct_card distinct_filter distinct_upt)
  qed
  have c1: ?c1 unfolding bitcount_all card by simp
  have c2: ?c2 unfolding bitcount_span card addressed_span by (simp add: conj_assoc)
  have p1: ?p1 by (simp add: bitpos_range first_addressed)
  have p2: ?p2 unfolding bitpos_range first_addressed option.case simp_thms ..
  have all: "addressed (length p) 0 (- 1) False i \<longleftrightarrow> i < 8 * length p" for i
    by (auto simp: addressed_def Let_def)
  have f: "List.find (\<lambda>i. i < 8 * length p \<and> bit_at p i = b) [0..<8 * length p] = List.find (\<lambda>i. bit_at p i = b) [0..<8 * length p]"
    by (rule find_filter_cong) simp
  have "(\<exists>i. i < 8 * length p) \<longleftrightarrow> p \<noteq> []" by (cases p) (auto intro: exI[of _ 0])
  then have p3: ?p3
    unfolding bitpos_no_range bitpos_range first_addressed[symmetric] option.case all f simp_thms by (simp only:)
  from c1 c2 p1 p2 p3 show ?thesis by blast
qed

text \<open>
  BITOP is as long as its longest source, and each bit of it is the operator applied to that bit
  of every source, a source that is too short counting as zeros: of all, of any, of an odd number,
  of the first but none or some of the others, or of exactly one.
\<close>

theorem bitop_per_bit:
  assumes "sources \<noteq> []" "i < 8 * length (bitop_of op sources)"
  shows "length (bitop_of op sources) = Max (set (map length sources)) \<and>
    bit_at (bitop_of op sources) i =
    (case op of
       BAnd \<Rightarrow> list_all (\<lambda>s. bit_at s i) sources
     | BOr \<Rightarrow> list_ex (\<lambda>s. bit_at s i) sources
     | BXor \<Rightarrow> odd (length (filter (\<lambda>s. bit_at s i) sources))
     | BNot \<Rightarrow> \<not> bit_at (hd sources) i
     | Diff \<Rightarrow> bit_at (hd sources) i \<and> \<not> list_ex (\<lambda>s. bit_at s i) (tl sources)
     | Diff1 \<Rightarrow> \<not> bit_at (hd sources) i \<and> list_ex (\<lambda>s. bit_at s i) (tl sources)
     | AndOr \<Rightarrow> bit_at (hd sources) i \<and> list_ex (\<lambda>s. bit_at s i) (tl sources)
     | One \<Rightarrow> length (filter (\<lambda>s. bit_at s i) sources) = 1)"
proof -
  have n: "7 - i mod 8 < 8" and j: "i div 8 < length (bitop_of op sources)" using assms(2) by (simp_all add: less_mult_imp_div_less)
  then have "bitop_of op sources ! (i div 8) = bitop_byte op sources (i div 8)" by (simp add: bitop_of_def)
  then have "bit_at (bitop_of op sources) i = bit (bitop_byte op sources (i div 8)) (7 - i mod 8)" using j by (simp add: bit_at_iff)
  then show ?thesis
    unfolding bitop_bit[OF assms(1) n] using length_bitop[OF assms(1), of op]
    by (simp add: bit_at_byte list_all_iff list_ex_iff cong: BitOp.case_cong)
qed

theorem bitop_per_bit_witness: "bit_at (bitop_of One [[0x80], [0xc0, 1]]) 1"
proof -
  have l: "1 < 8 * length (bitop_of One [[0x80], [0xc0, 1]])" by code_simp
  have b: "length (filter (\<lambda>s. bit_at s 1) [[0x80], [0xc0, 1]]) = 1" by code_simp
  show ?thesis using bitop_per_bit[OF _ l] b by simp
qed

text \<open>
  C37. BITFIELD arithmetic at every width, 1 to 64 bits signed and 1 to 63 unsigned. An increment of a field
  overflows exactly when the exact sum leaves the range of its width, and a value set exactly when it is
  out of the range itself. On overflow wrapping stores the two's complement, or the remainder, of the exact sum,
  and saturating the end of the range the sum is beyond; the one exception is a signed value set so far
  below its range that its distance to the maximum is no 64-bit integer, where the maximum is stored.
\<close>

theorem bitfield_overflow_exact:
  fixes v incr :: i64
  assumes "1 \<le> bits" "bits \<le> 64"
  shows "(- (2 ^ (bits - 1)) \<le> sint v \<and> sint v < 2 ^ (bits - 1) \<longrightarrow>
      signed_overflow v incr bits overflow =
       (let x = sint v + sint incr
        in if - (2 ^ (bits - 1)) \<le> x \<and> x < 2 ^ (bits - 1) then None
           else Some (case overflow of
                        Wrap \<Rightarrow> word_of_int (signed_take_bit (bits - 1) x)
                      | Sat \<Rightarrow> word_of_int (if x < 0 then - (2 ^ (bits - 1)) else 2 ^ (bits - 1) - 1)
                      | Fail \<Rightarrow> 0))) \<and>
    signed_overflow v 0 bits overflow =
       (if - (2 ^ (bits - 1)) \<le> sint v \<and> sint v < 2 ^ (bits - 1) then None
        else Some (case overflow of
                     Wrap \<Rightarrow> word_of_int (signed_take_bit (bits - 1) (sint v))
                   | Sat \<Rightarrow> word_of_int (if sint v < 0 \<and> 2 ^ (bits - 1) - 1 - sint v < 2 ^ 63 then - (2 ^ (bits - 1)) else 2 ^ (bits - 1) - 1)
                   | Fail \<Rightarrow> 0)) \<and>
    (bits < 64 \<and> (uint v < 2 ^ bits \<or> incr = 0) \<longrightarrow>
      unsigned_overflow v incr bits overflow =
       (let x = uint v + sint incr
        in if 0 \<le> x \<and> x < 2 ^ bits then None
           else Some (case overflow of
                        Wrap \<Rightarrow> word_of_int (x mod 2 ^ bits)
                      | Sat \<Rightarrow> word_of_int (if x < 0 then 0 else 2 ^ bits - 1)
                      | Fail \<Rightarrow> 0)))"
    (is "(_ \<longrightarrow> ?incr) \<and> ?set \<and> (_ \<longrightarrow> ?unsigned)")
proof -
  have incr: ?incr if "- (2 ^ (bits - 1)) \<le> sint v \<and> sint v < 2 ^ (bits - 1)"
    using signed_overflow_spec[of bits v incr overflow] assms that by (simp add: Let_def)
  have set: ?set
  proof (cases "2 ^ (bits - 1) - 1 - 2 ^ 63 < sint v")
    case True
    then show ?thesis using signed_overflow_spec[of bits v 0 overflow] assms by (cases overflow) auto
  next
    case False
    have "(2 :: int) ^ (bits - 1) \<le> 2 ^ 63" using assms(2) by (intro power_increasing) auto
    then have v: "sint v < 2 ^ (bits - 1)" using False zero_less_power[of "2 :: int" "bits - 1"] by linarith
    have far: "\<not> (sint v < 0 \<and> 2 ^ (bits - 1) - 1 - sint v < 2 ^ 63)" using False by linarith
    show ?thesis unfolding signed_set_far[OF assms False] if_not_P[OF far] using v by simp
  qed
  have unsigned: ?unsigned if "bits < 64 \<and> (uint v < 2 ^ bits \<or> incr = 0)"
    using unsigned_overflow_spec[of bits v incr overflow] that by (auto simp: Let_def)
  from incr set unsigned show ?thesis by blast
qed

theorem bitfield_overflow_exact_witness:
  "signed_overflow (2 ^ 63 - 1) 1 64 Sat = Some (2 ^ 63 - 1) \<and> unsigned_overflow 255 1 8 Wrap = Some 0 \<and>
   signed_overflow (- (2 ^ 63)) 0 8 Sat = Some 127"
  using bitfield_overflow_exact[of 64 "2 ^ 63 - 1" 1 Sat] bitfield_overflow_exact[of 8 255 1 Wrap]
    bitfield_overflow_exact[of 8 "- (2 ^ 63)" 0 Sat] by simp

end
