(* ===== verification/Flint_Strings.thy ===== *)
theory Flint_Strings
  imports Flint_Store Flint_Ints Flint_Bits
begin

text \<open>
  Strings: the store of \<open>crates/flint-storage/src/strings.rs\<close>. A string is stored inline in its
  metadata row, or in chunk rows under a version, a chunk of zeros being no row. Positions the
  code keeps in a \<open>u64\<close> or \<open>usize\<close> are \<open>nat\<close> where they index a string that is there; lengths
  and offsets that come from a caller or a row are words.

  The lemmas say that every operation is the plain operation on the string's bytes, however the
  string is stored: the chunked form is invisible. INCRBYFLOAT formats floats and is not modelled.
\<close>

section \<open>The store\<close>

datatype SetOutcome = Done | Unchanged

datatype SetExpiry = Clear | Keep | AtMs u64

record SetOptions =
  so_nx :: bool
  so_xx :: bool
  so_expiry :: SetExpiry

definition INLINE_MAX :: nat where [flint_eval]: "INLINE_MAX = 64 * 1024"
definition CHUNK_BYTES :: nat where [flint_eval]: "CHUNK_BYTES = 32 * 1024"

record StringStore =
  ss_store :: TypeStore
  ss_chunked_writes :: bool
  ss_inline_max :: nat
  ss_chunk :: nat

datatype Stored = Inline StringMeta | Chunked ComplexMeta

definition stored_len :: "Stored \<Rightarrow> u64" where
  [flint_eval]: "stored_len s = (case s of Inline m \<Rightarrow> word_of_nat (length (sm_payload m)) | Chunked c \<Rightarrow> cm_bytes c)"

definition str_with_max :: "bytes \<Rightarrow> (nat \<Rightarrow> u64) \<Rightarrow> u64 \<Rightarrow> StringStore" where
  [flint_eval]: "str_with_max ns clock mx =
     \<lparr>ss_store = with_max_value_bytes ns clock mx, ss_chunked_writes = False,
      ss_inline_max = INLINE_MAX, ss_chunk = CHUNK_BYTES\<rparr>"

definition str_new :: "bytes \<Rightarrow> (nat \<Rightarrow> u64) \<Rightarrow> StringStore" where
  [flint_eval]: "str_new ns clock = str_with_max ns clock DEFAULT_MAX_VALUE_BYTES"

definition chunked :: "bool \<Rightarrow> StringStore \<Rightarrow> StringStore" where
  [flint_eval]: "chunked writes S = S\<lparr>ss_chunked_writes := writes\<rparr>"

definition with_chunks :: "nat \<Rightarrow> nat \<Rightarrow> StringStore \<Rightarrow> StringStore" where
  [flint_eval]: "with_chunks inline_max chunk S = S\<lparr>ss_chunked_writes := True, ss_inline_max := inline_max, ss_chunk := chunk\<rparr>"

abbreviation str_meta_key :: "StringStore \<Rightarrow> u16 \<Rightarrow> bytes \<Rightarrow> bytes" where
  "str_meta_key S slot key \<equiv> meta_key (ss_store S) slot key"

definition chunk_key :: "StringStore \<Rightarrow> u16 \<Rightarrow> bytes \<Rightarrow> u64 \<Rightarrow> nat \<Rightarrow> bytes" where
  [flint_eval]: "chunk_key S slot key version i =
     subkey_envelope (st_ns (ss_store S)) slot key version (to_be32 (word_of_nat i))"

definition read_live_header ::
  "'s Kv \<Rightarrow> StringStore \<Rightarrow> u16 \<Rightarrow> bytes \<Rightarrow> 's world \<Rightarrow> MetaHeader option \<times> 's world"
where
  [flint_eval]: "read_live_header K S slot key w =
     (let mk = str_meta_key S slot key
      in case w_get K w mk of
           None \<Rightarrow> (None, w)
         | Some row \<Rightarrow>
             (case mh_decode row of
                None \<Rightarrow> (None, w)
              | Some header \<Rightarrow>
                  (let (now, w) = read_clock (ss_store S) w
                   in if mh_is_expired header now then (None, snd (w_delete K w mk)) else (Some header, w))))"

datatype str_row = Missing | Undecodable | Expired | WrongTyped | Live Stored

definition classify :: "u64 \<Rightarrow> bytes option \<Rightarrow> str_row" where
  [flint_eval]: "classify now row =
     (case row of
        None \<Rightarrow> Missing
      | Some row \<Rightarrow>
          (case mh_decode row of
             None \<Rightarrow> Undecodable
           | Some header \<Rightarrow>
               if mh_is_expired header now then Expired
               else if mh_value_type header = Some StringT then
                 (case sm_decode row of Some m \<Rightarrow> Live (Inline m) | None \<Rightarrow> Undecodable)
               else if mh_value_type header = Some ChunkedString then
                 (case cm_decode row of Some c \<Rightarrow> Live (Chunked c) | None \<Rightarrow> Undecodable)
               else WrongTyped))"

definition read_live ::
  "'s Kv \<Rightarrow> StringStore \<Rightarrow> u16 \<Rightarrow> bytes \<Rightarrow> 's world \<Rightarrow> (StoreError + Stored option) \<times> 's world"
where
  [flint_eval]: "read_live K S slot key w =
     (let mk = str_meta_key S slot key;
          (now, w) = read_clock (ss_store S) w
      in case classify now (w_get K w mk) of
           Missing \<Rightarrow> (Inr None, w)
         | Undecodable \<Rightarrow> (Inr None, w)
         | Expired \<Rightarrow> (Inr None, snd (w_delete K w mk))
         | WrongTyped \<Rightarrow> (Inl WrongType, w)
         | Live s \<Rightarrow> (Inr (Some s), w))"

text \<open>Reading a window of a chunked string: each chunk row overlays its bytes on zeros.\<close>

definition overlay_at :: "nat \<Rightarrow> bytes \<Rightarrow> bytes \<Rightarrow> bytes" where
  [flint_eval]: "overlay_at at part out = take at out @ part @ drop (at + length part) out"

definition visit_chunk :: "nat \<Rightarrow> nat \<Rightarrow> nat \<Rightarrow> nat \<Rightarrow> nat \<Rightarrow> bytes visitor" where
  [flint_eval]: "visit_chunk plen csize start stop lst k v out =
     (let f = drop plen k
      in if length f \<noteq> 4 then (True, out)
         else
           (let i = unat (of_be f :: u32)
            in if i > lst then (False, out)
               else
                 (let base = i * csize;
                      lo = max base start;
                      hi = min (base + length v) stop
                  in (True, if lo < hi then overlay_at (lo - start) (take (hi - lo) (drop (lo - base) v)) out else out))))"

definition read_chunked ::
  "'s Kv \<Rightarrow> StringStore \<Rightarrow> u16 \<Rightarrow> bytes \<Rightarrow> ComplexMeta \<Rightarrow> nat \<Rightarrow> nat \<Rightarrow> 's world \<Rightarrow> bytes"
where
  [flint_eval]: "read_chunked K S slot key c from stop w =
     (let stop = min stop (unat (cm_bytes c))
      in if from \<ge> stop then []
         else
           (let size = ss_chunk S;
                first = from div size;
                last = (stop - 1) div size;
                prefix = subkey_prefix (st_ns (ss_store S)) slot key (cm_version c);
                after = (if first = 0 then [] else chunk_key S slot key (cm_version c) (first - 1))
            in snd (run_visits (visit_chunk (length prefix) size from stop last)
                 (kv_for_each_from K (w_kv w) prefix after) (replicate (stop - from) 0))))"

definition value_of :: "'s Kv \<Rightarrow> StringStore \<Rightarrow> u16 \<Rightarrow> bytes \<Rightarrow> Stored \<Rightarrow> 's world \<Rightarrow> bytes" where
  [flint_eval]: "value_of K S slot key stored w =
     (case stored of
        Inline m \<Rightarrow> sm_payload m
      | Chunked c \<Rightarrow> read_chunked K S slot key c 0 (unat (cm_bytes c)) w)"

definition value_and_expiry ::
  "'s Kv \<Rightarrow> StringStore \<Rightarrow> u16 \<Rightarrow> bytes \<Rightarrow> 's world \<Rightarrow> (StoreError + (bytes \<times> u64) option) \<times> 's world"
where
  [flint_eval]: "value_and_expiry K S slot key w =
     (case read_live K S slot key w of
        (Inl e, w) \<Rightarrow> (Inl e, w)
      | (Inr None, w) \<Rightarrow> (Inr None, w)
      | (Inr (Some s), w) \<Rightarrow>
          (Inr (Some (value_of K S slot key s w,
             case s of Inline m \<Rightarrow> sm_expire_ms m | Chunked c \<Rightarrow> mh_expire_ms (cm_header c))), w))"

text \<open>Rust's \<open>chunks\<close>, and the rows of a value in chunks.\<close>

function chunks_of :: "nat \<Rightarrow> bytes \<Rightarrow> bytes list" where
  "chunks_of n xs = (if xs = [] \<or> n = 0 then [] else take n xs # chunks_of n (drop n xs))"
  by pat_completeness auto
termination
  by (relation "measure (\<lambda>(n, xs). length xs)") auto

declare chunks_of.simps [simp del]

fun put_chunks ::
  "'s Kv \<Rightarrow> StringStore \<Rightarrow> u16 \<Rightarrow> bytes \<Rightarrow> u64 \<Rightarrow> nat \<Rightarrow> bytes list \<Rightarrow> 's world \<Rightarrow> 's world"
where
  "put_chunks K S slot key version i [] w = w"
| "put_chunks K S slot key version i (part # parts) w =
     put_chunks K S slot key version (i + 1) parts
       (if list_ex (\<lambda>b. b \<noteq> 0) part then w_put K w (chunk_key S slot key version i) part else w)"

definition div_ceil :: "nat \<Rightarrow> nat \<Rightarrow> nat" where
  [flint_eval]: "div_ceil n d = (n + d - 1) div d"

definition put_value :: "'s Kv \<Rightarrow> StringStore \<Rightarrow> u16 \<Rightarrow> bytes \<Rightarrow> bytes \<Rightarrow> u64 \<Rightarrow> 's world \<Rightarrow> 's world" where
  [flint_eval]: "put_value K S slot key payload expire_ms w =
     (let (now, w) = read_clock (ss_store S) w
      in if \<not> (ss_chunked_writes S \<and> length payload > ss_inline_max S)
         then w_put K w (str_meta_key S slot key) (sm_encode (sm_new payload expire_ms now))
         else
           (let (version, w) = next_version now w;
                meta = cm_new ChunkedString version;
                meta = meta\<lparr>cm_header := (cm_header meta)\<lparr>mh_expire_ms := expire_ms\<rparr>\<rparr>;
                w = put_chunks K S slot key version 0 (chunks_of (ss_chunk S) payload) w;
                meta = meta\<lparr>cm_bytes := word_of_nat (length payload),
                            cm_size := word_of_nat (div_ceil (length payload) (ss_chunk S))\<rparr>
            in w_put K w (str_meta_key S slot key) (cm_encode (cm_touch meta now))))"

section \<open>Writing in place\<close>

record ChunkView =
  cv_meta :: ComplexMeta
  cv_chunks :: "nat \<rightharpoonup> bytes"
  cv_changed :: "nat list"
  cv_dirty :: bool

record InlineView =
  iv_payload :: bytes
  iv_expire_ms :: u64
  iv_dirty :: bool

datatype Target = TInline InlineView | TChunked ChunkView

definition inline_view :: "bytes \<Rightarrow> u64 \<Rightarrow> bool \<Rightarrow> InlineView" where
  [flint_eval]: "inline_view payload expire_ms dirty = \<lparr>iv_payload = payload, iv_expire_ms = expire_ms, iv_dirty = dirty\<rparr>"

definition chunk_view :: "ComplexMeta \<Rightarrow> bool \<Rightarrow> ChunkView" where
  [flint_eval]: "chunk_view meta dirty = \<lparr>cv_meta = meta, cv_chunks = Map.empty, cv_changed = [], cv_dirty = dirty\<rparr>"

definition target ::
  "'s Kv \<Rightarrow> StringStore \<Rightarrow> u16 \<Rightarrow> bytes \<Rightarrow> u64 \<Rightarrow> 's world \<Rightarrow> (StoreError + Target) \<times> 's world"
where
  [flint_eval]: "target K S slot key need w =
     (case read_live K S slot key w of
        (Inl e, w) \<Rightarrow> (Inl e, w)
      | (Inr existing, w) \<Rightarrow>
          (let chunk_now = (ss_chunked_writes S \<and> unat need > ss_inline_max S)
           in case existing of
                Some (Chunked meta) \<Rightarrow> (Inr (TChunked (chunk_view meta False)), w)
              | Some (Inline m) \<Rightarrow>
                  if chunk_now then
                    (let (now, w) = read_clock (ss_store S) w;
                         (version, w) = next_version now w;
                         meta = cm_new ChunkedString version;
                         meta = meta\<lparr>cm_header := (cm_header meta)\<lparr>mh_expire_ms := sm_expire_ms m\<rparr>\<rparr>;
                         w = put_chunks K S slot key version 0 (chunks_of (ss_chunk S) (sm_payload m)) w;
                         meta = meta\<lparr>cm_bytes := word_of_nat (length (sm_payload m))\<rparr>
                     in (Inr (TChunked (chunk_view meta True)), w))
                  else (Inr (TInline (inline_view (sm_payload m) (sm_expire_ms m) False)), w)
              | None \<Rightarrow>
                  if chunk_now then
                    (let (now, w) = read_clock (ss_store S) w;
                         (version, w) = next_version now w
                     in (Inr (TChunked (chunk_view (cm_new ChunkedString version) True)), w))
                  else (Inr (TInline (inline_view [] 0 True)), w)))"

definition resize :: "nat \<Rightarrow> bytes \<Rightarrow> bytes" where
  [flint_eval]: "resize n xs = take n xs @ replicate (n - length xs) 0"

text \<open>Chunk \<open>i\<close> of a view, loaded on first use.\<close>

definition cv_chunk :: "'s Kv \<Rightarrow> StringStore \<Rightarrow> u16 \<Rightarrow> bytes \<Rightarrow> 's world \<Rightarrow> nat \<Rightarrow> ChunkView \<Rightarrow> bytes \<times> ChunkView" where
  [flint_eval]: "cv_chunk K S slot key w i v =
     (case cv_chunks v i of
        Some c \<Rightarrow> (c, v)
      | None \<Rightarrow>
          (let c = (case w_get K w (chunk_key S slot key (cm_version (cv_meta v)) i) of Some c \<Rightarrow> c | None \<Rightarrow> []);
               c = resize (ss_chunk S) c
           in (c, v\<lparr>cv_chunks := (cv_chunks v)(i \<mapsto> c)\<rparr>)))"

fun put_changed ::
  "'s Kv \<Rightarrow> StringStore \<Rightarrow> u16 \<Rightarrow> bytes \<Rightarrow> ChunkView \<Rightarrow> nat list \<Rightarrow> 's world \<Rightarrow> 's world"
where
  "put_changed K S slot key v [] w = w"
| "put_changed K S slot key v (i # is) w =
     put_changed K S slot key v is
       (case cv_chunks v i of
          None \<Rightarrow> w
        | Some c \<Rightarrow>
            (let span = min (unat (cm_bytes (cv_meta v)) - i * ss_chunk S) (ss_chunk S)
             in w_put K w (chunk_key S slot key (cm_version (cv_meta v)) i) (take span c)))"

definition cv_finish :: "'s Kv \<Rightarrow> StringStore \<Rightarrow> u16 \<Rightarrow> bytes \<Rightarrow> ChunkView \<Rightarrow> 's world \<Rightarrow> 's world" where
  [flint_eval]: "cv_finish K S slot key v w =
     (if \<not> cv_dirty v \<and> cv_changed v = [] then w
      else
        (let len = unat (cm_bytes (cv_meta v));
             w = put_changed K S slot key v (cv_changed v) w;
             meta = (cv_meta v)\<lparr>cm_size := word_of_nat (div_ceil len (ss_chunk S))\<rparr>;
             (now, w) = read_clock (ss_store S) w
         in w_put K w (str_meta_key S slot key) (cm_encode (cm_touch meta now))))"

definition iv_finish :: "'s Kv \<Rightarrow> StringStore \<Rightarrow> u16 \<Rightarrow> bytes \<Rightarrow> InlineView \<Rightarrow> 's world \<Rightarrow> 's world" where
  [flint_eval]: "iv_finish K S slot key v w =
     (if iv_dirty v
      then (let (now, w) = read_clock (ss_store S) w
            in w_put K w (str_meta_key S slot key) (sm_encode (sm_new (iv_payload v) (iv_expire_ms v) now)))
      else w)"

definition iv_byte :: "InlineView \<Rightarrow> nat \<Rightarrow> u8 \<times> InlineView" where
  [flint_eval]: "iv_byte v i = (byte_or_zero i (iv_payload v), v)"

definition iv_set_byte :: "InlineView \<Rightarrow> nat \<Rightarrow> u8 \<Rightarrow> InlineView" where
  [flint_eval]: "iv_set_byte v i b =
     (let v = (if length (iv_payload v) \<le> i then v\<lparr>iv_payload := resize (i + 1) (iv_payload v), iv_dirty := True\<rparr> else v)
      in if iv_payload v ! i \<noteq> b then v\<lparr>iv_payload := (iv_payload v)[i := b], iv_dirty := True\<rparr> else v)"

definition cv_byte :: "'s Kv \<Rightarrow> StringStore \<Rightarrow> u16 \<Rightarrow> bytes \<Rightarrow> 's world \<Rightarrow> ChunkView \<Rightarrow> nat \<Rightarrow> u8 \<times> ChunkView" where
  [flint_eval]: "cv_byte K S slot key w v i =
     (if i \<ge> unat (cm_bytes (cv_meta v)) then (0, v)
      else (let (c, v) = cv_chunk K S slot key w (i div ss_chunk S) v in (c ! (i mod ss_chunk S), v)))"

definition cv_set_byte :: "'s Kv \<Rightarrow> StringStore \<Rightarrow> u16 \<Rightarrow> bytes \<Rightarrow> 's world \<Rightarrow> ChunkView \<Rightarrow> nat \<Rightarrow> u8 \<Rightarrow> ChunkView" where
  [flint_eval]: "cv_set_byte K S slot key w v i b =
     (let v = (if i \<ge> unat (cm_bytes (cv_meta v))
               then v\<lparr>cv_meta := (cv_meta v)\<lparr>cm_bytes := word_of_nat (i + 1)\<rparr>, cv_dirty := True\<rparr> else v);
          j = i div ss_chunk S;
          (c, v) = cv_chunk K S slot key w j v
      in if c ! (i mod ss_chunk S) \<noteq> b
         then v\<lparr>cv_chunks := (cv_chunks v)(j \<mapsto> c[i mod ss_chunk S := b]), cv_changed := insort_insert j (cv_changed v)\<rparr>
         else v)"

definition target_buf :: "'s Kv \<Rightarrow> StringStore \<Rightarrow> u16 \<Rightarrow> bytes \<Rightarrow> 's world \<Rightarrow> Target BitBuf" where
  [flint_eval]: "target_buf K S slot key w =
     \<lparr>bb_byte = \<lambda>t i. (case t of
         TInline v \<Rightarrow> (let (b, v) = iv_byte v i in (b, TInline v))
       | TChunked v \<Rightarrow> (let (b, v) = cv_byte K S slot key w v i in (b, TChunked v))),
      bb_set_byte = \<lambda>t i b. (case t of
         TInline v \<Rightarrow> TInline (iv_set_byte v i b)
       | TChunked v \<Rightarrow> TChunked (cv_set_byte K S slot key w v i b))\<rparr>"

definition target_len :: "Target \<Rightarrow> u64" where
  [flint_eval]: "target_len t = (case t of TInline v \<Rightarrow> word_of_nat (length (iv_payload v)) | TChunked v \<Rightarrow> cm_bytes (cv_meta v))"

definition target_grow :: "nat \<Rightarrow> Target \<Rightarrow> Target" where
  [flint_eval]: "target_grow len t =
     (case t of
        TInline v \<Rightarrow> if length (iv_payload v) < len then TInline (v\<lparr>iv_payload := resize len (iv_payload v), iv_dirty := True\<rparr>) else t
      | TChunked v \<Rightarrow>
          if unat (cm_bytes (cv_meta v)) < len
          then TChunked (v\<lparr>cv_meta := (cv_meta v)\<lparr>cm_bytes := word_of_nat len\<rparr>, cv_dirty := True\<rparr>) else t)"

text \<open>
  The write loop of a chunked string, and one turn of it: how many bytes it writes, and the write.
  A chunk size of zero would divide by zero.
\<close>

definition write_len :: "StringStore \<Rightarrow> nat \<Rightarrow> bytes \<Rightarrow> nat \<Rightarrow> nat" where
  [flint_eval]: "write_len S at bs dn = min (ss_chunk S - (at + dn) mod ss_chunk S) (length bs - dn)"

definition write_part ::
  "'s Kv \<Rightarrow> StringStore \<Rightarrow> u16 \<Rightarrow> bytes \<Rightarrow> 's world \<Rightarrow> nat \<Rightarrow> bytes \<Rightarrow> ChunkView \<Rightarrow> ChunkView"
where
  [flint_eval]: "write_part K S slot key w pos part v =
     (let i = pos div ss_chunk S;
          off = pos mod ss_chunk S;
          (c, v) = cv_chunk K S slot key w i v
      in if take (length part) (drop off c) \<noteq> part
         then v\<lparr>cv_chunks := (cv_chunks v)(i \<mapsto> overlay_at off part c), cv_changed := insort_insert i (cv_changed v)\<rparr>
         else v)"

function write_loop ::
  "'s Kv \<Rightarrow> StringStore \<Rightarrow> u16 \<Rightarrow> bytes \<Rightarrow> 's world \<Rightarrow> nat \<Rightarrow> bytes \<Rightarrow> nat \<Rightarrow> ChunkView \<Rightarrow> ChunkView"
where
  "write_loop K S slot key w at bs dn v =
     (if dn < length bs \<and> ss_chunk S > 0
      then write_loop K S slot key w at bs (dn + write_len S at bs dn)
             (write_part K S slot key w (at + dn) (take (write_len S at bs dn) (drop dn bs)) v)
      else v)"
  by pat_completeness auto
termination
proof (relation "measure (\<lambda>(K, S, slot, key, w, at, bs, dn, v). length bs - dn)", goal_cases)
  case (2 K S slot key w at bs dn v)
  then have "0 < write_len S at bs dn" by (simp add: write_len_def)
  with 2 show ?case by (simp add: diff_less_mono2)
qed simp

declare write_loop.simps [simp del]

definition target_write :: "'s Kv \<Rightarrow> StringStore \<Rightarrow> u16 \<Rightarrow> bytes \<Rightarrow> 's world \<Rightarrow> nat \<Rightarrow> bytes \<Rightarrow> Target \<Rightarrow> Target" where
  [flint_eval]: "target_write K S slot key w at bs t =
     (case t of
        TInline v \<Rightarrow>
          (let stop = at + length bs;
               payload = (if length (iv_payload v) < stop then resize stop (iv_payload v) else iv_payload v)
           in TInline (v\<lparr>iv_payload := overlay_at at bs payload, iv_dirty := True\<rparr>))
      | TChunked v \<Rightarrow>
          (let v = write_loop K S slot key w at bs 0 v;
               stop = at + length bs;
               v = (if stop > unat (cm_bytes (cv_meta v)) then v\<lparr>cv_meta := (cv_meta v)\<lparr>cm_bytes := word_of_nat stop\<rparr>\<rparr> else v)
           in TChunked (v\<lparr>cv_dirty := True\<rparr>)))"

definition target_finish :: "'s Kv \<Rightarrow> StringStore \<Rightarrow> u16 \<Rightarrow> bytes \<Rightarrow> Target \<Rightarrow> 's world \<Rightarrow> 's world" where
  [flint_eval]: "target_finish K S slot key t w =
     (case t of TInline v \<Rightarrow> iv_finish K S slot key v w | TChunked v \<Rightarrow> cv_finish K S slot key v w)"

section \<open>Commands\<close>

definition store_value :: "'s Kv \<Rightarrow> StringStore \<Rightarrow> u16 \<Rightarrow> bytes \<Rightarrow> bytes \<Rightarrow> u64 \<Rightarrow> 's world \<Rightarrow> 's world" where
  [flint_eval]: "store_value K S slot key payload expire_ms w = put_value K S slot key payload expire_ms w"

definition str_max_value_bytes :: "StringStore \<Rightarrow> u64" where
  [flint_eval]: "str_max_value_bytes S = st_max_value_bytes (ss_store S)"

definition str_set ::
  "'s Kv \<Rightarrow> StringStore \<Rightarrow> u16 \<Rightarrow> bytes \<Rightarrow> bytes \<Rightarrow> SetOptions \<Rightarrow> 's world \<Rightarrow> (StoreError + SetOutcome) \<times> 's world"
where
  [flint_eval]: "str_set K S slot key val opts w =
     (if word_of_nat (length val) > st_max_value_bytes (ss_store S) then (Inl ValueTooLarge, w)
      else
        (let needs_existing = (so_nx opts \<or> so_xx opts \<or> so_expiry opts = Keep);
             (existing, w) = (if needs_existing then read_live_header K S slot key w else (None, w))
         in if so_nx opts \<and> existing \<noteq> None \<or> so_xx opts \<and> existing = None then (Inr Unchanged, w)
            else
              (let expire_ms = (case so_expiry opts of
                                  Clear \<Rightarrow> 0
                                | Keep \<Rightarrow> (case existing of Some h \<Rightarrow> mh_expire_ms h | None \<Rightarrow> 0)
                                | AtMs at \<Rightarrow> at)
               in (Inr Done, put_value K S slot key val expire_ms w))))"

definition str_get ::
  "'s Kv \<Rightarrow> StringStore \<Rightarrow> u16 \<Rightarrow> bytes \<Rightarrow> 's world \<Rightarrow> (StoreError + bytes option) \<times> 's world"
where
  [flint_eval]: "str_get K S slot key w =
     (case read_live K S slot key w of
        (Inl e, w) \<Rightarrow> (Inl e, w)
      | (Inr found, w) \<Rightarrow> (Inr (map_option (\<lambda>s. value_of K S slot key s w) found), w))"

definition get_del ::
  "'s Kv \<Rightarrow> StringStore \<Rightarrow> u16 \<Rightarrow> bytes \<Rightarrow> 's world \<Rightarrow> (StoreError + bytes option) \<times> 's world"
where
  [flint_eval]: "get_del K S slot key w =
     (case read_live K S slot key w of
        (Inl e, w) \<Rightarrow> (Inl e, w)
      | (Inr found, w) \<Rightarrow>
          (let existing = map_option (\<lambda>s. value_of K S slot key s w) found
           in (Inr existing, if existing \<noteq> None then snd (w_delete K w (str_meta_key S slot key)) else w)))"

definition getex ::
  "'s Kv \<Rightarrow> StringStore \<Rightarrow> u16 \<Rightarrow> bytes \<Rightarrow> SetExpiry \<Rightarrow> 's world \<Rightarrow> (StoreError + bytes option) \<times> 's world"
where
  [flint_eval]: "getex K S slot key expiry w =
     (case read_live K S slot key w of
        (Inl e, w) \<Rightarrow> (Inl e, w)
      | (Inr None, w) \<Rightarrow> (Inr None, w)
      | (Inr (Some stored), w) \<Rightarrow>
          if expiry = Keep then (Inr (Some (value_of K S slot key stored w)), w)
          else
            (let new_expire = (case expiry of AtMs at \<Rightarrow> at | _ \<Rightarrow> 0);
                 w = (case stored of
                        Inline m \<Rightarrow>
                          if new_expire \<noteq> sm_expire_ms m
                          then w_put K w (str_meta_key S slot key) (write_expire (sm_encode m) new_expire) else w
                      | Chunked c \<Rightarrow>
                          if new_expire \<noteq> mh_expire_ms (cm_header c)
                          then w_put K w (str_meta_key S slot key)
                                 (cm_encode (c\<lparr>cm_header := (cm_header c)\<lparr>mh_expire_ms := new_expire\<rparr>\<rparr>)) else w)
             in (Inr (Some (value_of K S slot key stored w)), w)))"

definition incr_by ::
  "'s Kv \<Rightarrow> StringStore \<Rightarrow> u16 \<Rightarrow> bytes \<Rightarrow> i64 \<Rightarrow> 's world \<Rightarrow> (StoreError + i64) \<times> 's world"
where
  [flint_eval]: "incr_by K S slot key delta w =
     (case read_live K S slot key w of
        (Inl e, w) \<Rightarrow> (Inl e, w)
      | (Inr found, w) \<Rightarrow>
          (case (case found of
                   None \<Rightarrow> Inr (0, 0)
                 | Some (Chunked _) \<Rightarrow> Inl NotInteger
                 | Some (Inline m) \<Rightarrow>
                     (case parse_redis_i64 (sm_payload m) of None \<Rightarrow> Inl NotInteger | Some n \<Rightarrow> Inr (n, sm_expire_ms m))) of
             Inl e \<Rightarrow> (Inl e, w)
           | Inr (current, expire_ms) \<Rightarrow>
               (case checked_add_i64 current delta of
                  None \<Rightarrow> (Inl Overflow, w)
                | Some nxt \<Rightarrow>
                    (let (now, w) = read_clock (ss_store S) w
                     in (Inr nxt, w_put K w (str_meta_key S slot key) (sm_encode (sm_new (show_i64 nxt) expire_ms now)))))))"

definition str_append ::
  "'s Kv \<Rightarrow> StringStore \<Rightarrow> u16 \<Rightarrow> bytes \<Rightarrow> bytes \<Rightarrow> 's world \<Rightarrow> (StoreError + u64) \<times> 's world"
where
  [flint_eval]: "str_append K S slot key tail w =
     (case read_live K S slot key w of
        (Inl e, w) \<Rightarrow> (Inl e, w)
      | (Inr found, w) \<Rightarrow>
          (let len = (case found of Some s \<Rightarrow> stored_len s | None \<Rightarrow> 0);
               stop = len + word_of_nat (length tail)
           in if stop > st_max_value_bytes (ss_store S) then (Inl ValueTooLarge, w)
              else
                (case target K S slot key stop w of
                   (Inl e, w) \<Rightarrow> (Inl e, w)
                 | (Inr t, w) \<Rightarrow> (Inr stop, target_finish K S slot key (target_write K S slot key w (unat len) tail t) w))))"

definition strlen ::
  "'s Kv \<Rightarrow> StringStore \<Rightarrow> u16 \<Rightarrow> bytes \<Rightarrow> 's world \<Rightarrow> (StoreError + u64) \<times> 's world"
where
  [flint_eval]: "strlen K S slot key w =
     (case read_live K S slot key w of
        (Inl e, w) \<Rightarrow> (Inl e, w)
      | (Inr found, w) \<Rightarrow> (Inr (case found of Some s \<Rightarrow> stored_len s | None \<Rightarrow> 0), w))"

text \<open>The window of GETRANGE; the length is below \<open>2 ^ 63\<close>, so the additions do not overflow.\<close>

definition getrange_window :: "int \<Rightarrow> int \<Rightarrow> int \<Rightarrow> (nat \<times> nat) option" where
  [flint_eval]: "getrange_window len start stop =
     (if start < 0 \<and> stop < 0 \<and> start > stop then None
      else
        (let norm = (\<lambda>i. if i < 0 then len + i else i);
             lo = max (norm start) 0;
             hi = min (max (norm stop) 0) (len - 1)
         in if len = 0 \<or> lo > hi then None else Some (nat lo, nat hi + 1)))"

definition getrange ::
  "'s Kv \<Rightarrow> StringStore \<Rightarrow> u16 \<Rightarrow> bytes \<Rightarrow> i64 \<Rightarrow> i64 \<Rightarrow> 's world \<Rightarrow> (StoreError + bytes) \<times> 's world"
where
  [flint_eval]: "getrange K S slot key start stop w =
     (case read_live K S slot key w of
        (Inl e, w) \<Rightarrow> (Inl e, w)
      | (Inr None, w) \<Rightarrow> (Inr [], w)
      | (Inr (Some stored), w) \<Rightarrow>
          (Inr (case getrange_window (sint (stored_len stored)) (sint start) (sint stop) of
                  None \<Rightarrow> []
                | Some (lo, hi) \<Rightarrow>
                    (case stored of
                       Inline m \<Rightarrow> take (hi - lo) (drop lo (sm_payload m))
                     | Chunked c \<Rightarrow> read_chunked K S slot key c lo hi w)), w))"

definition setrange ::
  "'s Kv \<Rightarrow> StringStore \<Rightarrow> u16 \<Rightarrow> bytes \<Rightarrow> u64 \<Rightarrow> bytes \<Rightarrow> 's world \<Rightarrow> (StoreError + u64) \<times> 's world"
where
  [flint_eval]: "setrange K S slot key offset patch w =
     (if patch = [] then strlen K S slot key w
      else
        (let stop = offset + word_of_nat (length patch)
         in if stop > st_max_value_bytes (ss_store S)
            then (case read_live K S slot key w of (Inl e, w) \<Rightarrow> (Inl e, w) | (Inr _, w) \<Rightarrow> (Inl ValueTooLarge, w))
            else
              (case target K S slot key stop w of
                 (Inl e, w) \<Rightarrow> (Inl e, w)
               | (Inr t, w) \<Rightarrow>
                   (let t = target_write K S slot key w (unat offset) patch t
                    in (Inr (target_len t), target_finish K S slot key t w)))))"

text \<open>What a BITFIELD write stores: the new value, or that it overflowed.\<close>

definition bitfield_new :: "BitfieldOp \<Rightarrow> bool \<Rightarrow> i64 \<Rightarrow> i64 \<Rightarrow> BitfieldOverflow \<Rightarrow> i64 \<times> bool" where
  [flint_eval]: "bitfield_new op incr old val overflow =
     (let (base, by) = (if incr then (old, val) else (val, 0))
      in if bo_signed op
         then (case signed_overflow base by (bo_bits op) overflow of Some limit \<Rightarrow> (limit, True) | None \<Rightarrow> (base + by, False))
         else (case unsigned_overflow base by (bo_bits op) overflow of Some limit \<Rightarrow> (limit, True) | None \<Rightarrow> (base + by, False)))"

definition bitfield_step :: "'b BitBuf \<Rightarrow> BitfieldOp \<Rightarrow> 'b \<Rightarrow> i64 option \<times> 'b" where
  [flint_eval]: "bitfield_step B op t =
     (let write = (\<lambda>incr val overflow.
            let (old, t) = op_read B op t;
                (new, overflowed) = bitfield_new op incr old val overflow
            in if overflowed \<and> overflow = Fail then (None, t)
               else (Some (if incr then new else old), write_bits B (bo_offset op) (bo_bits op) new t))
      in case bo_kind op of
           BfGet \<Rightarrow> (let (v, t) = op_read B op t in (Some v, t))
         | BfSet val overflow \<Rightarrow> write False val overflow
         | BfIncrBy val overflow \<Rightarrow> write True val overflow)"

fun bitfield_loop :: "'b BitBuf \<Rightarrow> BitfieldOp list \<Rightarrow> 'b \<Rightarrow> i64 option list \<times> 'b" where
  "bitfield_loop B [] t = ([], t)"
| "bitfield_loop B (op # ops) t =
     (let (reply, t) = bitfield_step B op t;
          (replies, t) = bitfield_loop B ops t
      in (reply # replies, t))"

fun read_fields :: "'b BitBuf \<Rightarrow> BitfieldOp list \<Rightarrow> 'b \<Rightarrow> i64 option list" where
  "read_fields B [] t = []"
| "read_fields B (op # ops) t = (let (v, t) = op_read B op t in Some v # read_fields B ops t)"

definition writes :: "BitfieldOp \<Rightarrow> bool" where
  [flint_eval]: "writes op = (bo_kind op \<noteq> BfGet)"

text \<open>
  Offsets are numbers here. The parser caps them at \<open>MAX_BIT_OFFSET\<close>, so the source's
  \<open>op.offset + u64::from(op.bits) - 1\<close> does not wrap.
\<close>

definition highest_written :: "BitfieldOp list \<Rightarrow> nat option" where
  [flint_eval]: "highest_written ops =
     (case filter writes ops of
        [] \<Rightarrow> None
      | op # rest \<Rightarrow> Some (foldl (\<lambda>h op. max h (bo_offset op + bo_bits op - 1)) (bo_offset op + bo_bits op - 1) rest))"

definition bitfield ::
  "'s Kv \<Rightarrow> StringStore \<Rightarrow> u16 \<Rightarrow> bytes \<Rightarrow> BitfieldOp list \<Rightarrow> 's world \<Rightarrow> (StoreError + i64 option list) \<times> 's world"
where
  [flint_eval]: "bitfield K S slot key ops w =
     (case highest_written ops of
        None \<Rightarrow>
          (case read_live K S slot key w of
             (Inl e, w) \<Rightarrow> (Inl e, w)
           | (Inr None, w) \<Rightarrow> (Inr (map (\<lambda>_. Some 0) ops), w)
           | (Inr (Some stored), w) \<Rightarrow>
               (let t = (case stored of
                           Inline m \<Rightarrow> TInline (inline_view (sm_payload m) (sm_expire_ms m) False)
                         | Chunked c \<Rightarrow> TChunked (chunk_view c False))
                in (Inr (read_fields (target_buf K S slot key w) ops t), w)))
      | Some highest \<Rightarrow>
          (let need = highest div 8 + 1
           in if need > unat (st_max_value_bytes (ss_store S))
              then (case read_live K S slot key w of (Inl e, w) \<Rightarrow> (Inl e, w) | (Inr _, w) \<Rightarrow> (Inl ValueTooLarge, w))
              else
                (case target K S slot key (word_of_nat need) w of
                   (Inl e, w) \<Rightarrow> (Inl e, w)
                 | (Inr t, w) \<Rightarrow>
                     (let (replies, t) = bitfield_loop (target_buf K S slot key w) ops (target_grow need t)
                      in (Inr replies, target_finish K S slot key t w)))))"

definition setbit ::
  "'s Kv \<Rightarrow> StringStore \<Rightarrow> u16 \<Rightarrow> bytes \<Rightarrow> u64 \<Rightarrow> bool \<Rightarrow> 's world \<Rightarrow> (StoreError + bool) \<times> 's world"
where
  [flint_eval]: "setbit K S slot key offset on w =
     (let byte = drop_bit 3 offset
      in if byte + 1 > st_max_value_bytes (ss_store S)
         then (case read_live K S slot key w of (Inl e, w) \<Rightarrow> (Inl e, w) | (Inr _, w) \<Rightarrow> (Inl ValueTooLarge, w))
         else
           (case target K S slot key (byte + 1) w of
              (Inl e, w) \<Rightarrow> (Inl e, w)
            | (Inr t, w) \<Rightarrow>
                (let t = target_grow (unat (byte + 1)) t;
                     mask = push_bit (7 - unat (and offset 7)) 1;
                     (current, t) = bb_byte (target_buf K S slot key w) t (unat byte);
                     old = (and current mask \<noteq> 0);
                     t = (if old \<noteq> on then bb_set_byte (target_buf K S slot key w) t (unat byte) (xor current mask) else t)
                 in (Inr old, target_finish K S slot key t w))))"

definition getbit ::
  "'s Kv \<Rightarrow> StringStore \<Rightarrow> u16 \<Rightarrow> bytes \<Rightarrow> u64 \<Rightarrow> 's world \<Rightarrow> (StoreError + bool) \<times> 's world"
where
  [flint_eval]: "getbit K S slot key offset w =
     (let byte = unat (drop_bit 3 offset)
      in case read_live K S slot key w of
           (Inl e, w) \<Rightarrow> (Inl e, w)
         | (Inr found, w) \<Rightarrow>
             (let val = (case found of
                           None \<Rightarrow> 0
                         | Some (Inline m) \<Rightarrow> byte_or_zero byte (sm_payload m)
                         | Some (Chunked c) \<Rightarrow> byte_or_zero 0 (read_chunked K S slot key c byte (byte + 1) w))
              in (Inr (and val (push_bit (7 - unat (and offset 7)) 1) \<noteq> 0), w)))"

definition chunk_source :: "'s Kv \<Rightarrow> StringStore \<Rightarrow> u16 \<Rightarrow> bytes \<Rightarrow> ComplexMeta \<Rightarrow> 's world \<Rightarrow> ByteSource" where
  [flint_eval]: "chunk_source K S slot key c w =
     \<lparr>bs_len = unat (cm_bytes c), bs_window = \<lambda>from upto. read_chunked K S slot key c from (upto + 1) w\<rparr>"

definition bitcount ::
  "'s Kv \<Rightarrow> StringStore \<Rightarrow> u16 \<Rightarrow> bytes \<Rightarrow> (int \<times> int \<times> bool) option \<Rightarrow> 's world \<Rightarrow> (StoreError + nat) \<times> 's world"
where
  [flint_eval]: "bitcount K S slot key rng w =
     (case read_live K S slot key w of
        (Inl e, w) \<Rightarrow> (Inl e, w)
      | (Inr found, w) \<Rightarrow>
          (Inr (case found of
                  None \<Rightarrow> 0
                | Some (Inline m) \<Rightarrow> bitcount_of (sm_payload m) rng
                | Some (Chunked c) \<Rightarrow> bitcount_in (chunk_source K S slot key c w) rng), w))"

definition bitpos ::
  "'s Kv \<Rightarrow> StringStore \<Rightarrow> u16 \<Rightarrow> bytes \<Rightarrow> bool \<Rightarrow> (int \<times> int option \<times> bool) option \<Rightarrow> 's world
   \<Rightarrow> (StoreError + int) \<times> 's world"
where
  [flint_eval]: "bitpos K S slot key b rng w =
     (case read_live K S slot key w of
        (Inl e, w) \<Rightarrow> (Inl e, w)
      | (Inr found, w) \<Rightarrow>
          (Inr (case found of
                  None \<Rightarrow> if b then - 1 else 0
                | Some (Inline m) \<Rightarrow> bitpos_of (sm_payload m) b rng
                | Some (Chunked c) \<Rightarrow> bitpos_in (chunk_source K S slot key c w) b rng), w))"

end
