(* ===== verification/Flint_StringOps.thy ===== *)
theory Flint_StringOps
  imports Flint_Strings Flint_Value
begin

text \<open>
  What the string store of \<open>Flint_Strings\<close> promises: every command is the plain operation on the
  string's bytes, whether the string is stored inline or in chunks.
\<close>

section \<open>Notions the lemmas use\<close>

text \<open>
  The byte at a position of a chunked string, zero where no row holds it; its text up to a length; and
  that its rows are no longer than a chunk and end by that length.
\<close>

definition chunk_row :: "StringStore \<Rightarrow> u16 \<Rightarrow> bytes \<Rightarrow> (bytes \<rightharpoonup> bytes) \<Rightarrow> u64 \<Rightarrow> nat \<Rightarrow> bytes" where
  "chunk_row S slot key m v i = (case m (chunk_key S slot key v i) of Some c \<Rightarrow> c | None \<Rightarrow> [])"

definition row_byte :: "StringStore \<Rightarrow> u16 \<Rightarrow> bytes \<Rightarrow> (bytes \<rightharpoonup> bytes) \<Rightarrow> u64 \<Rightarrow> nat \<Rightarrow> u8" where
  "row_byte S slot key m v i = byte_or_zero (i mod ss_chunk S) (chunk_row S slot key m v (i div ss_chunk S))"

definition chunk_text :: "StringStore \<Rightarrow> u16 \<Rightarrow> bytes \<Rightarrow> (bytes \<rightharpoonup> bytes) \<Rightarrow> u64 \<Rightarrow> nat \<Rightarrow> bytes" where
  "chunk_text S slot key m v n = map (row_byte S slot key m v) [0..<n]"

definition chunks_fit :: "StringStore \<Rightarrow> u16 \<Rightarrow> bytes \<Rightarrow> (bytes \<rightharpoonup> bytes) \<Rightarrow> u64 \<Rightarrow> nat \<Rightarrow> bool" where
  "chunks_fit S slot key m v n \<longleftrightarrow>
     (\<forall>i < 2 ^ 32. chunk_row S slot key m v i = [] \<or>
        length (chunk_row S slot key m v i) \<le> ss_chunk S \<and> i * ss_chunk S + length (chunk_row S slot key m v i) \<le> n)"

text \<open>The longest string the chunk indexes address, and a store whose size limit is below it.\<close>

definition str_limit :: "StringStore \<Rightarrow> nat" where
  "str_limit S = min (ss_chunk S * 2 ^ 32) (2 ^ 60)"

definition str_store_ok :: "StringStore \<Rightarrow> bool" where
  "str_store_ok S \<longleftrightarrow> 0 < ss_chunk S \<and> unat (st_max_value_bytes (ss_store S)) \<le> str_limit S \<and> ns_ok (st_ns (ss_store S))"

definition stored_expire :: "Stored \<Rightarrow> u64" where
  "stored_expire s = (case s of Inline m \<Rightarrow> sm_expire_ms m | Chunked c \<Rightarrow> mh_expire_ms (cm_header c))"

definition stored_text :: "StringStore \<Rightarrow> u16 \<Rightarrow> bytes \<Rightarrow> (bytes \<rightharpoonup> bytes) \<Rightarrow> Stored \<Rightarrow> bytes" where
  "stored_text S slot key m s =
     (case s of Inline sm \<Rightarrow> sm_payload sm | Chunked c \<Rightarrow> chunk_text S slot key m (cm_version c) (unat (cm_bytes c)))"

definition stored_good :: "StringStore \<Rightarrow> u16 \<Rightarrow> bytes \<Rightarrow> (bytes \<rightharpoonup> bytes) \<Rightarrow> u64 \<Rightarrow> Stored \<Rightarrow> bool" where
  "stored_good S slot key m l s \<longleftrightarrow>
     (case s of
        Inline sm \<Rightarrow> length (sm_payload sm) \<le> str_limit S
      | Chunked c \<Rightarrow> unat (cm_bytes c) \<le> str_limit S \<and> cm_version c \<le> l \<and>
          chunks_fit S slot key m (cm_version c) (unat (cm_bytes c)))"

text \<open>
  The string at a key as a reader at a time sees it, with its expiry; what it is at a later time; what
  every command relies on and keeps; and what a command has done when it leaves the string \<open>x\<close>.
\<close>

definition str_view ::
  "StringStore \<Rightarrow> u16 \<Rightarrow> bytes \<Rightarrow> (bytes \<rightharpoonup> bytes) \<Rightarrow> u64 \<Rightarrow> StoreError + (u64 \<times> bytes) option"
where
  "str_view S slot key m now =
     (case classify now (m (str_meta_key S slot key)) of
        WrongTyped \<Rightarrow> Inl WrongType
      | Live s \<Rightarrow> Inr (Some (stored_expire s, stored_text S slot key m s))
      | _ \<Rightarrow> Inr None)"

definition str_aged :: "(u64 \<times> bytes) option \<Rightarrow> u64 \<Rightarrow> (u64 \<times> bytes) option" where
  "str_aged x now = (case x of Some (e, b) \<Rightarrow> if e \<noteq> 0 \<and> e \<le> now then None else x | None \<Rightarrow> None)"

definition str_ready :: "StringStore \<Rightarrow> u16 \<Rightarrow> bytes \<Rightarrow> (bytes \<rightharpoonup> bytes) \<Rightarrow> u64 \<Rightarrow> bool" where
  "str_ready S slot key m l \<longleftrightarrow>
     str_store_ok S \<and> key_framed key \<and> versions_below m l \<and>
     (case classify 0 (m (str_meta_key S slot key)) of Live s \<Rightarrow> stored_good S slot key m l s | _ \<Rightarrow> True)"

definition str_post ::
  "StringStore \<Rightarrow> u16 \<Rightarrow> bytes \<Rightarrow> (bytes \<rightharpoonup> bytes) \<Rightarrow> u64 \<Rightarrow> (bytes \<rightharpoonup> bytes) \<Rightarrow> u64 \<Rightarrow>
   (u64 \<times> bytes) option \<Rightarrow> bool"
where
  "str_post S slot key m l m' l' x \<longleftrightarrow>
     (\<forall>now. str_view S slot key m' now = Inr (str_aged x now)) \<and>
     str_ready S slot key m' l' \<and> only_rows (own_rows (st_ns (ss_store S)) slot key) m m' \<and> l \<le> l'"

text \<open>
  The string a chunk view stands for: its loaded chunks over the rows. The view is well formed when
  its loaded chunks are whole and, but for the changed ones, what the rows hold; it is zero past its end.
\<close>

definition cv_at :: "StringStore \<Rightarrow> u16 \<Rightarrow> bytes \<Rightarrow> (bytes \<rightharpoonup> bytes) \<Rightarrow> ChunkView \<Rightarrow> nat \<Rightarrow> u8" where
  "cv_at S slot key m v i =
     (case cv_chunks v (i div ss_chunk S) of
        Some c \<Rightarrow> c ! (i mod ss_chunk S)
      | None \<Rightarrow> row_byte S slot key m (cm_version (cv_meta v)) i)"

definition cv_wf :: "StringStore \<Rightarrow> u16 \<Rightarrow> bytes \<Rightarrow> (bytes \<rightharpoonup> bytes) \<Rightarrow> u64 \<Rightarrow> ChunkView \<Rightarrow> bool" where
  "cv_wf S slot key m l v \<longleftrightarrow>
     unat (cm_bytes (cv_meta v)) \<le> str_limit S \<and> cm_version (cv_meta v) \<le> l \<and>
     from_flags (mh_flags (cm_header (cv_meta v))) = Some ChunkedString \<and>
     chunks_fit S slot key m (cm_version (cv_meta v)) (unat (cm_bytes (cv_meta v))) \<and>
     (\<forall>j c. cv_chunks v j = Some c \<longrightarrow> length c = ss_chunk S \<and>
        (j \<notin> set (cv_changed v) \<longrightarrow> c = resize (ss_chunk S) (chunk_row S slot key m (cm_version (cv_meta v)) j))) \<and>
     (\<forall>j \<in> set (cv_changed v). j < 2 ^ 32 \<and> cv_chunks v j \<noteq> None)"

definition cv_zero :: "StringStore \<Rightarrow> u16 \<Rightarrow> bytes \<Rightarrow> (bytes \<rightharpoonup> bytes) \<Rightarrow> ChunkView \<Rightarrow> bool" where
  "cv_zero S slot key m v \<longleftrightarrow>
     (\<forall>i \<ge> unat (cm_bytes (cv_meta v)). i div ss_chunk S < 2 ^ 32 \<longrightarrow> cv_at S slot key m v i = 0)"

definition cv_str :: "StringStore \<Rightarrow> u16 \<Rightarrow> bytes \<Rightarrow> (bytes \<rightharpoonup> bytes) \<Rightarrow> ChunkView \<Rightarrow> bytes" where
  "cv_str S slot key m v = map (cv_at S slot key m v) [0..<unat (cm_bytes (cv_meta v))]"

text \<open>The same for a target; one that is not dirty stands for the string \<open>b0\<close> that is stored already, if \<open>clean\<close>.\<close>

definition target_str :: "StringStore \<Rightarrow> u16 \<Rightarrow> bytes \<Rightarrow> (bytes \<rightharpoonup> bytes) \<Rightarrow> Target \<Rightarrow> bytes" where
  "target_str S slot key m t = (case t of TInline v \<Rightarrow> iv_payload v | TChunked v \<Rightarrow> cv_str S slot key m v)"

definition target_expire :: "Target \<Rightarrow> u64" where
  "target_expire t = (case t of TInline v \<Rightarrow> iv_expire_ms v | TChunked v \<Rightarrow> mh_expire_ms (cm_header (cv_meta v)))"

definition target_dirty :: "Target \<Rightarrow> bool" where
  "target_dirty t = (case t of TInline v \<Rightarrow> iv_dirty v | TChunked v \<Rightarrow> cv_dirty v \<or> cv_changed v \<noteq> [])"

definition target_wf :: "StringStore \<Rightarrow> u16 \<Rightarrow> bytes \<Rightarrow> (bytes \<rightharpoonup> bytes) \<Rightarrow> u64 \<Rightarrow> Target \<Rightarrow> bool" where
  "target_wf S slot key m l t \<longleftrightarrow>
     (case t of
        TInline v \<Rightarrow> length (iv_payload v) \<le> str_limit S
      | TChunked v \<Rightarrow> cv_wf S slot key m l v \<and> cv_zero S slot key m v)"

definition target_good ::
  "StringStore \<Rightarrow> u16 \<Rightarrow> bytes \<Rightarrow> (bytes \<rightharpoonup> bytes) \<Rightarrow> u64 \<Rightarrow> bool \<Rightarrow> u64 \<Rightarrow> bytes \<Rightarrow> Target \<Rightarrow> bool"
where
  "target_good S slot key m l clean e0 b0 t \<longleftrightarrow>
     target_wf S slot key m l t \<and> target_expire t = e0 \<and>
     (\<not> target_dirty t \<longrightarrow> clean \<and> target_str S slot key m t = b0)"

text \<open>A string with bytes written at a position, grown with zeros to reach it.\<close>

definition str_write :: "nat \<Rightarrow> bytes \<Rightarrow> bytes \<Rightarrow> bytes" where
  "str_write at bs xs = overlay_at at bs (grown (at + length bs) xs)"

section \<open>Lemmas: rows and readings\<close>

lemma mh_is_expired_0 [simp]: "\<not> mh_is_expired h 0"
  by (simp add: mh_is_expired_iff word_le_0_iff)

lemma classify_live:
  "classify now row = Live s \<longleftrightarrow> classify 0 row = Live s \<and> \<not> (stored_expire s \<noteq> 0 \<and> stored_expire s \<le> now)"
proof -
  have sm: "sm_decode r = Some sm \<Longrightarrow> mh_decode r = Some h \<Longrightarrow> mh_expire_ms h = sm_expire_ms sm" for r sm h
    by (auto simp: sm_decode_def mh_decode_def Let_def split: option.splits list.splits if_splits)
  have cm: "cm_decode r = Some c \<Longrightarrow> mh_decode r = Some h \<Longrightarrow> h = cm_header c" for r c h
    using cm_decode_header by simp
  show ?thesis
    by (cases row)
      (auto simp: classify_def stored_expire_def mh_is_expired_iff word_le_0_iff dest: sm cm split: option.splits if_splits)
qed

lemma chunk_key_own [simp]: "chunk_key S slot key v i \<in> own_rows (st_ns (ss_store S)) slot key"
  by (simp add: chunk_key_def)

lemma chunk_key_not_meta [simp]:
  "chunk_key S slot key v i \<noteq> envelope Metadata ns' slot' key'"
  "envelope Metadata ns' slot' key' \<noteq> chunk_key S slot key v i"
  by (auto simp: chunk_key_def dest: sym)

lemma chunk_key_inject:
  assumes "ns_ok (st_ns (ss_store S))" "key_framed key" "i < 2 ^ 32" "j < 2 ^ 32"
  shows "chunk_key S slot key v i = chunk_key S slot key v' j \<longleftrightarrow> v = v' \<and> i = j"
proof -
  have "(word_of_nat i :: u32) = word_of_nat j \<longleftrightarrow> i = j"
    using assms(3,4) by (simp add: word_unat_eq_iff unsigned_of_nat take_bit_nat_eq_self)
  then show ?thesis using assms(1,2) by (auto simp: chunk_key_def subkey_envelope_inject)
qed

lemma chunk_row_meta [simp]: "chunk_row S slot key (m(envelope Metadata ns' slot' key' := x)) v i = chunk_row S slot key m v i"
  by (simp add: chunk_row_def)

lemma chunk_text_cong:
  assumes "\<And>i. i < 2 ^ 32 \<Longrightarrow> chunk_row S slot key m' v i = chunk_row S slot key m v i" "n \<le> str_limit S"
  shows "chunk_text S slot key m' v n = chunk_text S slot key m v n"
proof -
  have "i div ss_chunk S < 2 ^ 32" if "i < n" for i
    using that assms(2) by (simp add: str_limit_def less_mult_imp_div_less mult.commute)
  then show ?thesis using assms(1) by (simp add: chunk_text_def row_byte_def)
qed

lemma stored_meta [simp]:
  "stored_text S slot key (m(envelope Metadata ns' slot' key' := x)) s = stored_text S slot key m s"
  "stored_good S slot key (m(envelope Metadata ns' slot' key' := x)) l s = stored_good S slot key m l s"
  "chunks_fit S slot key (m(envelope Metadata ns' slot' key' := x)) v n = chunks_fit S slot key m v n"
  by (auto simp: stored_text_def stored_good_def chunk_text_def row_byte_def chunks_fit_def split: Stored.splits)

lemma stored_good_mono: "stored_good S slot key m l s \<Longrightarrow> l \<le> l' \<Longrightarrow> stored_good S slot key m l' s"
  by (auto simp: stored_good_def split: Stored.splits)

lemma length_stored_text: "stored_good S slot key m l s \<Longrightarrow> length (stored_text S slot key m s) = unat (stored_len s)"
  by (auto simp: stored_text_def stored_good_def chunk_text_def stored_len_def str_limit_def unsigned_of_nat
      take_bit_nat_eq_self split: Stored.splits)

section \<open>Lemmas: reading chunks\<close>

lemma to_be32_less: "to_be32 a < to_be32 b \<longleftrightarrow> a < b"
proof -
  have "unat a < 256 ^ 4" "unat b < 256 ^ 4" using unsigned_less[of a, where 'a = nat] unsigned_less[of b, where 'a = nat] by simp_all
  then show ?thesis by (simp add: to_be32_be_nat nat_be_less nat_be_be_nat word_less_nat_alt)
qed

lemma index_less: "i < 2 ^ 32 \<Longrightarrow> j < 2 ^ 32 \<Longrightarrow> (word_of_nat i :: u32) < word_of_nat j \<longleftrightarrow> i < j"
  by (simp add: word_less_nat_alt unsigned_of_nat take_bit_nat_eq_self)

lemma unat_index: "i < 2 ^ 32 \<Longrightarrow> unat (word_of_nat i :: u32) = i"
  by (simp add: unsigned_of_nat take_bit_nat_eq_self)

lemma map_of_rows_of: "finite (dom m) \<Longrightarrow> map_of (rows_of m P) k = (if P k then m k else None)"
proof -
  assume fin: "finite (dom m)"
  have d: "distinct (map fst (rows_of m P))" by (simp add: rows_of_keys)
  show ?thesis
  proof (cases "P k \<and> m k \<noteq> None")
    case True
    then obtain v where "(k, v) \<in> set (rows_of m P)" "m k = Some v" "P k" using fin by (auto simp: rows_of_set)
    then show ?thesis using d by simp
  next
    case False
    then have "k \<notin> fst ` set (rows_of m P)" using fin by (auto simp: rows_of_set)
    then show ?thesis using False by (auto simp: map_of_eq_None_iff)
  qed
qed

lemma length_overlay_at: "i + length part \<le> length out \<Longrightarrow> length (overlay_at i part out) = length out"
  by (simp add: overlay_at_def)

lemma overlay_at_nth:
  "i + length part \<le> length out \<Longrightarrow> j < length out \<Longrightarrow>
   overlay_at i part out ! j = (if i \<le> j \<and> j < i + length part then part ! (j - i) else out ! j)"
  by (auto simp: overlay_at_def nth_append)

text \<open>One row of the scan: it lays its bytes over the positions of its chunk that are in the window.\<close>

lemma visit_chunk_row:
  fixes start :: nat and p :: bytes
  assumes "length v \<le> n" "length out = stop - start" "i < 2 ^ 32" "i \<le> lst" "0 < n"
  defines "r \<equiv> visit_chunk (length p) n start stop lst (p @ to_be32 (word_of_nat i)) v out"
  shows "fst r" "length (snd r) = stop - start"
    and "j < stop - start \<Longrightarrow> snd r ! j =
      (if (start + j) div n = i \<and> (start + j) mod n < length v then v ! ((start + j) mod n) else out ! j)"
proof -
  define b lo hi where d: "b = i * n" "lo = max (i * n) start" "hi = min (i * n + length v) stop"
  define part where "part = take (hi - lo) (drop (lo - b) v)"
  have lo: "b \<le> lo" "start \<le> lo" "lo = b \<or> lo = start" and hi: "hi \<le> b + length v" "hi \<le> stop" "hi = b + length v \<or> hi = stop"
    by (auto simp: d)
  have r: "r = (True, if lo < hi then overlay_at (lo - start) part out else out)"
    using assms(3,4) by (simp add: r_def visit_chunk_def Let_def unat_index d part_def)
  then show "fst r" by simp
  have len: "length part = hi - lo" if "lo < hi" using that lo hi by (simp add: part_def)
  have fit: "lo - start + length part \<le> length out" if "lo < hi" using that len[OF that] assms(2) lo hi by linarith
  show "length (snd r) = stop - start" using r fit assms(2) by (simp add: length_overlay_at)
  assume j: "j < stop - start"
  have dm: "(start + j) div n = i \<and> (start + j) mod n < length v \<longleftrightarrow> b \<le> start + j \<and> start + j < b + length v"
  proof
    assume "(start + j) div n = i \<and> (start + j) mod n < length v"
    then show "b \<le> start + j \<and> start + j < b + length v"
      using div_mult_mod_eq[of "start + j" n] d(1) by auto
  next
    assume b: "b \<le> start + j \<and> start + j < b + length v"
    then have "(start + j) div n = i" using assms(1,5) d(1) by (intro div_nat_eqI) (auto simp: mult.commute)
    then show "(start + j) div n = i \<and> (start + j) mod n < length v"
      using b div_mult_mod_eq[of "start + j" n] d(1) by auto
  qed
  have at: "(start + j) mod n = start + j - b" if "(start + j) div n = i"
    using that d(1) by (metis minus_div_mult_eq_mod)
  show "snd r ! j = (if (start + j) div n = i \<and> (start + j) mod n < length v then v ! ((start + j) mod n) else out ! j)"
  proof (cases "b \<le> start + j \<and> start + j < b + length v")
    case True
    then have in_row: "lo \<le> start + j" "start + j < hi" "lo < hi" using lo hi j by linarith+
    have "snd r ! j = part ! (j - (lo - start))"
      using r overlay_at_nth[OF fit[OF in_row(3)], of j] j len[OF in_row(3)] assms(2) in_row lo by auto
    also have "\<dots> = v ! (lo - b + (j - (lo - start)))"
    proof -
      have "j - (lo - start) < hi - lo" "lo - b \<le> length v" using in_row lo hi by linarith+
      then show ?thesis by (simp only: part_def nth_take nth_drop)
    qed
    also have "lo - b + (j - (lo - start)) = start + j - b" using in_row lo by linarith
    finally show ?thesis using True dm at by simp
  next
    case False
    then have out: "\<not> (lo - start \<le> j \<and> j < hi - start)" using lo hi j by linarith
    have "snd r ! j = out ! j"
    proof (cases "lo < hi")
      case True
      have "lo - start + length part = hi - start" using len[OF True] True lo by linarith
      then show ?thesis using r overlay_at_nth[OF fit[OF True], of j] j assms(2) out True by auto
    qed (use r in simp)
    then show ?thesis unfolding dm using False by auto
  qed
qed

lemma visit_chunk_other: "length k \<noteq> length p + 4 \<Longrightarrow> prefix p k \<Longrightarrow> visit_chunk (length p) n start stop lst k v out = (True, out)"
  by (auto simp: visit_chunk_def prefix_def)

lemma visit_chunk_past:
  "lst < i \<Longrightarrow> i < 2 ^ 32 \<Longrightarrow> visit_chunk (length p) n start stop lst (p @ to_be32 (word_of_nat i)) v out = (False, out)"
  by (simp add: visit_chunk_def Let_def unat_index)

lemma prefixed_index:
  assumes "prefix p k" "length k = length p + 4"
  obtains i where "i < 2 ^ 32" "k = p @ to_be32 (word_of_nat i)"
proof -
  obtain f where f: "k = p @ f" "length f = 4" using assms by (auto simp: prefix_def)
  then show ?thesis using that[of "unat (of_be f :: u32)"] unsigned_less[of "of_be f :: u32", where 'a = nat] by simp
qed

lemma visit_chunks:
  fixes start :: nat
  assumes "sorted_wrt (<) (map fst L)" "\<forall>(k, v) \<in> set L. prefix p k \<and> (length k = length p + 4 \<longrightarrow> length v \<le> n)"
    and "length out = stop - start" "0 < n" "(stop - 1) div n < 2 ^ 32"
  defines "r \<equiv> snd (run_visits (visit_chunk (length p) n start stop ((stop - 1) div n)) L out)"
  shows "length r = stop - start \<and> (\<forall>j < stop - start. r ! j =
    (case map_of L (p @ to_be32 (word_of_nat ((start + j) div n))) of
       Some v \<Rightarrow> if (start + j) mod n < length v then v ! ((start + j) mod n) else out ! j
     | None \<Rightarrow> out ! j))"
  using assms(1-3) unfolding r_def
proof (induction L arbitrary: out)
  case (Cons kv L)
  obtain k v where kv: "kv = (k, v)" by fastforce
  have p: "prefix p k" "length k = length p + 4 \<longrightarrow> length v \<le> n" using Cons.prems(2) kv by auto
  have le: "(start + j) div n \<le> (stop - 1) div n" if "j < stop - start" for j
    using that by (intro div_le_mono) simp
  have idx: "(start + j) div n < 2 ^ 32" if "j < stop - start" for j
    using le[OF that] assms(5) by linarith
  have IH: "length (snd (run_visits (visit_chunk (length p) n start stop ((stop - 1) div n)) L out')) = stop - start \<and>
    (\<forall>j < stop - start. snd (run_visits (visit_chunk (length p) n start stop ((stop - 1) div n)) L out') ! j =
    (case map_of L (p @ to_be32 (word_of_nat ((start + j) div n))) of
       Some v \<Rightarrow> if (start + j) mod n < length v then v ! ((start + j) mod n) else out' ! j
     | None \<Rightarrow> out' ! j))" if "length out' = stop - start" for out'
    using Cons.IH[OF _ _ that] Cons.prems(1,2) by auto
  have later: "map_of L q = None" if "q \<le> k" for q
    using Cons.prems(1) that kv by (force simp: map_of_eq_None_iff)
  show ?case
  proof (cases "length k = length p + 4")
    case False
    then have "p @ to_be32 (word_of_nat ((start + j) div n)) \<noteq> k" for j by auto
    then show ?thesis using IH[OF Cons.prems(3)] visit_chunk_other[OF False p(1)] kv by simp
  next
    case True
    then obtain i where i: "i < 2 ^ 32" "k = p @ to_be32 (word_of_nat i)" using prefixed_index[OF p(1)] by blast
    show ?thesis
    proof (cases "(stop - 1) div n < i")
      case past: True
      have "map_of (kv # L) (p @ to_be32 (word_of_nat ((start + j) div n))) = None" if "j < stop - start" for j
      proof -
        have "p @ to_be32 (word_of_nat ((start + j) div n)) < k"
          using le[OF that] idx[OF that] past i by (simp add: to_be32_less index_less)
        then show ?thesis using later kv by auto
      qed
      then show ?thesis using visit_chunk_past[OF past i(1)] Cons.prems(3) kv i(2) by simp
    next
      case False
      note row = visit_chunk_row[where v = v and n = n and out = out and stop = stop and start = start and i = i
        and lst = "(stop - 1) div n" and p = p]
      obtain out' where out': "visit_chunk (length p) n start stop ((stop - 1) div n) k v out = (True, out')"
        using row(1) p(2) True Cons.prems(3) i False assms(4) by (metis prod.collapse not_less)
      have len: "length out' = stop - start"
        using row(2) p(2) True Cons.prems(3) i False assms(4) out' by simp
      have nth: "out' ! j = (if (start + j) div n = i \<and> (start + j) mod n < length v then v ! ((start + j) mod n) else out ! j)"
        if "j < stop - start" for j
        using row(3)[OF _ _ _ _ _ that] p(2) True Cons.prems(3) i False assms(4) out' by simp
      have same: "p @ to_be32 (word_of_nat ((start + j) div n)) = k \<longleftrightarrow> (start + j) div n = i" if "j < stop - start" for j
        using idx[OF that] i by (auto simp: word_unat_eq_iff unat_index)
      let ?r = "snd (run_visits (visit_chunk (length p) n start stop ((stop - 1) div n)) L out')"
      have run: "snd (run_visits (visit_chunk (length p) n start stop ((stop - 1) div n)) (kv # L) out) = ?r"
        using out' kv by simp
      have "?r ! j = (case map_of (kv # L) (p @ to_be32 (word_of_nat ((start + j) div n))) of
         Some v \<Rightarrow> if (start + j) mod n < length v then v ! ((start + j) mod n) else out ! j
       | None \<Rightarrow> out ! j)" if j: "j < stop - start" for j
      proof (cases "(start + j) div n = i")
        case True
        then have key: "p @ to_be32 (word_of_nat ((start + j) div n)) = k" using same[OF j] by simp
        have "?r ! j = out' ! j" using IH[OF len] j later[of k] by (simp add: key)
        then show ?thesis unfolding key using nth[OF j] True kv by simp
      next
        case False
        then have key: "p @ to_be32 (word_of_nat ((start + j) div n)) \<noteq> k" using same[OF j] by simp
        have eq: "out' ! j = out ! j" using nth[OF j] False by simp
        have "map_of (kv # L) (p @ to_be32 (word_of_nat ((start + j) div n))) =
            map_of L (p @ to_be32 (word_of_nat ((start + j) div n)))" using key kv by simp
        then show ?thesis using IH[OF len] j unfolding eq[symmetric] by presburger
      qed
      then show ?thesis unfolding run using IH[OF len] by blast
    qed
  qed
qed simp

lemma chunk_text_nth: "i < n \<Longrightarrow> chunk_text S slot key m v n ! i = row_byte S slot key m v i"
  by (simp add: chunk_text_def)

lemma length_chunk_text [simp]: "length (chunk_text S slot key m v n) = n"
  by (simp add: chunk_text_def)

lemma index_bound: "i < str_limit S \<Longrightarrow> i div ss_chunk S < 2 ^ 32"
  by (simp add: str_limit_def less_mult_imp_div_less mult.commute)

context kv_reader
begin

text \<open>A window of a chunked string, read by the scan, is that window of its text.\<close>

lemma read_chunked:
  assumes "ok (w_kv w)" "str_store_ok S" "key_framed key" "unat (cm_bytes c) \<le> str_limit S"
    and fit: "chunks_fit S slot key (abs (w_kv w)) (cm_version c) (unat (cm_bytes c))"
  shows "read_chunked K S slot key c start stop w =
    take (stop - start) (drop start (chunk_text S slot key (abs (w_kv w)) (cm_version c) (unat (cm_bytes c))))"
    (is "_ = take _ (drop _ ?text)")
proof -
  let ?stop = "min stop (unat (cm_bytes c))" and ?n = "ss_chunk S" and ?m = "abs (w_kv w)"
  let ?p = "subkey_prefix (st_ns (ss_store S)) slot key (cm_version c)"
  let ?first = "start div ?n"
  let ?after = "if ?first = 0 then [] else chunk_key S slot key (cm_version c) (?first - 1)"
  let ?P = "\<lambda>k. prefix ?p k \<and> (?after = [] \<or> ?after < k)"
  let ?L = "rows_of ?m ?P"
  have n: "0 < ?n" and ns: "ns_ok (st_ns (ss_store S))" using assms(2) by (simp_all add: str_store_ok_def)
  have fin: "finite (dom ?m)" using finite_abs[OF assms(1)] .
  show ?thesis
  proof (cases "start \<ge> ?stop")
    case True
    then show ?thesis by (auto simp: read_chunked_def Let_def)
  next
    case False
    have ck: "chunk_key S slot key (cm_version c) i = ?p @ to_be32 (word_of_nat i)" for i
      by (simp add: chunk_key_def subkey_envelope_def)
    have bound: "(start + j) div ?n < 2 ^ 32" if "start + j < ?stop" for j
      using that assms(4) by (intro index_bound) simp
    have last: "(?stop - 1) div ?n < 2 ^ 32" using assms(4) False by (intro index_bound) linarith
    have scan: "kv_for_each_from K (w_kv w) ?p ?after = ?L"
      using assms(1) by (intro for_each_from) (auto simp: ck intro: prefix_le)
    have rows: "\<forall>(k, v) \<in> set ?L. prefix ?p k \<and> (length k = length ?p + 4 \<longrightarrow> length v \<le> ?n)"
    proof safe
      fix k v assume kv: "(k, v) \<in> set ?L"
      then show "prefix ?p k" using fin by (auto simp: rows_of_set)
      assume "length k = length ?p + 4"
      then obtain i where i: "i < 2 ^ 32" "k = chunk_key S slot key (cm_version c) i"
        using prefixed_index[OF \<open>prefix ?p k\<close>] ck by metis
      then have "chunk_row S slot key ?m (cm_version c) i = v" using kv fin by (auto simp: chunk_row_def rows_of_set)
      then show "length v \<le> ?n" using fit i(1) by (auto simp: chunks_fit_def)
    qed
    let ?r = "snd (run_visits (visit_chunk (length ?p) ?n start ?stop ((?stop - 1) div ?n)) ?L (replicate (?stop - start) 0))"
    note v = visit_chunks[OF rows_of_sorted[OF fin] rows, of "replicate (?stop - start) 0" ?stop start, OF _ n last]
    have "read_chunked K S slot key c start stop w = ?r"
      using False scan by (simp add: read_chunked_def Let_def)
    moreover have "?r = take (stop - start) (drop start ?text)"
    proof (rule nth_equalityI)
      show "length ?r = length (take (stop - start) (drop start ?text))" using v by simp
      fix j assume "j < length ?r"
      then have j: "j < ?stop - start" using v by simp
      let ?i = "(start + j) div ?n"
      have "chunk_key S slot key (cm_version c) (?first - 1) < chunk_key S slot key (cm_version c) ?i" if "?first \<noteq> 0"
      proof -
        have le: "?first \<le> ?i" by (rule div_le_mono) simp
        have "?i < 2 ^ 32" using j by (intro bound) linarith
        then have "(word_of_nat (?first - 1) :: u32) < word_of_nat ?i"
          using le that by (subst index_less) linarith+
        then show ?thesis unfolding ck lex_append_left to_be32_less .
      qed
      then have "?P (chunk_key S slot key (cm_version c) ?i)" by (simp add: ck)
      then have mo: "map_of ?L (?p @ to_be32 (word_of_nat ?i)) = ?m (chunk_key S slot key (cm_version c) ?i)"
        unfolding map_of_rows_of[OF fin] ck by (rule if_P)
      have "?r ! j = (case map_of ?L (?p @ to_be32 (word_of_nat ?i)) of
           Some v \<Rightarrow> if (start + j) mod ?n < length v then v ! ((start + j) mod ?n) else replicate (?stop - start) 0 ! j
         | None \<Rightarrow> replicate (?stop - start) 0 ! j)"
        using v j by (simp only: length_replicate)
      also have "\<dots> = row_byte S slot key ?m (cm_version c) (start + j)"
        unfolding mo nth_replicate[OF j] row_byte_def chunk_row_def byte_or_zero_def elem_get_def
        by (cases "?m (chunk_key S slot key (cm_version c) ?i)") simp_all
      finally have "?r ! j = row_byte S slot key ?m (cm_version c) (start + j)" .
      then show "?r ! j = take (stop - start) (drop start ?text) ! j" using j by (simp add: chunk_text_nth)
    qed
    ultimately show ?thesis by simp
  qed
qed

end

section \<open>Lemmas: reading and writing the metadata row\<close>

lemma str_meta_key_own [simp]: "str_meta_key S slot key \<in> own_rows (st_ns (ss_store S)) slot key"
  by simp

lemma str_post_trans:
  "str_post S slot key m l m' l' x \<Longrightarrow> str_post S slot key m' l' m'' l'' y \<Longrightarrow> str_post S slot key m l m'' l'' y"
  by (auto simp: str_post_def intro: only_rows_trans)

lemma str_post_next:
  assumes "str_post S slot key m l m' l' x"
  shows "str_ready S slot key m' l'" "str_view S slot key m' now = Inr (str_aged x now)"
  using assms by (simp_all add: str_post_def)

lemma str_view_live:
  "str_view S slot key m now = Inr (Some (e, b)) \<longleftrightarrow>
     (\<exists>s. classify now (m (str_meta_key S slot key)) = Live s \<and> e = stored_expire s \<and> b = stored_text S slot key m s)"
  by (auto simp: str_view_def split: str_row.splits)

lemma str_aged_live [simp]: "str_aged None now = None"
  by (simp add: str_aged_def)

text \<open>The view of a key whose row decodes to a string, at any time.\<close>

lemma str_view_row:
  assumes "classify 0 (m (str_meta_key S slot key)) = Live s"
  shows "str_view S slot key m now = Inr (str_aged (Some (stored_expire s, stored_text S slot key m s)) now)"
proof -
  have "classify now (m (str_meta_key S slot key)) = (if stored_expire s \<noteq> 0 \<and> stored_expire s \<le> now then Expired else Live s)"
  proof (cases "stored_expire s \<noteq> 0 \<and> stored_expire s \<le> now")
    case False
    then show ?thesis using assms classify_live[of now _ s] by auto
  next
    case True
    then have "\<not> (\<exists>s'. classify now (m (str_meta_key S slot key)) = Live s')"
      using assms classify_live[of now "m (str_meta_key S slot key)"] by auto
    then show ?thesis
      using True assms by (auto simp: classify_def split: option.splits if_splits)
  qed
  then show ?thesis by (simp add: str_view_def str_aged_def)
qed

lemma classify_reaped: "reaped m now mk = (if classify now (m mk) = Expired then m(mk := None) else m)"
  by (auto simp: classify_def reaped_def split: option.splits if_splits)

lemma str_ready_reaped:
  assumes "str_ready S slot key m l" "l \<le> l'"
  shows "str_ready S slot key (reaped m now (str_meta_key S slot key)) l'"
proof -
  have v: "versions_below m l'" using assms versions_below_mono by (auto simp: str_ready_def)
  have "reaped m now (str_meta_key S slot key) = m \<or>
      reaped m now (str_meta_key S slot key) = m(str_meta_key S slot key := None)"
    by (auto simp: reaped_def split: option.splits)
  then show ?thesis
  proof
    assume "reaped m now (str_meta_key S slot key) = m"
    then show ?thesis using assms v stored_good_mono by (auto simp: str_ready_def split: str_row.splits)
  next
    assume "reaped m now (str_meta_key S slot key) = m(str_meta_key S slot key := None)"
    then show ?thesis
      using assms v by (simp add: str_ready_def classify_def) (simp add: meta_key_def versions_below_meta)
  qed
qed

lemma str_post_reaped:
  assumes "str_ready S slot key m l" "str_view S slot key m now = Inr x" "l \<le> l'"
  shows "str_post S slot key m l (reaped m now (str_meta_key S slot key)) l' x"
proof -
  let ?mk = "str_meta_key S slot key"
  let ?m = "reaped m now ?mk"
  have "str_view S slot key ?m now' = Inr (str_aged x now')" for now'
  proof (cases "classify now (m ?mk)")
    case (Live s)
    then have "x = Some (stored_expire s, stored_text S slot key m s)" using assms(2) by (simp add: str_view_def)
    moreover have "?m = m" using Live by (simp add: classify_reaped)
    moreover have "classify 0 (m ?mk) = Live s" using Live classify_live by blast
    ultimately show ?thesis using str_view_row by simp
  next
    case Expired
    then show ?thesis using assms(2) classify_reaped[of _ _ "str_meta_key S slot key"] by (simp add: str_view_def classify_def)
  next
    case WrongTyped
    then show ?thesis using assms(2) by (simp add: str_view_def)
  next
    case Missing
    then have "m ?mk = None" by (auto simp: classify_def split: option.splits if_splits)
    then show ?thesis using assms(2) classify_reaped[of _ _ "str_meta_key S slot key"] by (simp add: str_view_def classify_def)
  next
    case Undecodable
    then have "classify now' (m ?mk) \<in> {Undecodable, Expired}"
      by (auto simp: classify_def split: option.splits if_splits)
    then show ?thesis using assms(2) Undecodable classify_reaped[of _ _ "str_meta_key S slot key"] by (auto simp: str_view_def)
  qed
  then show ?thesis
    using str_ready_reaped[OF assms(1,3)] assms(3) by (simp add: str_post_def) (simp add: meta_key_def)
qed

context kv_store
begin

lemma read_live:
  assumes "ok (w_kv w)"
  obtains w1 where "read_live K S slot key w =
      (case classify (st_clock (ss_store S) (w_ticks w)) (rows w (str_meta_key S slot key)) of
         WrongTyped \<Rightarrow> Inl WrongType | Live s \<Rightarrow> Inr (Some s) | _ \<Rightarrow> Inr None, w1)"
    and "ok (w_kv w1)" and "w_last w1 = w_last w"
    and "rows w1 = reaped (rows w) (st_clock (ss_store S) (w_ticks w)) (str_meta_key S slot key)"
proof -
  let ?mk = "str_meta_key S slot key" and ?now = "st_clock (ss_store S) (w_ticks w)"
  let ?w1 = "snd (read_live K S slot key w)"
  obtain wc where c: "read_clock (ss_store S) w = (?now, wc)" and wc: "w_kv wc = w_kv w" "w_last wc = w_last w"
    by (simp add: read_clock_def)
  have ok: "ok (w_kv wc)" using assms wc by simp
  have get: "w_get K wc ?mk = rows w ?mk" using w_get[OF ok] wc by simp
  have "fst (read_live K S slot key w) = (case classify ?now (rows w ?mk) of
         WrongTyped \<Rightarrow> Inl WrongType | Live s \<Rightarrow> Inr (Some s) | _ \<Rightarrow> Inr None) \<and>
    ok (w_kv ?w1) \<and> w_last ?w1 = w_last w \<and> rows ?w1 = reaped (rows w) ?now ?mk"
    unfolding read_live_def c Let_def case_prod_conv get classify_reaped
    using assms ok wc by (cases "classify ?now (rows w ?mk)") (simp_all add: world)
  then show ?thesis using that[of ?w1] by (simp add: prod_eq_iff)
qed

lemma str_read_error:
  assumes "ok (w_kv w)" "str_view S slot key (rows w) (st_clock (ss_store S) (w_ticks w)) = Inl e"
  obtains w1 where "read_live K S slot key w = (Inl WrongType, w1)" "ok (w_kv w1)" "rows w1 = rows w"
    "w_last w1 = w_last w" "e = WrongType"
proof -
  let ?c = "classify (st_clock (ss_store S) (w_ticks w)) (rows w (str_meta_key S slot key))"
  have c: "?c = WrongTyped" "e = WrongType" using assms(2) by (auto simp: str_view_def split: str_row.splits)
  show ?thesis
    by (rule read_live[OF assms(1), of S slot key]) (use that c classify_reaped[of _ _ "str_meta_key S slot key"] in auto)
qed

lemma str_read_cases:
  assumes "ok (w_kv w)" "str_ready S slot key (rows w) (w_last w)"
    and view: "str_view S slot key (rows w) (st_clock (ss_store S) (w_ticks w)) = Inr x"
  obtains (absent) w1 where "read_live K S slot key w = (Inr None, w1)" "ok (w_kv w1)" "w_last w1 = w_last w"
      "x = None" "str_post S slot key (rows w) (w_last w) (rows w1) (w_last w1) x"
  | (present) s w1 where "read_live K S slot key w = (Inr (Some s), w1)" "ok (w_kv w1)" "w_last w1 = w_last w"
      "rows w1 = rows w" "x = Some (stored_expire s, stored_text S slot key (rows w) s)"
      "stored_good S slot key (rows w) (w_last w) s" "classify 0 (rows w (str_meta_key S slot key)) = Live s"
      "str_post S slot key (rows w) (w_last w) (rows w1) (w_last w1) x"
proof -
  let ?now = "st_clock (ss_store S) (w_ticks w)" and ?mk = "str_meta_key S slot key"
  obtain w1 where r: "read_live K S slot key w = (case classify ?now (rows w ?mk) of
         WrongTyped \<Rightarrow> Inl WrongType | Live s \<Rightarrow> Inr (Some s) | _ \<Rightarrow> Inr None, w1)"
    and w1: "ok (w_kv w1)" "w_last w1 = w_last w" "rows w1 = reaped (rows w) ?now ?mk"
    by (rule read_live[OF assms(1)])
  have post: "str_post S slot key (rows w) (w_last w) (rows w1) (w_last w1) x"
    unfolding w1(3) using assms(2) view by (rule str_post_reaped) (simp add: w1(2))
  show ?thesis
  proof (cases "classify ?now (rows w ?mk)")
    case (Live s)
    then have 0: "classify 0 (rows w ?mk) = Live s" using classify_live by blast
    then show ?thesis
      using present[of s w1] r w1 post Live view assms(2) classify_reaped[of _ _ "str_meta_key S slot key"]
      by (simp add: str_view_def str_ready_def)
  qed (use absent[of w1] r w1 post view in \<open>simp_all add: str_view_def\<close>)
qed

text \<open>The two ways a command ends: it writes the metadata row, or deletes it.\<close>

lemma str_commit:
  assumes "ok (w_kv w)" "str_store_ok S" "key_framed key" "versions_below (rows w) (w_last w)"
    and "only_rows (own_rows (st_ns (ss_store S)) slot key) m (rows w)" "l \<le> w_last w"
    and row: "classify 0 (Some row) = Live s" "stored_good S slot key (rows w) (w_last w) s"
    and x: "x = Some (stored_expire s, stored_text S slot key (rows w) s)"
  shows "ok (w_kv (w_put K w (str_meta_key S slot key) row))"
    and "str_post S slot key m l (rows (w_put K w (str_meta_key S slot key) row))
      (w_last (w_put K w (str_meta_key S slot key) row)) x"
proof -
  let ?w' = "w_put K w (str_meta_key S slot key) row"
  show "ok (w_kv ?w')" using assms(1) by (simp add: world)
  have rows: "rows ?w' = (rows w)(str_meta_key S slot key \<mapsto> row)" "w_last ?w' = w_last w"
    using assms(1) by (simp_all add: world)
  have at: "classify 0 (rows ?w' (str_meta_key S slot key)) = Live s" using row(1) rows by simp
  have same: "stored_text S slot key (rows ?w') s = stored_text S slot key (rows w) s"
    "stored_good S slot key (rows ?w') (w_last ?w') s" using row(2) rows by (simp_all add: meta_key_def)
  have vb: "versions_below (rows ?w') (w_last ?w')" using assms(4) rows by (simp add: meta_key_def versions_below_meta)
  then show "str_post S slot key m l (rows ?w') (w_last ?w') x"
    using assms(2,3,5,6) at same rows str_view_row[where m = "rows ?w'", OF at] x
    by (simp add: str_post_def str_ready_def only_rows_upd)
qed

lemma str_uncommit:
  assumes "ok (w_kv w)" "str_store_ok S" "key_framed key" "versions_below (rows w) (w_last w)"
    and "only_rows (own_rows (st_ns (ss_store S)) slot key) m (rows w)" "l \<le> w_last w"
  shows "ok (w_kv (snd (w_delete K w (str_meta_key S slot key))))"
    and "str_post S slot key m l (rows (snd (w_delete K w (str_meta_key S slot key))))
      (w_last (snd (w_delete K w (str_meta_key S slot key)))) None"
proof -
  let ?w' = "snd (w_delete K w (str_meta_key S slot key))"
  show "ok (w_kv ?w')" using assms(1) by (simp add: world)
  have rows: "rows ?w' = (rows w)(str_meta_key S slot key := None)" "w_last ?w' = w_last w"
    using assms(1) by (simp_all add: world)
  then show "str_post S slot key m l (rows ?w') (w_last ?w') None"
    using assms(2-6)
    by (simp add: str_post_def str_ready_def only_rows_upd str_view_def classify_def)
      (simp add: meta_key_def versions_below_meta)
qed

end

text \<open>The rows the commands write decode to the string they hold.\<close>

lemma classify_inline: "classify 0 (Some (sm_encode (sm_new p e now))) = Live (Inline (sm_new p e now))"
  by (simp add: classify_def mh_decode_sm_encode mh_value_type_def) (simp add: sm_new_def)

lemma classify_chunked:
  assumes "from_flags (mh_flags (cm_header c)) = Some ChunkedString"
  shows "classify 0 (Some (cm_encode c)) = Live (Chunked (cm_v2 c))"
  using mh_decode_cm_encode[of c "[]"] cm_decode_encode[of c "[]"] from_flags_v2_flags[OF assms]
  by (simp add: classify_def mh_value_type_def)

lemma classify_flags:
  assumes "classify now row = Live s"
  shows "(case s of Inline m \<Rightarrow> from_flags (sm_flags m) = Some StringT
    | Chunked c \<Rightarrow> from_flags (mh_flags (cm_header c)) = Some ChunkedString)"
proof -
  have sm: "sm_decode r = Some sm \<Longrightarrow> mh_decode r = Some h \<Longrightarrow> mh_flags h = sm_flags sm" for r sm h
    by (auto simp: sm_decode_def mh_decode_def Let_def split: option.splits list.splits if_splits)
  show ?thesis
    using assms by (auto simp: classify_def mh_value_type_def dest: sm cm_decode_header split: option.splits if_splits)
qed

section \<open>Lemmas: writing a whole value\<close>

lemma chunks_of_spec:
  assumes "0 < n"
  shows "(j < length (chunks_of n xs) \<longleftrightarrow> j * n < length xs) \<and>
    (j * n < length xs \<longrightarrow> chunks_of n xs ! j = take n (drop (j * n) xs))"
proof (induction "length xs" arbitrary: xs j rule: less_induct)
  case less
  show ?case
  proof (cases "xs = []")
    case True
    then show ?thesis by (simp add: chunks_of.simps[of n "[]"])
  next
    case False
    then have c: "chunks_of n xs = take n xs # chunks_of n (drop n xs)" using assms by (simp add: chunks_of.simps[of n xs])
    have "length (drop n xs) < length xs" using False assms by simp
    note IH = less[OF this]
    show ?thesis
    proof (cases j)
      case 0
      then show ?thesis using c False by simp
    next
      case (Suc i)
      have e: "i * n < length (drop n xs) \<longleftrightarrow> Suc i * n < length xs" by auto
      have d: "drop (i * n) (drop n xs) = drop (Suc i * n) xs" by (simp add: add.commute)
      show ?thesis using IH[of i] unfolding c Suc e d by simp
    qed
  qed
qed

lemma byte_or_zero_zeros: "\<not> list_ex (\<lambda>b. b \<noteq> 0) part \<Longrightarrow> byte_or_zero i part = 0"
  by (auto simp: byte_or_zero_def elem_get_def list_ex_iff)

lemma chunk_row_other:
  assumes "ns_ok (st_ns (ss_store S))" "key_framed key" "i < 2 ^ 32" "j < 2 ^ 32"
  shows "chunk_row S slot key (m(chunk_key S slot key v i \<mapsto> c)) v j = (if j = i then c else chunk_row S slot key m v j)"
  using chunk_key_inject[OF assms(1,2,4,3), of slot v v] by (simp add: chunk_row_def)

lemma versions_below_chunk:
  assumes "versions_below m l" "v \<le> l" "ns_ok (st_ns (ss_store S))" "key_framed key"
  shows "versions_below (m(chunk_key S slot key v i := x)) l"
  using versions_below_subkey[OF assms] by (simp add: chunk_key_def)

context kv_store
begin

lemma put_chunks:
  fixes slot :: u16
  assumes "ok (w_kv w)" "ns_ok (st_ns (ss_store S))" "key_framed key" "i + length parts \<le> 2 ^ 32"
    and "versions_below (rows w) (w_last w)" "v \<le> w_last w"
  defines "w' \<equiv> put_chunks K S slot key v i parts w"
  shows "ok (w_kv w') \<and> w_last w' = w_last w \<and> w_ticks w' = w_ticks w \<and> versions_below (rows w') (w_last w') \<and>
    only_rows (own_rows (st_ns (ss_store S)) slot key) (rows w) (rows w') \<and>
    (\<forall>j < 2 ^ 32. chunk_row S slot key (rows w') v j =
      (if i \<le> j \<and> j < i + length parts \<and> list_ex (\<lambda>b. b \<noteq> 0) (parts ! (j - i)) then parts ! (j - i)
       else chunk_row S slot key (rows w) v j))"
  using assms(1,4-6) unfolding w'_def
proof (induction parts arbitrary: i w)
  case (Cons part parts)
  define w1 where "w1 = (if list_ex (\<lambda>b. b \<noteq> 0) part then w_put K w (chunk_key S slot key v i) part else w)"
  have w1: "ok (w_kv w1)" "w_last w1 = w_last w" "w_ticks w1 = w_ticks w" "versions_below (rows w1) (w_last w1)"
    "only_rows (own_rows (st_ns (ss_store S)) slot key) (rows w) (rows w1)"
    using Cons.prems assms(2,3) by (auto simp: w1_def world versions_below_chunk only_rows_upd)
  have row: "chunk_row S slot key (rows w1) v j =
      (if j = i \<and> list_ex (\<lambda>b. b \<noteq> 0) part then part else chunk_row S slot key (rows w) v j)" if "j < 2 ^ 32" for j
    using Cons.prems(1,2) chunk_row_other[OF assms(2,3) _ that, of i slot "rows w" v part] by (auto simp: w1_def world)
  have run: "put_chunks K S slot key v i (part # parts) w = put_chunks K S slot key v (i + 1) parts w1" by (simp add: w1_def)
  note IH = Cons.IH[OF w1(1), of "i + 1"]
  have "i + 1 + length parts \<le> 2 ^ 32" "v \<le> w_last w1" using Cons.prems w1(2) by simp_all
  note IH = IH[OF this(1) w1(4) this(2)]
  have "(if i + 1 \<le> j \<and> j < i + 1 + length parts \<and> list_ex (\<lambda>b. b \<noteq> 0) (parts ! (j - (i + 1))) then parts ! (j - (i + 1))
       else chunk_row S slot key (rows w1) v j) =
      (if i \<le> j \<and> j < i + length (part # parts) \<and> list_ex (\<lambda>b. b \<noteq> 0) ((part # parts) ! (j - i)) then (part # parts) ! (j - i)
       else chunk_row S slot key (rows w) v j)" if "j < 2 ^ 32" for j
    using row[OF that] by (cases "j = i") (auto simp: nth_Cons')
  then show ?case unfolding run using IH w1 by (auto intro: only_rows_trans)
qed auto

text \<open>A payload laid in chunks under a version without rows.\<close>

lemma put_payload:
  assumes "ok (w_kv w)" "str_store_ok S" "key_framed key" "length payload \<le> str_limit S"
    and "versions_below (rows w) (w_last w)" "v \<le> w_last w" "coll (rows w) (st_ns (ss_store S)) slot key v = Map.empty"
  defines "w' \<equiv> put_chunks K S slot key v 0 (chunks_of (ss_chunk S) payload) w"
  shows "ok (w_kv w')" "w_last w' = w_last w" "w_ticks w' = w_ticks w" "versions_below (rows w') (w_last w')"
    and "only_rows (own_rows (st_ns (ss_store S)) slot key) (rows w) (rows w')"
    and "chunk_text S slot key (rows w') v (length payload) = payload" "chunks_fit S slot key (rows w') v (length payload)"
proof -
  let ?n = "ss_chunk S" and ?parts = "chunks_of (ss_chunk S) payload"
  have n: "0 < ?n" and ns: "ns_ok (st_ns (ss_store S))" using assms(2) by (simp_all add: str_store_ok_def)
  note spec = chunks_of_spec[OF n, of _ payload]
  have "length ?parts \<le> 2 ^ 32"
    using spec[of "2 ^ 32"] assms(4) by (simp add: str_limit_def mult.commute not_less[symmetric])
  then have "0 + length ?parts \<le> 2 ^ 32" by simp
  note put = put_chunks[OF assms(1) ns assms(3) this assms(5,6), where slot = slot]
  show "ok (w_kv w')" "w_last w' = w_last w" "w_ticks w' = w_ticks w" "versions_below (rows w') (w_last w')"
    "only_rows (own_rows (st_ns (ss_store S)) slot key) (rows w) (rows w')"
    using put unfolding w'_def by blast+
  have none: "chunk_row S slot key (rows w) v j = []" for j
    using fun_cong[OF assms(7)] by (simp add: chunk_row_def chunk_key_def coll_def)
  have row: "chunk_row S slot key (rows w') v j =
      (if j * ?n < length payload \<and> list_ex (\<lambda>b. b \<noteq> 0) (take ?n (drop (j * ?n) payload))
       then take ?n (drop (j * ?n) payload) else [])" if "j < 2 ^ 32" for j
    using put that spec[of j] none by (auto simp: w'_def)
  show "chunk_text S slot key (rows w') v (length payload) = payload"
  proof (rule nth_equalityI)
    fix i assume "i < length (chunk_text S slot key (rows w') v (length payload))"
    then have i: "i < length payload" by simp
    have b: "i div ?n < 2 ^ 32" using i assms(4) by (intro index_bound) simp
    have im: "i div ?n * ?n + i mod ?n = i" "i mod ?n < ?n" using n by simp_all
    have rest: "i mod ?n < length payload - i div ?n * ?n" "i div ?n * ?n < length payload" using i im by linarith+
    have "byte_or_zero (i mod ?n) (take ?n (drop (i div ?n * ?n) payload)) = payload ! i"
      using rest im by (simp add: byte_or_zero_def elem_get_def)
    then have "row_byte S slot key (rows w') v i = payload ! i"
      using row[OF b] rest byte_or_zero_zeros[of "take ?n (drop (i div ?n * ?n) payload)" "i mod ?n"]
      by (auto simp: row_byte_def byte_or_zero_def elem_get_def)
    then show "chunk_text S slot key (rows w') v (length payload) ! i = payload ! i" using i by (simp add: chunk_text_nth)
  qed simp
  show "chunks_fit S slot key (rows w') v (length payload)"
    using row by (auto simp: chunks_fit_def)
qed

end

lemma touch_flags [simp]: "mh_flags (cm_header (cm_touch c now)) = v2_flags (mh_flags (cm_header c))"
  "mh_expire_ms (cm_header (cm_touch c now)) = mh_expire_ms (cm_header c)"
  "cm_version (cm_touch c now) = cm_version c" "cm_bytes (cm_touch c now) = cm_bytes c" "cm_size (cm_touch c now) = cm_size c"
  by (simp_all add: cm_touch_def)

lemma unat_length: "n \<le> str_limit S \<Longrightarrow> unat (word_of_nat n :: u64) = n"
  by (simp add: str_limit_def unsigned_of_nat take_bit_nat_eq_self)

context kv_store
begin

lemma put_value:
  fixes e :: u64
  assumes "ok (w_kv w)" "str_store_ok S" "key_framed key" "length payload \<le> str_limit S"
    and "versions_below (rows w) (w_last w)" "clock_sane (ss_store S) (w_last w)"
    and only: "only_rows (own_rows (st_ns (ss_store S)) slot key) m (rows w)" and l: "l \<le> w_last w"
  defines "w' \<equiv> put_value K S slot key payload e w"
  shows "ok (w_kv w')" "str_post S slot key m l (rows w') (w_last w') (Some (e, payload))"
proof -
  let ?T = "ss_store S"
  let ?now = "st_clock ?T (w_ticks w)" and ?wc = "snd (read_clock ?T w)" and ?mk = "str_meta_key S slot key"
  have ns: "ns_ok (st_ns ?T)" using assms(2) by (simp add: str_store_ok_def)
  have "ok (w_kv w') \<and> str_post S slot key m l (rows w') (w_last w') (Some (e, payload))"
  proof (cases "ss_chunked_writes S \<and> length payload > ss_inline_max S")
    case False
    let ?row = "sm_encode (sm_new payload e ?now)"
    have w': "w' = w_put K ?wc ?mk ?row" using False by (auto simp: w'_def put_value_def read_clock_def)
    have good: "stored_good S slot key (rows ?wc) (w_last ?wc) (Inline (sm_new payload e ?now))"
      using assms(4) by (simp add: stored_good_def sm_new_def)
    have x: "Some (e, payload) = Some (stored_expire (Inline (sm_new payload e ?now)),
        stored_text S slot key (rows ?wc) (Inline (sm_new payload e ?now)))"
      by (simp add: stored_expire_def stored_text_def sm_new_def)
    have "ok (w_kv ?wc)" "versions_below (rows ?wc) (w_last ?wc)" using assms(1,5) by simp_all
    moreover have "only_rows (own_rows (st_ns ?T) slot key) m (rows ?wc)" "l \<le> w_last ?wc" using only l by simp_all
    ultimately show ?thesis
      unfolding w' using str_commit[OF _ assms(2,3) _ _ _ classify_inline good x] by blast
  next
    case True
    let ?p = "next_version ?now ?wc"
    note new = new_version[OF assms(5,6) ns assms(3)]
    let ?w1 = "snd ?p" and ?v = "fst ?p"
    have w1: "ok (w_kv ?w1)" "versions_below (rows ?w1) (w_last ?w1)" "coll (rows ?w1) (st_ns ?T) slot key ?v = Map.empty"
      using assms(1) new by simp_all
    let ?w2 = "put_chunks K S slot key ?v 0 (chunks_of (ss_chunk S) payload) ?w1"
    note w2 = put_payload[OF w1(1) assms(2-4) w1(2) new(4) w1(3)]
    define c where "c = cm_touch (cm_new ChunkedString ?v\<lparr>cm_header := (cm_header (cm_new ChunkedString ?v))\<lparr>mh_expire_ms := e\<rparr>,
        cm_bytes := word_of_nat (length payload), cm_size := word_of_nat (div_ceil (length payload) (ss_chunk S))\<rparr>) ?now"
    have w': "w' = w_put K ?w2 ?mk (cm_encode c)"
      using True by (simp add: w'_def put_value_def read_clock_def Let_def case_prod_beta c_def)
    have c: "cm_version c = ?v" "unat (cm_bytes c) = length payload" "mh_expire_ms (cm_header c) = e" "cm_v2 c = c"
      "from_flags (mh_flags (cm_header c)) = Some ChunkedString"
      using unat_length[OF assms(4)] by (simp_all add: c_def cm_new_def from_flags_v2_flags)
    have good: "stored_good S slot key (rows ?w2) (w_last ?w2) (Chunked c)"
      using assms(4) c w2 new(4) by (simp add: stored_good_def)
    have row: "classify 0 (Some (cm_encode c)) = Live (Chunked c)" using classify_chunked[OF c(5)] c(4) by simp
    have x: "Some (e, payload) = Some (stored_expire (Chunked c), stored_text S slot key (rows ?w2) (Chunked c))"
      using c w2 by (simp add: stored_expire_def stored_text_def)
    have "only_rows (own_rows (st_ns ?T) slot key) m (rows ?w2)"
      using only w2(5) by (auto intro: only_rows_trans)
    moreover have "l \<le> w_last ?w2" using l w2(2) new(2) by simp
    ultimately show ?thesis
      unfolding w' using str_commit[OF w2(1) assms(2,3) w2(4) _ _ row good x] by blast
  qed
  then show "ok (w_kv w')" "str_post S slot key m l (rows w') (w_last w') (Some (e, payload))" by blast+
qed

end

section \<open>Lemmas: commands that read\<close>

context kv_store
begin

lemma value_of:
  assumes "ok (w_kv w)" "str_store_ok S" "key_framed key" "stored_good S slot key (rows w) l s"
  shows "value_of K S slot key s w = stored_text S slot key (rows w) s"
  using assms read_chunked[OF assms(1-3)]
  by (auto simp: value_of_def stored_text_def stored_good_def split: Stored.splits)

lemma chunk_source:
  assumes "ok (w_kv w)" "str_store_ok S" "key_framed key" "stored_good S slot key (rows w) l (Chunked c)"
  shows "chunk_source K S slot key c w = slice_source (stored_text S slot key (rows w) (Chunked c))"
  using assms read_chunked[OF assms(1-3)] by (simp add: chunk_source_def slice_source_def stored_good_def stored_text_def fun_eq_iff)

end

section \<open>Lemmas: views\<close>

lemma resize_nth: "i < n \<Longrightarrow> resize n xs ! i = byte_or_zero i xs"
  by (auto simp: resize_def byte_or_zero_def elem_get_def nth_append)

lemma length_resize [simp]: "length (resize n xs) = n"
  by (simp add: resize_def)

lemma resize_grown: "length xs \<le> n \<Longrightarrow> resize n xs = grown n xs"
  by (simp add: resize_def grown_def)

lemma length_grown [simp]: "length (grown n xs) = max n (length xs)"
  by (auto simp: grown_def)

lemma grown_nth: "i < max n (length xs) \<Longrightarrow> grown n xs ! i = byte_or_zero i xs"
  by (auto simp: grown_def byte_or_zero_def elem_get_def nth_append)

lemma length_str_write: "length (str_write i bs xs) = max (i + length bs) (length xs)"
  by (simp add: str_write_def overlay_at_def)

lemma str_write_nth:
  "j < max (i + length bs) (length xs) \<Longrightarrow>
   str_write i bs xs ! j = (if i \<le> j \<and> j < i + length bs then bs ! (j - i) else byte_or_zero j xs)"
  by (simp add: str_write_def overlay_at_nth grown_nth)

lemma cv_str_nth: "i < unat (cm_bytes (cv_meta v)) \<Longrightarrow> cv_str S slot key m v ! i = cv_at S slot key m v i"
  by (simp add: cv_str_def)

lemma length_cv_str [simp]: "length (cv_str S slot key m v) = unat (cm_bytes (cv_meta v))"
  by (simp add: cv_str_def)

lemma byte_cv_str:
  "cv_zero S slot key m v \<Longrightarrow> i div ss_chunk S < 2 ^ 32 \<Longrightarrow> byte_or_zero i (cv_str S slot key m v) = cv_at S slot key m v i"
  by (auto simp: byte_or_zero_def elem_get_def cv_str_nth cv_zero_def)

lemma chunks_fit_mono: "chunks_fit S slot key m v n \<Longrightarrow> n \<le> n' \<Longrightarrow> chunks_fit S slot key m v n'"
  by (fastforce simp: chunks_fit_def)

context kv_reader
begin

text \<open>Loading a chunk changes nothing a view stands for.\<close>

lemma cv_chunk:
  assumes "ok (w_kv w)" "0 < ss_chunk S" "cv_wf S slot key (abs (w_kv w)) l v"
    and load: "cv_chunk K S slot key w i v = (c, v')"
  shows "length c = ss_chunk S" "cv_chunks v' i = Some c" "cv_meta v' = cv_meta v"
    and "cv_changed v' = cv_changed v" "cv_dirty v' = cv_dirty v" "cv_wf S slot key (abs (w_kv w)) l v'"
    and "cv_at S slot key (abs (w_kv w)) v' = cv_at S slot key (abs (w_kv w)) v"
proof -
  let ?m = "abs (w_kv w)" and ?ver = "cm_version (cv_meta v)"
  have get: "w_get K w k = ?m k" for k using get[OF assms(1)] by (simp add: w_get_def)
  show c: "length c = ss_chunk S" and i: "cv_chunks v' i = Some c" and "cv_meta v' = cv_meta v"
    "cv_changed v' = cv_changed v" "cv_dirty v' = cv_dirty v"
    using load assms(3) by (auto simp: cv_chunk_def cv_wf_def Let_def split: option.splits)
  have "cv_chunks v i = Some c \<and> v' = v \<or>
      cv_chunks v i = None \<and> c = resize (ss_chunk S) (chunk_row S slot key ?m ?ver i) \<and> v' = v\<lparr>cv_chunks := (cv_chunks v)(i \<mapsto> c)\<rparr>"
    using load by (auto simp: cv_chunk_def chunk_row_def get Let_def split: option.splits)
  then have "cv_wf S slot key ?m l v' \<and> cv_at S slot key ?m v' = cv_at S slot key ?m v"
  proof (elim disjE conjE)
    assume new: "cv_chunks v i = None" "c = resize (ss_chunk S) (chunk_row S slot key ?m ?ver i)"
      "v' = v\<lparr>cv_chunks := (cv_chunks v)(i \<mapsto> c)\<rparr>"
    have "cv_at S slot key ?m v' x = cv_at S slot key ?m v x" for x
      using assms(2) new by (cases "x div ss_chunk S = i") (simp_all add: cv_at_def row_byte_def resize_nth split: option.split)
    moreover have "cv_wf S slot key ?m l v'" using assms(3) c new by (auto simp: cv_wf_def)
    ultimately show ?thesis by blast
  qed (use assms(3) in simp)
  then show "cv_wf S slot key ?m l v'" "cv_at S slot key ?m v' = cv_at S slot key ?m v" by blast+
qed

text \<open>Replacing bytes inside one loaded chunk.\<close>

lemma cv_replace:
  assumes "0 < ss_chunk S" "cv_wf S slot key m l v" "cv_chunks v i = Some c" "i < 2 ^ 32" "length c' = ss_chunk S"
  defines "v' \<equiv> v\<lparr>cv_chunks := (cv_chunks v)(i \<mapsto> c'), cv_changed := insort_insert i (cv_changed v)\<rparr>"
  shows "cv_wf S slot key m l v'"
    and "cv_at S slot key m v' x = (if x div ss_chunk S = i then c' ! (x mod ss_chunk S) else cv_at S slot key m v x)"
  using assms by (auto simp: cv_wf_def cv_at_def row_byte_def set_insort_insert split: option.splits)

lemma cv_byte:
  assumes "ok (w_kv w)" "0 < ss_chunk S" "cv_wf S slot key (abs (w_kv w)) l v" "cv_zero S slot key (abs (w_kv w)) v"
    and "cv_byte K S slot key w v i = (b, v')"
  shows "b = byte_or_zero i (cv_str S slot key (abs (w_kv w)) v)" "cv_wf S slot key (abs (w_kv w)) l v'"
    and "cv_zero S slot key (abs (w_kv w)) v'" "cv_str S slot key (abs (w_kv w)) v' = cv_str S slot key (abs (w_kv w)) v"
    and "cv_meta v' = cv_meta v" "cv_changed v' = cv_changed v" "cv_dirty v' = cv_dirty v"
proof -
  let ?m = "abs (w_kv w)" and ?n = "ss_chunk S"
  have "b = byte_or_zero i (cv_str S slot key ?m v) \<and> cv_wf S slot key ?m l v' \<and> cv_zero S slot key ?m v' \<and>
    cv_str S slot key ?m v' = cv_str S slot key ?m v \<and> cv_meta v' = cv_meta v \<and> cv_changed v' = cv_changed v \<and> cv_dirty v' = cv_dirty v"
  proof (cases "i \<ge> unat (cm_bytes (cv_meta v))")
    case True
    then show ?thesis using assms(3-5) by (simp add: cv_byte_def byte_or_zero_def elem_get_def)
  next
    case False
    obtain c v1 where c: "cv_chunk K S slot key w (i div ?n) v = (c, v1)" by fastforce
    note load = cv_chunk[OF assms(1-3) c]
    have "b = c ! (i mod ?n)" "v' = v1" using assms(5) False c by (simp_all add: cv_byte_def)
    moreover have "c ! (i mod ?n) = cv_at S slot key ?m v i" using load(2,7) by (simp add: cv_at_def fun_eq_iff)
        (metis option.simps(5))
    ultimately show ?thesis
      using load False assms(4) by (simp add: byte_or_zero_def elem_get_def cv_str_def cv_zero_def)
  qed
  then show "b = byte_or_zero i (cv_str S slot key (abs (w_kv w)) v)" "cv_wf S slot key (abs (w_kv w)) l v'"
    "cv_zero S slot key (abs (w_kv w)) v'" "cv_str S slot key (abs (w_kv w)) v' = cv_str S slot key (abs (w_kv w)) v"
    "cv_meta v' = cv_meta v" "cv_changed v' = cv_changed v" "cv_dirty v' = cv_dirty v" by blast+
qed

end

lemma cv_wf_extend:
  assumes "cv_wf S slot key m l v" "unat (cm_bytes (cv_meta v)) \<le> n" "n \<le> str_limit S"
  shows "cv_wf S slot key m l (v\<lparr>cv_meta := (cv_meta v)\<lparr>cm_bytes := word_of_nat n\<rparr>, cv_dirty := d\<rparr>)"
  using assms unat_length[OF assms(3)] by (auto simp: cv_wf_def intro: chunks_fit_mono)

lemma cv_at_extend [simp]:
  "cv_at S slot key m (v\<lparr>cv_meta := (cv_meta v)\<lparr>cm_bytes := n\<rparr>, cv_dirty := d\<rparr>) = cv_at S slot key m v"
  "cv_at S slot key m (v\<lparr>cv_meta := (cv_meta v)\<lparr>cm_bytes := n\<rparr>\<rparr>) = cv_at S slot key m v"
  "cv_at S slot key m (v\<lparr>cv_dirty := d\<rparr>) = cv_at S slot key m v"
  by (simp_all add: cv_at_def fun_eq_iff split: option.split)

lemma cv_wf_dirty [simp]: "cv_wf S slot key m l (v\<lparr>cv_dirty := d\<rparr>) = cv_wf S slot key m l v"
  by (simp add: cv_wf_def)

text \<open>A view that grew stands for the string grown with zeros.\<close>

lemma cv_str_grown:
  assumes "cv_zero S slot key m v" "unat (cm_bytes (cv_meta v')) = max n (unat (cm_bytes (cv_meta v)))"
    and "n \<le> str_limit S" "unat (cm_bytes (cv_meta v)) \<le> str_limit S" "cv_at S slot key m v' = cv_at S slot key m v"
  shows "cv_str S slot key m v' = grown n (cv_str S slot key m v)" "cv_zero S slot key m v'"
proof -
  show "cv_str S slot key m v' = grown n (cv_str S slot key m v)"
  proof (rule nth_equalityI)
    fix i assume "i < length (cv_str S slot key m v')"
    then have i: "i < max n (unat (cm_bytes (cv_meta v)))" using assms(2) by simp
    then have "i div ss_chunk S < 2 ^ 32" using assms(3,4) by (intro index_bound) simp
    then show "cv_str S slot key m v' ! i = grown n (cv_str S slot key m v) ! i"
      using i assms(2,5) byte_cv_str[OF assms(1)] by (simp add: cv_str_nth grown_nth)
  qed (simp add: assms(2))
  show "cv_zero S slot key m v'" using assms(1,2,5) by (simp add: cv_zero_def)
qed

context kv_reader
begin

lemma cv_set_byte:
  fixes b :: u8
  assumes "ok (w_kv w)" "0 < ss_chunk S" "cv_wf S slot key (abs (w_kv w)) l v" "cv_zero S slot key (abs (w_kv w)) v"
    and i: "i < str_limit S"
  defines "v' \<equiv> cv_set_byte K S slot key w v i b"
  shows "cv_wf S slot key (abs (w_kv w)) l v'" "cv_zero S slot key (abs (w_kv w)) v'"
    and "cv_str S slot key (abs (w_kv w)) v' = (grown (i + 1) (cv_str S slot key (abs (w_kv w)) v))[i := b]"
    and "mh_expire_ms (cm_header (cv_meta v')) = mh_expire_ms (cm_header (cv_meta v))"
    and "\<not> cv_dirty v' \<and> cv_changed v' = [] \<Longrightarrow> \<not> cv_dirty v \<and> cv_changed v = [] \<and>
      cv_str S slot key (abs (w_kv w)) v' = cv_str S slot key (abs (w_kv w)) v"
proof -
  let ?m = "abs (w_kv w)" and ?n = "ss_chunk S" and ?bytes = "unat (cm_bytes (cv_meta v))"
  define v1 where "v1 = (if i \<ge> ?bytes then v\<lparr>cv_meta := (cv_meta v)\<lparr>cm_bytes := word_of_nat (i + 1)\<rparr>, cv_dirty := True\<rparr> else v)"
  have len: "unat (cm_bytes (cv_meta v1)) = max (i + 1) ?bytes"
    using unat_length[of "i + 1" S] i by (auto simp: v1_def)
  have lim: "?bytes \<le> str_limit S" using assms(3) by (simp add: cv_wf_def)
  have v1: "cv_wf S slot key ?m l v1" "cv_at S slot key ?m v1 = cv_at S slot key ?m v"
    "mh_expire_ms (cm_header (cv_meta v1)) = mh_expire_ms (cm_header (cv_meta v))"
    using cv_wf_extend[OF assms(3), of "i + 1" True] assms(3) i by (auto simp: v1_def)
  have "i + 1 \<le> str_limit S" using i by simp
  note grow = cv_str_grown[OF assms(4) len this lim v1(2)]
  obtain c v2 where c: "cv_chunk K S slot key w (i div ?n) v1 = (c, v2)" by fastforce
  note load = cv_chunk[OF assms(1,2) v1(1) c]
  have at: "c ! (i mod ?n) = cv_at S slot key ?m v1 i"
    using load(2) fun_cong[OF load(7), of i] by (simp add: cv_at_def)
  have idx: "i div ?n < 2 ^ 32" using i by (rule index_bound)
  have v': "v' = (if c ! (i mod ?n) \<noteq> b
         then v2\<lparr>cv_chunks := (cv_chunks v2)(i div ?n \<mapsto> c[i mod ?n := b]), cv_changed := insort_insert (i div ?n) (cv_changed v2)\<rparr>
         else v2)"
    using c by (simp add: v'_def cv_set_byte_def Let_def v1_def)
  note repl = cv_replace[OF assms(2) load(6,2) idx, of "c[i mod ?n := b]"]
  have im: "i mod ?n < ?n" using assms(2) by simp
  have same: "x = i \<longleftrightarrow> x div ?n = i div ?n \<and> x mod ?n = i mod ?n" for x by (metis div_mult_mod_eq)
  have cat: "c ! (x mod ?n) = cv_at S slot key ?m v x" if "x div ?n = i div ?n" for x
    using load(2) fun_cong[OF load(7), of x] that v1(2) by (simp add: cv_at_def fun_eq_iff)
  have meta: "cv_meta v' = cv_meta v1" using v' load(3) by simp
  have at': "cv_at S slot key ?m v' x = (if x = i then b else cv_at S slot key ?m v x)" for x
  proof (cases "c ! (i mod ?n) = b")
    case True
    then show ?thesis using v' at load(7) v1(2) by auto
  next
    case False
    then show ?thesis
      using v' repl(2)[of x] load(1,7) v1(2) im same[of x] cat[of x] assms(2)
      by (auto simp: nth_list_update)
  qed
  show "cv_wf S slot key ?m l v'" using v' repl(1) load(1,6) by simp
  show "cv_zero S slot key ?m v'"
    using at' grow(2) v1(2) len by (simp add: cv_zero_def meta)
  show str: "cv_str S slot key ?m v' = (grown (i + 1) (cv_str S slot key ?m v))[i := b]"
  proof (rule nth_equalityI)
    fix x assume "x < length (cv_str S slot key ?m v')"
    then have x: "x < unat (cm_bytes (cv_meta v1))" by (simp add: meta)
    then have "grown (i + 1) (cv_str S slot key ?m v) ! x = cv_at S slot key ?m v x"
      unfolding grow(1)[symmetric] by (simp add: cv_str_nth v1(2))
    then show "cv_str S slot key ?m v' ! x = (grown (i + 1) (cv_str S slot key ?m v))[i := b] ! x"
      using at'[of x] x len by (simp add: meta cv_str_nth nth_list_update)
  qed (simp add: meta len)
  show "mh_expire_ms (cm_header (cv_meta v')) = mh_expire_ms (cm_header (cv_meta v))" using v1(3) by (simp add: meta)
  assume clean: "\<not> cv_dirty v' \<and> cv_changed v' = []"
  then have b: "c ! (i mod ?n) = b" using v' set_insort_insert[of "i div ?n" "cv_changed v2"] by (auto split: if_splits)
  then have "v' = v2" using v' by simp
  then have d: "\<not> cv_dirty v1" "cv_changed v1 = []" using clean load(4,5) by simp_all
  then have "v1 = v" by (simp add: v1_def split: if_splits)
  then have "grown (i + 1) (cv_str S slot key ?m v) = cv_str S slot key ?m v" "cv_str S slot key ?m v ! i = b" "i < ?bytes"
    using d grow(1) b at len by (auto simp: cv_str_nth v1_def split: if_splits)
  then show "\<not> cv_dirty v \<and> cv_changed v = [] \<and> cv_str S slot key ?m v' = cv_str S slot key ?m v"
    using d \<open>v1 = v\<close> str by (simp add: list_update_same_conv)
qed

end

text \<open>Positions inside one chunk.\<close>

lemma same_chunk:
  fixes x pos len n :: nat
  assumes "0 < n" "pos mod n + len \<le> n"
  shows "pos \<le> x \<and> x < pos + len \<longleftrightarrow> x div n = pos div n \<and> pos mod n \<le> x mod n \<and> x mod n < pos mod n + len"
    and "x div n = pos div n \<Longrightarrow> pos \<le> x \<Longrightarrow> x - pos = x mod n - pos mod n"
proof -
  have e: "pos div n * n + pos mod n = pos" "x div n * n + x mod n = x" by simp_all
  show "pos \<le> x \<and> x < pos + len \<longleftrightarrow> x div n = pos div n \<and> pos mod n \<le> x mod n \<and> x mod n < pos mod n + len"
  proof
    assume b: "pos \<le> x \<and> x < pos + len"
    have "pos div n * n \<le> x" using b e(1) by linarith
    moreover have "x < pos div n * n + n" using b e(1) assms(2) by linarith
    ultimately have "x div n = pos div n" by (intro div_nat_eqI) (auto simp: mult.commute)
    moreover from this have "x div n * n = pos div n * n" by simp
    ultimately show "x div n = pos div n \<and> pos mod n \<le> x mod n \<and> x mod n < pos mod n + len"
      using b e by linarith
  next
    assume "x div n = pos div n \<and> pos mod n \<le> x mod n \<and> x mod n < pos mod n + len"
    moreover from this have "x div n * n = pos div n * n" by simp
    ultimately show "pos \<le> x \<and> x < pos + len" using e by linarith
  qed
  assume "x div n = pos div n" "pos \<le> x"
  then have "x div n * n = pos div n * n" by simp
  with \<open>pos \<le> x\<close> show "x - pos = x mod n - pos mod n" using e by linarith
qed

context kv_reader
begin

lemma write_part:
  assumes "ok (w_kv w)" "0 < ss_chunk S" "cv_wf S slot key (abs (w_kv w)) l v"
    and inside: "pos mod ss_chunk S + length part \<le> ss_chunk S" "pos div ss_chunk S < 2 ^ 32"
  defines "v' \<equiv> write_part K S slot key w pos part v"
  shows "cv_wf S slot key (abs (w_kv w)) l v'" "cv_meta v' = cv_meta v" "cv_dirty v' = cv_dirty v"
    and "cv_at S slot key (abs (w_kv w)) v' x =
      (if pos \<le> x \<and> x < pos + length part then part ! (x - pos) else cv_at S slot key (abs (w_kv w)) v x)"
proof -
  let ?m = "abs (w_kv w)" and ?n = "ss_chunk S"
  let ?i = "pos div ?n" and ?off = "pos mod ?n"
  obtain c v1 where c: "cv_chunk K S slot key w ?i v = (c, v1)" by fastforce
  note load = cv_chunk[OF assms(1-3) c]
  have len: "length (overlay_at ?off part c) = ?n" using load(1) inside by (simp add: length_overlay_at)
  have v': "v' = (if take (length part) (drop ?off c) \<noteq> part
         then v1\<lparr>cv_chunks := (cv_chunks v1)(?i \<mapsto> overlay_at ?off part c), cv_changed := insort_insert ?i (cv_changed v1)\<rparr>
         else v1)"
    using c by (simp add: v'_def write_part_def Let_def)
  note repl = cv_replace[OF assms(2) load(6,2) inside(2) len]
  show "cv_wf S slot key ?m l v'" "cv_meta v' = cv_meta v" "cv_dirty v' = cv_dirty v" using v' load repl(1) by simp_all
  note pos = same_chunk[OF assms(2) inside(1), of x]
  have cat: "c ! (x mod ?n) = cv_at S slot key ?m v x" if "x div ?n = ?i"
    using load(2) fun_cong[OF load(7), of x] that by (simp add: cv_at_def)
  have xm: "x mod ?n < ?n" using assms(2) by simp
  show "cv_at S slot key ?m v' x = (if pos \<le> x \<and> x < pos + length part then part ! (x - pos) else cv_at S slot key ?m v x)"
  proof (cases "take (length part) (drop ?off c) = part")
    case True
    have "part ! (x - pos) = cv_at S slot key ?m v x" if b: "pos \<le> x \<and> x < pos + length part"
    proof -
      have "part ! (x - pos) = take (length part) (drop ?off c) ! (x - pos)" using True by simp
      also have "\<dots> = c ! (x mod ?n)"
      proof -
        have "x - pos < length part" "?off \<le> length c" "?off + (x - pos) = x mod ?n"
          using b pos load(1) inside(1) by linarith+
        then show ?thesis by (simp only: nth_take nth_drop)
      qed
      finally show ?thesis using cat b pos by simp
    qed
    then show ?thesis using v' True load(7) by simp
  next
    case False
    have "overlay_at ?off part c ! (x mod ?n) =
        (if ?off \<le> x mod ?n \<and> x mod ?n < ?off + length part then part ! (x mod ?n - ?off) else c ! (x mod ?n))"
      using load(1) inside(1) xm by (intro overlay_at_nth) simp_all
    then show ?thesis using v' False repl(2)[of x] load(7) pos cat by auto
  qed
qed

lemma write_loop:
  fixes dn :: nat
  assumes "ok (w_kv w)" "0 < ss_chunk S" "cv_wf S slot key (abs (w_kv w)) l v" "at + length bs \<le> str_limit S"
  defines "v' \<equiv> write_loop K S slot key w at bs dn v"
  shows "cv_wf S slot key (abs (w_kv w)) l v' \<and> cv_meta v' = cv_meta v \<and> cv_dirty v' = cv_dirty v \<and>
    (\<forall>x. cv_at S slot key (abs (w_kv w)) v' x =
      (if at + dn \<le> x \<and> x < at + length bs then bs ! (x - at) else cv_at S slot key (abs (w_kv w)) v x))"
  using assms(3) unfolding v'_def
proof (induction "length bs - dn" arbitrary: dn v rule: less_induct)
  case less
  let ?m = "abs (w_kv w)" and ?n = "ss_chunk S"
  show ?case
  proof (cases "dn < length bs")
    case False
    then show ?thesis using less.prems by (auto simp: write_loop.simps[of K S slot key w at bs dn v])
  next
    case True
    let ?len = "write_len S at bs dn"
    let ?part = "take ?len (drop dn bs)"
    let ?v1 = "write_part K S slot key w (at + dn) ?part v"
    have m: "(at + dn) mod ?n < ?n" using assms(2) by simp
    have len: "0 < ?len" "dn + ?len \<le> length bs" "(at + dn) mod ?n + ?len \<le> ?n"
      using True m by (simp_all add: write_len_def)
    have lp: "length ?part = ?len" using len by simp
    have "(at + dn) div ?n < 2 ^ 32" using True assms(4) by (intro index_bound) simp
    note part = write_part[OF assms(1,2) less.prems, of "at + dn" ?part, unfolded lp, OF len(3) this]
    have "length bs - (dn + ?len) < length bs - dn" using len by linarith
    note IH = less.hyps[OF this part(1)]
    have run: "write_loop K S slot key w at bs dn v = write_loop K S slot key w at bs (dn + ?len) ?v1"
      using True assms(2) by (simp add: write_loop.simps[of K S slot key w at bs dn v])
    have "(if at + (dn + ?len) \<le> x \<and> x < at + length bs then bs ! (x - at) else cv_at S slot key ?m ?v1 x) =
      (if at + dn \<le> x \<and> x < at + length bs then bs ! (x - at) else cv_at S slot key ?m v x)" for x
      using part(4)[of x] len by auto
    then show ?thesis unfolding run using IH part by simp
  qed
qed

end

section \<open>Lemmas: targets\<close>

lemma iv_set_byte:
  shows "iv_payload (iv_set_byte v i b) = (grown (i + 1) (iv_payload v))[i := b]"
    and "iv_expire_ms (iv_set_byte v i b) = iv_expire_ms v"
    and "\<not> iv_dirty (iv_set_byte v i b) \<Longrightarrow> \<not> iv_dirty v \<and> iv_payload (iv_set_byte v i b) = iv_payload v"
proof -
  show "iv_payload (iv_set_byte v i b) = (grown (i + 1) (iv_payload v))[i := b]"
  proof (cases "length (iv_payload v) \<le> i")
    case True
    then have "resize (i + 1) (iv_payload v) = grown (i + 1) (iv_payload v)" by (simp add: resize_grown)
    then show ?thesis using True by (auto simp: iv_set_byte_def Let_def list_update_same_conv)
  next
    case False
    then show ?thesis by (auto simp: iv_set_byte_def Let_def list_update_same_conv)
  qed
qed (auto simp: iv_set_byte_def Let_def split: if_splits)

lemma target_buf_byte:
  assumes "kv_reader K \<alpha> ok" "ok (w_kv w)" "0 < ss_chunk S" "target_good S slot key (\<alpha> (w_kv w)) l clean e0 b0 t"
    and "bb_byte (target_buf K S slot key w) t i = (b, t')"
  shows "b = byte_or_zero i (target_str S slot key (\<alpha> (w_kv w)) t)" "target_good S slot key (\<alpha> (w_kv w)) l clean e0 b0 t'"
    and "target_str S slot key (\<alpha> (w_kv w)) t' = target_str S slot key (\<alpha> (w_kv w)) t"
proof -
  have "b = byte_or_zero i (target_str S slot key (\<alpha> (w_kv w)) t) \<and> target_good S slot key (\<alpha> (w_kv w)) l clean e0 b0 t' \<and>
    target_str S slot key (\<alpha> (w_kv w)) t' = target_str S slot key (\<alpha> (w_kv w)) t"
  proof (cases t)
    case (TInline v)
    then show ?thesis using assms(4,5) by (auto simp: target_buf_def iv_byte_def target_str_def)
  next
    case (TChunked v)
    obtain v' where v': "cv_byte K S slot key w v i = (b, v')" "t' = TChunked v'"
      using assms(5) TChunked by (auto simp: target_buf_def split: prod.splits)
    have good: "cv_wf S slot key (\<alpha> (w_kv w)) l v" "cv_zero S slot key (\<alpha> (w_kv w)) v"
      using assms(4) TChunked by (simp_all add: target_good_def target_wf_def)
    note byte = kv_reader.cv_byte[OF assms(1-3) good v'(1)]
    show ?thesis
      using byte assms(4) TChunked v'(2)
      by (simp add: target_good_def target_wf_def target_str_def target_expire_def target_dirty_def)
  qed
  then show "b = byte_or_zero i (target_str S slot key (\<alpha> (w_kv w)) t)" "target_good S slot key (\<alpha> (w_kv w)) l clean e0 b0 t'"
    "target_str S slot key (\<alpha> (w_kv w)) t' = target_str S slot key (\<alpha> (w_kv w)) t" by blast+
qed

lemma target_buf_set_byte:
  fixes b :: u8
  assumes "kv_reader K \<alpha> ok" "ok (w_kv w)" "0 < ss_chunk S" "target_good S slot key (\<alpha> (w_kv w)) l clean e0 b0 t" "i < str_limit S"
  defines "t' \<equiv> bb_set_byte (target_buf K S slot key w) t i b"
  shows "target_good S slot key (\<alpha> (w_kv w)) l clean e0 b0 t'"
    and "target_str S slot key (\<alpha> (w_kv w)) t' = (grown (i + 1) (target_str S slot key (\<alpha> (w_kv w)) t))[i := b]"
proof -
  have "target_good S slot key (\<alpha> (w_kv w)) l clean e0 b0 t' \<and>
    target_str S slot key (\<alpha> (w_kv w)) t' = (grown (i + 1) (target_str S slot key (\<alpha> (w_kv w)) t))[i := b]"
  proof (cases t)
    case (TInline v)
    then show ?thesis
      using assms(4,5) iv_set_byte[of v i b]
      by (auto simp: t'_def target_buf_def target_good_def target_wf_def target_str_def target_expire_def target_dirty_def)
  next
    case (TChunked v)
    have good: "cv_wf S slot key (\<alpha> (w_kv w)) l v" "cv_zero S slot key (\<alpha> (w_kv w)) v"
      using assms(4) TChunked by (simp_all add: target_good_def target_wf_def)
    note set = kv_reader.cv_set_byte[OF assms(1-3) good assms(5), of b]
    show ?thesis
      using set assms(4) TChunked
      by (auto simp: t'_def target_buf_def target_good_def target_wf_def target_str_def target_expire_def target_dirty_def)
  qed
  then show "target_good S slot key (\<alpha> (w_kv w)) l clean e0 b0 t'"
    "target_str S slot key (\<alpha> (w_kv w)) t' = (grown (i + 1) (target_str S slot key (\<alpha> (w_kv w)) t))[i := b]" by blast+
qed

lemma target_limit: "target_wf S slot key m l t \<Longrightarrow> length (target_str S slot key m t) \<le> str_limit S"
  by (auto simp: target_wf_def target_str_def cv_wf_def split: Target.splits)

text \<open>Inline and chunked strings are bit buffers.\<close>

interpretation target_bits: bit_buf "target_buf K S slot key w" "target_str S slot key (\<alpha> (w_kv w))"
  "\<lambda>t. kv_reader K \<alpha> ok \<and> ok (w_kv w) \<and> 0 < ss_chunk S \<and> target_good S slot key (\<alpha> (w_kv w)) l clean e0 b0 t"
  "str_limit S"
  for K S slot key w \<alpha> ok l clean e0 b0
proof (unfold_locales, goal_cases)
  case (1 t i b t')
  then show ?case using target_buf_byte[of K \<alpha> ok w S slot key l clean e0 b0 t i b t'] by blast
next
  case (2 t i b)
  then show ?case using target_buf_set_byte[of K \<alpha> ok w S slot key l clean e0 b0 t i b] by blast
next
  case (3 t)
  then show ?case by (auto simp: target_good_def intro: target_limit)
qed

lemma target_len:
  "target_wf S slot key m l t \<Longrightarrow> target_len t = word_of_nat (length (target_str S slot key m t))"
  by (auto simp: target_len_def target_str_def split: Target.splits)

lemma target_grow:
  assumes "target_good S slot key m l clean e0 b0 t" "n \<le> str_limit S"
  shows "target_good S slot key m l clean e0 b0 (target_grow n t)"
    and "target_str S slot key m (target_grow n t) = grown n (target_str S slot key m t)"
proof -
  have "target_good S slot key m l clean e0 b0 (target_grow n t) \<and>
    target_str S slot key m (target_grow n t) = grown n (target_str S slot key m t)"
  proof (cases t)
    case (TInline v)
    then show ?thesis
      using assms by (auto simp: target_grow_def target_good_def target_wf_def target_str_def target_expire_def target_dirty_def resize_grown)
  next
    case (TChunked v)
    let ?v = "v\<lparr>cv_meta := (cv_meta v)\<lparr>cm_bytes := word_of_nat n\<rparr>, cv_dirty := True\<rparr>"
    have good: "cv_wf S slot key m l v" "cv_zero S slot key m v" "unat (cm_bytes (cv_meta v)) \<le> str_limit S"
      using assms(1) TChunked by (simp_all add: target_good_def target_wf_def cv_wf_def)
    show ?thesis
    proof (cases "unat (cm_bytes (cv_meta v)) < n")
      case True
      then have "unat (cm_bytes (cv_meta ?v)) = max n (unat (cm_bytes (cv_meta v)))" using unat_length[OF assms(2)] by simp
      note grow = cv_str_grown[OF good(2) this assms(2) good(3) cv_at_extend(1)]
      show ?thesis
        using grow cv_wf_extend[OF good(1) less_imp_le[OF True] assms(2), of True] True assms(1) TChunked
        by (simp add: target_grow_def target_good_def target_wf_def target_str_def target_expire_def target_dirty_def)
    next
      case False
      then show ?thesis using assms(1) TChunked by (simp add: target_grow_def target_str_def)
    qed
  qed
  then show "target_good S slot key m l clean e0 b0 (target_grow n t)"
    "target_str S slot key m (target_grow n t) = grown n (target_str S slot key m t)" by blast+
qed

lemma target_write:
  assumes "kv_reader K \<alpha> ok" "ok (w_kv w)" "0 < ss_chunk S" "target_good S slot key (\<alpha> (w_kv w)) l clean e0 b0 t"
    and lim: "at + length bs \<le> str_limit S"
  defines "t' \<equiv> target_write K S slot key w at bs t"
  shows "target_good S slot key (\<alpha> (w_kv w)) l clean e0 b0 t'" "target_dirty t'"
    and "target_str S slot key (\<alpha> (w_kv w)) t' = str_write at bs (target_str S slot key (\<alpha> (w_kv w)) t)"
proof -
  let ?m = "\<alpha> (w_kv w)"
  have "target_good S slot key ?m l clean e0 b0 t' \<and> target_dirty t' \<and>
    target_str S slot key ?m t' = str_write at bs (target_str S slot key ?m t)"
  proof (cases t)
    case (TInline v)
    have "(if length (iv_payload v) < at + length bs then resize (at + length bs) (iv_payload v) else iv_payload v) =
        grown (at + length bs) (iv_payload v)" by (simp add: resize_grown)
    then show ?thesis
      using assms(4) TInline lim length_str_write[of at bs "iv_payload v"]
      by (simp add: t'_def target_write_def target_good_def target_wf_def target_str_def target_expire_def target_dirty_def
          str_write_def Let_def)
  next
    case (TChunked v)
    have good: "cv_wf S slot key ?m l v" "cv_zero S slot key ?m v" "unat (cm_bytes (cv_meta v)) \<le> str_limit S"
      using assms(4) TChunked by (simp_all add: target_good_def target_wf_def cv_wf_def)
    let ?n = "unat (cm_bytes (cv_meta v))" and ?stop = "at + length bs"
    define v1 where "v1 = write_loop K S slot key w at bs 0 v"
    note loop = kv_reader.write_loop[OF assms(1-3) good(1) lim, of 0, folded v1_def]
    define v2 where "v2 = (if ?stop > ?n then v1\<lparr>cv_meta := (cv_meta v1)\<lparr>cm_bytes := word_of_nat ?stop\<rparr>\<rparr> else v1)\<lparr>cv_dirty := True\<rparr>"
    have t': "t' = TChunked v2" using TChunked loop by (auto simp: t'_def target_write_def Let_def v1_def v2_def)
    have len: "unat (cm_bytes (cv_meta v2)) = max ?stop ?n" using loop unat_length[OF lim] by (simp add: v2_def)
    have wf: "cv_wf S slot key ?m l v2"
      using loop cv_wf_extend[of S slot key ?m l v1 ?stop True] lim by (auto simp: v2_def)
    have at': "cv_at S slot key ?m v2 x = (if at \<le> x \<and> x < ?stop then bs ! (x - at) else cv_at S slot key ?m v x)" for x
    proof -
      have "cv_at S slot key ?m v2 = cv_at S slot key ?m v1" by (simp add: v2_def)
      then show ?thesis using loop by simp
    qed
    have "cv_zero S slot key ?m v2" using good(2) at' len by (auto simp: cv_zero_def)
    moreover have "cv_str S slot key ?m v2 = str_write at bs (cv_str S slot key ?m v)"
    proof (rule nth_equalityI)
      fix x assume "x < length (cv_str S slot key ?m v2)"
      then have x: "x < max ?stop ?n" using len by simp
      then have "x div ss_chunk S < 2 ^ 32" using lim good(3) by (intro index_bound) simp
      then show "cv_str S slot key ?m v2 ! x = str_write at bs (cv_str S slot key ?m v) ! x"
        using x at'[of x] len byte_cv_str[OF good(2)] by (simp add: cv_str_nth str_write_nth)
    qed (simp add: len length_str_write)
    moreover have "mh_expire_ms (cm_header (cv_meta v2)) = mh_expire_ms (cm_header (cv_meta v))" "cv_dirty v2"
      using loop by (simp_all add: v2_def)
    ultimately show ?thesis
      using wf assms(4) TChunked t'
      by (simp add: target_good_def target_wf_def target_str_def target_expire_def target_dirty_def)
  qed
  then show "target_good S slot key ?m l clean e0 b0 t'" "target_dirty t'"
    "target_str S slot key ?m t' = str_write at bs (target_str S slot key ?m t)" by blast+
qed

section \<open>Lemmas: opening and closing a target\<close>

context kv_store
begin

lemma put_changed:
  fixes slot :: u16
  assumes "ok (w_kv w)" "ns_ok (st_ns (ss_store S))" "key_framed key" "\<forall>j \<in> set is. j < 2 ^ 32"
    and "versions_below (rows w) (w_last w)" "cm_version (cv_meta v) \<le> w_last w"
  defines "w' \<equiv> put_changed K S slot key v is w"
  shows "ok (w_kv w') \<and> w_last w' = w_last w \<and> versions_below (rows w') (w_last w') \<and>
    only_rows (own_rows (st_ns (ss_store S)) slot key) (rows w) (rows w') \<and>
    (\<forall>j < 2 ^ 32. chunk_row S slot key (rows w') (cm_version (cv_meta v)) j =
      (case cv_chunks v j of
         Some c \<Rightarrow> if j \<in> set is then take (min (unat (cm_bytes (cv_meta v)) - j * ss_chunk S) (ss_chunk S)) c
           else chunk_row S slot key (rows w) (cm_version (cv_meta v)) j
       | None \<Rightarrow> chunk_row S slot key (rows w) (cm_version (cv_meta v)) j))"
  using assms(1,4-6) unfolding w'_def
proof (induction "is" arbitrary: w)
  case (Cons i "is")
  let ?ver = "cm_version (cv_meta v)"
  let ?span = "\<lambda>j. min (unat (cm_bytes (cv_meta v)) - j * ss_chunk S) (ss_chunk S)"
  define w1 where "w1 = (case cv_chunks v i of None \<Rightarrow> w | Some c \<Rightarrow> w_put K w (chunk_key S slot key ?ver i) (take (?span i) c))"
  have i: "i < 2 ^ 32" using Cons.prems by simp
  have w1: "ok (w_kv w1)" "w_last w1 = w_last w" "versions_below (rows w1) (w_last w1)"
    "only_rows (own_rows (st_ns (ss_store S)) slot key) (rows w) (rows w1)"
    using Cons.prems assms(2,3) by (auto simp: w1_def world versions_below_chunk only_rows_upd split: option.split)
  have row: "chunk_row S slot key (rows w1) ?ver j =
      (case cv_chunks v j of Some c \<Rightarrow> if j = i then take (?span j) c else chunk_row S slot key (rows w) ?ver j
       | None \<Rightarrow> chunk_row S slot key (rows w) ?ver j)" if "j < 2 ^ 32" for j
    using Cons.prems(1) chunk_row_other[OF assms(2,3) i that, of slot "rows w" ?ver]
    by (auto simp: w1_def world split: option.split)
  have run: "put_changed K S slot key v (i # is) w = put_changed K S slot key v is w1"
    by (simp add: w1_def Let_def split: option.split)
  have "\<forall>j \<in> set is. j < 2 ^ 32" "?ver \<le> w_last w1" using Cons.prems w1(2) by simp_all
  note IH = Cons.IH[OF w1(1) this(1) w1(3) this(2)]
  have "chunk_row S slot key (rows (put_changed K S slot key v is w1)) ?ver j =
      (case cv_chunks v j of Some c \<Rightarrow> if j \<in> set (i # is) then take (?span j) c else chunk_row S slot key (rows w) ?ver j
       | None \<Rightarrow> chunk_row S slot key (rows w) ?ver j)" if "j < 2 ^ 32" for j
    using IH row[OF that] that by (cases "cv_chunks v j") auto
  then show ?case unfolding run using IH w1 by (auto intro: only_rows_trans)
qed (auto split: option.split)

text \<open>The rows after a chunk view is written back hold the string it stands for.\<close>

lemma cv_written:
  assumes "ok (w_kv w)" "str_store_ok S" "key_framed key" "versions_below (rows w) (w_last w)"
    and "cv_wf S slot key (rows w) (w_last w) v"
  defines "w' \<equiv> put_changed K S slot key v (cv_changed v) w"
  shows "ok (w_kv w')" "w_last w' = w_last w" "versions_below (rows w') (w_last w')"
    and "only_rows (own_rows (st_ns (ss_store S)) slot key) (rows w) (rows w')"
    and "chunk_text S slot key (rows w') (cm_version (cv_meta v)) (unat (cm_bytes (cv_meta v))) = cv_str S slot key (rows w) v"
    and "chunks_fit S slot key (rows w') (cm_version (cv_meta v)) (unat (cm_bytes (cv_meta v)))"
proof -
  let ?n = "ss_chunk S" and ?ver = "cm_version (cv_meta v)" and ?len = "unat (cm_bytes (cv_meta v))"
  have n: "0 < ?n" and ns: "ns_ok (st_ns (ss_store S))" using assms(2) by (simp_all add: str_store_ok_def)
  have wf: "?len \<le> str_limit S" "?ver \<le> w_last w" "chunks_fit S slot key (rows w) ?ver ?len"
    "\<forall>j \<in> set (cv_changed v). j < 2 ^ 32 \<and> cv_chunks v j \<noteq> None"
    "\<And>j c. cv_chunks v j = Some c \<Longrightarrow> length c = ?n \<and> (j \<notin> set (cv_changed v) \<longrightarrow> c = resize ?n (chunk_row S slot key (rows w) ?ver j))"
    using assms(5) by (auto simp: cv_wf_def)
  have "\<forall>j \<in> set (cv_changed v). j < 2 ^ 32" using wf(4) by blast
  note put = put_changed[OF assms(1) ns assms(3) this assms(4) wf(2), where slot = slot, folded w'_def]
  show "ok (w_kv w')" "w_last w' = w_last w" "versions_below (rows w') (w_last w')"
    "only_rows (own_rows (st_ns (ss_store S)) slot key) (rows w) (rows w')" using put by blast+
  have row: "chunk_row S slot key (rows w') ?ver j = (case cv_chunks v j of
         Some c \<Rightarrow> if j \<in> set (cv_changed v) then take (min (?len - j * ?n) ?n) c else chunk_row S slot key (rows w) ?ver j
       | None \<Rightarrow> chunk_row S slot key (rows w) ?ver j)" if "j < 2 ^ 32" for j
    using put that by blast
  show "chunk_text S slot key (rows w') ?ver ?len = cv_str S slot key (rows w) v"
  proof (rule nth_equalityI)
    fix x assume "x < length (chunk_text S slot key (rows w') ?ver ?len)"
    then have x: "x < ?len" by simp
    have b: "x div ?n < 2 ^ 32" using x wf(1) by (intro index_bound) simp
    have xm: "x div ?n * ?n + x mod ?n = x" "x mod ?n < ?n" using n by simp_all
    then have span: "x mod ?n < min (?len - x div ?n * ?n) ?n" using x by linarith
    have "row_byte S slot key (rows w') ?ver x = cv_at S slot key (rows w) v x"
    proof (cases "cv_chunks v (x div ?n)")
      case None
      then show ?thesis using row[OF b] by (simp add: row_byte_def cv_at_def)
    next
      case (Some c)
      then show ?thesis
        using row[OF b] wf(5)[OF Some] span xm(2)
        by (auto simp: row_byte_def cv_at_def byte_or_zero_def elem_get_def resize_nth)
    qed
    then show "chunk_text S slot key (rows w') ?ver ?len ! x = cv_str S slot key (rows w) v ! x"
      using x by (simp add: chunk_text_nth cv_str_nth)
  qed simp
  have "chunk_row S slot key (rows w') ?ver j = [] \<or> length (chunk_row S slot key (rows w') ?ver j) \<le> ?n \<and>
      j * ?n + length (chunk_row S slot key (rows w') ?ver j) \<le> ?len" if j: "j < 2 ^ 32" for j
  proof (cases "cv_chunks v j")
    case (Some c)
    have "length (take (min (?len - j * ?n) ?n) c) = min (?len - j * ?n) ?n" using wf(5)[OF Some] by simp
    then show ?thesis using row[OF j] Some wf(3) j by (auto simp: chunks_fit_def)
  qed (use row[OF j] wf(3) j in \<open>auto simp: chunks_fit_def\<close>)
  then show "chunks_fit S slot key (rows w') ?ver ?len" by (auto simp: chunks_fit_def)
qed

lemma target_finish:
  assumes "ok (w_kv w)" "str_store_ok S" "key_framed key" "versions_below (rows w) (w_last w)"
    and only: "only_rows (own_rows (st_ns (ss_store S)) slot key) m0 (rows w)" and l0: "l0 \<le> w_last w"
    and good: "target_good S slot key (rows w) (w_last w) clean e0 b0 t"
    and clean: "clean \<Longrightarrow> str_post S slot key m0 l0 (rows w) (w_last w) (Some (e0, b0))"
  defines "w' \<equiv> target_finish K S slot key t w"
  shows "ok (w_kv w')" "str_post S slot key m0 l0 (rows w') (w_last w') (Some (e0, target_str S slot key (rows w) t))"
proof -
  let ?T = "ss_store S" and ?mk = "str_meta_key S slot key"
  have "ok (w_kv w') \<and> str_post S slot key m0 l0 (rows w') (w_last w') (Some (e0, target_str S slot key (rows w) t))"
  proof (cases "target_dirty t")
    case False
    then have "w' = w" by (auto simp: w'_def target_finish_def target_dirty_def iv_finish_def cv_finish_def split: Target.splits)
    then show ?thesis using assms(1) good clean False by (simp add: target_good_def)
  next
    case dirty: True
    show ?thesis
    proof (cases t)
      case (TInline v)
      let ?wc = "snd (read_clock ?T w)"
      let ?s = "sm_new (iv_payload v) (iv_expire_ms v) (st_clock ?T (w_ticks w))"
      have w': "w' = w_put K ?wc ?mk (sm_encode ?s)"
        using dirty TInline by (simp add: w'_def target_finish_def target_dirty_def iv_finish_def case_prod_beta)
      have good': "stored_good S slot key (rows ?wc) (w_last ?wc) (Inline ?s)"
        using good TInline by (simp add: stored_good_def sm_new_def target_good_def target_wf_def)
      have x: "Some (e0, target_str S slot key (rows w) t) = Some (stored_expire (Inline ?s), stored_text S slot key (rows ?wc) (Inline ?s))"
        using good TInline by (simp add: stored_expire_def stored_text_def sm_new_def target_good_def target_expire_def target_str_def)
      have "ok (w_kv ?wc)" "versions_below (rows ?wc) (w_last ?wc)" "only_rows (own_rows (st_ns ?T) slot key) m0 (rows ?wc)" "l0 \<le> w_last ?wc"
        using assms(1,4) only l0 by simp_all
      then show ?thesis unfolding w' using str_commit[OF _ assms(2,3) _ _ _ classify_inline good' x] by blast
    next
      case (TChunked v)
      have wf: "cv_wf S slot key (rows w) (w_last w) v" using good TChunked by (simp add: target_good_def target_wf_def)
      define w2 where "w2 = put_changed K S slot key v (cv_changed v) w"
      note wr = cv_written[OF assms(1-4) wf, folded w2_def]
      let ?wc = "snd (read_clock ?T w2)"
      define c where "c = cm_touch ((cv_meta v)\<lparr>cm_size := word_of_nat (div_ceil (unat (cm_bytes (cv_meta v))) (ss_chunk S))\<rparr>) (st_clock ?T (w_ticks w2))"
      have w': "w' = w_put K ?wc ?mk (cm_encode c)"
        using dirty TChunked
        by (auto simp: w'_def target_finish_def target_dirty_def cv_finish_def Let_def case_prod_beta c_def w2_def)
      have c: "cm_version c = cm_version (cv_meta v)" "cm_bytes c = cm_bytes (cv_meta v)" "cm_v2 c = c"
        "mh_expire_ms (cm_header c) = mh_expire_ms (cm_header (cv_meta v))" "from_flags (mh_flags (cm_header c)) = Some ChunkedString"
        using wf by (simp_all add: c_def cv_wf_def from_flags_v2_flags)
      have row: "classify 0 (Some (cm_encode c)) = Live (Chunked c)" using classify_chunked[OF c(5)] c(3) by simp
      have good': "stored_good S slot key (rows ?wc) (w_last ?wc) (Chunked c)"
        using wf wr c by (simp add: stored_good_def cv_wf_def)
      have x: "Some (e0, target_str S slot key (rows w) t) = Some (stored_expire (Chunked c), stored_text S slot key (rows ?wc) (Chunked c))"
        using good TChunked wr(5) c by (simp add: stored_expire_def stored_text_def target_good_def target_expire_def target_str_def)
      have "ok (w_kv ?wc)" "versions_below (rows ?wc) (w_last ?wc)" "only_rows (own_rows (st_ns ?T) slot key) m0 (rows ?wc)" "l0 \<le> w_last ?wc"
        using wr only l0 by (auto intro: only_rows_trans)
      then show ?thesis unfolding w' using str_commit[OF _ assms(2,3) _ _ _ row good' x] by blast
    qed
  qed
  then show "ok (w_kv w')" "str_post S slot key m0 l0 (rows w') (w_last w') (Some (e0, target_str S slot key (rows w) t))" by blast+
qed

end

end
