(* ===== verification/Flint_StringSpec.thy ===== *)
theory Flint_StringSpec
  imports Flint_StringOps
begin

text \<open>
  The commands of the string store, each as the plain operation on the bytes of the string: what it
  answers, what string it leaves, and what it refuses.
\<close>

section \<open>Notions the lemmas use\<close>

text \<open>The bytes and the expiry of what a reader sees, a missing key being empty.\<close>

definition str_bytes :: "(u64 \<times> bytes) option \<Rightarrow> bytes" where
  "str_bytes x = (case x of Some (e, b) \<Rightarrow> b | None \<Rightarrow> [])"

definition str_expiry :: "(u64 \<times> bytes) option \<Rightarrow> u64" where
  "str_expiry x = (case x of Some (e, b) \<Rightarrow> e | None \<Rightarrow> 0)"

text \<open>The header of whatever is live at a key, of any type.\<close>

definition live_header :: "(bytes \<rightharpoonup> bytes) \<Rightarrow> u64 \<Rightarrow> bytes \<Rightarrow> MetaHeader option" where
  "live_header m now mk =
     (case Option.bind (m mk) mh_decode of Some h \<Rightarrow> if mh_is_expired h now then None else Some h | None \<Rightarrow> None)"

text \<open>A store with small limits, over an empty world: three bytes inline, two to a chunk.\<close>

definition test_strings :: StringStore where
  [flint_eval]: "test_strings = with_chunks 3 2 (str_new [116] (\<lambda>_. 1))"

section \<open>Lemmas: targets of commands\<close>

lemma str_bytes_simps [simp]: "str_bytes None = []" "str_bytes (Some (e, b)) = b" "str_expiry None = 0" "str_expiry (Some (e, b)) = e"
  by (simp_all add: str_bytes_def str_expiry_def)

lemma chunk_view_fresh:
  assumes "0 < ss_chunk S" "cm_version c \<le> l" "unat (cm_bytes c) \<le> str_limit S"
    and "from_flags (mh_flags (cm_header c)) = Some ChunkedString"
    and "chunks_fit S slot key m (cm_version c) (unat (cm_bytes c))"
  shows "target_wf S slot key m l (TChunked (chunk_view c d))"
    and "target_str S slot key m (TChunked (chunk_view c d)) = chunk_text S slot key m (cm_version c) (unat (cm_bytes c))"
proof -
  have at: "cv_at S slot key m (chunk_view c d) = row_byte S slot key m (cm_version c)"
    by (simp add: cv_at_def chunk_view_def fun_eq_iff)
  then show "target_str S slot key m (TChunked (chunk_view c d)) = chunk_text S slot key m (cm_version c) (unat (cm_bytes c))"
    by (simp add: target_str_def cv_str_def chunk_text_def chunk_view_def)
  have "row_byte S slot key m (cm_version c) i = 0" if i: "unat (cm_bytes c) \<le> i" "i div ss_chunk S < 2 ^ 32" for i
  proof -
    let ?row = "chunk_row S slot key m (cm_version c) (i div ss_chunk S)"
    have "?row = [] \<or> i div ss_chunk S * ss_chunk S + length ?row \<le> unat (cm_bytes c)"
      using assms(5) i(2) by (auto simp: chunks_fit_def)
    then have "length ?row \<le> i mod ss_chunk S"
    proof
      assume "i div ss_chunk S * ss_chunk S + length ?row \<le> unat (cm_bytes c)"
      moreover have "i div ss_chunk S * ss_chunk S + i mod ss_chunk S = i" by simp
      ultimately show ?thesis using i(1) by linarith
    qed simp
    then show ?thesis by (simp add: row_byte_def byte_or_zero_def elem_get_def)
  qed
  then show "target_wf S slot key m l (TChunked (chunk_view c d))"
    unfolding target_wf_def using assms(2-5) at by (simp add: cv_wf_def cv_zero_def chunk_view_def)
qed

context kv_store
begin

lemma target_error:
  assumes "ok (w_kv w)" "str_view S slot key (rows w) (st_clock (ss_store S) (w_ticks w)) = Inl e"
  obtains w1 where "target K S slot key need w = (Inl WrongType, w1)" "ok (w_kv w1)" "rows w1 = rows w" "w_last w1 = w_last w" "e = WrongType"
  by (rule str_read_error[OF assms]) (use that in \<open>auto simp: target_def\<close>)

lemma target_opens:
  assumes "ok (w_kv w)" "str_ready S slot key (rows w) (w_last w)" "clock_sane (ss_store S) (w_last w)"
    and view: "str_view S slot key (rows w) (st_clock (ss_store S) (w_ticks w)) = Inr x"
  obtains t w1 where "target K S slot key need w = (Inr t, w1)" "ok (w_kv w1)" "versions_below (rows w1) (w_last w1)"
    "only_rows (own_rows (st_ns (ss_store S)) slot key) (rows w) (rows w1)" "w_last w \<le> w_last w1"
    "target_str S slot key (rows w1) t = str_bytes x"
    "target_good S slot key (rows w1) (w_last w1)
       (str_post S slot key (rows w) (w_last w) (rows w1) (w_last w1) (Some (str_expiry x, str_bytes x)))
       (str_expiry x) (str_bytes x) t"
proof -
  let ?T = "ss_store S"
  let ?chunk_now = "ss_chunked_writes S \<and> unat need > ss_inline_max S"
  have R: "str_store_ok S" "key_framed key" "versions_below (rows w) (w_last w)" "ns_ok (st_ns ?T)" "0 < ss_chunk S"
    using assms(2) by (auto simp: str_ready_def str_store_ok_def)
  from assms(1,2) view show ?thesis
  proof (cases rule: str_read_cases)
    case (absent w1)
    have vb: "versions_below (rows w1) (w_last w1)" "only_rows (own_rows (st_ns ?T) slot key) (rows w) (rows w1)"
      using absent(5) by (auto simp: str_post_def str_ready_def)
    show ?thesis
    proof (cases ?chunk_now)
      case False
      then show ?thesis
        using that[of "TInline (inline_view [] 0 True)" w1] absent vb
        by (auto simp: target_def target_str_def inline_view_def target_good_def target_wf_def target_expire_def target_dirty_def)
    next
      case True
      let ?p = "next_version (st_clock ?T (w_ticks w1)) (snd (read_clock ?T w1))"
      have "clock_sane ?T (w_last w1)" using assms(3) absent(3) by simp
      note new = new_version[OF vb(1) this R(4,2)]
      let ?c = "cm_new ChunkedString (fst ?p)" and ?w2 = "snd ?p"
      have "chunk_row S slot key (rows ?w2) (fst ?p) j = []" for j
        using fun_cong[OF new(6)] new(1) by (simp add: chunk_row_def chunk_key_def coll_def)
      then have fit: "chunks_fit S slot key (rows ?w2) (cm_version ?c) (unat (cm_bytes ?c))"
        by (simp add: chunks_fit_def cm_new_def)
      have "cm_version ?c \<le> w_last ?w2" "unat (cm_bytes ?c) \<le> str_limit S"
        "from_flags (mh_flags (cm_header ?c)) = Some ChunkedString"
        using new(4) by (simp_all add: cm_new_def)
      note fresh = chunk_view_fresh[OF R(5) this fit, of True]
      have "target K S slot key need w = (Inr (TChunked (chunk_view ?c True)), ?w2)"
        using absent(1) True by (simp add: target_def Let_def case_prod_beta read_clock_def)
      moreover have "target_str S slot key (rows ?w2) (TChunked (chunk_view ?c True)) = str_bytes x"
        using fresh(2) absent(4) by (simp add: cm_new_def chunk_text_def)
      moreover have "target_expire (TChunked (chunk_view ?c True)) = str_expiry x" "target_dirty (TChunked (chunk_view ?c True))"
        using absent(4) by (simp_all add: target_expire_def target_dirty_def chunk_view_def cm_new_def)
      ultimately show ?thesis
        using that[of "TChunked (chunk_view ?c True)" ?w2] fresh(1) new absent(2,3) vb by (simp add: target_good_def)
    qed
  next
    case (present s w1)
    have post: "str_post S slot key (rows w) (w_last w) (rows w1) (w_last w1) x" by (rule present(8))
    have flags: "case s of Inline m \<Rightarrow> from_flags (sm_flags m) = Some StringT
      | Chunked c \<Rightarrow> from_flags (mh_flags (cm_header c)) = Some ChunkedString" using classify_flags[OF present(7)] .
    show ?thesis
    proof (cases s)
      case (Chunked c)
      have "cm_version c \<le> w_last w1" "unat (cm_bytes c) \<le> str_limit S" "from_flags (mh_flags (cm_header c)) = Some ChunkedString"
        "chunks_fit S slot key (rows w1) (cm_version c) (unat (cm_bytes c))"
        using present flags Chunked by (simp_all add: stored_good_def)
      note fresh = chunk_view_fresh[OF R(5) this, of False]
      have str: "target_str S slot key (rows w1) (TChunked (chunk_view c False)) = str_bytes x"
        using fresh(2) present(4,5) Chunked by (simp add: stored_text_def)
      have "target_good S slot key (rows w1) (w_last w1) (str_post S slot key (rows w) (w_last w) (rows w1) (w_last w1) (Some (str_expiry x, str_bytes x)))
          (str_expiry x) (str_bytes x) (TChunked (chunk_view c False))"
        using fresh(1) str post present(5) Chunked
        by (simp add: target_good_def target_expire_def chunk_view_def stored_expire_def)
      then show ?thesis
        using that[of "TChunked (chunk_view c False)" w1] str present Chunked R(3) by (simp add: target_def)
    next
      case (Inline m)
      have len: "length (sm_payload m) \<le> str_limit S" using present(6) Inline by (simp add: stored_good_def)
      have x: "x = Some (sm_expire_ms m, sm_payload m)" using present(5) Inline by (simp add: stored_expire_def stored_text_def)
      show ?thesis
      proof (cases ?chunk_now)
        case False
        then show ?thesis
          using that[of "TInline (inline_view (sm_payload m) (sm_expire_ms m) False)" w1] present Inline R(3) len x post
          by (auto simp: target_def target_str_def inline_view_def target_good_def target_wf_def target_expire_def target_dirty_def)
      next
        case True
        let ?p = "next_version (st_clock ?T (w_ticks w1)) (snd (read_clock ?T w1))"
        have vb: "versions_below (rows w1) (w_last w1)" "clock_sane ?T (w_last w1)" using assms(3) present(3,4) R(3) by simp_all
        note new = new_version[OF vb R(4,2)]
        define w2 where "w2 = snd ?p"
        define ver where "ver = fst ?p"
        have w2: "ok (w_kv w2)" "versions_below (rows w2) (w_last w2)" "ver \<le> w_last w2" "coll (rows w2) (st_ns ?T) slot key ver = Map.empty"
          "rows w2 = rows w" "w_last w \<le> w_last w2"
          using new present(2-4) by (simp_all add: w2_def ver_def)
        define w3 where "w3 = put_chunks K S slot key ver 0 (chunks_of (ss_chunk S) (sm_payload m)) w2"
        note put = put_payload[OF w2(1) R(1,2) len w2(2-4), folded w3_def]
        define c where "c = cm_new ChunkedString ver\<lparr>cm_header := (cm_header (cm_new ChunkedString ver))\<lparr>mh_expire_ms := sm_expire_ms m\<rparr>,
          cm_bytes := word_of_nat (length (sm_payload m))\<rparr>"
        have c: "cm_version c = ver" "unat (cm_bytes c) = length (sm_payload m)" "mh_expire_ms (cm_header c) = sm_expire_ms m"
          "from_flags (mh_flags (cm_header c)) = Some ChunkedString"
          using unat_length[OF len] by (simp_all add: c_def cm_new_def)
        have "cm_version c \<le> w_last w3" "unat (cm_bytes c) \<le> str_limit S" using c put(2) w2(3) len by simp_all
        note fresh = chunk_view_fresh[OF R(5) this c(4), of slot key "rows w3" True, unfolded c(1,2), OF put(7)]
        have tgt: "target K S slot key need w = (Inr (TChunked (chunk_view c True)), w3)"
          using present(1) Inline True
          by (simp add: target_def Let_def case_prod_beta read_clock_def w3_def w2_def ver_def c_def)
        have str: "target_str S slot key (rows w3) (TChunked (chunk_view c True)) = str_bytes x" using fresh(2) put(6) x by simp
        have "target_expire (TChunked (chunk_view c True)) = str_expiry x" "target_dirty (TChunked (chunk_view c True))"
          using c(3) x by (simp_all add: target_expire_def target_dirty_def chunk_view_def)
        then show ?thesis
          using that[of "TChunked (chunk_view c True)" w3] tgt str fresh(1) put w2 by (simp add: target_good_def)
      qed
    qed
  qed
qed

end

section \<open>Lemmas: commands that read\<close>

lemma read_live_ticks [simp]: "w_ticks (snd (read_live K S slot key w)) = w_ticks w + 1"
  by (simp add: read_live_def read_clock_def Let_def w_delete_def case_prod_beta split: str_row.split)

lemma slice_byte: "byte_or_zero 0 (take (i + 1 - i) (drop i xs)) = byte_or_zero i xs"
  by (simp add: byte_or_zero_def elem_get_def)

lemma and_bit: "and (b :: u8) (push_bit n 1) \<noteq> 0 \<longleftrightarrow> bit b n"
  by (simp add: push_bit_of_1 and_mask_bit)

lemma unat_and_7: "unat (and (i :: u64) 7) = unat i mod 8"
proof -
  have "and i 7 = take_bit 3 i" by (simp add: take_bit_eq_mask mask_eq_exp_minus_1)
  then show ?thesis by (simp add: take_bit_eq_mod unat_mod_distrib)
qed

lemma unat_shift_3: "unat (drop_bit 3 (i :: u64)) = unat i div 8"
  by (simp add: drop_bit_eq_div unat_div_distrib)

context kv_store
begin

text \<open>Every read answers from the bytes, and leaves the key as it was.\<close>

lemma str_reads:
  assumes "ok (w_kv w)" "str_ready S slot key (rows w) (w_last w)"
    and view: "str_view S slot key (rows w) (st_clock (ss_store S) (w_ticks w)) = Inr x"
  obtains w1 where "ok (w_kv w1)" "str_post S slot key (rows w) (w_last w) (rows w1) (w_last w1) x" "w_ticks w1 = w_ticks w + 1"
    and "str_get K S slot key w = (Inr (map_option snd x), w1)"
    and "value_and_expiry K S slot key w = (Inr (map_option (\<lambda>(e, b). (b, e)) x), w1)"
    and "strlen K S slot key w = (Inr (word_of_nat (length (str_bytes x))), w1)"
    and "length (str_bytes x) \<le> str_limit S"
    and "\<And>i j. getrange K S slot key i j w =
      (Inr (case getrange_window (int (length (str_bytes x))) (sint i) (sint j) of
              None \<Rightarrow> [] | Some (lo, hi) \<Rightarrow> take (hi - lo) (drop lo (str_bytes x))), w1)"
    and "\<And>i. getbit K S slot key i w = (Inr (bit_at (str_bytes x) (unat i)), w1)"
    and "\<And>rng. bitcount K S slot key rng w = (Inr (bitcount_of (str_bytes x) rng), w1)"
    and "\<And>b rng. bitpos K S slot key b rng w =
      (Inr (case x of None \<Rightarrow> if b then - 1 else 0 | Some (e, bs) \<Rightarrow> bitpos_of bs b rng), w1)"
proof -
  have R: "str_store_ok S" "key_framed key" using assms(2) by (simp_all add: str_ready_def)
  from assms(1,2) view show thesis
  proof (cases rule: str_read_cases)
    case (absent w1)
    have ticks: "w_ticks w1 = w_ticks w + 1" using read_live_ticks[of K S slot key w] absent(1) by simp
    have win: "getrange_window 0 i j = None" for i j by (simp add: getrange_window_def Let_def)
    have cnt: "bitcount_of [] rng = 0" for rng
      by (auto simp: bitcount_of_def bitcount_in_def slice_source_def bit_window_def popcount_def Let_def split: option.split prod.split)
    show thesis
      using absent ticks
      by (intro that[of w1]) (simp_all add: str_get_def value_and_expiry_def strlen_def getrange_def getbit_def bitcount_def bitpos_def win cnt bit_at_def elem_get_def)
  next
    case (present s w1)
    have ticks: "w_ticks w1 = w_ticks w + 1" using read_live_ticks[of K S slot key w] present(1) by simp
    have good: "stored_good S slot key (rows w1) (w_last w) s" using present(4,6) by simp
    have b: "str_bytes x = stored_text S slot key (rows w1) s" using present(4,5) by simp
    have len: "length (str_bytes x) = unat (stored_len s)" "unat (stored_len s) \<le> str_limit S"
      using length_stored_text[OF good] good unfolding b
      by (auto simp: stored_good_def stored_len_def unat_length split: Stored.splits)
    then have sl: "stored_len s = word_of_nat (length (str_bytes x))" "sint (stored_len s) = int (length (str_bytes x))"
      by (simp_all add: sint_small str_limit_def)
    have win: "(case s of Inline m \<Rightarrow> take n (drop lo (sm_payload m)) | Chunked c \<Rightarrow> read_chunked K S slot key c lo (lo + n) w1) =
        take n (drop lo (str_bytes x))" for lo n
      using read_chunked[OF present(2) R, of _ slot lo "lo + n"] good unfolding b
      by (auto simp: stored_good_def stored_text_def split: Stored.splits)
    have val: "value_of K S slot key s w1 = str_bytes x" using value_of[OF present(2) R good] b by simp
    have rng: "getrange K S slot key i j w = (Inr (case getrange_window (int (length (str_bytes x))) (sint i) (sint j) of
              None \<Rightarrow> [] | Some (lo, hi) \<Rightarrow> take (hi - lo) (drop lo (str_bytes x))), w1)" for i j
    proof (cases "getrange_window (int (length (str_bytes x))) (sint i) (sint j)")
      case None
      then show ?thesis using present(1) sl(2) by (simp add: getrange_def)
    next
      case (Some p)
      then obtain lo hi where p: "p = (lo, hi)" and le: "lo + (hi - lo) = hi"
        by (cases p) (auto simp: getrange_window_def Let_def split: if_splits)
      show ?thesis using present(1) sl(2) win[of "hi - lo" lo, unfolded le] Some p by (simp add: getrange_def)
    qed
    have byte: "(case s of Inline m \<Rightarrow> byte_or_zero i (sm_payload m) | Chunked c \<Rightarrow> byte_or_zero 0 (read_chunked K S slot key c i (i + 1) w1)) =
        byte_or_zero i (str_bytes x)" for i
      using win[of 1 i] slice_byte[of i "str_bytes x"] b by (cases s) (simp_all add: stored_text_def)
    have bits: "getbit K S slot key i w = (Inr (bit_at (str_bytes x) (unat i)), w1)" for i
      using present(1) byte[of "unat (drop_bit 3 i)"]
      by (cases s) (simp_all add: getbit_def and_mask_bit unat_and_7 unat_shift_3 bit_at_byte)
    have cnt: "bitcount K S slot key rng w = (Inr (bitcount_of (str_bytes x) rng), w1)" for rng
      using present(1) chunk_source[OF present(2) R, of slot "w_last w"] good unfolding b
      by (cases s) (simp_all add: bitcount_def bitcount_of_def stored_text_def)
    have pos: "bitpos K S slot key bt rng w = (Inr (bitpos_of (str_bytes x) bt rng), w1)" for bt rng
      using present(1) chunk_source[OF present(2) R, of slot "w_last w"] good unfolding b
      by (cases s) (simp_all add: bitpos_def bitpos_of_def stored_text_def)
    have x: "x = Some (str_expiry x, str_bytes x)" "str_expiry x = stored_expire s" using present(5) by simp_all
    show thesis
    proof (rule that[OF present(2,8) ticks])
      show "str_get K S slot key w = (Inr (map_option snd x), w1)"
        using present(1) val by (subst x(1)) (simp add: str_get_def)
      show "value_and_expiry K S slot key w = (Inr (map_option (\<lambda>(e, b). (b, e)) x), w1)"
        using present(1) val x(2) by (subst x(1)) (simp add: value_and_expiry_def stored_expire_def)
      show "strlen K S slot key w = (Inr (word_of_nat (length (str_bytes x))), w1)" using present(1) sl(1) by (simp add: strlen_def)
      show "length (str_bytes x) \<le> str_limit S" using len by simp
      show "bitpos K S slot key bt rng w = (Inr (case x of None \<Rightarrow> if bt then - 1 else 0 | Some (e, bs) \<Rightarrow> bitpos_of bs bt rng), w1)" for bt rng
        using pos by (subst x(1)) simp
    qed (use rng bits cnt in simp_all)
  qed
qed

end

section \<open>Lemmas: commands that write\<close>

lemma unat_le_limit: "str_store_ok S \<Longrightarrow> n \<le> st_max_value_bytes (ss_store S) \<Longrightarrow> unat n \<le> str_limit S"
  by (auto simp: str_store_ok_def word_le_nat_alt)

lemma unat_u64: "n < 2 ^ 64 \<Longrightarrow> unat (word_of_nat n :: u64) = n"
  by (simp add: unsigned_of_nat take_bit_nat_eq_self)

lemma len_less: "length xs < 2 ^ 64 \<Longrightarrow> n < word_of_nat (length xs) \<longleftrightarrow> unat (n :: u64) < length xs"
  by (simp add: word_less_nat_alt unsigned_of_nat take_bit_nat_eq_self)

context kv_store
begin

lemma read_live_header:
  assumes "ok (w_kv w)"
  obtains w1 where "read_live_header K S slot key w =
      (live_header (rows w) (st_clock (ss_store S) (w_ticks w)) (str_meta_key S slot key), w1)"
    "ok (w_kv w1)" "w_last w1 = w_last w"
    "rows w1 = reaped (rows w) (st_clock (ss_store S) (w_ticks w)) (str_meta_key S slot key)"
proof -
  let ?mk = "str_meta_key S slot key" and ?now = "st_clock (ss_store S) (w_ticks w)"
  let ?w1 = "snd (read_live_header K S slot key w)"
  have "fst (read_live_header K S slot key w) = live_header (rows w) ?now ?mk \<and>
    ok (w_kv ?w1) \<and> w_last ?w1 = w_last w \<and> rows ?w1 = reaped (rows w) ?now ?mk"
    using assms
    by (auto simp: read_live_header_def live_header_def reaped_def read_clock_def world Let_def split: option.splits)
  then show ?thesis using that[of ?w1] by (simp add: prod_eq_iff)
qed

lemma str_set:
  fixes opts :: SetOptions
  assumes "ok (w_kv w)" "str_ready S slot key (rows w) (w_last w)" "clock_sane (ss_store S) (w_last w)" "length val < 2 ^ 64"
  defines "ex \<equiv> live_header (rows w) (st_clock (ss_store S) (w_ticks w)) (str_meta_key S slot key)"
  defines "blocked \<equiv> so_nx opts \<and> ex \<noteq> None \<or> so_xx opts \<and> ex = None"
  shows "unat (st_max_value_bytes (ss_store S)) < length val \<Longrightarrow> str_set K S slot key val opts w = (Inl ValueTooLarge, w)"
    and "length val \<le> unat (st_max_value_bytes (ss_store S)) \<Longrightarrow> blocked \<Longrightarrow>
      \<exists>w'. str_set K S slot key val opts w = (Inr Unchanged, w') \<and> ok (w_kv w') \<and>
        rows w' = reaped (rows w) (st_clock (ss_store S) (w_ticks w)) (str_meta_key S slot key)"
    and "length val \<le> unat (st_max_value_bytes (ss_store S)) \<Longrightarrow> \<not> blocked \<Longrightarrow>
      \<exists>w'. str_set K S slot key val opts w = (Inr Done, w') \<and> ok (w_kv w') \<and>
        str_post S slot key (rows w) (w_last w) (rows w') (w_last w')
          (Some (case so_expiry opts of Clear \<Rightarrow> 0 | Keep \<Rightarrow> (case ex of Some h \<Rightarrow> mh_expire_ms h | None \<Rightarrow> 0) | AtMs at \<Rightarrow> at, val))"
proof -
  let ?T = "ss_store S"
  let ?e = "case so_expiry opts of Clear \<Rightarrow> 0 | Keep \<Rightarrow> (case ex of Some h \<Rightarrow> mh_expire_ms h | None \<Rightarrow> 0) | AtMs at \<Rightarrow> at"
  let ?needs = "so_nx opts \<or> so_xx opts \<or> so_expiry opts = Keep"
  show "str_set K S slot key val opts w = (Inl ValueTooLarge, w)" if "unat (st_max_value_bytes ?T) < length val"
    using that len_less[OF assms(4)] by (simp add: str_set_def)
  have R: "str_store_ok S" "key_framed key" "versions_below (rows w) (w_last w)" using assms(2) by (simp_all add: str_ready_def)
  obtain w1 where h: "read_live_header K S slot key w = (ex, w1)" and w1: "ok (w_kv w1)" "w_last w1 = w_last w"
    "rows w1 = reaped (rows w) (st_clock ?T (w_ticks w)) (str_meta_key S slot key)"
    unfolding ex_def by (rule read_live_header[OF assms(1)])
  have vb: "versions_below (rows w1) (w_last w1)" "only_rows (own_rows (st_ns ?T) slot key) (rows w) (rows w1)"
    using R(3) w1 by (simp_all add: meta_key_def)
  assume len: "length val \<le> unat (st_max_value_bytes ?T)"
  then have fits: "\<not> st_max_value_bytes ?T < word_of_nat (length val)" using len_less[OF assms(4)] by simp
  have lim: "length val \<le> str_limit S" using len R(1) by (simp add: str_store_ok_def)
  show "\<exists>w'. str_set K S slot key val opts w = (Inr Unchanged, w') \<and> ok (w_kv w') \<and>
        rows w' = reaped (rows w) (st_clock ?T (w_ticks w)) (str_meta_key S slot key)" if "blocked"
    using that fits h w1 by (auto simp: str_set_def blocked_def Let_def)
  assume "\<not> blocked"
  then have run: "str_set K S slot key val opts w =
      (Inr Done, put_value K S slot key val ?e (if ?needs then w1 else w))"
    using fits h by (auto simp: str_set_def blocked_def Let_def split: SetExpiry.split)
  have "ok (w_kv (put_value K S slot key val ?e (if ?needs then w1 else w))) \<and>
    str_post S slot key (rows w) (w_last w) (rows (put_value K S slot key val ?e (if ?needs then w1 else w)))
      (w_last (put_value K S slot key val ?e (if ?needs then w1 else w))) (Some (?e, val))"
  proof (cases ?needs)
    case True
    then show ?thesis using put_value[OF w1(1) R(1,2) lim vb(1) _ vb(2), of "w_last w" ?e] assms(3) w1(2) by simp
  next
    case False
    then show ?thesis using put_value[OF assms(1) R(1,2) lim R(3) assms(3), of slot "rows w" "w_last w" ?e] by simp
  qed
  then show "\<exists>w'. str_set K S slot key val opts w = (Inr Done, w') \<and> ok (w_kv w') \<and>
        str_post S slot key (rows w) (w_last w) (rows w') (w_last w') (Some (?e, val))"
    using run by blast
qed

text \<open>A target opened, changed and closed.\<close>

lemma target_change:
  assumes "ok (w_kv w)" "str_ready S slot key (rows w) (w_last w)" "clock_sane (ss_store S) (w_last w)"
    and view: "str_view S slot key (rows w) (st_clock (ss_store S) (w_ticks w)) = Inr x"
  obtains t w1 clean where "target K S slot key need w = (Inr t, w1)" "ok (w_kv w1)" "target_str S slot key (rows w1) t = str_bytes x"
    and "target_good S slot key (rows w1) (w_last w1) clean (str_expiry x) (str_bytes x) t"
    and "\<forall>t'. target_good S slot key (rows w1) (w_last w1) clean (str_expiry x) (str_bytes x) t' \<longrightarrow>
      ok (w_kv (target_finish K S slot key t' w1)) \<and>
      str_post S slot key (rows w) (w_last w) (rows (target_finish K S slot key t' w1)) (w_last (target_finish K S slot key t' w1))
        (Some (str_expiry x, target_str S slot key (rows w1) t'))"
proof -
  have R: "str_store_ok S" "key_framed key" using assms(2) by (simp_all add: str_ready_def)
  obtain t w1 where o: "target K S slot key need w = (Inr t, w1)" "ok (w_kv w1)" "versions_below (rows w1) (w_last w1)"
    "only_rows (own_rows (st_ns (ss_store S)) slot key) (rows w) (rows w1)" "w_last w \<le> w_last w1"
    "target_str S slot key (rows w1) t = str_bytes x"
    and good: "target_good S slot key (rows w1) (w_last w1)
       (str_post S slot key (rows w) (w_last w) (rows w1) (w_last w1) (Some (str_expiry x, str_bytes x)))
       (str_expiry x) (str_bytes x) t"
    by (rule target_opens[OF assms])
  show ?thesis
    by (rule that[OF o(1,2,6) good]) (use target_finish[OF o(2) R o(3-5)] in blast)
qed

end

lemma str_write_end: "str_write (length b) tail b = b @ tail"
  by (simp add: str_write_def overlay_at_def grown_def)

context kv_store
begin

lemma str_append:
  assumes "ok (w_kv w)" "str_ready S slot key (rows w) (w_last w)" "clock_sane (ss_store S) (w_last w)"
    and view: "str_view S slot key (rows w) (st_clock (ss_store S) (w_ticks w)) = Inr x" and len: "length tail < 2 ^ 60"
  defines "y \<equiv> str_aged x (st_clock (ss_store S) (w_ticks w + 1))"
  shows "unat (st_max_value_bytes (ss_store S)) < length (str_bytes x) + length tail \<Longrightarrow>
      \<exists>w'. str_append K S slot key tail w = (Inl ValueTooLarge, w') \<and> ok (w_kv w') \<and>
        str_post S slot key (rows w) (w_last w) (rows w') (w_last w') x"
    and "length (str_bytes x) + length tail \<le> unat (st_max_value_bytes (ss_store S)) \<Longrightarrow>
      \<exists>w'. str_append K S slot key tail w = (Inr (word_of_nat (length (str_bytes x) + length tail)), w') \<and> ok (w_kv w') \<and>
        str_post S slot key (rows w) (w_last w) (rows w') (w_last w')
          (Some (str_expiry y, str_write (length (str_bytes x)) tail (str_bytes y)))"
proof -
  let ?T = "ss_store S" and ?n = "length (str_bytes x)"
  have R: "str_store_ok S" "0 < ss_chunk S" using assms(2) by (simp_all add: str_ready_def str_store_ok_def)
  obtain w1 where w1: "ok (w_kv w1)" "str_post S slot key (rows w) (w_last w) (rows w1) (w_last w1) x" "w_ticks w1 = w_ticks w + 1"
    and sl: "strlen K S slot key w = (Inr (word_of_nat ?n), w1)" and lim: "?n \<le> str_limit S"
    by (rule str_reads[OF assms(1,2) view])
  obtain found where rl: "read_live K S slot key w = (Inr found, w1)"
    and fl: "(case found of Some s \<Rightarrow> stored_len s | None \<Rightarrow> 0) = word_of_nat ?n"
    using sl by (auto simp: strlen_def split: prod.splits sum.splits)
  have sum: "word_of_nat ?n + word_of_nat (length tail) = (word_of_nat (?n + length tail) :: u64)" by simp
  have "?n + length tail < 2 ^ 64" using lim len by (simp add: str_limit_def)
  then have u: "unat (word_of_nat (?n + length tail) :: u64) = ?n + length tail" by (rule unat_u64)
  have un: "unat (word_of_nat ?n :: u64) = ?n" using unat_length[OF lim] .
  show "\<exists>w'. str_append K S slot key tail w = (Inl ValueTooLarge, w') \<and> ok (w_kv w') \<and>
        str_post S slot key (rows w) (w_last w) (rows w') (w_last w') x"
    if big: "unat (st_max_value_bytes ?T) < ?n + length tail"
  proof -
    have "word_of_nat ?n + word_of_nat (length tail) > st_max_value_bytes ?T"
      unfolding sum word_less_nat_alt u using big .
    then show ?thesis using rl fl w1 by (simp add: str_append_def Let_def)
  qed
  assume small: "?n + length tail \<le> unat (st_max_value_bytes ?T)"
  then have ns: "\<not> word_of_nat ?n + word_of_nat (length tail) > st_max_value_bytes ?T"
    unfolding sum word_less_nat_alt u by simp
  have fits: "?n + length tail \<le> str_limit S" using small R(1) by (simp add: str_store_ok_def)
  have view1: "str_view S slot key (rows w1) (st_clock ?T (w_ticks w1)) = Inr y"
    using str_post_next(2)[OF w1(2)] w1(3) by (simp add: y_def)
  have ready1: "str_ready S slot key (rows w1) (w_last w1)" using str_post_next(1)[OF w1(2)] .
  have last: "w_last w1 = w_last w" by (rule read_live[OF assms(1), of S slot key]) (use rl in simp)
  have sane: "clock_sane ?T (w_last w1)" using assms(3) last by simp
  obtain t w2 clean where t: "target K S slot key (word_of_nat ?n + word_of_nat (length tail)) w1 = (Inr t, w2)" "ok (w_kv w2)"
    "target_str S slot key (rows w2) t = str_bytes y"
    and good: "target_good S slot key (rows w2) (w_last w2) clean (str_expiry y) (str_bytes y) t"
    and fin: "\<forall>t'. target_good S slot key (rows w2) (w_last w2) clean (str_expiry y) (str_bytes y) t' \<longrightarrow>
      ok (w_kv (target_finish K S slot key t' w2)) \<and>
      str_post S slot key (rows w1) (w_last w1) (rows (target_finish K S slot key t' w2)) (w_last (target_finish K S slot key t' w2))
        (Some (str_expiry y, target_str S slot key (rows w2) t'))"
    by (rule target_change[OF w1(1) ready1 sane view1, where need = "word_of_nat ?n + word_of_nat (length tail)"])
  let ?t = "target_write K S slot key w2 ?n tail t"
  note wr = target_write[OF kv_reader_axioms t(2) R(2) good fits]
  have "str_append K S slot key tail w = (Inr (word_of_nat (?n + length tail)), target_finish K S slot key ?t w2)"
    using rl fl ns t(1) un by (simp add: str_append_def Let_def)
  then show "\<exists>w'. str_append K S slot key tail w = (Inr (word_of_nat (?n + length tail)), w') \<and> ok (w_kv w') \<and>
        str_post S slot key (rows w) (w_last w) (rows w') (w_last w') (Some (str_expiry y, str_write ?n tail (str_bytes y)))"
    using fin[rule_format, OF wr(1)] wr(3) t(3) str_post_trans[OF w1(2)] by auto
qed

lemma setrange:
  assumes "ok (w_kv w)" "str_ready S slot key (rows w) (w_last w)" "clock_sane (ss_store S) (w_last w)"
    and view: "str_view S slot key (rows w) (st_clock (ss_store S) (w_ticks w)) = Inr x"
    and "patch \<noteq> []" and len: "unat off + length patch < 2 ^ 64"
  shows "unat (st_max_value_bytes (ss_store S)) < unat off + length patch \<Longrightarrow>
      \<exists>w'. setrange K S slot key off patch w = (Inl ValueTooLarge, w') \<and> ok (w_kv w') \<and>
        str_post S slot key (rows w) (w_last w) (rows w') (w_last w') x"
    and "unat off + length patch \<le> unat (st_max_value_bytes (ss_store S)) \<Longrightarrow>
      \<exists>w'. setrange K S slot key off patch w = (Inr (word_of_nat (length (str_write (unat off) patch (str_bytes x)))), w') \<and>
        ok (w_kv w') \<and> str_post S slot key (rows w) (w_last w) (rows w') (w_last w')
          (Some (str_expiry x, str_write (unat off) patch (str_bytes x)))"
proof -
  let ?T = "ss_store S"
  have R: "str_store_ok S" "0 < ss_chunk S" using assms(2) by (simp_all add: str_ready_def str_store_ok_def)
  have u: "unat (off + word_of_nat (length patch)) = unat off + length patch"
    using len by (simp add: unat_word_ariths unsigned_of_nat take_bit_nat_eq_self)
  show "\<exists>w'. setrange K S slot key off patch w = (Inl ValueTooLarge, w') \<and> ok (w_kv w') \<and>
        str_post S slot key (rows w) (w_last w) (rows w') (w_last w') x"
    if "unat (st_max_value_bytes ?T) < unat off + length patch"
  proof -
    have big: "st_max_value_bytes ?T < off + word_of_nat (length patch)" unfolding word_less_nat_alt u using that .
    from assms(1,2) view show ?thesis
      by (cases rule: str_read_cases) (use assms(5) big in \<open>auto simp: setrange_def Let_def\<close>)
  qed
  assume small: "unat off + length patch \<le> unat (st_max_value_bytes ?T)"
  then have ns: "\<not> st_max_value_bytes ?T < off + word_of_nat (length patch)" unfolding word_less_nat_alt u by simp
  have fits: "unat off + length patch \<le> str_limit S" using small R(1) by (simp add: str_store_ok_def)
  obtain t w2 clean where t: "target K S slot key (off + word_of_nat (length patch)) w = (Inr t, w2)" "ok (w_kv w2)"
    "target_str S slot key (rows w2) t = str_bytes x"
    and good: "target_good S slot key (rows w2) (w_last w2) clean (str_expiry x) (str_bytes x) t"
    and fin: "\<forall>t'. target_good S slot key (rows w2) (w_last w2) clean (str_expiry x) (str_bytes x) t' \<longrightarrow>
      ok (w_kv (target_finish K S slot key t' w2)) \<and>
      str_post S slot key (rows w) (w_last w) (rows (target_finish K S slot key t' w2)) (w_last (target_finish K S slot key t' w2))
        (Some (str_expiry x, target_str S slot key (rows w2) t'))"
    by (rule target_change[OF assms(1-3) view, where need = "off + word_of_nat (length patch)"])
  let ?t = "target_write K S slot key w2 (unat off) patch t"
  note wr = target_write[OF kv_reader_axioms t(2) R(2) good fits]
  have "target_wf S slot key (rows w2) (w_last w2) ?t" using wr(1) by (simp add: target_good_def)
  then have "setrange K S slot key off patch w =
      (Inr (word_of_nat (length (str_write (unat off) patch (str_bytes x)))), target_finish K S slot key ?t w2)"
    using assms(5) ns t(1) target_len[of S slot key "rows w2" "w_last w2" ?t] wr(3) t(3) by (simp add: setrange_def Let_def)
  then show "\<exists>w'. setrange K S slot key off patch w = (Inr (word_of_nat (length (str_write (unat off) patch (str_bytes x)))), w') \<and>
        ok (w_kv w') \<and> str_post S slot key (rows w) (w_last w) (rows w') (w_last w')
          (Some (str_expiry x, str_write (unat off) patch (str_bytes x)))"
    using fin[rule_format, OF wr(1)] wr(3) t(3) by auto
qed

end

section \<open>Lemmas: bits in place\<close>

lemma byte_grown [simp]: "byte_or_zero i (grown n xs) = byte_or_zero i xs"
  by (auto simp: grown_def byte_or_zero_def elem_get_def nth_append)

lemma bit_at_grown [simp]: "bit_at (grown n xs) i = bit_at xs i"
  by (simp add: bit_at_byte)

text \<open>One bit of a string long enough changed by flipping it.\<close>

lemma flip_bit:
  assumes "i div 8 < length xs"
  shows "bit_at (xs[i div 8 := xor (byte_or_zero (i div 8) xs) (push_bit (7 - i mod 8) 1)]) j = (bit_at xs j \<noteq> (j = i))"
proof (cases "j div 8 = i div 8")
  case True
  have "j = i \<longleftrightarrow> 7 - j mod 8 = 7 - i mod 8"
  proof
    assume "7 - j mod 8 = 7 - i mod 8"
    moreover have "j mod 8 < 8" "i mod 8 < 8" by simp_all
    ultimately have "j mod 8 = i mod 8" by linarith
    then show "j = i" using True by (metis div_mult_mod_eq)
  qed simp
  then show ?thesis
    using True assms
    by (auto simp: bit_at_iff byte_or_zero_def elem_get_def bit_xor_iff bit_push_bit_iff bit_exp_iff)
next
  case False
  then show ?thesis by (auto simp: bit_at_iff)
qed

context bit_buf
begin

lemma bitfield_step_ref:
  assumes "good buf" "writes op \<Longrightarrow> bo_offset op + bo_bits op \<le> 8 * lim" "bitfield_step B op buf = (r, buf')"
  shows "bitfield_step list_buf op (str buf) = (r, str buf') \<and> good buf'"
proof -
  obtain v buf1 where rd: "op_read B op buf = (v, buf1)" by fastforce
  note ref = op_read_ref[OF assms(1) rd]
  note wr = write_bits_ref[OF ref(2), of "bo_offset op" "bo_bits op"]
  show ?thesis
    using assms(2,3) rd ref wr
    by (cases "bo_kind op") (auto simp: bitfield_step_def writes_def Let_def split: prod.splits if_splits)
qed

lemma bitfield_loop_ref:
  assumes "good buf" "\<forall>op \<in> set ops. writes op \<longrightarrow> bo_offset op + bo_bits op \<le> 8 * lim"
    and "bitfield_loop B ops buf = (rs, buf')"
  shows "bitfield_loop list_buf ops (str buf) = (rs, str buf') \<and> good buf'"
  using assms
proof (induction ops arbitrary: buf rs)
  case (Cons op ops)
  obtain r buf1 where s: "bitfield_step B op buf = (r, buf1)" by fastforce
  obtain rs1 buf2 where l: "bitfield_loop B ops buf1 = (rs1, buf2)" by fastforce
  have ref: "bitfield_step list_buf op (str buf) = (r, str buf1) \<and> good buf1"
    using bitfield_step_ref[OF Cons.prems(1) _ s] Cons.prems(2) by simp
  then show ?case using Cons.IH[of buf1 rs1] Cons.prems(2,3) s l by simp
qed simp

lemma read_fields_ref: "good buf \<Longrightarrow> read_fields B ops buf = read_fields list_buf ops (str buf)"
proof (induction ops arbitrary: buf)
  case (Cons op ops)
  obtain v buf1 where rd: "op_read B op buf = (v, buf1)" by fastforce
  note ref = op_read_ref[OF Cons.prems rd]
  show ?case using Cons.IH[OF ref(2)] rd ref by simp
qed simp

end

lemma read_fields_empty: "read_fields list_buf ops [] = map (\<lambda>_. Some 0) ops"
proof -
  have "read_bits list_buf off is 0 [] = (0, [])" for off "is"
    by (induction "is") (simp_all add: list_buf_def Let_def byte_or_zero_def elem_get_def)
  then have "op_read list_buf op [] = (0, [])" for op by (simp add: op_read_def)
  then show ?thesis by (induction ops) simp_all
qed

lemma highest_written:
  assumes "highest_written ops = Some h" "op \<in> set ops" "writes op"
  shows "bo_offset op + bo_bits op \<le> h + 1"
proof -
  have fold: "foldl (\<lambda>h op. max h (bo_offset op + bo_bits op - 1)) a xs \<ge> a \<and>
      (\<forall>op \<in> set xs. bo_offset op + bo_bits op - 1 \<le> foldl (\<lambda>h op. max h (bo_offset op + bo_bits op - 1)) a xs)" for a xs
  proof (induction xs arbitrary: a)
    case (Cons y ys)
    show ?case using Cons.IH[of "max a (bo_offset y + bo_bits y - 1)"] by simp
  qed simp
  have op: "op \<in> set (filter writes ops)" using assms(2,3) by simp
  then obtain y ys where f: "filter writes ops = y # ys" by (cases "filter writes ops") auto
  then have "h = foldl (\<lambda>h op. max h (bo_offset op + bo_bits op - 1)) (bo_offset y + bo_bits y - 1) ys"
    using assms(1) by (simp add: highest_written_def)
  then have "bo_offset op + bo_bits op - 1 \<le> h" using op fold[of "bo_offset y + bo_bits y - 1" ys] unfolding f by auto
  then show ?thesis by simp
qed

context kv_store
begin

lemma setbit:
  assumes "ok (w_kv w)" "str_ready S slot key (rows w) (w_last w)" "clock_sane (ss_store S) (w_last w)"
    and view: "str_view S slot key (rows w) (st_clock (ss_store S) (w_ticks w)) = Inr x"
  shows "unat (st_max_value_bytes (ss_store S)) < unat off div 8 + 1 \<Longrightarrow>
      \<exists>w'. setbit K S slot key off on w = (Inl ValueTooLarge, w') \<and> ok (w_kv w') \<and>
        str_post S slot key (rows w) (w_last w) (rows w') (w_last w') x"
    and "unat off div 8 + 1 \<le> unat (st_max_value_bytes (ss_store S)) \<Longrightarrow>
      \<exists>w' b'. setbit K S slot key off on w = (Inr (bit_at (str_bytes x) (unat off)), w') \<and> ok (w_kv w') \<and>
        str_post S slot key (rows w) (w_last w) (rows w') (w_last w') (Some (str_expiry x, b')) \<and>
        length b' = max (unat off div 8 + 1) (length (str_bytes x)) \<and>
        (\<forall>i. bit_at b' i = (if i = unat off then on else bit_at (str_bytes x) i))"
proof -
  let ?T = "ss_store S" and ?i = "unat off div 8" and ?b = "str_bytes x"
  have R: "str_store_ok S" "0 < ss_chunk S" using assms(2) by (simp_all add: str_ready_def str_store_ok_def)
  have "unat off < 2 ^ 64" using unsigned_less[of off, where 'a = nat] by simp
  then have u: "unat (drop_bit 3 off + 1) = ?i + 1"
    by (simp add: unat_word_ariths(1) unat_shift_3)
  show "\<exists>w'. setbit K S slot key off on w = (Inl ValueTooLarge, w') \<and> ok (w_kv w') \<and>
        str_post S slot key (rows w) (w_last w) (rows w') (w_last w') x"
    if "unat (st_max_value_bytes ?T) < ?i + 1"
  proof -
    have big: "st_max_value_bytes ?T < drop_bit 3 off + 1" unfolding word_less_nat_alt u using that .
    from assms(1,2) view show ?thesis
      by (cases rule: str_read_cases) (use big in \<open>auto simp: setbit_def Let_def\<close>)
  qed
  assume small: "?i + 1 \<le> unat (st_max_value_bytes ?T)"
  then have ns: "\<not> st_max_value_bytes ?T < drop_bit 3 off + 1" unfolding word_less_nat_alt u by simp
  have fits: "?i + 1 \<le> str_limit S" using small R(1) by (simp add: str_store_ok_def)
  obtain t w2 clean where t: "target K S slot key (drop_bit 3 off + 1) w = (Inr t, w2)" "ok (w_kv w2)"
    "target_str S slot key (rows w2) t = ?b"
    and good: "target_good S slot key (rows w2) (w_last w2) clean (str_expiry x) ?b t"
    and fin: "\<forall>t'. target_good S slot key (rows w2) (w_last w2) clean (str_expiry x) ?b t' \<longrightarrow>
      ok (w_kv (target_finish K S slot key t' w2)) \<and>
      str_post S slot key (rows w) (w_last w) (rows (target_finish K S slot key t' w2)) (w_last (target_finish K S slot key t' w2))
        (Some (str_expiry x, target_str S slot key (rows w2) t'))"
    by (rule target_change[OF assms(1-3) view, where need = "drop_bit 3 off + 1"])
  let ?B = "target_buf K S slot key w2" and ?mask = "push_bit (7 - unat off mod 8) 1 :: u8"
  define t1 where "t1 = target_grow (?i + 1) t"
  note t1 = target_grow[OF good fits, folded t1_def, unfolded t(3)]
  obtain c t2 where c: "bb_byte ?B t1 ?i = (c, t2)" by fastforce
  note t2 = target_buf_byte[OF kv_reader_axioms t(2) R(2) t1(1) c, unfolded t1(2) byte_grown]
  have old: "and c ?mask \<noteq> 0 \<longleftrightarrow> bit_at ?b (unat off)" using t2(1) by (simp only: and_bit bit_at_byte)
  define t3 where "t3 = (if bit_at ?b (unat off) \<noteq> on then bb_set_byte ?B t2 ?i (xor c ?mask) else t2)"
  have "?i < str_limit S" using fits by simp
  note set = target_buf_set_byte[OF kv_reader_axioms t(2) R(2) t2(2) this, of "xor c ?mask"]
  have t3: "target_good S slot key (rows w2) (w_last w2) clean (str_expiry x) ?b t3" using set(1) t2(2) by (simp add: t3_def)
  have g: "grown (?i + 1) (grown (?i + 1) ?b) = grown (?i + 1) ?b" by simp
  have str: "target_str S slot key (rows w2) t3 =
      (if bit_at ?b (unat off) \<noteq> on then (grown (?i + 1) ?b)[?i := xor (byte_or_zero ?i ?b) ?mask] else grown (?i + 1) ?b)"
    using set(2) t2(1,3) g by (simp add: t3_def)
  have "?i < length (grown (?i + 1) ?b)" by (simp add: less_max_iff_disj)
  note flip = flip_bit[OF this]
  have bits: "bit_at (target_str S slot key (rows w2) t3) i = (if i = unat off then on else bit_at ?b i)" for i
    using flip[of i] unfolding str by auto
  have "setbit K S slot key off on w = (Inr (bit_at ?b (unat off)), target_finish K S slot key t3 w2)"
    unfolding setbit_def Let_def if_not_P[OF ns] t(1) u unat_shift_3 unat_and_7 prod.case sum.case
      t1_def[symmetric] c old t3_def by (rule refl)
  moreover have "length (target_str S slot key (rows w2) t3) = max (?i + 1) (length ?b)" unfolding str by simp
  ultimately show "\<exists>w' b'. setbit K S slot key off on w = (Inr (bit_at ?b (unat off)), w') \<and> ok (w_kv w') \<and>
        str_post S slot key (rows w) (w_last w) (rows w') (w_last w') (Some (str_expiry x, b')) \<and>
        length b' = max (?i + 1) (length ?b) \<and> (\<forall>i. bit_at b' i = (if i = unat off then on else bit_at ?b i))"
    using fin[rule_format, OF t3] bits by blast
qed

lemma bitfield:
  assumes "ok (w_kv w)" "str_ready S slot key (rows w) (w_last w)" "clock_sane (ss_store S) (w_last w)"
    and view: "str_view S slot key (rows w) (st_clock (ss_store S) (w_ticks w)) = Inr x"
  shows "highest_written ops = None \<Longrightarrow>
      \<exists>w'. bitfield K S slot key ops w = (Inr (read_fields list_buf ops (str_bytes x)), w') \<and> ok (w_kv w') \<and>
        str_post S slot key (rows w) (w_last w) (rows w') (w_last w') x"
    and "highest_written ops = Some h \<Longrightarrow> unat (st_max_value_bytes (ss_store S)) < h div 8 + 1 \<Longrightarrow>
      \<exists>w'. bitfield K S slot key ops w = (Inl ValueTooLarge, w') \<and> ok (w_kv w') \<and>
        str_post S slot key (rows w) (w_last w) (rows w') (w_last w') x"
    and "highest_written ops = Some h \<Longrightarrow> h div 8 + 1 \<le> unat (st_max_value_bytes (ss_store S)) \<Longrightarrow>
      \<exists>w'. bitfield K S slot key ops w = (Inr (fst (bitfield_loop list_buf ops (grown (h div 8 + 1) (str_bytes x)))), w') \<and>
        ok (w_kv w') \<and> str_post S slot key (rows w) (w_last w) (rows w') (w_last w')
          (Some (str_expiry x, snd (bitfield_loop list_buf ops (grown (h div 8 + 1) (str_bytes x)))))"
proof -
  let ?T = "ss_store S" and ?b = "str_bytes x" and ?n = "h div 8 + 1"
  have R: "str_store_ok S" "0 < ss_chunk S" using assms(2) by (simp_all add: str_ready_def str_store_ok_def)
  show "\<exists>w'. bitfield K S slot key ops w = (Inr (read_fields list_buf ops ?b), w') \<and> ok (w_kv w') \<and>
        str_post S slot key (rows w) (w_last w) (rows w') (w_last w') x" if none: "highest_written ops = None"
    using assms(1,2) view
  proof (cases rule: str_read_cases)
    case (absent w1)
    then show ?thesis using none by (simp add: bitfield_def read_fields_empty)
  next
    case (present s w1)
    define t where "t = (case s of Inline m \<Rightarrow> TInline (inline_view (sm_payload m) (sm_expire_ms m) False)
        | Chunked c \<Rightarrow> TChunked (chunk_view c False))"
    have "target_wf S slot key (rows w1) (w_last w1) t \<and> target_str S slot key (rows w1) t = ?b"
    proof (cases s)
      case (Inline m)
      then show ?thesis using present(5,6)
        by (simp add: t_def target_wf_def target_str_def inline_view_def stored_good_def stored_text_def)
    next
      case (Chunked c)
      have "cm_version c \<le> w_last w1" "unat (cm_bytes c) \<le> str_limit S" "from_flags (mh_flags (cm_header c)) = Some ChunkedString"
        "chunks_fit S slot key (rows w1) (cm_version c) (unat (cm_bytes c))"
        using present(3,4,6) classify_flags[OF present(7)] Chunked by (simp_all add: stored_good_def)
      note fresh = chunk_view_fresh[OF R(2) this, of False]
      then show ?thesis using Chunked present(4,5) by (simp add: t_def stored_text_def)
    qed
    then have good: "target_good S slot key (rows w1) (w_last w1) True (target_expire t) ?b t" and str: "target_str S slot key (rows w1) t = ?b"
      by (simp_all add: target_good_def)
    have "read_fields (target_buf K S slot key w1) ops t = read_fields list_buf ops ?b"
      using target_bits.read_fields_ref[of K abs ok w1 S slot key "w_last w1" True "target_expire t" ?b t ops]
        kv_reader_axioms present(2) R(2) good str by simp
    then show ?thesis using none present by (simp add: bitfield_def Let_def t_def)
  qed
  show "\<exists>w'. bitfield K S slot key ops w = (Inl ValueTooLarge, w') \<and> ok (w_kv w') \<and>
        str_post S slot key (rows w) (w_last w) (rows w') (w_last w') x"
    if "highest_written ops = Some h" "unat (st_max_value_bytes ?T) < ?n"
    using assms(1,2) view by (cases rule: str_read_cases) (use that in \<open>auto simp: bitfield_def Let_def\<close>)
  assume hi: "highest_written ops = Some h" and small: "?n \<le> unat (st_max_value_bytes ?T)"
  have fits: "?n \<le> str_limit S" using small R(1) by (simp add: str_store_ok_def)
  obtain t w2 clean where t: "target K S slot key (word_of_nat ?n) w = (Inr t, w2)" "ok (w_kv w2)"
    "target_str S slot key (rows w2) t = ?b"
    and good: "target_good S slot key (rows w2) (w_last w2) clean (str_expiry x) ?b t"
    and fin: "\<forall>t'. target_good S slot key (rows w2) (w_last w2) clean (str_expiry x) ?b t' \<longrightarrow>
      ok (w_kv (target_finish K S slot key t' w2)) \<and>
      str_post S slot key (rows w) (w_last w) (rows (target_finish K S slot key t' w2)) (w_last (target_finish K S slot key t' w2))
        (Some (str_expiry x, target_str S slot key (rows w2) t'))"
    by (rule target_change[OF assms(1-3) view, where need = "word_of_nat ?n"])
  define t1 where "t1 = target_grow ?n t"
  note t1 = target_grow[OF good fits, folded t1_def, unfolded t(3)]
  obtain rs t2 where l: "bitfield_loop (target_buf K S slot key w2) ops t1 = (rs, t2)" by fastforce
  have "bo_offset op + bo_bits op \<le> 8 * str_limit S" if "op \<in> set ops" "writes op" for op
  proof -
    have "h + 1 \<le> 8 * ?n" by simp
    then show ?thesis using highest_written[OF hi that] fits by linarith
  qed
  then have ref: "bitfield_loop list_buf ops (grown ?n ?b) = (rs, target_str S slot key (rows w2) t2) \<and>
      target_good S slot key (rows w2) (w_last w2) clean (str_expiry x) ?b t2"
    using target_bits.bitfield_loop_ref[of K abs ok w2 S slot key "w_last w2" clean "str_expiry x" ?b t1 ops rs t2]
      kv_reader_axioms t(2) R(2) t1 l by simp
  have "bitfield K S slot key ops w = (Inr rs, target_finish K S slot key t2 w2)"
    using hi small t(1) l by (simp add: bitfield_def Let_def t1_def)
  then show "\<exists>w'. bitfield K S slot key ops w = (Inr (fst (bitfield_loop list_buf ops (grown ?n ?b))), w') \<and>
        ok (w_kv w') \<and> str_post S slot key (rows w) (w_last w) (rows w') (w_last w')
          (Some (str_expiry x, snd (bitfield_loop list_buf ops (grown ?n ?b))))"
    using fin ref by auto
qed

end

section \<open>Lemmas: the other commands\<close>

lemma write_expire_sm: "write_expire (sm_encode m) e = sm_encode (m\<lparr>sm_expire_ms := e\<rparr>)"
  by (simp add: write_expire_def sm_encode_def)

lemma classify_sm:
  assumes "from_flags (sm_flags m) = Some StringT"
  obtains m' where "classify 0 (Some (sm_encode m)) = Live (Inline m')" "sm_payload m' = sm_payload m" "sm_expire_ms m' = sm_expire_ms m"
proof (cases "encoding_of (sm_flags m) = ENCODING_V2")
  case True
  then show ?thesis
    using that[of m] assms by (simp add: classify_def mh_decode_sm_encode mh_value_type_def sm_decode_encode_v2)
next
  case False
  then show ?thesis
    using that[of "m\<lparr>sm_written_ms := 0\<rparr>"] assms
    by (simp add: classify_def mh_decode_sm_encode mh_value_type_def sm_decode_encode_v1)
qed

context kv_store
begin

lemma get_del:
  assumes "ok (w_kv w)" "str_ready S slot key (rows w) (w_last w)"
    and view: "str_view S slot key (rows w) (st_clock (ss_store S) (w_ticks w)) = Inr x"
  shows "\<exists>w'. get_del K S slot key w = (Inr (map_option snd x), w') \<and> ok (w_kv w') \<and>
    str_post S slot key (rows w) (w_last w) (rows w') (w_last w') None"
proof -
  have R: "str_store_ok S" "key_framed key" "versions_below (rows w) (w_last w)" using assms(2) by (simp_all add: str_ready_def)
  from assms(1,2) view show ?thesis
  proof (cases rule: str_read_cases)
    case (absent w1)
    then show ?thesis by (simp add: get_del_def)
  next
    case (present s w1)
    have "stored_good S slot key (rows w1) (w_last w) s" using present(4,6) by simp
    note val = value_of[OF present(2) R(1,2) this]
    have vb: "versions_below (rows w1) (w_last w1)" "only_rows (own_rows (st_ns (ss_store S)) slot key) (rows w) (rows w1)" "w_last w \<le> w_last w1"
      using R(3) present(3,4) by simp_all
    note del = str_uncommit[OF present(2) R(1,2) vb]
    have "get_del K S slot key w = (Inr (map_option snd x), snd (w_delete K w1 (str_meta_key S slot key)))"
      using present(1,4,5) val by (simp add: get_del_def)
    then show ?thesis using del by blast
  qed
qed

lemma getex:
  assumes "ok (w_kv w)" "str_ready S slot key (rows w) (w_last w)"
    and view: "str_view S slot key (rows w) (st_clock (ss_store S) (w_ticks w)) = Inr x"
  shows "\<exists>w'. getex K S slot key expiry w = (Inr (map_option snd x), w') \<and> ok (w_kv w') \<and>
    str_post S slot key (rows w) (w_last w) (rows w') (w_last w')
      (case expiry of Keep \<Rightarrow> x | Clear \<Rightarrow> map_option (\<lambda>(e, b). (0, b)) x | AtMs at \<Rightarrow> map_option (\<lambda>(e, b). (at, b)) x)"
proof -
  have R: "str_store_ok S" "key_framed key" "versions_below (rows w) (w_last w)" using assms(2) by (simp_all add: str_ready_def)
  from assms(1,2) view show ?thesis
  proof (cases rule: str_read_cases)
    case (absent w1)
    then show ?thesis by (simp add: getex_def split: SetExpiry.split)
  next
    case (present s w1)
    let ?mk = "str_meta_key S slot key"
    have good: "stored_good S slot key (rows w1) (w_last w1) s" using present(3,4,6) by simp
    note val = value_of[OF present(2) R(1,2) good]
    have vb: "versions_below (rows w1) (w_last w1)" "only_rows (own_rows (st_ns (ss_store S)) slot key) (rows w) (rows w1)" "w_last w \<le> w_last w1"
      using R(3) present(3,4) by simp_all
    show ?thesis
    proof (cases "expiry = Keep")
      case True
      then show ?thesis using present val by (simp add: getex_def)
    next
      case False
      define e' where "e' = (case expiry of AtMs at \<Rightarrow> at | _ \<Rightarrow> 0)"
      have y: "(case expiry of Keep \<Rightarrow> x | Clear \<Rightarrow> map_option (\<lambda>(e, b). (0, b)) x | AtMs at \<Rightarrow> map_option (\<lambda>(e, b). (at, b)) x) =
          Some (e', stored_text S slot key (rows w1) s)"
        using False present(4,5) by (cases expiry) (simp_all add: e'_def)
      have xs: "map_option snd x = Some (stored_text S slot key (rows w1) s)" using present(4,5) by simp
      define w2 where "w2 = (case s of
          Inline m \<Rightarrow> if e' \<noteq> sm_expire_ms m then w_put K w1 ?mk (write_expire (sm_encode m) e') else w1
        | Chunked c \<Rightarrow> if e' \<noteq> mh_expire_ms (cm_header c)
            then w_put K w1 ?mk (cm_encode (c\<lparr>cm_header := (cm_header c)\<lparr>mh_expire_ms := e'\<rparr>\<rparr>)) else w1)"
      have ok2: "ok (w_kv w2)" using present(2) by (auto simp: w2_def world split: Stored.split)
      have run: "getex K S slot key expiry w = (Inr (Some (value_of K S slot key s w2)), w2)"
        using present(1) False by (cases s) (simp_all add: getex_def Let_def w2_def e'_def)
      have same: "stored_good S slot key (rows w2) (w_last w1) s" "stored_text S slot key (rows w2) s = stored_text S slot key (rows w1) s"
        using good present(2) by (auto simp: w2_def world meta_key_def split: Stored.split)
      have val2: "value_of K S slot key s w2 = stored_text S slot key (rows w1) s"
        using value_of[OF ok2 R(1,2) same(1)] same(2) by simp
      have "str_post S slot key (rows w) (w_last w) (rows w2) (w_last w2) (Some (e', stored_text S slot key (rows w1) s))"
      proof (cases "stored_expire s = e'")
        case True
        then have "w2 = w1" by (auto simp: w2_def stored_expire_def split: Stored.splits)
        then show ?thesis using present(4,5,8) True by simp
      next
        case change: False
        show ?thesis
        proof (cases s)
          case (Inline m)
          have "from_flags (sm_flags (m\<lparr>sm_expire_ms := e'\<rparr>)) = Some StringT" using classify_flags[OF present(7)] Inline by simp
          then obtain m' where m': "classify 0 (Some (sm_encode (m\<lparr>sm_expire_ms := e'\<rparr>))) = Live (Inline m')"
            "sm_payload m' = sm_payload m" "sm_expire_ms m' = e'" by (rule classify_sm) simp
          have "stored_good S slot key (rows w1) (w_last w1) (Inline m')" using good m'(2) Inline by (simp add: stored_good_def)
          note c = str_commit(2)[OF present(2) R(1,2) vb m'(1) this refl]
          show ?thesis using c change Inline m'(2,3) by (simp add: w2_def stored_expire_def stored_text_def write_expire_sm)
        next
          case (Chunked c)
          let ?c = "c\<lparr>cm_header := (cm_header c)\<lparr>mh_expire_ms := e'\<rparr>\<rparr>"
          have "from_flags (mh_flags (cm_header ?c)) = Some ChunkedString" using classify_flags[OF present(7)] Chunked by simp
          note cl = classify_chunked[OF this]
          have "stored_good S slot key (rows w1) (w_last w1) (Chunked (cm_v2 ?c))" using good Chunked by (simp add: stored_good_def)
          note cm = str_commit(2)[OF present(2) R(1,2) vb cl this refl]
          show ?thesis using cm change Chunked by (simp add: w2_def stored_expire_def stored_text_def)
        qed
      qed
      then show ?thesis unfolding run val2 y xs using ok2 by blast
    qed
  qed
qed

lemma incr_by:
  assumes "ok (w_kv w)" "str_ready S slot key (rows w) (w_last w)"
    and view: "str_view S slot key (rows w) (st_clock (ss_store S) (w_ticks w)) = Inr x"
  defines "n \<equiv> (if \<exists>c. classify (st_clock (ss_store S) (w_ticks w)) (rows w (str_meta_key S slot key)) = Live (Chunked c) then None
    else case x of None \<Rightarrow> Some 0 | Some (e, b) \<Rightarrow> parse_redis_i64 b)"
  shows "n = None \<Longrightarrow> \<exists>w'. incr_by K S slot key delta w = (Inl NotInteger, w') \<and> ok (w_kv w') \<and>
        str_post S slot key (rows w) (w_last w) (rows w') (w_last w') x"
    and "n = Some i \<Longrightarrow> checked_add_i64 i delta = None \<Longrightarrow>
      \<exists>w'. incr_by K S slot key delta w = (Inl Overflow, w') \<and> ok (w_kv w') \<and>
        str_post S slot key (rows w) (w_last w) (rows w') (w_last w') x"
    and "n = Some i \<Longrightarrow> checked_add_i64 i delta = Some j \<Longrightarrow>
      \<exists>w'. incr_by K S slot key delta w = (Inr j, w') \<and> ok (w_kv w') \<and>
        str_post S slot key (rows w) (w_last w) (rows w') (w_last w') (Some (str_expiry x, show_i64 j))"
proof -
  let ?T = "ss_store S"
  have R: "str_store_ok S" "key_framed key" "versions_below (rows w) (w_last w)" using assms(2) by (simp_all add: str_ready_def)
  have lim: "length (show_i64 j) \<le> str_limit S" for j
  proof -
    have "1 * 2 ^ 32 \<le> ss_chunk S * 2 ^ 32" using R(1) by (intro mult_le_mono1) (simp add: str_store_ok_def)
    then show ?thesis using length_show_i64[of j] by (simp add: str_limit_def)
  qed
  obtain found w1 where f: "read_live K S slot key w = (Inr found, w1)" "ok (w_kv w1)" "w_last w1 = w_last w"
      "str_post S slot key (rows w) (w_last w) (rows w1) (w_last w1) x"
    and n: "n = (case found of None \<Rightarrow> Some 0 | Some (Chunked c) \<Rightarrow> None | Some (Inline m) \<Rightarrow> parse_redis_i64 (sm_payload m))"
    and e: "(case found of Some (Inline m) \<Rightarrow> sm_expire_ms m = str_expiry x | Some _ \<Rightarrow> True | None \<Rightarrow> str_expiry x = 0)"
  proof (rule str_read_cases[OF assms(1,2) view])
    fix w1 assume a: "read_live K S slot key w = (Inr None, w1)" "ok (w_kv w1)" "w_last w1 = w_last w" "x = None"
      "str_post S slot key (rows w) (w_last w) (rows w1) (w_last w1) x"
    have "\<not> (\<exists>c. classify (st_clock ?T (w_ticks w)) (rows w (str_meta_key S slot key)) = Live (Chunked c))"
      using view a(4) by (auto simp: str_view_def)
    then show thesis using that[OF a(1-3,5)] a(4) by (simp add: n_def)
  next
    fix s w1 assume a: "read_live K S slot key w = (Inr (Some s), w1)" "ok (w_kv w1)" "w_last w1 = w_last w" "rows w1 = rows w"
      "x = Some (stored_expire s, stored_text S slot key (rows w) s)" "stored_good S slot key (rows w) (w_last w) s"
      "classify 0 (rows w (str_meta_key S slot key)) = Live s"
      "str_post S slot key (rows w) (w_last w) (rows w1) (w_last w1) x"
    have "classify (st_clock ?T (w_ticks w)) (rows w (str_meta_key S slot key)) = Live s"
      by (rule read_live[OF assms(1), of S slot key]) (use a(1) in \<open>auto split: str_row.splits\<close>)
    then show thesis using that[OF a(1-3,8)] a(5)
      by (cases s) (simp_all add: n_def stored_expire_def stored_text_def)
  qed
  show "\<exists>w'. incr_by K S slot key delta w = (Inl NotInteger, w') \<and> ok (w_kv w') \<and>
        str_post S slot key (rows w) (w_last w) (rows w') (w_last w') x" if "n = None"
    using that n f by (auto simp: incr_by_def split: option.splits Stored.splits)
  show "\<exists>w'. incr_by K S slot key delta w = (Inl Overflow, w') \<and> ok (w_kv w') \<and>
        str_post S slot key (rows w) (w_last w) (rows w') (w_last w') x" if "n = Some i" "checked_add_i64 i delta = None"
    using that n f by (auto simp: incr_by_def split: option.splits Stored.splits)
  assume i: "n = Some i" and j: "checked_add_i64 i delta = Some j"
  let ?wc = "snd (read_clock ?T w1)" and ?s = "sm_new (show_i64 j) (str_expiry x) (st_clock ?T (w_ticks w1))"
  have run: "incr_by K S slot key delta w = (Inr j, w_put K ?wc (str_meta_key S slot key) (sm_encode ?s))"
    using i j n e f(1) by (auto simp: incr_by_def read_clock_def split: option.splits Stored.splits)
  have vb: "versions_below (rows ?wc) (w_last ?wc)" "only_rows (own_rows (st_ns ?T) slot key) (rows w) (rows ?wc)" "w_last w \<le> w_last ?wc"
    using f(4) by (simp_all add: str_post_def str_ready_def)
  have good: "stored_good S slot key (rows ?wc) (w_last ?wc) (Inline ?s)" using lim by (simp add: stored_good_def sm_new_def)
  have x: "Some (str_expiry x, show_i64 j) = Some (stored_expire (Inline ?s), stored_text S slot key (rows ?wc) (Inline ?s))"
    by (simp add: stored_expire_def stored_text_def sm_new_def)
  have "ok (w_kv ?wc)" using f(2) by simp
  note c = str_commit[OF this R(1,2) vb classify_inline good x]
  show "\<exists>w'. incr_by K S slot key delta w = (Inr j, w') \<and> ok (w_kv w') \<and>
        str_post S slot key (rows w) (w_last w) (rows w') (w_last w') (Some (str_expiry x, show_i64 j))"
    using run c by blast
qed

text \<open>On a key of another type every command but SET answers an error, and changes nothing.\<close>

lemma str_wrong_type:
  assumes "ok (w_kv w)" "str_view S slot key (rows w) (st_clock (ss_store S) (w_ticks w)) = Inl e"
  obtains w1 where "ok (w_kv w1)" "rows w1 = rows w" "w_last w1 = w_last w"
    and "str_get K S slot key w = (Inl WrongType, w1)" "get_del K S slot key w = (Inl WrongType, w1)"
    and "strlen K S slot key w = (Inl WrongType, w1)"
    and "\<And>x. getex K S slot key x w = (Inl WrongType, w1)" "\<And>d. incr_by K S slot key d w = (Inl WrongType, w1)"
    and "\<And>t. str_append K S slot key t w = (Inl WrongType, w1)" "\<And>i j. getrange K S slot key i j w = (Inl WrongType, w1)"
    and "\<And>i p. setrange K S slot key i p w = (Inl WrongType, w1)" "\<And>i on. setbit K S slot key i on w = (Inl WrongType, w1)"
    and "\<And>i. getbit K S slot key i w = (Inl WrongType, w1)" "\<And>ops. bitfield K S slot key ops w = (Inl WrongType, w1)"
    and "\<And>r. bitcount K S slot key r w = (Inl WrongType, w1)" "\<And>b r. bitpos K S slot key b r w = (Inl WrongType, w1)"
  using assms
proof (rule str_read_error)
  fix w1 assume a: "read_live K S slot key w = (Inl WrongType, w1)" "ok (w_kv w1)" "rows w1 = rows w" "w_last w1 = w_last w" "e = WrongType"
  have t: "target K S slot key need w = (Inl WrongType, w1)" for need using a(1) by (simp add: target_def)
  show thesis
    by (rule that[OF a(2-4)])
      (simp_all add: a(1) t str_get_def get_del_def strlen_def getex_def incr_by_def str_append_def getrange_def setrange_def
        setbit_def getbit_def bitfield_def bitcount_def bitpos_def Let_def split: option.split)
qed

end

lemma str_post_then_get:
  assumes "kv_store K \<alpha> ok" "ok (w_kv w')" "str_post S slot key m l (\<alpha> (w_kv w')) (w_last w') x"
  shows "\<exists>w''. str_get K S slot key w' = (Inr (map_option snd (str_aged x (st_clock (ss_store S) (w_ticks w')))), w'')"
proof -
  have "str_ready S slot key (\<alpha> (w_kv w')) (w_last w')"
    "str_view S slot key (\<alpha> (w_kv w')) (st_clock (ss_store S) (w_ticks w')) = Inr (str_aged x (st_clock (ss_store S) (w_ticks w')))"
    using assms(3) by (simp_all add: str_post_def)
  then show ?thesis by (rule kv_store.str_reads[OF assms(1,2)]) blast
qed

lemma test_strings:
  "str_ready test_strings 0 [107] Map.empty l" "clock_sane (ss_store test_strings) (w_last empty_world)"
  "str_view test_strings 0 [107] Map.empty now = Inr None" "st_clock (ss_store test_strings) n = 1"
  "unat (st_max_value_bytes (ss_store test_strings)) = 536870912"
  by (simp_all add: test_strings_def with_chunks_def str_new_def str_with_max_def store_new_def with_max_value_bytes_def DEFAULT_MAX_VALUE_BYTES_def str_ready_def
      str_store_ok_def str_limit_def ns_ok_def key_framed_def versions_below_def classify_def str_view_def clock_sane_def
      can_advance_def empty_world_def)

section \<open>Properties\<close>

text \<open>
  C1. SET assigns. A value over the limit is refused and changes nothing; NX on a live key of any type
  and XX on a missing one change nothing but drop the row of an expired key; otherwise the key holds
  exactly the value, inline or cut in chunks, with the expiry the options name, whatever it held
  before, every other key is untouched, and a GET that follows answers the value unless it has expired.
\<close>

theorem set_then_get:
  assumes "kv_store K \<alpha> ok" "ok (w_kv w)"
    and "str_ready S slot key (\<alpha> (w_kv w)) (w_last w)" "clock_sane (ss_store S) (w_last w)" "length val < 2 ^ 64"
  shows "\<exists>r w'. str_set K S slot key val opts w = (r, w') \<and> ok (w_kv w') \<and>
    (let ex = live_header (\<alpha> (w_kv w)) (st_clock (ss_store S) (w_ticks w)) (str_meta_key S slot key);
         e = (case so_expiry opts of Clear \<Rightarrow> 0 | Keep \<Rightarrow> (case ex of Some h \<Rightarrow> mh_expire_ms h | None \<Rightarrow> 0) | AtMs at \<Rightarrow> at)
     in if unat (st_max_value_bytes (ss_store S)) < length val then r = Inl ValueTooLarge \<and> w' = w
        else if so_nx opts \<and> ex \<noteq> None \<or> so_xx opts \<and> ex = None
        then r = Inr Unchanged \<and>
          \<alpha> (w_kv w') = reaped (\<alpha> (w_kv w)) (st_clock (ss_store S) (w_ticks w)) (str_meta_key S slot key)
        else r = Inr Done \<and>
          str_post S slot key (\<alpha> (w_kv w)) (w_last w) (\<alpha> (w_kv w')) (w_last w') (Some (e, val)) \<and>
          (\<exists>w''. str_get K S slot key w' =
            (Inr (if e \<noteq> 0 \<and> e \<le> st_clock (ss_store S) (w_ticks w') then None else Some val), w'')))"
proof -
  note set = kv_store.str_set[OF assms(1-5), of opts]
  let ?ex = "live_header (\<alpha> (w_kv w)) (st_clock (ss_store S) (w_ticks w)) (str_meta_key S slot key)"
  consider "unat (st_max_value_bytes (ss_store S)) < length val"
    | "length val \<le> unat (st_max_value_bytes (ss_store S))" "so_nx opts \<and> ?ex \<noteq> None \<or> so_xx opts \<and> ?ex = None"
    | "length val \<le> unat (st_max_value_bytes (ss_store S))" "\<not> (so_nx opts \<and> ?ex \<noteq> None \<or> so_xx opts \<and> ?ex = None)"
    by linarith
  then show ?thesis
  proof cases
    case 1
    then show ?thesis using set(1) assms(2) by (simp add: Let_def)
  next
    case 2
    then show ?thesis using set(2) by (fastforce simp: Let_def)
  next
    case 3
    obtain w' where w': "str_set K S slot key val opts w = (Inr Done, w')" "ok (w_kv w')"
        "str_post S slot key (\<alpha> (w_kv w)) (w_last w) (\<alpha> (w_kv w')) (w_last w')
          (Some (case so_expiry opts of Clear \<Rightarrow> 0 | Keep \<Rightarrow> (case ?ex of Some h \<Rightarrow> mh_expire_ms h | None \<Rightarrow> 0) | AtMs at \<Rightarrow> at, val))"
      using set(3)[OF 3] by blast
    then show ?thesis using str_post_then_get[OF assms(1) w'(2,3)] 3 by (auto simp: Let_def str_aged_def)
  qed
qed

theorem set_then_get_witness:
  "\<exists>w' w''. str_set mem_kv test_strings 0 [107] [1, 2, 3, 4, 5] \<lparr>so_nx = True, so_xx = False, so_expiry = AtMs 9\<rparr> empty_world = (Inr Done, w') \<and>
     str_get mem_kv test_strings 0 [107] w' = (Inr (Some [1, 2, 3, 4, 5]), w'')"
  using set_then_get[OF mem.kv_store_axioms, of empty_world test_strings 0 "[107]" "[1, 2, 3, 4, 5]"
      "\<lparr>so_nx = True, so_xx = False, so_expiry = AtMs 9\<rparr>"]
  by (auto simp: test_strings live_header_def word_le_nat_alt)

text \<open>
  C10. The commands that read answer from the bytes of the string, however it is stored: GET the bytes,
  STRLEN their number, GETRANGE the window its bounds address, GETBIT one bit, BITCOUNT and BITPOS
  their count and position in the range, a missing key being empty; none changes the string.
\<close>

theorem string_reads_answer_bytes:
  assumes "kv_store K \<alpha> ok" "ok (w_kv w)" "str_ready S slot key (\<alpha> (w_kv w)) (w_last w)"
    and "str_view S slot key (\<alpha> (w_kv w)) (st_clock (ss_store S) (w_ticks w)) = Inr x"
  shows "\<exists>w1. str_post S slot key (\<alpha> (w_kv w)) (w_last w) (\<alpha> (w_kv w1)) (w_last w1) x \<and>
    str_get K S slot key w = (Inr (map_option snd x), w1) \<and>
    value_and_expiry K S slot key w = (Inr (map_option (\<lambda>(e, b). (b, e)) x), w1) \<and>
    strlen K S slot key w = (Inr (word_of_nat (length (str_bytes x))), w1) \<and> length (str_bytes x) \<le> 2 ^ 60 \<and>
    (\<forall>i j. getrange K S slot key i j w =
      (Inr (case getrange_window (int (length (str_bytes x))) (sint i) (sint j) of
              None \<Rightarrow> [] | Some (lo, hi) \<Rightarrow> take (hi - lo) (drop lo (str_bytes x))), w1)) \<and>
    (\<forall>i. getbit K S slot key i w = (Inr (bit_at (str_bytes x) (unat i)), w1)) \<and>
    (\<forall>rng. bitcount K S slot key rng w = (Inr (bitcount_of (str_bytes x) rng), w1)) \<and>
    (\<forall>b rng. bitpos K S slot key b rng w =
      (Inr (case x of None \<Rightarrow> if b then - 1 else 0 | Some (e, bs) \<Rightarrow> bitpos_of bs b rng), w1))"
  by (rule kv_store.str_reads[OF assms]) (intro exI conjI, auto simp: str_limit_def)

theorem string_reads_answer_bytes_witness:
  "\<exists>w w1. getrange mem_kv test_strings 0 [107] 1 (- 2) w = (Inr [98, 99], w1) \<and>
     strlen mem_kv test_strings 0 [107] w = (Inr 4, w1) \<and> getbit mem_kv test_strings 0 [107] 1 w = (Inr True, w1)"
proof -
  let ?w = "empty_world\<lparr>w_kv := [(str_meta_key test_strings 0 [107], sm_encode (sm_new [97, 98, 99, 100] 0 1))]\<rparr>"
  let ?s = "Inline (sm_new [97, 98, 99, 100] 0 1)"
  have c: "classify 0 (map_of (w_kv ?w) (str_meta_key test_strings 0 [107])) = Live ?s" by (simp add: classify_inline)
  have v: "str_view test_strings 0 [107] (map_of (w_kv ?w)) (st_clock (ss_store test_strings) (w_ticks ?w)) = Inr (Some (0, [97, 98, 99, 100]))"
    using str_view_row[where m = "map_of (w_kv ?w)", OF c] by (simp add: stored_expire_def stored_text_def sm_new_def str_aged_def)
  have "versions_below (Map.empty(str_meta_key test_strings 0 [107] := x)) l" for x l
    unfolding meta_key_def by (rule versions_below_meta) (simp add: versions_below_def)
  from this[of "Some (sm_encode (sm_new [97, 98, 99, 100] 0 1))" "w_last ?w"] have "str_ready test_strings 0 [107] (map_of (w_kv ?w)) (w_last ?w)"
    using c test_strings(1)[of "w_last ?w"] by (simp add: str_ready_def stored_good_def sm_new_def str_limit_def str_store_ok_def)
  then obtain w1 where r: "strlen mem_kv test_strings 0 [107] ?w = (Inr (word_of_nat (length (str_bytes (Some (0, [97, 98, 99, 100]))))), w1)"
      "\<forall>i j. getrange mem_kv test_strings 0 [107] i j ?w =
        (Inr (case getrange_window (int (length (str_bytes (Some (0, [97, 98, 99, 100]))))) (sint i) (sint j) of
              None \<Rightarrow> [] | Some (lo, hi) \<Rightarrow> take (hi - lo) (drop lo (str_bytes (Some (0, [97, 98, 99, 100]))))), w1)"
      "\<forall>i. getbit mem_kv test_strings 0 [107] i ?w = (Inr (bit_at (str_bytes (Some (0, [97, 98, 99, 100]))) (unat i)), w1)"
    using string_reads_answer_bytes[OF mem.kv_store_axioms, of ?w test_strings 0 "[107]" "Some (0, [97, 98, 99, 100])"] v
    by (auto simp: mem_ok_def)
  have win: "getrange_window 4 1 (- 2) = Some (1, 3)" and b: "bit_at [97, 98, 99, 100] 1" by code_simp+
  show ?thesis
    using r(1) r(2)[rule_format, of 1 "- 2"] r(3)[rule_format, of 1] win b
    by (intro exI[of _ ?w] exI[of _ w1]) simp
qed

text \<open>
  C5. APPEND and SETRANGE write in place. Both refuse a string over the limit and then leave it as it
  was. SETRANGE overwrites the string at the offset, growing it with zeros; APPEND writes at the end
  its first look saw, which is appending when the string does not expire before its second look. Both
  keep the expiry and every other key, and answer the new length.
\<close>

theorem append_setrange_in_place:
  assumes "kv_store K \<alpha> ok" "ok (w_kv w)"
    and "str_ready S slot key (\<alpha> (w_kv w)) (w_last w)" "clock_sane (ss_store S) (w_last w)"
    and "str_view S slot key (\<alpha> (w_kv w)) (st_clock (ss_store S) (w_ticks w)) = Inr x"
    and "length tail < 2 ^ 60" "patch \<noteq> []" "unat off + length patch < 2 ^ 64"
  shows "(\<exists>r w'. str_append K S slot key tail w = (r, w') \<and> ok (w_kv w') \<and>
      (if unat (st_max_value_bytes (ss_store S)) < length (str_bytes x) + length tail
       then r = Inl ValueTooLarge \<and> str_post S slot key (\<alpha> (w_kv w)) (w_last w) (\<alpha> (w_kv w')) (w_last w') x
       else r = Inr (word_of_nat (length (str_bytes x) + length tail)) \<and>
         (str_aged x (st_clock (ss_store S) (w_ticks w + 1)) = x \<longrightarrow>
            str_post S slot key (\<alpha> (w_kv w)) (w_last w) (\<alpha> (w_kv w')) (w_last w') (Some (str_expiry x, str_bytes x @ tail))))) \<and>
    (\<exists>r w'. setrange K S slot key off patch w = (r, w') \<and> ok (w_kv w') \<and>
      (if unat (st_max_value_bytes (ss_store S)) < unat off + length patch
       then r = Inl ValueTooLarge \<and> str_post S slot key (\<alpha> (w_kv w)) (w_last w) (\<alpha> (w_kv w')) (w_last w') x
       else r = Inr (word_of_nat (max (length (str_bytes x)) (unat off + length patch))) \<and>
         str_post S slot key (\<alpha> (w_kv w)) (w_last w) (\<alpha> (w_kv w')) (w_last w')
           (Some (str_expiry x, str_write (unat off) patch (str_bytes x)))))" (is "?append \<and> ?setrange")
proof -
  note ap = kv_store.str_append[OF assms(1-6)] and sr = kv_store.setrange[OF assms(1-5,7,8)]
  have 1: ?append
  proof (cases "unat (st_max_value_bytes (ss_store S)) < length (str_bytes x) + length tail")
    case True
    then show ?thesis using ap(1) by auto
  next
    case False
    then obtain w' where "str_append K S slot key tail w = (Inr (word_of_nat (length (str_bytes x) + length tail)), w')" "ok (w_kv w')"
      "str_aged x (st_clock (ss_store S) (w_ticks w + 1)) = x \<longrightarrow>
        str_post S slot key (\<alpha> (w_kv w)) (w_last w) (\<alpha> (w_kv w')) (w_last w') (Some (str_expiry x, str_bytes x @ tail))"
      using ap(2) str_write_end[of "str_bytes x" tail] by fastforce
    then show ?thesis using False by auto
  qed
  have len: "length (str_write (unat off) patch (str_bytes x)) = max (length (str_bytes x)) (unat off + length patch)"
    by (simp add: length_str_write)
  have 2: ?setrange
    using sr len by (cases "unat (st_max_value_bytes (ss_store S)) < unat off + length patch") auto
  from 1 2 show ?thesis ..
qed

theorem append_setrange_in_place_witness:
  "\<exists>w' w''. str_append mem_kv test_strings 0 [107] [1, 2, 3, 4, 5] empty_world = (Inr 5, w') \<and>
     str_view test_strings 0 [107] (map_of (w_kv w')) 7 = Inr (Some (0, [1, 2, 3, 4, 5])) \<and>
     setrange mem_kv test_strings 0 [107] 2 [9, 8] empty_world = (Inr 4, w'') \<and>
     str_view test_strings 0 [107] (map_of (w_kv w'')) 7 = Inr (Some (0, [0, 0, 9, 8]))"
proof -
  have s: "str_write 2 [9, 8] [] = [0, 0, 9, 8]" by code_simp
  show ?thesis
    using append_setrange_in_place[OF mem.kv_store_axioms, of empty_world test_strings 0 "[107]" None "[1, 2, 3, 4, 5]" "[9, 8]" 2]
    by (auto simp: test_strings s dest!: str_post_next(2)[where now = 7] simp: str_aged_def)
qed

text \<open>
  The two looks of APPEND: a string that expires between them comes back as zeros, as many as it had
  bytes, followed by the suffix, with no expiry.
\<close>

lemma append_expired_between:
  assumes "kv_store K \<alpha> ok" "ok (w_kv w)"
    and "str_ready S slot key (\<alpha> (w_kv w)) (w_last w)" "clock_sane (ss_store S) (w_last w)"
    and "str_view S slot key (\<alpha> (w_kv w)) (st_clock (ss_store S) (w_ticks w)) = Inr (Some (e, b))"
    and "length tail < 2 ^ 60" "length b + length tail \<le> unat (st_max_value_bytes (ss_store S))"
    and "e \<noteq> 0" "e \<le> st_clock (ss_store S) (w_ticks w + 1)"
  shows "\<exists>w'. str_append K S slot key tail w = (Inr (word_of_nat (length b + length tail)), w') \<and>
    str_post S slot key (\<alpha> (w_kv w)) (w_last w) (\<alpha> (w_kv w')) (w_last w') (Some (0, replicate (length b) 0 @ tail))"
proof -
  have "str_write (length b) tail [] = replicate (length b) 0 @ tail"
    by (rule nth_equalityI) (auto simp: length_str_write str_write_nth nth_append byte_or_zero_def elem_get_def)
  moreover have "str_aged (Some (e, b)) (st_clock (ss_store S) (w_ticks w + 1)) = None" using assms(8,9) by (simp add: str_aged_def)
  ultimately show ?thesis using kv_store.str_append(2)[OF assms(1-6)] assms(7) by auto
qed

text \<open>
  C6. SETBIT and BITFIELD are their definitions on a plain byte string. SETBIT answers the old bit and
  changes that bit and no other, growing the string when the bit is past its end. A BITFIELD that only
  reads answers the fields; one that writes runs its operations in order over the string grown to the
  last field it writes. Both refuse a string over the limit and then change nothing.
\<close>

theorem setbit_bitfield_on_bytes:
  assumes "kv_store K \<alpha> ok" "ok (w_kv w)"
    and "str_ready S slot key (\<alpha> (w_kv w)) (w_last w)" "clock_sane (ss_store S) (w_last w)"
    and "str_view S slot key (\<alpha> (w_kv w)) (st_clock (ss_store S) (w_ticks w)) = Inr x"
  shows "(\<exists>r w' y. setbit K S slot key off on w = (r, w') \<and> ok (w_kv w') \<and>
      str_post S slot key (\<alpha> (w_kv w)) (w_last w) (\<alpha> (w_kv w')) (w_last w') y \<and>
      (if unat (st_max_value_bytes (ss_store S)) < unat off div 8 + 1 then r = Inl ValueTooLarge \<and> y = x
       else r = Inr (bit_at (str_bytes x) (unat off)) \<and> str_expiry y = str_expiry x \<and>
         length (str_bytes y) = max (unat off div 8 + 1) (length (str_bytes x)) \<and>
         (\<forall>i. bit_at (str_bytes y) i = (if i = unat off then on else bit_at (str_bytes x) i)))) \<and>
    (\<exists>r w' y. bitfield K S slot key ops w = (r, w') \<and> ok (w_kv w') \<and>
      str_post S slot key (\<alpha> (w_kv w)) (w_last w) (\<alpha> (w_kv w')) (w_last w') y \<and>
      (case highest_written ops of
         None \<Rightarrow> r = Inr (read_fields list_buf ops (str_bytes x)) \<and> y = x
       | Some h \<Rightarrow>
           if unat (st_max_value_bytes (ss_store S)) < h div 8 + 1 then r = Inl ValueTooLarge \<and> y = x
           else \<exists>answers b'. bitfield_loop list_buf ops (grown (h div 8 + 1) (str_bytes x)) = (answers, b') \<and>
             r = Inr answers \<and> y = Some (str_expiry x, b')))" (is "?setbit \<and> ?bitfield")
proof -
  note sb = kv_store.setbit[OF assms(1-5), of off] and bf = kv_store.bitfield[OF assms(1-5), of ops]
  have 1: ?setbit
  proof (cases "unat (st_max_value_bytes (ss_store S)) < unat off div 8 + 1")
    case True
    obtain w' where "setbit K S slot key off on w = (Inl ValueTooLarge, w')" "ok (w_kv w')"
        "str_post S slot key (\<alpha> (w_kv w)) (w_last w) (\<alpha> (w_kv w')) (w_last w') x"
      using sb(1)[OF True] by blast
    then show ?thesis using True by (intro exI[of _ "Inl ValueTooLarge"] exI[of _ w'] exI[of _ x]) simp
  next
    case False
    then obtain w' b' where "setbit K S slot key off on w = (Inr (bit_at (str_bytes x) (unat off)), w')" "ok (w_kv w')"
        "str_post S slot key (\<alpha> (w_kv w)) (w_last w) (\<alpha> (w_kv w')) (w_last w') (Some (str_expiry x, b'))"
        "length b' = max (unat off div 8 + 1) (length (str_bytes x))"
        "\<forall>i. bit_at b' i = (if i = unat off then on else bit_at (str_bytes x) i)"
      using sb(2) unfolding not_less by blast
    then show ?thesis using False
      by (intro exI[of _ "Inr (bit_at (str_bytes x) (unat off))"] exI[of _ w'] exI[of _ "Some (str_expiry x, b')"]) simp
  qed
  have 2: ?bitfield
  proof (cases "highest_written ops")
    case None
    then show ?thesis using bf(1) by auto
  next
    case (Some h)
    obtain answers b' where l: "bitfield_loop list_buf ops (grown (h div 8 + 1) (str_bytes x)) = (answers, b')"
      by fastforce
    show ?thesis
      using bf(2,3)[OF Some] Some l by (cases "unat (st_max_value_bytes (ss_store S)) < h div 8 + 1") auto
  qed
  from 1 2 show ?thesis ..
qed

theorem setbit_bitfield_on_bytes_witness:
  "\<exists>w' b w''. setbit mem_kv test_strings 0 [107] 33 True empty_world = (Inr False, w') \<and>
     str_view test_strings 0 [107] (map_of (w_kv w')) 7 = Inr (Some (0, b)) \<and> length b = 5 \<and>
     (\<forall>i. bit_at b i \<longleftrightarrow> i = 33) \<and>
     bitfield mem_kv test_strings 0 [107] [\<lparr>bo_signed = False, bo_bits = 4, bo_offset = 20, bo_kind = BfSet 5 Wrap\<rparr>] empty_world =
       (Inr [Some 0], w'') \<and>
     str_view test_strings 0 [107] (map_of (w_kv w'')) 7 = Inr (Some (0, [0, 0, 5]))"
proof -
  note p = setbit_bitfield_on_bytes[OF mem.kv_store_axioms, of empty_world test_strings 0 "[107]" None]
  obtain w' y where w': "setbit mem_kv test_strings 0 [107] 33 True empty_world = (Inr False, w')"
      "str_post test_strings 0 [107] Map.empty (w_last empty_world) (map_of (w_kv w')) (w_last w') y"
      "str_expiry y = 0" "length (str_bytes y) = 5" "\<forall>i. bit_at (str_bytes y) i = (i = 33)"
    using p[where off = 33 and on = True, THEN conjunct1] by (auto simp: test_strings bit_at_def elem_get_def)
  then obtain b where "y = Some (0, b)" by (cases y) auto
  let ?op = "\<lparr>bo_signed = False, bo_bits = 4, bo_offset = 20, bo_kind = BfSet 5 Wrap\<rparr>"
  have u: "[0..<4] = [0, 1, 2, 3 :: nat]" and g: "grown 3 [] = [0, 0, 0]" by code_simp+
  have l: "bitfield_loop list_buf [?op] (grown 3 []) = ([Some 0], [0, 0, 5])" "highest_written [?op] = Some 23"
    unfolding g
    by (simp_all add: bitfield_step_def bitfield_new_def op_read_def unsigned_overflow_def write_bits_def list_buf_def
        byte_or_zero_def elem_get_def u Let_def highest_written_def writes_def)
  obtain w'' where w'': "bitfield mem_kv test_strings 0 [107] [?op] empty_world = (Inr [Some 0], w'')"
      "str_post test_strings 0 [107] Map.empty (w_last empty_world) (map_of (w_kv w'')) (w_last w'') (Some (0, [0, 0, 5]))"
    using p[where ops = "[?op]", THEN conjunct2] l by (auto simp: test_strings)
  show ?thesis
    using w' w''(1) \<open>y = Some (0, b)\<close> str_post_next(2)[OF w'(2), of 7] str_post_next(2)[OF w''(2), of 7]
    by (intro exI[of _ w'] exI[of _ b] exI[of _ w'']) (simp add: str_aged_def)
qed

text \<open>
  C17. INCRBY on every branch. A missing key counts as zero; a chunked value and bytes that are not the
  decimal of a 64-bit integer are not an integer, and a sum out of 64 bits is an overflow, each
  leaving the string as it was; otherwise the key holds the decimal of the sum, with its expiry.
\<close>

theorem incr_by_cases:
  assumes "kv_store K \<alpha> ok" "ok (w_kv w)" "str_ready S slot key (\<alpha> (w_kv w)) (w_last w)"
    and "str_view S slot key (\<alpha> (w_kv w)) (st_clock (ss_store S) (w_ticks w)) = Inr x"
  shows "\<exists>r w' y. incr_by K S slot key delta w = (r, w') \<and> ok (w_kv w') \<and>
    str_post S slot key (\<alpha> (w_kv w)) (w_last w) (\<alpha> (w_kv w')) (w_last w') y \<and>
    (if (\<exists>c. classify (st_clock (ss_store S) (w_ticks w)) (\<alpha> (w_kv w) (str_meta_key S slot key)) = Live (Chunked c)) \<or>
        x \<noteq> None \<and> (\<forall>i. show_i64 i \<noteq> str_bytes x)
     then r = Inl NotInteger \<and> y = x
     else \<exists>i. (if x = None then i = 0 else show_i64 i = str_bytes x) \<and>
       (if sint i + sint delta < - (2 ^ 63) \<or> 2 ^ 63 \<le> sint i + sint delta then r = Inl Overflow \<and> y = x
        else r = Inr (i + delta) \<and> y = Some (str_expiry x, show_i64 (i + delta))))"
proof -
  note inc = kv_store.incr_by[OF assms, where delta = delta]
  let ?chunked = "\<exists>c. classify (st_clock (ss_store S) (w_ticks w)) (\<alpha> (w_kv w) (str_meta_key S slot key)) = Live (Chunked c)"
  show ?thesis
  proof (cases "?chunked \<or> x \<noteq> None \<and> (\<forall>i. show_i64 i \<noteq> str_bytes x)")
    case True
    have "parse_redis_i64 b = None" if "\<forall>i. show_i64 i \<noteq> b" for b
      using that show_parse_i64 by (cases "parse_redis_i64 b") blast+
    then have "(if ?chunked then None else case x of None \<Rightarrow> Some 0 | Some (e, b) \<Rightarrow> parse_redis_i64 b) = None"
      using True by (cases x) auto
    from inc(1)[OF this] obtain w' where "incr_by K S slot key delta w = (Inl NotInteger, w')" "ok (w_kv w')"
      "str_post S slot key (\<alpha> (w_kv w)) (w_last w) (\<alpha> (w_kv w')) (w_last w') x" by blast
    then show ?thesis unfolding if_P[OF True] by blast
  next
    case False
    then obtain i where i: "\<not> ?chunked" "if x = None then i = 0 else show_i64 i = str_bytes x" by (cases x) auto
    then have n: "(if ?chunked then None else case x of None \<Rightarrow> Some 0 | Some (e, b) \<Rightarrow> parse_redis_i64 b) = Some i"
      using parse_show_i64 by (cases x) auto
    show ?thesis
    proof (cases "checked_add_i64 i delta")
      case None
      then have o: "sint i + sint delta < - (2 ^ 63) \<or> 2 ^ 63 \<le> sint i + sint delta" by (auto simp: checked_add_i64_def split: if_splits)
      obtain w' where "incr_by K S slot key delta w = (Inl Overflow, w')" "ok (w_kv w')"
        "str_post S slot key (\<alpha> (w_kv w)) (w_last w) (\<alpha> (w_kv w')) (w_last w') x" using inc(2)[OF n None] by blast
      then show ?thesis unfolding if_not_P[OF False]
        by (intro exI[of _ "Inl Overflow"] exI[of _ w'] exI[of _ x] conjI exI[of _ i]) (use i(2) o in simp_all)
    next
      case (Some j)
      then have o: "\<not> (sint i + sint delta < - (2 ^ 63) \<or> 2 ^ 63 \<le> sint i + sint delta)" "j = i + delta"
        by (auto simp: checked_add_i64_def split: if_splits)
      obtain w' where "incr_by K S slot key delta w = (Inr j, w')" "ok (w_kv w')"
        "str_post S slot key (\<alpha> (w_kv w)) (w_last w) (\<alpha> (w_kv w')) (w_last w') (Some (str_expiry x, show_i64 j))"
        using inc(3)[OF n Some] by blast
      then show ?thesis unfolding if_not_P[OF False]
        by (intro exI[of _ "Inr j"] exI[of _ w'] exI[of _ "Some (str_expiry x, show_i64 j)"] conjI exI[of _ i]) (use i(2) o in simp_all)
    qed
  qed
qed

theorem incr_by_cases_witness:
  "\<exists>w'. incr_by mem_kv test_strings 0 [107] (- 5) empty_world = (Inr (- 5), w') \<and>
     str_view test_strings 0 [107] (map_of (w_kv w')) 7 = Inr (Some (0, [45, 53]))"
proof -
  have s: "show_i64 (- 5) = [45, 53]" by code_simp
  show ?thesis
    using incr_by_cases[OF mem.kv_store_axioms, of empty_world test_strings 0 "[107]" None "- 5"]
    by (auto simp: test_strings s classify_def str_aged_def dest!: str_post_next(2)[where now = 7])
qed

text \<open>
  GETDEL and GETEX answer the string. GETDEL leaves no key; GETEX changes the expiry as asked and
  no byte of the string, and neither touches another key.
\<close>

theorem getdel_getex_answer_the_string:
  assumes "kv_store K \<alpha> ok" "ok (w_kv w)" "str_ready S slot key (\<alpha> (w_kv w)) (w_last w)"
    and "str_view S slot key (\<alpha> (w_kv w)) (st_clock (ss_store S) (w_ticks w)) = Inr x"
  shows "\<exists>w'. get_del K S slot key w = (Inr (map_option snd x), w') \<and> ok (w_kv w') \<and>
      str_post S slot key (\<alpha> (w_kv w)) (w_last w) (\<alpha> (w_kv w')) (w_last w') None"
    and "\<exists>w'. getex K S slot key expiry w = (Inr (map_option snd x), w') \<and> ok (w_kv w') \<and>
      str_post S slot key (\<alpha> (w_kv w)) (w_last w) (\<alpha> (w_kv w')) (w_last w')
        (case expiry of Keep \<Rightarrow> x | Clear \<Rightarrow> map_option (\<lambda>(e, b). (0, b)) x | AtMs at \<Rightarrow> map_option (\<lambda>(e, b). (at, b)) x)"
  using kv_store.get_del[OF assms] kv_store.getex[OF assms] by blast+

theorem getdel_getex_answer_the_string_witness:
  "\<exists>w w1 w2. getex mem_kv test_strings 0 [107] (AtMs 9) w = (Inr (Some [1, 2]), w1) \<and>
     str_view test_strings 0 [107] (map_of (w_kv w1)) 7 = Inr (Some (9, [1, 2])) \<and>
     get_del mem_kv test_strings 0 [107] w = (Inr (Some [1, 2]), w2) \<and>
     str_view test_strings 0 [107] (map_of (w_kv w2)) 7 = Inr None"
proof -
  obtain w :: "MemKv world" where w: "mem_ok (w_kv w)" "str_post test_strings 0 [107] Map.empty (w_last empty_world) (map_of (w_kv w)) (w_last w) (Some (0, [1, 2]))"
    using mem.str_set(3)[of empty_world test_strings 0 "[107]" "[1, 2]" "\<lparr>so_nx = False, so_xx = False, so_expiry = Clear\<rparr>"]
    by (auto simp: test_strings)
  have ready: "str_ready test_strings 0 [107] (map_of (w_kv w)) (w_last w)"
      "str_view test_strings 0 [107] (map_of (w_kv w)) (st_clock (ss_store test_strings) (w_ticks w)) = Inr (Some (0, [1, 2]))"
    using str_post_next[OF w(2)] by (simp_all add: str_aged_def)
  note p = getdel_getex_answer_the_string[OF mem.kv_store_axioms w(1) ready]
  obtain w2 :: "MemKv world" where w2: "get_del mem_kv test_strings 0 [107] w = (Inr (Some [1, 2]), w2)"
      "str_post test_strings 0 [107] (map_of (w_kv w)) (w_last w) (map_of (w_kv w2)) (w_last w2) None"
    using p(1) by auto
  obtain w1 :: "MemKv world" where w1: "getex mem_kv test_strings 0 [107] (AtMs 9) w = (Inr (Some [1, 2]), w1)"
      "str_post test_strings 0 [107] (map_of (w_kv w)) (w_last w) (map_of (w_kv w1)) (w_last w1) (Some (9, [1, 2]))"
    using p(2)[of "AtMs 9"] by auto
  show ?thesis
    using w1(1) w2(1) str_post_next(2)[OF w1(2), of 7] str_post_next(2)[OF w2(2), of 7]
    by (intro exI[of _ w] exI[of _ w1] exI[of _ w2]) (simp add: str_aged_def word_le_nat_alt)
qed

end
