(* ===== verification/Flint_Float.thy ===== *)
theory Flint_Float
  imports Flint_Encoding Complex_Main
begin

unbundle bit_operations_syntax

text \<open>
  The operations of \<open>f64\<close> the sorted sets use, on bit patterns: the tests, the comparisons, and
  addition rounded to nearest, ties to even. A finite double is an integer multiple of \<open>2 ^ - 1074\<close>, so
  a sum is exact in these units and is then rounded. The lemmas say when a double is a
  NaN, that the comparisons are those of one linear order in which the two zeros are one, and that
  addition commutes, has zero as its unit and is a NaN only for a NaN or opposite infinities.
\<close>

section \<open>Doubles\<close>

definition f64_zero :: f64_bits where
  [flint_eval]: "f64_zero = 0"

definition f64_neg_zero :: f64_bits where
  [flint_eval]: "f64_neg_zero = 0x8000000000000000"

definition f64_infinity :: f64_bits where
  [flint_eval]: "f64_infinity = 0x7FF0000000000000"

definition f64_nan :: f64_bits where
  [flint_eval]: "f64_nan = 0x7FF8000000000000"

definition f64_sign :: "f64_bits \<Rightarrow> bool" where
  [flint_eval]: "f64_sign b = (0x8000000000000000 \<le> b)"

definition f64_magnitude :: "f64_bits \<Rightarrow> nat" where
  [flint_eval]: "f64_magnitude b = unat b mod 2 ^ 63"

definition f64_is_nan :: "f64_bits \<Rightarrow> bool" where
  [flint_eval]: "f64_is_nan b = (f64_magnitude b > 0x7FF0000000000000)"

definition f64_is_infinite :: "f64_bits \<Rightarrow> bool" where
  [flint_eval]: "f64_is_infinite b = (f64_magnitude b = 0x7FF0000000000000)"

text \<open>The place of a number in the order of the reals and infinities.\<close>

definition f64_place :: "f64_bits \<Rightarrow> int" where
  [flint_eval]: "f64_place b = (if f64_sign b then - int (f64_magnitude b) else int (f64_magnitude b))"

definition f64_eq :: "f64_bits \<Rightarrow> f64_bits \<Rightarrow> bool" where
  [flint_eval]: "f64_eq a b = (\<not> f64_is_nan a \<and> \<not> f64_is_nan b \<and> f64_place a = f64_place b)"

definition f64_less :: "f64_bits \<Rightarrow> f64_bits \<Rightarrow> bool" where
  [flint_eval]: "f64_less a b = (\<not> f64_is_nan a \<and> \<not> f64_is_nan b \<and> f64_place a < f64_place b)"

definition f64_le :: "f64_bits \<Rightarrow> f64_bits \<Rightarrow> bool" where
  [flint_eval]: "f64_le a b = (\<not> f64_is_nan a \<and> \<not> f64_is_nan b \<and> f64_place a \<le> f64_place b)"

text \<open>
  The number a pattern stands for, read off its three fields as IEEE 754 has it: eleven bits of
  exponent and 52 of fraction. The infinities come out as \<open>2 ^ 1024\<close> and its negative, which lie beyond every finite
  double.
\<close>

definition f64_real :: "f64_bits \<Rightarrow> real" where
  "f64_real b =
     (let e = unat (take_bit 11 (drop_bit 52 b)); f = real (unat (take_bit 52 b))
      in (if bit b 63 then - 1 else 1) *
         (if e = 0 then 2 / 2 ^ 1023 * (f / 2 ^ 52) else 2 ^ e / 2 ^ 1023 * (1 + f / 2 ^ 52)))"

text \<open>The size of a finite number in units of \<open>2 ^ - 1074\<close>, and the nearest number of a size.\<close>

definition f64_units :: "f64_bits \<Rightarrow> nat" where
  [flint_eval]: "f64_units b =
     (let e = f64_magnitude b div 2 ^ 52; f = f64_magnitude b mod 2 ^ 52
      in if e = 0 then f else (2 ^ 52 + f) * 2 ^ (e - 1))"

definition f64_value :: "f64_bits \<Rightarrow> int" where
  [flint_eval]: "f64_value b = (if f64_sign b then - int (f64_units b) else int (f64_units b))"

fun bit_length :: "nat \<Rightarrow> nat" where
  [simp del]: "bit_length n = (if n = 0 then 0 else bit_length (n div 2) + 1)"

definition f64_round :: "nat \<Rightarrow> nat" where
  [flint_eval]: "f64_round n =
     (let k = bit_length n - 53;
          q = n div 2 ^ k;
          r = n mod 2 ^ k;
          q = (if 2 * r > 2 ^ k \<or> 2 * r = 2 ^ k \<and> odd q then q + 1 else q)
      in min (k * 2 ^ 52 + q) 0x7FF0000000000000)"

definition f64_make :: "bool \<Rightarrow> nat \<Rightarrow> f64_bits" where
  [flint_eval]: "f64_make sign mag = word_of_nat (mag + (if sign then 2 ^ 63 else 0))"

definition f64_add :: "f64_bits \<Rightarrow> f64_bits \<Rightarrow> f64_bits" where
  [flint_eval]: "f64_add a b =
     (if f64_is_nan a \<or> f64_is_nan b then f64_nan
      else if f64_is_infinite a then (if f64_is_infinite b \<and> f64_sign a \<noteq> f64_sign b then f64_nan else a)
      else if f64_is_infinite b then b
      else
        (let s = f64_value a + f64_value b
         in if s = 0 then f64_make (f64_sign a \<and> f64_sign b) 0
            else f64_make (s < 0) (f64_round (nat \<bar>s\<bar>))))"

section \<open>Lemmas: the parts of a double\<close>

lemma f64_magnitude_less: "f64_magnitude b < 2 ^ 63"
  by (simp add: f64_magnitude_def)

lemma f64_sign_unat: "f64_sign b \<longleftrightarrow> 2 ^ 63 \<le> unat b"
  by (simp add: f64_sign_def word_le_nat_alt)

lemma f64_parts: "unat b = f64_magnitude b + (if f64_sign b then 2 ^ 63 else 0)"
proof -
  have "unat b < 2 ^ 64" using unsigned_less[of b, where 'a = nat] by simp
  then have "unat b div 2 ^ 63 = (if 2 ^ 63 \<le> unat b then 1 else 0)" by (simp add: div_nat_eqI)
  moreover have "unat b = unat b div 2 ^ 63 * 2 ^ 63 + unat b mod 2 ^ 63" by (simp only: div_mult_mod_eq)
  ultimately show ?thesis unfolding f64_sign_unat f64_magnitude_def by (simp split: if_splits)
qed

lemma f64_make [simp]:
  assumes "mag < 2 ^ 63"
  shows "f64_sign (f64_make s mag) = s" "f64_magnitude (f64_make s mag) = mag"
proof -
  have n: "unat (word_of_nat n :: u64) = n" if "n < 2 ^ 64" for n
    using that by (simp add: unsigned_of_nat take_bit_nat_eq_self)
  have u: "unat (f64_make s mag) = mag + (if s then 2 ^ 63 else 0)"
    unfolding f64_make_def by (rule n) (use assms in simp)
  show "f64_sign (f64_make s mag) = s" using assms by (simp add: f64_sign_unat u)
  show "f64_magnitude (f64_make s mag) = mag" using assms by (simp add: f64_magnitude_def u)
qed

lemma f64_make_parts: "f64_make (f64_sign b) (f64_magnitude b) = b"
proof -
  let ?b = "f64_make (f64_sign b) (f64_magnitude b)"
  have "unat ?b = f64_magnitude ?b + (if f64_sign ?b then 2 ^ 63 else 0)" by (rule f64_parts)
  also have "\<dots> = f64_magnitude b + (if f64_sign b then 2 ^ 63 else 0)" by (simp only: f64_make[OF f64_magnitude_less])
  also have "\<dots> = unat b" by (rule f64_parts[symmetric])
  finally show ?thesis by (rule unsigned_word_eqI)
qed

lemma f64_eqI:
  assumes "f64_sign a = f64_sign b" "f64_magnitude a = f64_magnitude b"
  shows "a = b"
proof -
  have "f64_make (f64_sign a) (f64_magnitude a) = f64_make (f64_sign b) (f64_magnitude b)" by (simp only: assms)
  then show ?thesis by (simp only: f64_make_parts)
qed

lemma f64_consts [simp]:
  "f64_magnitude f64_zero = 0" "f64_magnitude f64_neg_zero = 0" "\<not> f64_sign f64_zero" "f64_sign f64_neg_zero"
  "f64_magnitude 0 = 0" "\<not> f64_sign 0" "f64_is_nan f64_nan"
  by (simp_all add: f64_zero_def f64_neg_zero_def f64_sign_def f64_magnitude_def f64_nan_def f64_is_nan_def)

lemma f64_finite [simp]: "\<not> f64_is_nan f64_zero" "\<not> f64_is_nan f64_neg_zero" "\<not> f64_is_nan 0"
  by (simp_all add: f64_is_nan_def)

section \<open>Lemmas: the order\<close>

text \<open>The order in which scores are stored refines the order of the numbers, and only parts the zeros.\<close>

lemma f64_order_parts: "f64_order b = (if f64_sign b then - int (f64_magnitude b) - 1 else int (f64_magnitude b))"
proof -
  have "bit b 63 \<longleftrightarrow> f64_sign b" by (simp add: f64_sign_def bit63_iff word_le_def)
  moreover have "uint b = int (f64_magnitude b) + (if f64_sign b then 2 ^ 63 else 0)"
    unfolding uint_nat f64_parts[of b] by simp
  ultimately show ?thesis by (simp add: f64_order_def)
qed

lemma f64_order_inject [simp]: "f64_order a = f64_order b \<longleftrightarrow> a = b"
  by (auto simp: f64_order_parts intro: f64_eqI split: if_splits)

lemma f64_place_order:
  "f64_place a < f64_place b \<Longrightarrow> f64_order a < f64_order b"
  "f64_order a \<le> f64_order b \<Longrightarrow> f64_place a \<le> f64_place b"
  by (auto simp: f64_place_def f64_order_parts split: if_splits)

lemma f64_place_eq: "f64_place a = f64_place b \<longleftrightarrow> a = b \<or> a \<in> {f64_zero, f64_neg_zero} \<and> b \<in> {f64_zero, f64_neg_zero}"
proof -
  have z: "b \<in> {f64_zero, f64_neg_zero} \<longleftrightarrow> f64_magnitude b = 0" for b
    by (metis f64_consts f64_eqI insertE insertI1 insertI2 singletonD)
  show ?thesis unfolding z by (auto simp: f64_place_def intro: f64_eqI split: if_splits)
qed

lemma f64_less_le: "f64_less a b \<longleftrightarrow> f64_le a b \<and> \<not> f64_eq a b"
  by (auto simp: f64_less_def f64_le_def f64_eq_def)

text \<open>The order of the places is the order of the numbers the patterns stand for.\<close>

lemma f64_fields:
  "unat (take_bit 11 (drop_bit 52 (b :: f64_bits))) = f64_magnitude b div 2 ^ 52"
  "unat (take_bit 52 (b :: f64_bits)) = f64_magnitude b mod 2 ^ 52"
proof -
  have "unat b div 2 ^ 52 mod 2 ^ 11 = unat b mod 2 ^ 63 div 2 ^ 52" using mod_mult2_eq[of "unat b" "2 ^ 52" "2 ^ 11"] by simp
  then show "unat (take_bit 11 (drop_bit 52 (b :: f64_bits))) = f64_magnitude b div 2 ^ 52"
    using unat_u64_bound[of b]
    by (simp add: unsigned_take_bit_eq unsigned_drop_bit_eq take_bit_eq_mod[where 'a = nat] drop_bit_eq_div[where 'a = nat] f64_magnitude_def)
  show "unat (take_bit 52 (b :: f64_bits)) = f64_magnitude b mod 2 ^ 52"
    by (simp add: unsigned_take_bit_eq take_bit_eq_mod[where 'a = nat] f64_magnitude_def mod_mod_cancel)
qed

lemma f64_real_value: "f64_real b = real_of_int (f64_value b) / (2 ^ 1022 * 2 ^ 52)"
proof -
  define e f where "e = f64_magnitude b div 2 ^ 52" and "f = f64_magnitude b mod 2 ^ 52"
  define B where "B = (2 :: real) ^ 1022"
  have B: "(2 :: real) ^ 1023 = 2 * B" "B \<noteq> 0" unfolding B_def power_Suc[symmetric] by simp_all
  have sign: "bit b 63 \<longleftrightarrow> f64_sign b" by (simp add: f64_sign_def bit63_iff word_le_def)
  have units: "f64_units b = (if e = 0 then f else (2 ^ 52 + f) * 2 ^ (e - 1))"
    by (simp only: f64_units_def Let_def e_def f_def)
  have "(2 :: real) ^ e = 2 * 2 ^ (e - 1)" if "e \<noteq> 0" using that by (cases e) simp_all
  then show ?thesis
    unfolding f64_real_def Let_def f64_fields sign f64_value_def units B B_def[symmetric] e_def[symmetric] f_def[symmetric]
    using B(2) by (auto simp: field_simps)
qed

lemma f64_units_mono:
  assumes "f64_magnitude a < f64_magnitude b"
  shows "f64_units a < f64_units b"
proof -
  define e f e' f' where "e = f64_magnitude a div 2 ^ 52" and "f = f64_magnitude a mod 2 ^ 52"
    and "e' = f64_magnitude b div 2 ^ 52" and "f' = f64_magnitude b mod 2 ^ 52"
  have m: "f64_magnitude a = e * 2 ^ 52 + f" "f64_magnitude b = e' * 2 ^ 52 + f'"
    unfolding e_def f_def e'_def f'_def by (simp_all only: div_mult_mod_eq)
  have f: "f < 2 ^ 52" "f' < 2 ^ 52" by (simp_all add: f_def f'_def)
  have units: "f64_units a = (if e = 0 then f else (2 ^ 52 + f) * 2 ^ (e - 1))"
    "f64_units b = (if e' = 0 then f' else (2 ^ 52 + f') * 2 ^ (e' - 1))"
    by (simp_all only: f64_units_def Let_def e_def f_def e'_def f'_def)
  consider "e = e'" "f < f'" | "e < e'" using assms m f by (cases "e = e'") auto
  then show ?thesis
  proof cases
    case 1
    then show ?thesis unfolding units by simp
  next
    case 2
    have "f64_units a < 2 ^ 52 * 2 ^ e"
    proof (cases "e = 0")
      case True
      then show ?thesis using f units by simp
    next
      case False
      then obtain k where k: "e = Suc k" by (cases e) auto
      have "(2 ^ 52 + f) * 2 ^ k < (2 ^ 52 + 2 ^ 52) * 2 ^ k" using f by (intro mult_strict_right_mono) simp_all
      then show ?thesis using k units by simp
    qed
    also have "2 ^ 52 * 2 ^ e \<le> (2 ^ 52 + f') * (2 :: nat) ^ (e' - 1)"
      using 2 by (intro mult_mono power_increasing) simp_all
    finally show ?thesis using 2 units by simp
  qed
qed

lemma f64_place_value: "f64_place a < f64_place b \<longleftrightarrow> f64_value a < f64_value b"
proof -
  have zero: "f64_units b = 0 \<longleftrightarrow> f64_magnitude b = 0" for b
    using f64_units_mono[of f64_zero b] by (cases "f64_magnitude b = 0") (simp_all add: f64_units_def)
  have less: "f64_units a < f64_units b \<longleftrightarrow> f64_magnitude a < f64_magnitude b" for a b
  proof (rule linorder_cases[of "f64_magnitude a" "f64_magnitude b"])
    assume "f64_magnitude a = f64_magnitude b"
    then show ?thesis by (simp add: f64_units_def)
  qed (use f64_units_mono[of a b] f64_units_mono[of b a] in simp_all)
  show ?thesis
    using less[of a b] less[of b a] zero[of a] zero[of b] by (auto simp: f64_place_def f64_value_def)
qed

lemma f64_less_real:
  assumes "\<not> f64_is_nan a" "\<not> f64_is_nan b"
  shows "f64_less a b \<longleftrightarrow> f64_real a < f64_real b"
proof -
  define B where "B = (2 :: real) ^ 1022 * 2 ^ 52"
  have "0 < B" by (simp add: B_def)
  then show ?thesis
    using assms by (simp add: f64_less_def f64_real_value B_def[symmetric] f64_place_value divide_less_cancel)
qed

lemma f64_eq_real:
  assumes "\<not> f64_is_nan a" "\<not> f64_is_nan b"
  shows "f64_eq a b \<longleftrightarrow> f64_real a = f64_real b"
  using f64_less_real[OF assms] f64_less_real[OF assms(2,1)] assms
  by (simp add: f64_less_def f64_eq_def) linarith

section \<open>Lemmas: addition\<close>

lemma f64_round_le: "f64_round n \<le> 0x7FF0000000000000"
  by (simp add: f64_round_def Let_def)

lemma f64_infinite_not_nan: "f64_is_infinite b \<Longrightarrow> \<not> f64_is_nan b"
  by (simp add: f64_is_infinite_def f64_is_nan_def)

lemma f64_add_commute: "f64_add a b = f64_add b a"
  by (auto simp: f64_add_def Let_def add.commute conj_commute f64_is_infinite_def intro: f64_eqI)

lemma f64_add_nan:
  "f64_is_nan (f64_add a b) \<longleftrightarrow>
     f64_is_nan a \<or> f64_is_nan b \<or> f64_is_infinite a \<and> f64_is_infinite b \<and> f64_sign a \<noteq> f64_sign b"
proof -
  have "f64_round n < 2 ^ 63" "\<not> f64_round n > 0x7FF0000000000000" for n using f64_round_le[of n] by simp_all
  then have "\<not> f64_is_nan (f64_make s (f64_round n))" for s n by (simp add: f64_is_nan_def)
  moreover have "\<not> f64_is_nan (f64_make s 0)" for s by (simp add: f64_is_nan_def)
  ultimately show ?thesis by (auto simp: f64_add_def Let_def dest: f64_infinite_not_nan)
qed

lemma bit_length_eq: "2 ^ k \<le> n \<Longrightarrow> n < 2 ^ (k + 1) \<Longrightarrow> bit_length n = k + 1"
proof (induction k arbitrary: n)
  case 0
  then have "n = 1" by simp
  then show ?case by (simp add: bit_length.simps[of "Suc 0"] bit_length.simps[of 0])
next
  case (Suc k)
  then have "2 ^ k \<le> n div 2" "n div 2 < 2 ^ (k + 1)" by (simp_all add: less_eq_div_iff_mult_less_eq div_less_iff_less_mult mult.commute)
  then show ?case using Suc.IH[of "n div 2"] Suc.prems(1) by (simp add: bit_length.simps[of n])
qed

lemma bit_length_le: "n < 2 ^ k \<Longrightarrow> bit_length n \<le> k"
proof (induction k arbitrary: n)
  case 0
  then show ?case by (simp add: bit_length.simps)
next
  case (Suc k)
  then have "n div 2 < 2 ^ k" by (simp add: div_less_iff_less_mult mult.commute)
  then show ?case using Suc.IH[of "n div 2"] by (simp add: bit_length.simps[of n])
qed

text \<open>Rounding keeps what is a double already, so adding zero keeps a number.\<close>

lemma f64_round_exact:
  assumes "bit_length n - 53 = k" "n mod 2 ^ k = 0"
  shows "f64_round n = min (k * 2 ^ 52 + n div 2 ^ k) 0x7FF0000000000000"
proof -
  have "(2 * 0 > (2 :: nat) ^ k \<or> 2 * 0 = (2 :: nat) ^ k \<and> odd (n div 2 ^ k)) = False" by simp
  then show ?thesis unfolding f64_round_def Let_def assms by (simp only: if_False)
qed

lemma f64_round_units:
  assumes "\<not> f64_is_nan b" "\<not> f64_is_infinite b"
  shows "f64_round (f64_units b) = f64_magnitude b"
proof -
  define e f where "e = f64_magnitude b div 2 ^ 52" and "f = f64_magnitude b mod 2 ^ 52"
  have m: "e * 2 ^ 52 + f = f64_magnitude b" unfolding e_def f_def by (rule div_mult_mod_eq)
  have f: "f < 2 ^ 52" by (simp add: f_def)
  have units: "f64_units b = (if e = 0 then f else (2 ^ 52 + f) * 2 ^ (e - 1))"
    by (simp only: f64_units_def Let_def e_def f_def)
  have small: "f64_magnitude b \<le> 0x7FF0000000000000" using assms(1) by (simp add: f64_is_nan_def)
  show ?thesis
  proof (cases "e = 0")
    case True
    have "bit_length f - 53 = 0" using bit_length_le[OF f] by simp
    from f64_round_exact[OF this] show ?thesis using True m small units by simp
  next
    case False
    then obtain k where k: "e = k + 1" by (cases e) auto
    have "bit_length ((2 ^ 52 + f) * 2 ^ k) = (52 + k) + 1"
    proof (rule bit_length_eq)
      show "2 ^ (52 + k) \<le> (2 ^ 52 + f) * 2 ^ k" by (simp add: power_add)
      have "(2 ^ 52 + f) * 2 ^ k < 2 ^ 53 * 2 ^ k" using f by (intro mult_strict_right_mono) simp_all
      then show "(2 ^ 52 + f) * 2 ^ k < 2 ^ (52 + k + 1)" by (simp add: power_add)
    qed
    then have "bit_length ((2 ^ 52 + f) * 2 ^ k) - 53 = k" by simp
    from f64_round_exact[OF this] have "f64_round (f64_units b) = min (k * 2 ^ 52 + (2 ^ 52 + f)) 0x7FF0000000000000"
      using units k by simp
    moreover have "k * 2 ^ 52 + (2 ^ 52 + f) = f64_magnitude b" using m k by simp
    ultimately show ?thesis using small by simp
  qed
qed

lemma f64_add_zero:
  assumes "\<not> f64_is_nan b" "b \<noteq> f64_neg_zero"
  shows "f64_add b f64_zero = b"
proof (cases "f64_is_infinite b")
  case True
  then show ?thesis using assms by (simp add: f64_add_def f64_is_infinite_def)
next
  case False
  have z: "\<not> f64_is_infinite f64_zero" "f64_value f64_zero = 0"
    by (simp_all add: f64_is_infinite_def f64_value_def f64_units_def)
  have "f64_units b = 0 \<longleftrightarrow> f64_magnitude b = 0"
    by (auto simp: f64_units_def Let_def div_eq_0_iff)
  then have "f64_value b = 0 \<longleftrightarrow> b = f64_zero"
    using assms(2) f64_eqI[of b f64_zero] f64_eqI[of b f64_neg_zero] by (auto simp: f64_value_def)
  then show ?thesis
    using assms False z f64_round_units[OF assms(1) False] f64_make_parts[of b]
    by (cases "f64_sign b") (auto simp: f64_add_def f64_value_def Let_def intro: f64_eqI)
qed

end
