(* ===== verification/Flint_ZSets.thy ===== *)
theory Flint_ZSets
  imports Flint_Value Flint_Float
begin

unbundle bit_operations_syntax

text \<open>
  The sorted sets of \<open>zsets.rs\<close>. A member has a row with its score, and an index row whose key orders
  the members by score and then by member. A score is the bit pattern of a double; the
  comparisons and the addition are those of \<open>Flint_Float\<close>. A \<open>HashMap\<close> is an association list, whose order
  no result depends on. A scan is the list of its rows, over which \<open>walk\<close> runs its visitor.
\<close>

section \<open>Bounds and flags\<close>

record ZaddFlags =
  zf_nx :: bool
  zf_xx :: bool
  zf_gt :: bool
  zf_lt :: bool
  zf_incr :: bool

datatype ZsetRows = AllRows | AtMost u64 | Ranks i64 i64

record ZaddOutcome =
  zo_added :: u64
  zo_updated :: u64
  zo_score :: "f64_bits option"

definition no_outcome :: ZaddOutcome where
  [flint_eval]: "no_outcome = \<lparr>zo_added = 0, zo_updated = 0, zo_score = None\<rparr>"

record ScoreBound =
  sb_value :: f64_bits
  sb_inclusive :: bool

definition sb_ge_lower :: "ScoreBound \<Rightarrow> f64_bits \<Rightarrow> bool" where
  [flint_eval]: "sb_ge_lower b score = (if sb_inclusive b then f64_le (sb_value b) score else f64_less (sb_value b) score)"

definition sb_le_upper :: "ScoreBound \<Rightarrow> f64_bits \<Rightarrow> bool" where
  [flint_eval]: "sb_le_upper b score = (if sb_inclusive b then f64_le score (sb_value b) else f64_less score (sb_value b))"

datatype LexBound = NegInf | PosInf | Incl bytes | Excl bytes

definition lex_parse :: "bytes \<Rightarrow> LexBound option" where
  [flint_eval]: "lex_parse raw =
     (case raw of
        [] \<Rightarrow> None
      | b # rest \<Rightarrow>
          if b = 45 \<and> rest = [] then Some NegInf
          else if b = 43 \<and> rest = [] then Some PosInf
          else if b = 91 then Some (Incl rest)
          else if b = 40 then Some (Excl rest)
          else None)"

definition lex_ge_lower :: "LexBound \<Rightarrow> bytes \<Rightarrow> bool" where
  [flint_eval]: "lex_ge_lower b member =
     (case b of NegInf \<Rightarrow> True | PosInf \<Rightarrow> False | Incl v \<Rightarrow> v \<le> member | Excl v \<Rightarrow> v < member)"

definition lex_le_upper :: "LexBound \<Rightarrow> bytes \<Rightarrow> bool" where
  [flint_eval]: "lex_le_upper b member =
     (case b of NegInf \<Rightarrow> False | PosInf \<Rightarrow> True | Incl v \<Rightarrow> member \<le> v | Excl v \<Rightarrow> member < v)"

definition member_cost :: "bytes \<Rightarrow> u64" where
  [flint_eval]: "member_cost member = word_of_nat (length member) + 8"

definition stored_score :: "f64_bits \<Rightarrow> f64_bits" where
  [flint_eval]: "stored_score score = (if f64_eq score f64_zero then f64_zero else score)"

text \<open>\<open>f64::to_le_bytes\<close>, and \<open>from_le_bytes\<close> of what may not be eight bytes.\<close>

definition score_bytes :: "f64_bits \<Rightarrow> bytes" where
  [flint_eval]: "score_bytes score = rev (to_be64 score)"

definition score_of :: "bytes \<Rightarrow> f64_bits" where
  [flint_eval]: "score_of b = (if length b = 8 then of_be (rev b) else 0)"

section \<open>Writing\<close>

type_synonym ScorePairs = "(f64_bits \<times> bytes) list"

definition zset_read_meta ::
  "'s Kv \<Rightarrow> TypeStore \<Rightarrow> u16 \<Rightarrow> bytes \<Rightarrow> 's world \<Rightarrow> (StoreError + ComplexMeta option) \<times> 's world"
where
  "zset_read_meta = read_typed_meta ZSet cm_decode"

definition index_key :: "TypeStore \<Rightarrow> u16 \<Rightarrow> bytes \<Rightarrow> u64 \<Rightarrow> f64_bits \<Rightarrow> bytes \<Rightarrow> bytes" where
  [flint_eval]: "index_key S slot key version score member = zscore_envelope (st_ns S) slot key version score member"

definition unique_scores :: "ScorePairs \<Rightarrow> (bytes \<times> f64_bits) list" where
  [flint_eval]: "unique_scores pairs = foldl (\<lambda>u (score, member). AList.update member (stored_score score) u) [] pairs"

fun zadd_account ::
  "'s Kv \<Rightarrow> TypeStore \<Rightarrow> u16 \<Rightarrow> bytes \<Rightarrow> u64 \<Rightarrow> 's world \<Rightarrow> (bytes \<times> f64_bits) list \<Rightarrow> u64 \<times> u64 \<Rightarrow> u64 \<times> u64"
where
  "zadd_account K S slot key version w [] (added, bts) = (added, bts)"
| "zadd_account K S slot key version w ((member, score) # unique) (added, bts) =
     zadd_account K S slot key version w unique
       (if w_get K w (field_key S slot key version member) = None
        then (added + 1, bts + member_cost member) else (added, bts))"

fun zadd_write ::
  "'s Kv \<Rightarrow> TypeStore \<Rightarrow> u16 \<Rightarrow> bytes \<Rightarrow> u64 \<Rightarrow> (bytes \<times> f64_bits) list \<Rightarrow> 's world \<Rightarrow> 's world"
where
  "zadd_write K S slot key version [] w = w"
| "zadd_write K S slot key version ((member, score) # unique) w =
     (let mk = field_key S slot key version member;
          w = (case w_get K w mk of
                 Some old \<Rightarrow>
                   if score_of old \<noteq> score
                   then snd (w_delete K w (index_key S slot key version (score_of old) member)) else w
               | None \<Rightarrow> w);
          w = w_put K w mk (score_bytes score);
          w = w_put K w (index_key S slot key version score member) []
      in zadd_write K S slot key version unique w)"

definition zadd ::
  "'s Kv \<Rightarrow> TypeStore \<Rightarrow> u16 \<Rightarrow> bytes \<Rightarrow> ScorePairs \<Rightarrow> 's world \<Rightarrow> (StoreError + u64) \<times> 's world"
where
  "zadd K S slot key pairs w =
     (case zset_read_meta K S slot key w of
        (Inl e, w) \<Rightarrow> (Inl e, w)
      | (Inr found, w) \<Rightarrow>
          (let (meta, w) = found_or_new ZSet S found w;
               unique = unique_scores pairs;
               (added, bts) = zadd_account K S slot key (cm_version meta) w unique (0, cm_bytes meta)
           in if bts > st_max_value_bytes S then (Inl ValueTooLarge, w)
              else
                (let w = zadd_write K S slot key (cm_version meta) unique w;
                     (now, w) = read_clock S w;
                     meta = cm_touch (meta\<lparr>cm_size := cm_size meta + ucast added, cm_bytes := bts\<rparr>) now
                 in (Inr added, w_put K w (meta_key S slot key) (cm_encode meta)))))"

text \<open>
  \<open>zadd_with\<close> first decides: each touched member's score as stored and as the call leaves it, and the
  outcome so far; a NaN stops it. Then it writes what changed.
\<close>

record zadd_state =
  zs_stored :: "(bytes \<times> f64_bits option) list"
  zs_now :: "(bytes \<times> f64_bits) list"
  zs_outcome :: ZaddOutcome

definition zadd_pair ::
  "'s Kv \<Rightarrow> TypeStore \<Rightarrow> u16 \<Rightarrow> bytes \<Rightarrow> u64 \<Rightarrow> ZaddFlags \<Rightarrow> 's world \<Rightarrow> f64_bits \<times> bytes \<Rightarrow> zadd_state \<Rightarrow> StoreError + zadd_state"
where
  "zadd_pair K S slot key version flags w pair z =
     (let (score, member) = pair;
          before = (case map_of (zs_stored z) member of
                      Some b \<Rightarrow> b
                    | None \<Rightarrow> map_option score_of (w_get K w (field_key S slot key version member)));
          z = z\<lparr>zs_stored := AList.update member before (zs_stored z)\<rparr>;
          oc = zs_outcome z
      in case (case map_of (zs_now z) member of Some c \<Rightarrow> Some c | None \<Rightarrow> before) of
           Some current \<Rightarrow>
             if zf_nx flags then Inr z
             else
               (let nxt = stored_score (if zf_incr flags then f64_add current score else score)
                in if f64_is_nan nxt then Inl NanScore
                   else if zf_lt flags \<and> f64_le current nxt \<or> zf_gt flags \<and> f64_le nxt current then Inr z
                   else if f64_eq nxt current then Inr (z\<lparr>zs_outcome := oc\<lparr>zo_score := Some nxt\<rparr>\<rparr>)
                   else Inr (z\<lparr>zs_outcome := oc\<lparr>zo_score := Some nxt, zo_updated := zo_updated oc + 1\<rparr>,
                              zs_now := AList.update member nxt (zs_now z)\<rparr>))
         | None \<Rightarrow>
             if zf_xx flags then Inr z
             else Inr (z\<lparr>zs_outcome := oc\<lparr>zo_score := Some score, zo_added := zo_added oc + 1\<rparr>,
                         zs_now := AList.update member (stored_score score) (zs_now z)\<rparr>))"

fun zadd_decide ::
  "'s Kv \<Rightarrow> TypeStore \<Rightarrow> u16 \<Rightarrow> bytes \<Rightarrow> u64 \<Rightarrow> ZaddFlags \<Rightarrow> 's world \<Rightarrow> ScorePairs \<Rightarrow> zadd_state \<Rightarrow> StoreError + zadd_state"
where
  "zadd_decide K S slot key version flags w [] z = Inr z"
| "zadd_decide K S slot key version flags w (pair # pairs) z =
     (case zadd_pair K S slot key version flags w pair z of
        Inl e \<Rightarrow> Inl e
      | Inr z \<Rightarrow> zadd_decide K S slot key version flags w pairs z)"

fun zadd_apply ::
  "'s Kv \<Rightarrow> TypeStore \<Rightarrow> u16 \<Rightarrow> bytes \<Rightarrow> u64 \<Rightarrow> (bytes \<times> f64_bits option) list \<Rightarrow> (bytes \<times> f64_bits) list \<Rightarrow> 's world \<Rightarrow> 's world"
where
  "zadd_apply K S slot key version stored [] w = w"
| "zadd_apply K S slot key version stored ((member, score) # now) w =
     (let put = (\<lambda>w. w_put K (w_put K w (field_key S slot key version member) (score_bytes score))
                      (index_key S slot key version score member) []);
          w = (case map_of stored member of
                 Some (Some old) \<Rightarrow>
                   if old = score then w else put (snd (w_delete K w (index_key S slot key version old member)))
               | _ \<Rightarrow> put w)
      in zadd_apply K S slot key version stored now w)"

definition zadd_with ::
  "'s Kv \<Rightarrow> TypeStore \<Rightarrow> u16 \<Rightarrow> bytes \<Rightarrow> ScorePairs \<Rightarrow> ZaddFlags \<Rightarrow> 's world \<Rightarrow> (StoreError + ZaddOutcome) \<times> 's world"
where
  "zadd_with K S slot key pairs flags w =
     (case zset_read_meta K S slot key w of
        (Inl e, w) \<Rightarrow> (Inl e, w)
      | (Inr found, w) \<Rightarrow>
          if found = None \<and> zf_xx flags then (Inr no_outcome, w)
          else
            (let (meta, w) = found_or_new ZSet S found w
             in case zadd_decide K S slot key (cm_version meta) flags w pairs
                       \<lparr>zs_stored = [], zs_now = [], zs_outcome = no_outcome\<rparr> of
                  Inl e \<Rightarrow> (Inl e, w)
                | Inr z \<Rightarrow>
                    if zs_now z = [] then (Inr (zs_outcome z), w)
                    else
                      (let fresh = filter (\<lambda>m. map_of (zs_stored z) m = Some None) (map fst (zs_now z));
                           bts = cm_bytes meta + sum_list (map member_cost fresh)
                       in if bts > st_max_value_bytes S then (Inl ValueTooLarge, w)
                          else
                            (let w = zadd_apply K S slot key (cm_version meta) (zs_stored z) (zs_now z) w;
                                 (now, w) = read_clock S w;
                                 meta = cm_touch (meta\<lparr>cm_size := cm_size meta + ucast (zo_added (zs_outcome z)), cm_bytes := bts\<rparr>) now
                             in (Inr (zs_outcome z), w_put K w (meta_key S slot key) (cm_encode meta))))))"

fun zrem_loop ::
  "'s Kv \<Rightarrow> TypeStore \<Rightarrow> u16 \<Rightarrow> bytes \<Rightarrow> u64 \<Rightarrow> bytes list \<Rightarrow> u64 \<times> u64 \<times> 's world \<Rightarrow> u64 \<times> u64 \<times> 's world"
where
  "zrem_loop K S slot key version [] (removed, bts, w) = (removed, bts, w)"
| "zrem_loop K S slot key version (member # members) (removed, bts, w) =
     (let mk = field_key S slot key version member
      in zrem_loop K S slot key version members
           (case w_get K w mk of
              Some old \<Rightarrow>
                (removed + 1, saturating_sub bts (member_cost member),
                 snd (w_delete K (snd (w_delete K w mk)) (index_key S slot key version (score_of old) member)))
            | None \<Rightarrow> (removed, bts, w)))"

definition zrem ::
  "'s Kv \<Rightarrow> TypeStore \<Rightarrow> u16 \<Rightarrow> bytes \<Rightarrow> bytes list \<Rightarrow> 's world \<Rightarrow> (StoreError + u64) \<times> 's world"
where
  "zrem K S slot key members w =
     (case zset_read_meta K S slot key w of
        (Inl e, w) \<Rightarrow> (Inl e, w)
      | (Inr None, w) \<Rightarrow> (Inr 0, w)
      | (Inr (Some meta), w) \<Rightarrow>
          (let (removed, bts, w) = zrem_loop K S slot key (cm_version meta) members (0, cm_bytes meta, w)
           in settle_removed K S slot key meta removed bts w))"

section \<open>Reading\<close>

definition zset_stored_bytes ::
  "'s Kv \<Rightarrow> TypeStore \<Rightarrow> u16 \<Rightarrow> bytes \<Rightarrow> 's world \<Rightarrow> (StoreError + u64 option) \<times> 's world"
where
  "zset_stored_bytes K S slot key w =
     (case zset_read_meta K S slot key w of
        (Inl e, w) \<Rightarrow> (Inl e, w)
      | (Inr found, w) \<Rightarrow> (Inr (map_option cm_bytes found), w))"

text \<open>The rank window: \<open>len\<close> is below \<open>2 ^ 32\<close>, so the signed arithmetic does not leave its range.\<close>

definition rank_bounds :: "int \<Rightarrow> int \<Rightarrow> int \<Rightarrow> int \<times> int" where
  [flint_eval]: "rank_bounds len start stop =
     (let norm = (\<lambda>i. if i < 0 then len + i else i)
      in (max (norm start) 0, min (norm stop) (len - 1)))"

definition zset_read_bytes ::
  "'s Kv \<Rightarrow> TypeStore \<Rightarrow> u16 \<Rightarrow> bytes \<Rightarrow> ZsetRows \<Rightarrow> 's world \<Rightarrow> (StoreError + u64 option) \<times> 's world"
where
  "zset_read_bytes K S slot key rws w =
     (case zset_read_meta K S slot key w of
        (Inl e, w) \<Rightarrow> (Inl e, w)
      | (Inr None, w) \<Rightarrow> (Inr None, w)
      | (Inr (Some meta), w) \<Rightarrow>
          (let len = ucast (cm_size meta) :: u64
           in if len = 0 then (Inr (Some 0), w)
              else
                (let charge = (\<lambda>wanted. saturating_mul wanted (cm_bytes meta div len))
                 in case rws of
                      AllRows \<Rightarrow> (Inr (Some (cm_bytes meta)), w)
                    | AtMost n \<Rightarrow> (Inr (Some (charge (min n len))), w)
                    | Ranks start stop \<Rightarrow>
                        (let (lo, hi) = rank_bounds (int (unat len)) (sint start) (sint stop)
                         in if lo > hi then (Inr (Some 0), w) else (Inr (Some (charge (word_of_int (hi - lo + 1)))), w)))))"

definition zscore ::
  "'s Kv \<Rightarrow> TypeStore \<Rightarrow> u16 \<Rightarrow> bytes \<Rightarrow> bytes \<Rightarrow> 's world \<Rightarrow> (StoreError + f64_bits option) \<times> 's world"
where
  "zscore K S slot key member w =
     (case zset_read_meta K S slot key w of
        (Inl e, w) \<Rightarrow> (Inl e, w)
      | (Inr None, w) \<Rightarrow> (Inr None, w)
      | (Inr (Some meta), w) \<Rightarrow>
          (Inr (map_option score_of (w_get K w (field_key S slot key (cm_version meta) member))), w))"

definition zincr_by ::
  "'s Kv \<Rightarrow> TypeStore \<Rightarrow> u16 \<Rightarrow> bytes \<Rightarrow> f64_bits \<Rightarrow> bytes \<Rightarrow> 's world \<Rightarrow> (StoreError + f64_bits) \<times> 's world"
where
  "zincr_by K S slot key delta member w =
     (case zscore K S slot key member w of
        (Inl e, w) \<Rightarrow> (Inl e, w)
      | (Inr c, w) \<Rightarrow>
          (let nxt = (case c of None \<Rightarrow> delta | Some c \<Rightarrow> f64_add c delta)
           in if f64_is_nan nxt then (Inl NanScore, w)
              else (case zadd K S slot key [(nxt, member)] w of
                      (Inl e, w) \<Rightarrow> (Inl e, w)
                    | (Inr _, w) \<Rightarrow> (Inr nxt, w))))"

definition zcard :: "'s Kv \<Rightarrow> TypeStore \<Rightarrow> u16 \<Rightarrow> bytes \<Rightarrow> 's world \<Rightarrow> (StoreError + u64) \<times> 's world" where
  "zcard K S slot key w =
     (case zset_read_meta K S slot key w of
        (Inl e, w) \<Rightarrow> (Inl e, w)
      | (Inr found, w) \<Rightarrow> (Inr (case found of None \<Rightarrow> 0 | Some m \<Rightarrow> ucast (cm_size m)), w))"

definition after_score :: "f64_bits \<Rightarrow> bytes" where
  [flint_eval]: "after_score from =
     (let from = (if f64_eq from f64_zero then f64_neg_zero else from)
      in if encode_score from = 0 then [] else to_be64 (encode_score from - 1))"

definition before_score :: "f64_bits \<Rightarrow> bytes" where
  [flint_eval]: "before_score from =
     (let from = (if f64_eq from f64_zero then f64_zero else from)
      in if encode_score from = - 1 then [] else to_be64 (encode_score from + 1))"

text \<open>\<open>walk\<close>: the visitor gets the member and the score of each index row, until it answers false.\<close>

definition walk ::
  "'s Kv \<Rightarrow> TypeStore \<Rightarrow> u16 \<Rightarrow> bytes \<Rightarrow> bool \<Rightarrow> bytes \<Rightarrow> (bytes \<Rightarrow> f64_bits \<Rightarrow> 'a \<Rightarrow> bool \<times> 'a) \<Rightarrow> 'a \<Rightarrow> 's world
   \<Rightarrow> (StoreError + 'a) \<times> 's world"
where
  "walk K S slot key descending seek visit st w =
     (case zset_read_meta K S slot key w of
        (Inl e, w) \<Rightarrow> (Inl e, w)
      | (Inr None, w) \<Rightarrow> (Inr st, w)
      | (Inr (Some meta), w) \<Rightarrow>
          (let p = zscore_prefix (st_ns S) slot key (cm_version meta);
               start = (if seek = [] then [] else p @ seek);
               each = (\<lambda>k v st. let rest = drop (length p) k
                                in visit (drop 8 rest) (decode_score (of_be (take 8 rest))) st);
               visited = (if descending then kv_for_each_before K (w_kv w) p start
                          else kv_for_each_from K (w_kv w) p start)
           in (Inr (snd (run_visits each visited st)), w)))"

definition rank_visit :: "nat \<Rightarrow> bytes \<Rightarrow> f64_bits \<Rightarrow> int \<times> (bytes \<times> f64_bits) list \<Rightarrow> bool \<times> int \<times> (bytes \<times> f64_bits) list" where
  "rank_visit want m s st =
     (let (skip, out) = st
      in if skip > 0 then (True, (skip - 1, out))
         else (length (out @ [(m, s)]) < want, (skip, out @ [(m, s)])))"

definition rank_window ::
  "'s Kv \<Rightarrow> TypeStore \<Rightarrow> u16 \<Rightarrow> bytes \<Rightarrow> i64 \<Rightarrow> i64 \<Rightarrow> bool \<Rightarrow> 's world \<Rightarrow> (StoreError + (bytes \<times> f64_bits) list) \<times> 's world"
where
  "rank_window K S slot key start stop descending w =
     (case zcard K S slot key w of
        (Inl e, w) \<Rightarrow> (Inl e, w)
      | (Inr n, w) \<Rightarrow>
          (let len = int (unat n);
               (from, until) = rank_bounds len (sint start) (sint stop)
           in if from > until then (Inr [], w)
              else
                (let (lo, hi) = (if descending then (len - 1 - until, len - 1 - from) else (from, until));
                     want = nat (hi - lo + 1);
                     from_low = (lo \<le> len - 1 - hi);
                     skip = (if from_low then lo else len - 1 - hi)
                 in case walk K S slot key (\<not> from_low) [] (rank_visit want) (skip, []) w of
                      (Inl e, w) \<Rightarrow> (Inl e, w)
                    | (Inr (_, out), w) \<Rightarrow> (Inr (if from_low = descending then rev out else out), w))))"

definition limit_of :: "i64 \<Rightarrow> nat" where
  [flint_eval]: "limit_of count = (if sint count < 0 then 2 ^ 64 - 1 else nat (sint count))"

definition score_visit ::
  "(f64_bits \<Rightarrow> bool) \<Rightarrow> (f64_bits \<Rightarrow> bool) \<Rightarrow> nat \<Rightarrow> bytes \<Rightarrow> f64_bits \<Rightarrow> int \<times> (bytes \<times> f64_bits) list \<Rightarrow> bool \<times> int \<times> (bytes \<times> f64_bits) list"
where
  "score_visit inside_near inside_far limit m s st =
     (let (skip, hits) = st
      in if \<not> inside_near s then (True, st)
         else if \<not> inside_far s then (False, st)
         else if skip > 0 then (True, (skip - 1, hits))
         else (length (hits @ [(m, s)]) < limit, (skip, hits @ [(m, s)])))"

definition zrange_by_score ::
  "'s Kv \<Rightarrow> TypeStore \<Rightarrow> u16 \<Rightarrow> bytes \<Rightarrow> ScoreBound \<Rightarrow> ScoreBound \<Rightarrow> bool \<Rightarrow> i64 \<Rightarrow> i64 \<Rightarrow> 's world
   \<Rightarrow> (StoreError + (bytes \<times> f64_bits) list) \<times> 's world"
where
  "zrange_by_score K S slot key mn mx descending offset cnt w =
     (case zset_read_meta K S slot key w of
        (Inl e, w) \<Rightarrow> (Inl e, w)
      | (Inr found, w) \<Rightarrow>
          if found = None \<or> sint offset < 0 \<or> cnt = 0 then (Inr [], w)
          else
            (let inside_near = (if descending then sb_le_upper mx else sb_ge_lower mn);
                 inside_far = (if descending then sb_ge_lower mn else sb_le_upper mx);
                 from = (if descending then before_score (sb_value mx) else after_score (sb_value mn))
             in case walk K S slot key descending from (score_visit inside_near inside_far (limit_of cnt)) (sint offset, []) w of
                  (Inl e, w) \<Rightarrow> (Inl e, w)
                | (Inr (_, hits), w) \<Rightarrow> (Inr hits, w)))"

definition lex_seek :: "f64_bits \<Rightarrow> LexBound \<Rightarrow> bool \<Rightarrow> bytes" where
  [flint_eval]: "lex_seek score bound descending =
     (let place = (\<lambda>member. to_be64 (encode_score score) @ member)
      in if \<not> descending then
           (case bound of
              Incl v \<Rightarrow> if v \<noteq> [] then place (butlast v) else after_score score
            | Excl v \<Rightarrow> place v
            | _ \<Rightarrow> after_score score)
         else
           (case bound of
              Incl v \<Rightarrow> place (v @ [0])
            | Excl v \<Rightarrow> place v
            | _ \<Rightarrow> before_score score))"

definition lex_visit ::
  "(bytes \<Rightarrow> bool) \<Rightarrow> (bytes \<Rightarrow> bool) \<Rightarrow> nat \<Rightarrow> bytes \<Rightarrow> f64_bits \<Rightarrow> bool \<times> int \<times> bytes list \<Rightarrow> bool \<times> bool \<times> int \<times> bytes list"
where
  "lex_visit inside_near inside_far limit m s st =
     (let (started, skip, hits) = st
      in if \<not> started \<and> \<not> inside_near m then (True, st)
         else if \<not> started \<and> \<not> inside_far m then (False, st)
         else if skip > 0 then (True, (True, skip - 1, hits))
         else if \<not> inside_far m then (False, (True, skip, hits))
         else (length (hits @ [m]) < limit, (True, skip, hits @ [m])))"

definition first_visit :: "bytes \<Rightarrow> f64_bits \<Rightarrow> (bytes \<times> f64_bits) option \<Rightarrow> bool \<times> (bytes \<times> f64_bits) option" where
  "first_visit m s st = (False, Some (m, s))"

definition zrange_by_lex ::
  "'s Kv \<Rightarrow> TypeStore \<Rightarrow> u16 \<Rightarrow> bytes \<Rightarrow> LexBound \<Rightarrow> LexBound \<Rightarrow> bool \<Rightarrow> i64 \<Rightarrow> i64 \<Rightarrow> 's world
   \<Rightarrow> (StoreError + bytes list) \<times> 's world"
where
  "zrange_by_lex K S slot key mn mx descending offset cnt w =
     (case walk K S slot key False [] first_visit None w of
        (Inl e, w) \<Rightarrow> (Inl e, w)
      | (Inr low_end, w) \<Rightarrow>
          (case walk K S slot key True [] first_visit None w of
             (Inl e, w) \<Rightarrow> (Inl e, w)
           | (Inr high_end, w) \<Rightarrow>
               (case (low_end, high_end) of
                  (Some (first, low), Some (final, high)) \<Rightarrow>
                    if \<not> lex_ge_lower mn final \<or> \<not> lex_le_upper mx first \<or> sint offset < 0 \<or> cnt = 0 then (Inr [], w)
                    else
                      (let from = (if encode_score low = encode_score high
                                   then lex_seek low (if descending then mx else mn) descending else []);
                           inside_near = (if descending then lex_le_upper mx else lex_ge_lower mn);
                           inside_far = (if descending then lex_ge_lower mn else lex_le_upper mx)
                       in case walk K S slot key descending from (lex_visit inside_near inside_far (limit_of cnt))
                                 (False, sint offset, []) w of
                            (Inl e, w) \<Rightarrow> (Inl e, w)
                          | (Inr (_, _, hits), w) \<Rightarrow> (Inr hits, w))
                | _ \<Rightarrow> (Inr [], w))))"

section \<open>What is built of the above\<close>

definition zreplace ::
  "'s Kv \<Rightarrow> TypeStore \<Rightarrow> u16 \<Rightarrow> bytes \<Rightarrow> ScorePairs \<Rightarrow> 's world \<Rightarrow> (StoreError + u64) \<times> 's world"
where
  "zreplace K S slot key pairs w =
     (let distinct_members = remdups (map snd pairs)
      in if sum_list (map member_cost distinct_members) > st_max_value_bytes S then (Inl ValueTooLarge, w)
         else
           (let w = snd (w_delete K w (meta_key S slot key))
            in if pairs = [] then (Inr 0, w)
               else (case zadd K S slot key pairs w of
                       (Inl e, w) \<Rightarrow> (Inl e, w)
                     | (Inr _, w) \<Rightarrow> zcard K S slot key w)))"

definition zlexcount ::
  "'s Kv \<Rightarrow> TypeStore \<Rightarrow> u16 \<Rightarrow> bytes \<Rightarrow> LexBound \<Rightarrow> LexBound \<Rightarrow> 's world \<Rightarrow> (StoreError + u64) \<times> 's world"
where
  "zlexcount K S slot key mn mx w =
     (case zrange_by_lex K S slot key mn mx False 0 (- 1) w of
        (Inl e, w) \<Rightarrow> (Inl e, w)
      | (Inr hits, w) \<Rightarrow> (Inr (word_of_nat (length hits)), w))"

definition zremrangebylex ::
  "'s Kv \<Rightarrow> TypeStore \<Rightarrow> u16 \<Rightarrow> bytes \<Rightarrow> LexBound \<Rightarrow> LexBound \<Rightarrow> 's world \<Rightarrow> (StoreError + u64) \<times> 's world"
where
  "zremrangebylex K S slot key mn mx w =
     (case zrange_by_lex K S slot key mn mx False 0 (- 1) w of
        (Inl e, w) \<Rightarrow> (Inl e, w)
      | (Inr doomed, w) \<Rightarrow> zrem K S slot key doomed w)"

definition count_visit :: "ScoreBound \<Rightarrow> ScoreBound \<Rightarrow> bytes \<Rightarrow> f64_bits \<Rightarrow> u64 \<Rightarrow> bool \<times> u64" where
  "count_visit mn mx m s n =
     (if \<not> sb_ge_lower mn s then (True, n) else if \<not> sb_le_upper mx s then (False, n) else (True, n + 1))"

definition zcount ::
  "'s Kv \<Rightarrow> TypeStore \<Rightarrow> u16 \<Rightarrow> bytes \<Rightarrow> ScoreBound \<Rightarrow> ScoreBound \<Rightarrow> 's world \<Rightarrow> (StoreError + u64) \<times> 's world"
where
  "zcount K S slot key mn mx w = walk K S slot key False (after_score (sb_value mn)) (count_visit mn mx) 0 w"

definition rank_of_visit :: "bytes \<Rightarrow> f64_bits \<Rightarrow> bytes \<Rightarrow> f64_bits \<Rightarrow> u64 \<times> bool \<Rightarrow> bool \<times> u64 \<times> bool" where
  "rank_of_visit member score m s st =
     (if f64_eq s score \<and> m = member then (False, (fst st, True)) else (True, (fst st + 1, snd st)))"

definition zrank ::
  "'s Kv \<Rightarrow> TypeStore \<Rightarrow> u16 \<Rightarrow> bytes \<Rightarrow> bytes \<Rightarrow> bool \<Rightarrow> 's world \<Rightarrow> (StoreError + u64 option) \<times> 's world"
where
  "zrank K S slot key member descending w =
     (case zscore K S slot key member w of
        (Inl e, w) \<Rightarrow> (Inl e, w)
      | (Inr None, w) \<Rightarrow> (Inr None, w)
      | (Inr (Some score), w) \<Rightarrow>
          (case walk K S slot key descending [] (rank_of_visit member score) (0, False) w of
             (Inl e, w) \<Rightarrow> (Inl e, w)
           | (Inr (before, found), w) \<Rightarrow> (Inr (if found then Some before else None), w)))"

fun zmscore ::
  "'s Kv \<Rightarrow> TypeStore \<Rightarrow> u16 \<Rightarrow> bytes \<Rightarrow> bytes list \<Rightarrow> 's world \<Rightarrow> (StoreError + f64_bits option list) \<times> 's world"
where
  "zmscore K S slot key [] w = (Inr [], w)"
| "zmscore K S slot key (m # ms) w =
     (case zscore K S slot key m w of
        (Inl e, w) \<Rightarrow> (Inl e, w)
      | (Inr s, w) \<Rightarrow>
          (case zmscore K S slot key ms w of
             (Inl e, w) \<Rightarrow> (Inl e, w)
           | (Inr ss, w) \<Rightarrow> (Inr (s # ss), w)))"

definition pop_visit :: "nat \<Rightarrow> bytes \<Rightarrow> f64_bits \<Rightarrow> (bytes \<times> f64_bits) list \<Rightarrow> bool \<times> (bytes \<times> f64_bits) list" where
  "pop_visit cnt m s popped = (length (popped @ [(m, s)]) < cnt, popped @ [(m, s)])"

definition zpop ::
  "'s Kv \<Rightarrow> TypeStore \<Rightarrow> u16 \<Rightarrow> bytes \<Rightarrow> nat \<Rightarrow> bool \<Rightarrow> 's world \<Rightarrow> (StoreError + (bytes \<times> f64_bits) list) \<times> 's world"
where
  "zpop K S slot key cnt max_end w =
     (case (if cnt > 0 then walk K S slot key max_end [] (pop_visit cnt) [] w else (Inr [], w)) of
        (Inl e, w) \<Rightarrow> (Inl e, w)
      | (Inr popped, w) \<Rightarrow>
          (case zrem K S slot key (map fst popped) w of
             (Inl e, w) \<Rightarrow> (Inl e, w)
           | (Inr _, w) \<Rightarrow> (Inr popped, w)))"

definition zremrangebyscore ::
  "'s Kv \<Rightarrow> TypeStore \<Rightarrow> u16 \<Rightarrow> bytes \<Rightarrow> ScoreBound \<Rightarrow> ScoreBound \<Rightarrow> 's world \<Rightarrow> (StoreError + u64) \<times> 's world"
where
  "zremrangebyscore K S slot key mn mx w =
     (case zrange_by_score K S slot key mn mx False 0 (- 1) w of
        (Inl e, w) \<Rightarrow> (Inl e, w)
      | (Inr hits, w) \<Rightarrow> zrem K S slot key (map fst hits) w)"

definition zremrangebyrank ::
  "'s Kv \<Rightarrow> TypeStore \<Rightarrow> u16 \<Rightarrow> bytes \<Rightarrow> i64 \<Rightarrow> i64 \<Rightarrow> 's world \<Rightarrow> (StoreError + u64) \<times> 's world"
where
  "zremrangebyrank K S slot key start stop w =
     (case rank_window K S slot key start stop False w of
        (Inl e, w) \<Rightarrow> (Inl e, w)
      | (Inr hits, w) \<Rightarrow> zrem K S slot key (map fst hits) w)"

definition zrange_rev ::
  "'s Kv \<Rightarrow> TypeStore \<Rightarrow> u16 \<Rightarrow> bytes \<Rightarrow> i64 \<Rightarrow> i64 \<Rightarrow> bool \<Rightarrow> 's world \<Rightarrow> (StoreError + (bytes \<times> f64_bits) list) \<times> 's world"
where
  "zrange_rev K S slot key start stop descending w = rank_window K S slot key start stop descending w"

definition zrange ::
  "'s Kv \<Rightarrow> TypeStore \<Rightarrow> u16 \<Rightarrow> bytes \<Rightarrow> i64 \<Rightarrow> i64 \<Rightarrow> 's world \<Rightarrow> (StoreError + (bytes \<times> f64_bits) list) \<times> 's world"
where
  "zrange K S slot key start stop w = rank_window K S slot key start stop False w"

section \<open>Lemmas: the order of the index\<close>

text \<open>Stored scores differ as numbers wherever they differ at all, so their bit order is the order of the numbers.\<close>

lemma stored_score_eq:
  assumes "\<not> f64_is_nan a" "\<not> f64_is_nan b"
  shows "stored_score a = stored_score b \<longleftrightarrow> f64_eq a b"
  using assms f64_place_eq[of a b] by (auto simp: stored_score_def f64_eq_def f64_place_eq)

lemma stored_score_less:
  assumes "\<not> f64_is_nan a" "\<not> f64_is_nan b"
  shows "f64_order (stored_score a) < f64_order (stored_score b) \<longleftrightarrow> f64_less a b"
proof -
  have place: "f64_place (stored_score x) = f64_place x" for x by (simp add: stored_score_def f64_eq_def)
  show ?thesis
    using f64_place_order[of "stored_score a" "stored_score b"] f64_place_order[of "stored_score b" "stored_score a"]
      stored_score_eq[OF assms] f64_order_inject[of "stored_score a" "stored_score b"] assms
    by (auto simp: place f64_less_def f64_eq_def)
qed

section \<open>Byte order\<close>

text \<open>
  C27. Byte order is the logical order. List positions sort by their signed index and stream entries
  by their ID. The index rows of a sorted set sort by the score as a number, the real value IEEE 754
  gives the double with the infinities at the two ends, and then by member: two scores that are equal as numbers, the zeros
  included, are one score there, tied and ordered by member. So a scan of the index is the
  sorted set in rank order. A score that was stored comes back bit for bit.
\<close>

theorem byte_order_is_logical:
  "(subkey_envelope ns slot key v (to_be64 (bias_index i)) < subkey_envelope ns slot key v (to_be64 (bias_index j))
      \<longleftrightarrow> sint i < sint j) \<and>
   (entry_key ns slot key v a < entry_key ns slot key v b \<longleftrightarrow> sid_less a b) \<and>
   (\<not> f64_is_nan sc \<and> \<not> f64_is_nan sc' \<longrightarrow>
      (zscore_envelope ns slot key v (stored_score sc) m < zscore_envelope ns slot key v (stored_score sc') m'
         \<longleftrightarrow> f64_real sc < f64_real sc' \<or> f64_real sc = f64_real sc' \<and> m < m')) \<and>
   decode_score (encode_score sc) = sc"
proof -
  have inj: "encode_score x = encode_score y \<longleftrightarrow> x = y" for x y by (metis decode_encode_score)
  show ?thesis
    by (simp add: subkey_envelope_def zscore_envelope_def entry_key_def lex_append_left to_be64_less bias_index_less
        sid_to_bytes_less to_be64_append_less encode_score_less inj stored_score_less stored_score_eq f64_less_real f64_eq_real)
qed

theorem byte_order_is_logical_witness:
  "zscore_envelope [110] 7 [107] 5 (stored_score f64_neg_zero) [1] < zscore_envelope [110] 7 [107] 5 (stored_score f64_zero) [2] \<and>
   zscore_envelope [110] 7 [107] 5 (stored_score f64_zero) [1] < zscore_envelope [110] 7 [107] 5 (stored_score f64_neg_zero) [2]"
proof -
  have "f64_real f64_neg_zero = f64_real f64_zero"
    using f64_eq_real[of f64_neg_zero f64_zero] by (simp add: f64_eq_def f64_place_def)
  then show ?thesis
    using byte_order_is_logical[of "[110]" 7 "[107]" 5 0 0 sid_MIN sid_MIN f64_neg_zero f64_zero "[1]" "[2]"]
      byte_order_is_logical[of "[110]" 7 "[107]" 5 0 0 sid_MIN sid_MIN f64_zero f64_neg_zero "[1]" "[2]"]
    by simp
qed

end
