(* ===== verification/Flint_ZSetOps.thy ===== *)
theory Flint_ZSetOps
  imports Flint_ZSets
begin

unbundle bit_operations_syntax

text \<open>
  What the rows of a sorted set stand for: a map from members to scores, of which the index rows are
  the graph, and whose index order is the order by score and then by member. The lemmas give what one
  member written or removed does to the map, and what a walk visits.
\<close>

section \<open>Notions the lemmas use\<close>

text \<open>
  What follows the prefix of a set in the key of an index row; the member rows of a map of scores; the rows of
  a set under a version; what its members cost.
\<close>

definition zkey :: "bytes \<Rightarrow> f64_bits \<Rightarrow> bytes" where
  "zkey f s = to_be64 (encode_score s) @ f"

definition score_rows :: "(bytes \<rightharpoonup> f64_bits) \<Rightarrow> bytes \<rightharpoonup> bytes" where
  "score_rows M = (\<lambda>f. map_option score_bytes (M f))"

definition zset_rows_at ::
  "(bytes \<rightharpoonup> bytes) \<Rightarrow> bytes \<Rightarrow> u16 \<Rightarrow> bytes \<Rightarrow> u64 \<Rightarrow> (bytes \<rightharpoonup> f64_bits) \<Rightarrow> bool"
where
  "zset_rows_at m ns slot key v M \<longleftrightarrow>
     coll m ns slot key v = score_rows M \<and>
     (\<forall>r. m (zscore_prefix ns slot key v @ r) = (if \<exists>f s. r = zkey f s \<and> M f = Some s then Some [] else None))"

definition zset_cost :: "(bytes \<rightharpoonup> f64_bits) \<Rightarrow> nat" where
  "zset_cost M = (\<Sum>f \<in> dom M. length f + 8)"

definition zset_counts :: "(bytes \<rightharpoonup> f64_bits) \<Rightarrow> ComplexMeta \<Rightarrow> bool" where
  "zset_counts M cm \<longleftrightarrow> finite (dom M) \<and> unat (cm_size cm) = card (dom M) \<and> unat (cm_bytes cm) = zset_cost M"

text \<open>The value of a sorted set, and when it is well formed: not empty, no score a NaN, the counters right.\<close>

definition zset_map :: "(bytes \<rightharpoonup> bytes) \<Rightarrow> bytes \<Rightarrow> u16 \<Rightarrow> bytes \<Rightarrow> ComplexMeta \<Rightarrow> bytes \<rightharpoonup> f64_bits" where
  "zset_map m ns slot key cm = (\<lambda>f. map_option score_of (coll m ns slot key (cm_version cm) f))"

definition zset_good :: "(bytes \<rightharpoonup> bytes) \<Rightarrow> bytes \<Rightarrow> u16 \<Rightarrow> bytes \<Rightarrow> ComplexMeta \<Rightarrow> bool" where
  "zset_good m ns slot key cm \<longleftrightarrow>
     (let M = zset_map m ns slot key cm
      in M \<noteq> Map.empty \<and> zset_rows_at m ns slot key (cm_version cm) M \<and> zset_counts M cm \<and>
         (\<forall>s \<in> ran M. \<not> f64_is_nan s))"

definition zset_kind :: "(ComplexMeta, bytes \<rightharpoonup> f64_bits) kind" where
  "zset_kind = \<lparr>k_type = ZSet, k_decode = cm_decode, k_header = cm_header,
     k_content = zset_map, k_good = zset_good, k_none = Map.empty\<rparr>"

text \<open>The state of an operation between its reads and its final metadata write.\<close>

definition zset_mid ::
  "('s \<Rightarrow> bytes \<rightharpoonup> bytes) \<Rightarrow> ('s \<Rightarrow> bool) \<Rightarrow> TypeStore \<Rightarrow> u16 \<Rightarrow> bytes \<Rightarrow> (bytes \<rightharpoonup> bytes) \<Rightarrow> u64 \<Rightarrow>
   ComplexMeta \<Rightarrow> (bytes \<rightharpoonup> f64_bits) \<Rightarrow> 's world \<Rightarrow> bool"
where
  "zset_mid f good S slot key m l cm M w \<longleftrightarrow>
     good (w_kv w) \<and> ns_ok (st_ns S) \<and> key_framed key \<and> versions_below (f (w_kv w)) (w_last w) \<and>
     only_rows (own_rows (st_ns S) slot key) m (f (w_kv w)) \<and> l \<le> w_last w \<and>
     cm_version cm \<le> w_last w \<and> mh_value_type (cm_header cm) = Some ZSet \<and>
     zset_rows_at (f (w_kv w)) (st_ns S) slot key (cm_version cm) M"

text \<open>
  The order of the index: the members in the order of the keys, and what comes before what.
\<close>

definition unzkey :: "bytes \<Rightarrow> bytes \<times> f64_bits" where
  "unzkey b = (drop 8 b, decode_score (of_be (take 8 b)))"

definition zlist :: "(bytes \<rightharpoonup> f64_bits) \<Rightarrow> (bytes \<times> f64_bits) list" where
  "zlist M = map unzkey (sorted_list_of_set {zkey f s | f s. M f = Some s})"

definition zbefore :: "bytes \<times> f64_bits \<Rightarrow> bytes \<times> f64_bits \<Rightarrow> bool" where
  "zbefore x y \<longleftrightarrow> f64_order (snd x) < f64_order (snd y) \<or> snd x = snd y \<and> fst x < fst y"

text \<open>A visitor of members run over a list of them.\<close>

fun visit_members :: "(bytes \<Rightarrow> f64_bits \<Rightarrow> 'a \<Rightarrow> bool \<times> 'a) \<Rightarrow> (bytes \<times> f64_bits) list \<Rightarrow> 'a \<Rightarrow> 'a" where
  "visit_members visit [] st = st"
| "visit_members visit ((m, s) # xs) st =
     (case visit m s st of (True, st') \<Rightarrow> visit_members visit xs st' | (False, st') \<Rightarrow> st')"

section \<open>Lemmas: index keys\<close>

lemma zkey_inject [simp]: "zkey f s = zkey f' s' \<longleftrightarrow> f = f' \<and> s = s'"
proof -
  have "encode_score s = encode_score s' \<longleftrightarrow> s = s'" by (metis decode_encode_score)
  then show ?thesis by (auto simp: zkey_def)
qed

lemma unzkey_zkey [simp]: "unzkey (zkey f s) = (f, s)"
  by (simp add: unzkey_def zkey_def)

lemma zkey_not_empty [simp]: "zkey f s \<noteq> []"
proof -
  have "length (zkey f s) \<noteq> 0" by (simp add: zkey_def)
  then show ?thesis by force
qed

lemma zscore_envelope_zkey: "zscore_envelope ns slot key v s f = zscore_prefix ns slot key v @ zkey f s"
  by (simp add: zscore_envelope_def zkey_def)

lemma zkey_less: "zkey f s < zkey f' s' \<longleftrightarrow> zbefore (f, s) (f', s')"
proof -
  have "encode_score s = encode_score s' \<longleftrightarrow> s = s'" by (metis decode_encode_score)
  then show ?thesis by (simp add: zkey_def zbefore_def to_be64_append_less encode_score_less)
qed

lemma subkey_not_zprefix [simp]:
  "subkey_envelope ns slot k v f \<noteq> zscore_prefix ns' slot' k' v' @ r" "zscore_prefix ns' slot' k' v' @ r \<noteq> subkey_envelope ns slot k v f"
  by (simp_all add: zscore_prefix_def subkey_envelope_def subkey_prefix_def)

section \<open>Lemmas: scores as bytes, maps of scores\<close>

lemma score_of_bytes [simp]: "score_of (score_bytes s) = s"
  by (simp add: score_of_def score_bytes_def)

lemma score_rows_simps [simp]:
  "score_rows M f = map_option score_bytes (M f)" "score_rows (M(f \<mapsto> s)) = (score_rows M)(f \<mapsto> score_bytes s)"
  "score_rows (M(f := None)) = (score_rows M)(f := None)" "score_rows Map.empty = Map.empty"
  by (auto simp: score_rows_def fun_eq_iff)

lemma zset_map_rows: "coll m ns slot key (cm_version cm) = score_rows M \<Longrightarrow> zset_map m ns slot key cm = M"
  by (simp add: zset_map_def option.map_comp comp_def option.map_ident)

lemma zset_goodI:
  assumes "zset_rows_at m ns slot key (cm_version cm) M" "M \<noteq> Map.empty" "zset_counts M cm" "\<forall>s \<in> ran M. \<not> f64_is_nan s"
  shows "zset_good m ns slot key cm"
  using assms zset_map_rows[of m ns slot key cm M] by (simp add: zset_good_def zset_rows_at_def)

lemma zset_cost_upd: "finite (dom M) \<Longrightarrow> M f = None \<Longrightarrow> zset_cost (M(f \<mapsto> s)) = zset_cost M + length f + 8"
  by (simp add: zset_cost_def domIff)

lemma zset_cost_same: "M f \<noteq> None \<Longrightarrow> zset_cost (M(f \<mapsto> s)) = zset_cost M"
  by (simp add: zset_cost_def insert_absorb domIff)

lemma zset_cost_del: "finite (dom M) \<Longrightarrow> M f \<noteq> None \<Longrightarrow> zset_cost (M(f := None)) + (length f + 8) = zset_cost M"
  by (simp add: zset_cost_def sum.remove[of "dom M" f] domIff)

interpretation zst: value_kind zset_kind
proof
  fix row meta
  show "k_decode zset_kind row = Some meta \<Longrightarrow> mh_decode row = Some (k_header zset_kind meta)"
    by (simp add: zset_kind_def cm_decode_header)
next
  fix ns key :: bytes and slot :: u16 and m' m :: "bytes \<rightharpoonup> bytes" and meta
  assume same: "\<And>k. k \<in> sub_rows ns slot key \<Longrightarrow> m' k = m k"
  have "coll m' ns slot key v = coll m ns slot key v"
    and "m' (zscore_prefix ns slot key v @ r) = m (zscore_prefix ns slot key v @ r)" for v r
    unfolding coll_def fun_eq_iff using same[unfolded sub_rows_def] by blast+
  then show "k_content zset_kind m' ns slot key meta = k_content zset_kind m ns slot key meta"
    and "k_good zset_kind m' ns slot key meta = k_good zset_kind m ns slot key meta"
    by (simp_all add: zset_kind_def zset_map_def zset_good_def zset_rows_at_def)
next
  fix m ns slot key meta
  show "k_good zset_kind m ns slot key meta \<Longrightarrow> k_content zset_kind m ns slot key meta \<noteq> k_none zset_kind"
    by (simp add: zset_kind_def zset_good_def Let_def)
qed

interpretation zst_mem: value_store mem_kv map_of mem_ok zset_kind
  by unfold_locales

lemma zset_kind_sel [simp]:
  "k_type zset_kind = ZSet" "k_decode zset_kind = cm_decode" "k_header zset_kind = cm_header"
  "k_content zset_kind = zset_map" "k_good zset_kind = zset_good" "k_none zset_kind = Map.empty"
  by (simp_all add: zset_kind_def)

section \<open>Lemmas: the rows of one member\<close>

lemma zset_rows_at_iff:
  "zset_rows_at m ns slot key v M \<longleftrightarrow> coll m ns slot key v = score_rows M \<and>
     (\<forall>f s. m (zscore_prefix ns slot key v @ zkey f s) = (if M f = Some s then Some [] else None)) \<and>
     (\<forall>r. (\<forall>f s. r \<noteq> zkey f s) \<longrightarrow> m (zscore_prefix ns slot key v @ r) = None)"
  unfolding zset_rows_at_def by (rule conj_cong[OF refl]) (auto, metis)

lemma zset_rows_put:
  assumes "ns_ok ns" "key_framed key" "zset_rows_at m ns slot key v M"
  shows "zset_rows_at (((case M f of Some old \<Rightarrow> m(zscore_envelope ns slot key v old f := None) | None \<Rightarrow> m)
      (subkey_envelope ns slot key v f \<mapsto> score_bytes s))(zscore_envelope ns slot key v s f \<mapsto> [])) ns slot key v (M(f \<mapsto> s))"
  using assms by (auto simp: zset_rows_at_iff coll_def fun_eq_iff zscore_envelope_zkey subkey_envelope_inject split: option.split)

lemma zset_rows_del:
  assumes "ns_ok ns" "key_framed key" "zset_rows_at m ns slot key v M" "M f = Some s"
  shows "zset_rows_at ((m(subkey_envelope ns slot key v f := None))(zscore_envelope ns slot key v s f := None)) ns slot key v (M(f := None))"
  using assms by (auto simp: zset_rows_at_iff coll_def fun_eq_iff zscore_envelope_zkey subkey_envelope_inject)

lemma versions_below_zscore:
  assumes "versions_below m l" "v \<le> l" "ns_ok ns" "key_framed key"
  shows "versions_below (m(zscore_envelope ns slot key v sc f := x)) l"
  using assms by (auto simp: versions_below_def split: if_splits)

context kv_store
begin

lemma zset_store: "value_store K abs ok zset_kind"
  by unfold_locales

lemma zset_read_error:
  assumes "ok (w_kv w)" "val_view zset_kind S slot key (rows w) (st_clock S (w_ticks w)) = Inl e"
  obtains w1 where "zset_read_meta K S slot key w = (Inl WrongType, w1)"
    "ok (w_kv w1)" "rows w1 = rows w" "w_last w1 = w_last w"
  by (rule value_store.read_error[OF zset_store assms]) (simp add: zset_read_meta_def)

lemma zset_read_cases:
  assumes "ok (w_kv w)" "val_ready zset_kind S slot key (rows w) (w_last w)"
    and view: "val_view zset_kind S slot key (rows w) (st_clock S (w_ticks w)) = Inr (e, M)"
  obtains (absent) w1 where "zset_read_meta K S slot key w = (Inr None, w1)"
      "ok (w_kv w1)" "w_last w1 = w_last w" "M = Map.empty" "e = 0"
      "val_post zset_kind S slot key (rows w) (w_last w) (rows w1) (w_last w1) (e, M)"
  | (present) cm w1 where "zset_read_meta K S slot key w = (Inr (Some cm), w1)"
      "zset_mid abs ok S slot key (rows w) (w_last w) cm M w1" "w_last w1 = w_last w" "M \<noteq> Map.empty"
      "zset_counts M cm" "mh_expire_ms (cm_header cm) = e" "\<forall>s \<in> ran M. \<not> f64_is_nan s"
      "val_post zset_kind S slot key (rows w) (w_last w) (rows w1) (w_last w1) (e, M)"
  using assms
proof (cases rule: value_store.read_cases[OF zset_store, consumes 3, case_names absent present])
  case (absent w1)
  then show ?thesis using that(1)[of w1] by (simp add: zset_read_meta_def)
next
  case (present cm w1)
  have R: "ns_ok (st_ns S)" "key_framed key" "versions_below (rows w) (w_last w)"
    using assms(2) by (simp_all add: val_ready_def)
  have good: "zset_rows_at (rows w) (st_ns S) slot key (cm_version cm) M" "zset_counts M cm" "\<forall>s \<in> ran M. \<not> f64_is_nan s"
    using present(6,7) by (simp_all add: zset_good_def Let_def)
  have "\<exists>f s. M f = Some s" using present(4) by (auto simp: fun_eq_iff)
  then have "coll (rows w) (st_ns S) slot key (cm_version cm) \<noteq> Map.empty"
    using good(1) by (auto simp: zset_rows_at_def fun_eq_iff)
  then have "cm_version cm \<le> w_last w"
    using versions_below_fresh[OF R(3) _ R(1,2), of "cm_version cm" slot] by (fastforce simp: not_le[symmetric])
  then have "zset_mid abs ok S slot key (rows w) (w_last w) cm M w1"
    using present good R by (simp add: zset_mid_def)
  then show ?thesis using that(2)[of cm w1] present good by (simp add: zset_read_meta_def)
qed

text \<open>What is at a member, and what writing or removing one does.\<close>

lemma mid_member:
  assumes "zset_mid abs ok S slot key m l cm M w"
  shows "w_get K w (field_key S slot key (cm_version cm) f) = map_option score_bytes (M f)"
  using assms by (simp add: zset_mid_def world field_key_def zset_rows_at_def coll_def fun_eq_iff)

lemma mid_put_member:
  assumes "zset_mid abs ok S slot key m l cm M w"
    and "w0 = (case M f of Some old \<Rightarrow> if old = s then w else snd (w_delete K w (index_key S slot key (cm_version cm) old f)) | None \<Rightarrow> w)"
  shows "zset_mid abs ok S slot key m l cm (M(f \<mapsto> s))
    (w_put K (w_put K w0 (field_key S slot key (cm_version cm) f) (score_bytes s)) (index_key S slot key (cm_version cm) s f) [])"
proof -
  note M = assms(1)[unfolded zset_mid_def]
  let ?z = "zscore_envelope (st_ns S) slot key (cm_version cm)"
  have "ok (w_kv w0) \<and> w_last w0 = w_last w \<and>
      rows w0 = (case M f of Some old \<Rightarrow> if old = s then rows w else (rows w)(?z old f := None) | None \<Rightarrow> rows w)"
    using M assms(2) by (auto simp: world index_key_def split: option.split)
  moreover have "zset_rows_at (((case M f of Some old \<Rightarrow> if old = s then rows w else (rows w)(?z old f := None) | None \<Rightarrow> rows w)
      (subkey_envelope (st_ns S) slot key (cm_version cm) f \<mapsto> score_bytes s))(?z s f \<mapsto> [])) (st_ns S) slot key (cm_version cm) (M(f \<mapsto> s))"
    using zset_rows_put[of "st_ns S" key "rows w" slot "cm_version cm" M f s] M
    by (cases "M f") (auto simp: fun_upd_twist fun_upd_idem_iff split: if_splits)
  ultimately show ?thesis
    using M unfolding zset_mid_def
    by (auto simp: world field_key_def index_key_def only_rows_upd versions_below_subkey versions_below_zscore split: option.split)
qed

lemma mid_del_member:
  assumes "zset_mid abs ok S slot key m l cm M w" "M f = Some s"
  shows "zset_mid abs ok S slot key m l cm (M(f := None))
    (snd (w_delete K (snd (w_delete K w (field_key S slot key (cm_version cm) f))) (index_key S slot key (cm_version cm) s f)))"
  using assms zset_rows_del[of "st_ns S" key "rows w" slot "cm_version cm" M f s]
  by (simp add: zset_mid_def world field_key_def index_key_def only_rows_upd versions_below_subkey versions_below_zscore)

end

context kv_store
begin

text \<open>The metadata row at the end of an operation that leaves members, and of one that leaves none.\<close>

lemma zset_commit:
  assumes mid: "zset_mid abs ok S slot key m l cm M w"
    and "M \<noteq> Map.empty" "zset_counts M cm" "mh_expire_ms (cm_header cm) = e" "\<forall>s \<in> ran M. \<not> f64_is_nan s"
  defines "w' \<equiv> w_put K (snd (read_clock S w)) (meta_key S slot key) (cm_encode (cm_touch cm (st_clock S (w_ticks w))))"
  shows "ok (w_kv w')" "val_post zset_kind S slot key m l (rows w') (w_last w') (e, M)"
proof -
  note M = mid[unfolded zset_mid_def]
  let ?cm = "cm_touch cm (st_clock S (w_ticks w))" and ?w = "snd (read_clock S w)"
  have dec: "cm_decode (cm_encode ?cm) = Some (cm_v2 ?cm)" using cm_decode_encode[of ?cm "[]"] by simp
  have vt: "mh_value_type (cm_header (cm_v2 ?cm)) = Some ZSet"
    using M by (simp add: mh_value_type_def from_flags_v2_flags)
  have at: "zset_rows_at (rows w) (st_ns S) slot key (cm_version (cm_v2 ?cm)) M" using M by simp
  have good: "zset_good (rows w) (st_ns S) slot key (cm_v2 ?cm)"
    by (rule zset_goodI[OF at assms(2)]) (use assms(3,5) in \<open>simp_all add: zset_counts_def\<close>)
  have "zset_map (rows w) (st_ns S) slot key (cm_v2 ?cm) = M"
    using at by (intro zset_map_rows) (simp add: zset_rows_at_def)
  then show "ok (w_kv w')" "val_post zset_kind S slot key m l (rows w') (w_last w') (e, M)"
    using value_store.commit[OF zset_store, of ?w S key slot m l "cm_encode ?cm" "cm_v2 ?cm" M e] M dec vt good assms(4)
    by (simp_all add: w'_def)
qed

lemma zset_drop:
  assumes "zset_mid abs ok S slot key m l cm M w"
  defines "w' \<equiv> snd (w_delete K w (meta_key S slot key))"
  shows "ok (w_kv w')" "val_post zset_kind S slot key m l (rows w') (w_last w') (e, Map.empty)"
  using value_store.uncommit(1)[OF zset_store, of w S key slot m l] value_store.uncommit(2)[OF zset_store, of w S key slot m l e] assms
  by (simp_all add: zset_mid_def)

lemma zset_settle:
  assumes mid: "zset_mid abs ok S slot key m l cm M w" and "zset_counts M' cm" "finite (dom M)"
    and removed: "unat removed + card (dom M) = card (dom M')" and bts: "unat bts = zset_cost M"
    and "mh_expire_ms (cm_header cm) = e" "\<forall>s \<in> ran M. \<not> f64_is_nan s"
  obtains w' where "settle_removed K S slot key cm removed bts w = (Inr removed, w')"
    "ok (w_kv w')" "val_post zset_kind S slot key m l (rows w') (w_last w') (e, M)"
proof -
  let ?cm = "cm\<lparr>cm_bytes := bts, cm_size := saturating_sub (cm_size cm) (ucast removed)\<rparr>"
  have "card (dom M') < 2 ^ 32" using assms(2) unsigned_less[of "cm_size cm", where 'a = nat] by (simp add: zset_counts_def)
  then have "unat (ucast removed :: u32) = unat removed"
    using removed by (simp add: unsigned_ucast_eq take_bit_nat_eq_self)
  then have size: "unat (cm_size ?cm) = card (dom M)"
    using assms(2) removed by (simp add: unat_saturating_sub zset_counts_def)
  have mid': "zset_mid abs ok S slot key m l ?cm M w" using mid by (simp add: zset_mid_def)
  show thesis
  proof (cases "M = Map.empty")
    case True
    then have "cm_size ?cm = 0" using size by (simp add: unat_eq_0)
    then show thesis using that zset_drop(1)[OF mid'] zset_drop(2)[OF mid', of e] True by (simp add: settle_removed_def Let_def)
  next
    case False
    then have ne: "cm_size ?cm \<noteq> 0" using size assms(3) by (metis card_0_eq dom_eq_empty_conv unat_0)
    have "zset_counts M ?cm" using size bts assms(3) by (simp add: zset_counts_def)
    note c = zset_commit[OF mid' False this, of e]
    show thesis using that c ne assms(6,7) by (simp add: settle_removed_def Let_def case_prod_beta)
  qed
qed

lemma zset_found_or_new:
  assumes "ok (w_kv w)" "val_ready zset_kind S slot key (rows w) (w_last w)" "clock_sane S (w_last w)"
    and "val_view zset_kind S slot key (rows w) (st_clock S (w_ticks w)) = Inr (e, M)"
  obtains found cm w1 w2 where "zset_read_meta K S slot key w = (Inr found, w1)"
    "found = None \<longleftrightarrow> M = Map.empty" "ok (w_kv w1)"
    "val_post zset_kind S slot key (rows w) (w_last w) (rows w1) (w_last w1) (e, M)"
    "found_or_new ZSet S found w1 = (cm, w2)" "zset_mid abs ok S slot key (rows w) (w_last w) cm M w2"
    "rows w2 = rows w1" "zset_counts M cm" "mh_expire_ms (cm_header cm) = e" "\<forall>s \<in> ran M. \<not> f64_is_nan s"
    "val_post zset_kind S slot key (rows w) (w_last w) (rows w2) (w_last w2) (e, M)"
  using assms(1,2,4)
proof (cases rule: zset_read_cases)
  case (absent w1)
  let ?p = "next_version (st_clock S (w_ticks w1)) (snd (read_clock S w1))"
  have R: "ns_ok (st_ns S)" "key_framed key" "versions_below (rows w1) (w_last w1)"
    "only_rows (own_rows (st_ns S) slot key) (rows w) (rows w1)" "w_last w \<le> w_last w1" "clock_sane S (w_last w1)"
    using absent(3,6) assms(2,3) by (simp_all add: val_post_def val_ready_def)
  note new = new_version[OF R(3,6,1,2)]
  have f: "found_or_new ZSet S None w1 = (cm_new ZSet (fst ?p), snd ?p)"
    by (simp add: found_or_new_def read_clock_def case_prod_beta)
  have "zset_mid abs ok S slot key (rows w) (w_last w) (cm_new ZSet (fst ?p)) Map.empty (snd ?p)"
    unfolding zset_mid_def zset_rows_at_def
    using new R absent(2) by (auto simp: mh_value_type_def)
  moreover have "zset_counts Map.empty (cm_new ZSet (fst ?p))" by (simp add: zset_counts_def zset_cost_def)
  moreover have "val_post zset_kind S slot key (rows w) (w_last w) (rows (snd ?p)) (w_last (snd ?p)) (e, M)"
    using absent(6) new(1,2,5) R(5) by (auto simp: val_post_def val_ready_def)
  ultimately show thesis using that[OF absent(1) _ absent(2,6) f] absent(4,5) new(1) by simp
next
  case (present cm w1)
  have "ok (w_kv w1)" using present(2) by (simp add: zset_mid_def)
  moreover have "found_or_new ZSet S (Some cm) w1 = (cm, w1)" by (simp add: found_or_new_def)
  ultimately show thesis using that[OF present(1)] present by simp
qed

end

section \<open>Lemmas: the order of the index\<close>

lemma sorted_list_of_set_eqI: "sorted_wrt (<) xs \<Longrightarrow> set xs = A \<Longrightarrow> sorted_list_of_set A = (xs :: 'a :: linorder list)"
  by (metis List.finite_set strict_sorted_equal strict_sorted_list_of_set set_sorted_list_of_set)

lemma zkeys_finite: "finite (dom M) \<Longrightarrow> finite {zkey f s | f s. M f = Some s}"
  by (rule finite_subset[of _ "(\<lambda>f. zkey f (the (M f))) ` dom M"]) (auto simp: image_iff dom_def)

lemma zlist_keys:
  assumes "finite (dom M)"
  shows "map (\<lambda>(f, s). zkey f s) (zlist M) = sorted_list_of_set {zkey f s | f s. M f = Some s}"
proof -
  have "\<exists>f s. k = zkey f s" if "k \<in> set (sorted_list_of_set {zkey f s | f s. M f = Some s})" for k
    using that set_sorted_list_of_set[OF zkeys_finite[OF assms]] by auto
  then have "map (\<lambda>x. case unzkey x of (f, s) \<Rightarrow> zkey f s) (sorted_list_of_set {zkey f s | f s. M f = Some s}) =
      sorted_list_of_set {zkey f s | f s. M f = Some s}"
    by (intro map_idI) fastforce
  then show ?thesis by (simp add: zlist_def comp_def)
qed

lemma set_zlist: "finite (dom M) \<Longrightarrow> set (zlist M) = {(f, s). M f = Some s}"
  using zkeys_finite[of M] by (auto simp: zlist_def image_iff) force

lemma sorted_zlist:
  assumes "finite (dom M)"
  shows "sorted_wrt zbefore (zlist M)"
proof -
  have "sorted_wrt (<) (map (\<lambda>(f, s). zkey f s) (zlist M))" unfolding zlist_keys[OF assms] by simp
  then show ?thesis by (simp add: sorted_wrt_map case_prod_beta zkey_less)
qed

lemma zbefore_irrefl: "\<not> zbefore x x"
  by (simp add: zbefore_def)

lemma zbefore_trans: "zbefore x y \<Longrightarrow> zbefore y z \<Longrightarrow> zbefore x z"
  by (auto simp: zbefore_def)

lemma distinct_sorted: "sorted_wrt zbefore xs \<Longrightarrow> distinct xs"
  by (induction xs) (auto simp: zbefore_irrefl)

lemma distinct_zlist: "finite (dom M) \<Longrightarrow> distinct (zlist M)"
  using sorted_zlist distinct_sorted by blast

lemma length_zlist: "finite (dom M) \<Longrightarrow> length (zlist M) = card (dom M)"
proof -
  assume fin: "finite (dom M)"
  have "set (zlist M) = (\<lambda>f. (f, the (M f))) ` dom M" unfolding set_zlist[OF fin] by (auto simp: image_iff dom_def)
  then have "card (set (zlist M)) = card (dom M)" by (simp add: card_image inj_on_def)
  then show ?thesis using distinct_card[OF distinct_zlist[OF fin]] by simp
qed

lemma zlist_empty [simp]: "zlist Map.empty = []"
  by (simp add: zlist_def)

text \<open>The index rows of a set from a key on, or up to it.\<close>

lemma index_rows:
  assumes "finite (dom m)" "zset_rows_at m ns slot key v M" "finite (dom M)"
  defines "p \<equiv> zscore_prefix ns slot key v"
  shows "map (\<lambda>(k, v). unzkey (drop (length p) k)) (rows_of m (\<lambda>k. prefix p k \<and> P (drop (length p) k))) =
    filter (\<lambda>(f, s). P (zkey f s)) (zlist M)"
proof -
  let ?Z = "{zkey f s | f s. M f = Some s}"
  have fin: "finite {z \<in> ?Z. P z}" using zkeys_finite[OF assms(3)] by simp
  have row: "m (p @ r) \<noteq> None \<longleftrightarrow> r \<in> ?Z" for r using assms(2) by (auto simp: zset_rows_at_def p_def)
  have "{k \<in> dom m. prefix p k \<and> P (drop (length p) k)} = (\<lambda>z. p @ z) ` {z \<in> ?Z. P z}"
  proof (intro set_eqI iffI)
    fix k assume "k \<in> {k \<in> dom m. prefix p k \<and> P (drop (length p) k)}"
    then obtain r where "k = p @ r" "m (p @ r) \<noteq> None" "P r" by (auto simp: prefix_def)
    then show "k \<in> (\<lambda>z. p @ z) ` {z \<in> ?Z. P z}" using row by blast
  next
    fix k assume "k \<in> (\<lambda>z. p @ z) ` {z \<in> ?Z. P z}"
    then obtain z where "k = p @ z" "z \<in> ?Z" "P z" by blast
    then show "k \<in> {k \<in> dom m. prefix p k \<and> P (drop (length p) k)}" using row[of z] by auto
  qed
  moreover have "sorted_list_of_set ((\<lambda>z. p @ z) ` {z \<in> ?Z. P z}) = map (\<lambda>z. p @ z) (sorted_list_of_set {z \<in> ?Z. P z})"
    by (rule sorted_list_of_set_eqI) (use fin in \<open>simp_all add: sorted_wrt_map lex_append_left\<close>)
  moreover have "sorted_list_of_set {z \<in> ?Z. P z} = filter P (sorted_list_of_set ?Z)"
    by (rule sorted_list_of_set_eqI) (use zkeys_finite[OF assms(3)] in \<open>auto simp: sorted_wrt_filter\<close>)
  ultimately have "map (\<lambda>(k, v). unzkey (drop (length p) k)) (rows_of m (\<lambda>k. prefix p k \<and> P (drop (length p) k))) =
      map unzkey (filter P (map (\<lambda>(f, s). zkey f s) (zlist M)))"
    by (simp add: rows_of_def comp_def zlist_keys[OF assms(3)])
  also have "\<dots> = filter (\<lambda>(f, s). P (zkey f s)) (zlist M)"
    by (simp add: filter_map comp_def case_prod_unfold)
  finally show ?thesis .
qed

lemma run_visits_members:
  "snd (run_visits (\<lambda>k v st. visit (fst (g k)) (snd (g k)) st) rws st) = visit_members visit (map (\<lambda>(k, v). g k) rws) st"
proof (induction rws arbitrary: st)
  case (Cons x rws)
  obtain k v where "x = (k, v)" by fastforce
  moreover obtain a b where "g k = (a, b)" by fastforce
  ultimately show ?case using Cons.IH by (auto split: prod.split bool.split)
qed simp

lemma seek_rows:
  assumes "a = (if seek = [] then [] else p @ (seek :: bytes))"
  shows "prefix p k \<and> (a = [] \<or> a < k) \<longleftrightarrow> prefix p k \<and> (seek = [] \<or> seek < drop (length p) k)"
    and "prefix p k \<and> (a = [] \<or> k < a) \<longleftrightarrow> prefix p k \<and> (seek = [] \<or> drop (length p) k < seek)"
  using assms by (auto simp: prefix_def)

context kv_store
begin

lemma zset_reads:
  assumes "ok (w_kv w)" "val_ready zset_kind S slot key (rows w) (w_last w)"
    and "val_view zset_kind S slot key (rows w) (st_clock S (w_ticks w)) = Inr (e, M)"
  obtains w1 where "w1 = snd (zset_read_meta K S slot key w)" "ok (w_kv w1)"
    and "val_post zset_kind S slot key (rows w) (w_last w) (rows w1) (w_last w1) (e, M)"
    and "finite (dom M)" "card (dom M) < 2 ^ 32" "\<forall>s \<in> ran M. \<not> f64_is_nan s"
    and "zcard K S slot key w = (Inr (word_of_nat (card (dom M))), w1)"
    and "zset_stored_bytes K S slot key w = (Inr (if M = Map.empty then None else Some (word_of_nat (zset_cost M))), w1)"
    and "\<And>f. zscore K S slot key f w = (Inr (M f), w1)"
    and "\<exists>found. zset_read_meta K S slot key w = (Inr found, w1) \<and> (found = None \<longleftrightarrow> M = Map.empty)"
  using assms
proof (cases rule: zset_read_cases)
  case (absent w1)
  then show thesis using that[of w1] by (simp add: zcard_def zscore_def zset_stored_bytes_def)
next
  case (present cm w1)
  have size: "card (dom M) = unat (cm_size cm)" "zset_cost M = unat (cm_bytes cm)" "finite (dom M)"
    using present(5) by (simp_all add: zset_counts_def)
  have words: "ucast (cm_size cm) = (word_of_nat (card (dom M)) :: u64)" "cm_bytes cm = word_of_nat (zset_cost M)"
    unfolding size by simp_all
  have "card (dom M) < 2 ^ 32" unfolding size using unsigned_less[of "cm_size cm", where 'a = nat] by simp
  moreover have ok: "ok (w_kv w1)" using present(2) by (simp add: zset_mid_def)
  moreover have member: "map_option score_of (w_get K w1 (field_key S slot key (cm_version cm) f)) = M f" for f
    by (cases "M f") (simp_all add: mid_member[OF present(2)])
  moreover have "zcard K S slot key w = (Inr (word_of_nat (card (dom M))), w1)"
    by (simp add: zcard_def present(1) words)
  moreover have "zset_stored_bytes K S slot key w = (Inr (if M = Map.empty then None else Some (word_of_nat (zset_cost M))), w1)"
    using present(4) by (simp add: zset_stored_bytes_def present(1) words)
  moreover have "zscore K S slot key f w = (Inr (M f), w1)" for f
    by (simp add: zscore_def present(1) member)
  moreover have "w1 = snd (zset_read_meta K S slot key w)" by (simp add: present(1))
  moreover have "\<exists>found. zset_read_meta K S slot key w = (Inr found, w1) \<and> (found = None \<longleftrightarrow> M = Map.empty)"
    using present(1,4) by blast
  ultimately show thesis using present(7,8) size(3) that[of w1] by blast
qed

lemma zset_wrongtype:
  assumes "ok (w_kv w)" "val_view zset_kind S slot key (rows w) (st_clock S (w_ticks w)) = Inl e"
  obtains w1 where "ok (w_kv w1)" "rows w1 = rows w" "w_last w1 = w_last w"
    and "\<And>pairs. zadd K S slot key pairs w = (Inl WrongType, w1)"
    and "\<And>pairs flags. zadd_with K S slot key pairs flags w = (Inl WrongType, w1)"
    and "\<And>ms. zrem K S slot key ms w = (Inl WrongType, w1)" "\<And>d f. zincr_by K S slot key d f w = (Inl WrongType, w1)"
    and "\<And>f. zscore K S slot key f w = (Inl WrongType, w1)" "\<And>f fs. zmscore K S slot key (f # fs) w = (Inl WrongType, w1)"
    and "zcard K S slot key w = (Inl WrongType, w1)" "zset_stored_bytes K S slot key w = (Inl WrongType, w1)"
    and "\<And>rws. zset_read_bytes K S slot key rws w = (Inl WrongType, w1)"
    and "\<And>mn mx. zcount K S slot key mn mx w = (Inl WrongType, w1)"
    and "\<And>mn mx. zlexcount K S slot key mn mx w = (Inl WrongType, w1)"
    and "\<And>f desc. zrank K S slot key f desc w = (Inl WrongType, w1)"
    and "\<And>n desc. zpop K S slot key n desc w = (Inl WrongType, w1)"
    and "\<And>a b. zrange K S slot key a b w = (Inl WrongType, w1)"
    and "\<And>a b desc. zrange_rev K S slot key a b desc w = (Inl WrongType, w1)"
    and "\<And>mn mx desc off n. zrange_by_score K S slot key mn mx desc off n w = (Inl WrongType, w1)"
    and "\<And>mn mx desc off n. zrange_by_lex K S slot key mn mx desc off n w = (Inl WrongType, w1)"
    and "\<And>mn mx. zremrangebyscore K S slot key mn mx w = (Inl WrongType, w1)"
    and "\<And>mn mx. zremrangebylex K S slot key mn mx w = (Inl WrongType, w1)"
    and "\<And>a b. zremrangebyrank K S slot key a b w = (Inl WrongType, w1)"
proof (rule zset_read_error[OF assms])
  fix w1 assume "zset_read_meta K S slot key w = (Inl WrongType, w1)" "ok (w_kv w1)" "rows w1 = rows w" "w_last w1 = w_last w"
  then show thesis
    by (intro that[of w1]) (simp_all add: zadd_def zadd_with_def zrem_def zincr_by_def zscore_def zcard_def zset_stored_bytes_def
        zset_read_bytes_def zcount_def zlexcount_def zrank_def zpop_def zrange_def zrange_rev_def rank_window_def walk_def
        zrange_by_score_def zrange_by_lex_def zremrangebyscore_def zremrangebylex_def zremrangebyrank_def)
qed

text \<open>Every walk runs its visitor over the members of the set in order, from where it seeks.\<close>

lemma walk:
  assumes "ok (w_kv w)" "val_ready zset_kind S slot key (rows w) (w_last w)"
    and "val_view zset_kind S slot key (rows w) (st_clock S (w_ticks w)) = Inr (e, M)"
  shows "walk K S slot key descending seek visit st w =
      (Inr (visit_members visit
        (if descending then rev (filter (\<lambda>(f, s). seek = [] \<or> zkey f s < seek) (zlist M))
         else filter (\<lambda>(f, s). seek = [] \<or> seek < zkey f s) (zlist M)) st), snd (zset_read_meta K S slot key w))"
  using assms
proof (cases rule: zset_read_cases)
  case (absent w1)
  then show ?thesis by (simp add: walk_def)
next
  case (present cm w1)
  let ?p = "zscore_prefix (st_ns S) slot key (cm_version cm)" and ?a = "if seek = [] then [] else zscore_prefix (st_ns S) slot key (cm_version cm) @ seek"
  have M: "ok (w_kv w1)" "zset_rows_at (rows w1) (st_ns S) slot key (cm_version cm) M" "finite (dom M)"
    using present(2,5) by (simp_all add: zset_mid_def zset_counts_def)
  note idx = index_rows[OF finite_abs[OF M(1)] M(2,3)] and sk = seek_rows[OF refl, of ?p _ seek]
  have "?a = [] \<or> ?p \<le> ?a" using prefix_le[of ?p "?p @ seek"] by simp
  from for_each_from[OF M(1) this]
  have up: "map (\<lambda>(k, v). unzkey (drop (length ?p) k)) (kv_for_each_from K (w_kv w1) ?p ?a) = filter (\<lambda>(f, s). seek = [] \<or> seek < zkey f s) (zlist M)"
    unfolding sk using idx[of "\<lambda>z. seek = [] \<or> seek < z"] by simp
  have down: "map (\<lambda>(k, v). unzkey (drop (length ?p) k)) (kv_for_each_before K (w_kv w1) ?p ?a) = rev (filter (\<lambda>(f, s). seek = [] \<or> zkey f s < seek) (zlist M))"
    unfolding for_each_before[OF M(1)] sk using idx[of "\<lambda>z. seek = [] \<or> z < seek"] by (simp add: rev_map[symmetric])
  have runs: "snd (run_visits (\<lambda>k v st. visit (drop 8 (drop (length ?p) k)) (decode_score (of_be (take 8 (drop (length ?p) k)))) st) rws st) =
      visit_members visit (map (\<lambda>(k, v). unzkey (drop (length ?p) k)) rws) st" for rws
    using run_visits_members[of visit "\<lambda>k. unzkey (drop (length ?p) k)" rws st] by (simp add: unzkey_def)
  show ?thesis
    unfolding walk_def present(1) prod.case sum.case option.case snd_conv Let_def runs
    by (cases descending) (simp_all only: if_True if_False up down)
qed

end

end
