(* ===== verification/Spec2Isabelle.thy ===== *)
theory Spec2Isabelle
  imports Flint_Slot Flint_Encoding Flint_Kv Flint_Batch Flint_Ints Flint_Store Flint_Hashes Flint_Sets Flint_Lists Flint_Glob Flint_S3Fifo Flint_Balance Flint_Sched Flint_Admission Flint_Keyspace Flint_Gc Flint_StringSpec Flint_ZSetOps
begin

text \<open>
  A verification development of the \<open>flint\<close> cache server (\<open>src/crates\<close>), a Redis-compatible store on
  an ordered key-value engine.

  \<^bold>\<open>The parts and how they interact.\<close> A command names a key. \<open>flint-slot\<close> maps the key to one of
  16384 slots. \<open>flint-storage\<close> keeps every value as rows of an ordered byte-string store (the trait
  \<open>Kv\<close>): a metadata row per key, and subkey and score rows under the version that the metadata names.
  The typed stores (strings, hashes, sets, lists, sorted sets) and the keyspace (commands for a key of any type) are
  programs over \<open>Kv\<close>, a clock and a version counter; a command that must commit as one runs on
  \<open>BatchingKv\<close>, an overlay whose buffer is applied at the end. Replacing or deleting a value only changes its
  metadata row; the sweeper of \<open>gc.rs\<close> removes what no live metadata claims. Around the stores are the
  eviction policy, the admission of large reads, the background scheduler and the choice of what to
  move between nodes.

  \<^bold>\<open>Which theory models what.\<close>
  \<^item> \<open>Flint_Prelude\<close>: bytes, words, big-endian numbers, lists, options; the collection \<open>flint_eval\<close>.
  \<^item> \<open>Flint_Slot\<close>: \<open>flint-slot/src/lib.rs\<close>, CRC16, hash tags, \<open>slot_for_key\<close>; the reference is a remainder of
    polynomials over the bits.
  \<^item> \<open>Flint_Encoding\<close>: \<open>encoding.rs\<close>, the row keys, the metadata rows of every type, the
    order-preserving encodings, versions.
  \<^item> \<open>Flint_Kv\<close>: \<open>lib.rs\<close>, the trait \<open>Kv\<close> as a record of functions, \<open>MemKv\<close> with its chunked scans,
    \<open>ReadOnlyKv\<close>. The locales \<open>kv_reader\<close>, \<open>kv_store\<close> and \<open>kv_clearable\<close> are the contract of the trait:
    an abstraction to a finite map and an invariant, with the laws of each operation. \<open>MemKv\<close>,
    \<open>ReadOnlyKv\<close> and \<open>BatchingKv\<close> (\<open>Flint_Batch\<close>, \<open>batch.rs\<close>) interpret them.
  \<^item> \<open>Flint_Ints\<close>: the integers of the protocol (\<open>parse_redis_i64\<close> of \<open>strings.rs\<close>).
  \<^item> \<open>Flint_Store\<close> and \<open>Flint_Value\<close>: what the typed stores share. The state of a command is a \<open>world\<close>: the
    store, the last version handed out, and the number of times the clock was read. A clock is a
    function of that number, so every reading may differ; hypotheses say what a lemma needs of it.
    A field map, list or string \<^emph>\<open>view\<close> is what a reader at a time sees; \<open>coll_post\<close>, \<open>val_post\<close> and
    \<open>str_post\<close> say that a command leaves a value: every later reader sees it until it expires, the
    invariants hold, no row of another key has changed, the version counter has not gone back.
  \<^item> \<open>Flint_Hashes\<close>, \<open>Flint_Sets\<close>, \<open>Flint_Lists\<close>: \<open>hashes.rs\<close>, \<open>sets.rs\<close>, \<open>lists.rs\<close>, each command as one
    definition, proved in the context of \<open>kv_store\<close> and so for every store that keeps the contract.
  \<^item> \<open>Flint_Float\<close>: the comparisons and the addition of \<open>f64\<close> on bit patterns, tied to the real numbers the
    patterns stand for. \<open>Flint_ZSets\<close>: \<open>zsets.rs\<close>, every command of the sorted sets; \<open>Flint_ZSetOps\<close> proves that
    the members' rows and the index rows stay in step and that every walk of the index visits the
    members in order of score and member.
  \<^item> \<open>Flint_Bits\<close>: the bit functions of \<open>strings.rs\<close>; the locale \<open>bit_buf\<close> is the contract of the trait
    \<open>BitBuf\<close>, and a plain byte list is the reference.
  \<^item> \<open>Flint_Strings\<close>: the string store of \<open>strings.rs\<close>, inline and chunked. \<open>Flint_StringOps\<close> proves what reading,
    writing and growing a stored string does to its bytes, and interprets \<open>bit_buf\<close> on the views a
    command writes through; \<open>Flint_StringSpec\<close> states every command on the bytes.
  \<^item> \<open>Flint_Keyspace\<close>: \<open>keyspace.rs\<close>. \<open>Flint_Gc\<close>: \<open>gc.rs\<close>; what other writers do while the sweeper waits for a lock
    and which rows a scan shows meanwhile are parameters. \<open>Flint_Glob\<close>: \<open>flint-server/src/glob.rs\<close>.
  \<^item> \<open>Flint_S3Fifo\<close>: \<open>s3fifo.rs\<close>. \<open>Flint_Admission\<close>: \<open>admission.rs\<close>, sequential and as an interleaving of threads.
    \<open>Flint_Sched\<close>: \<open>flint-sched\<close>. \<open>Flint_Balance\<close>: \<open>flint-balance\<close>.

  \<^bold>\<open>What the lemmas show.\<close> Encodings are injective, decode what they encode and order rows as their
  contents. \<open>MemKv\<close> is a finite map and \<open>BatchingKv\<close> is invisible. Each command of each typed store is
  the operation on the map, set, list or byte string it stands for, on every branch, errors included,
  with its counters right and other keys untouched. The sweep removes exactly the dead rows and
  no live one, whatever others do. The matcher of glob patterns ends and decides the language. The
  eviction policy keeps its accounts after any sequence of operations. In this theory are the
  properties that span components: a key has one type and all stores respect it, a sweep hides
  nothing from any store, a batched command takes effect at its commit.

  \<^bold>\<open>Bounds and fuel.\<close> Machine integers keep their width; a hypothesis such as \<open>card (dom F) < 2 ^ 32\<close> excludes
  the wrap of a counter that the code does not check. A string is at most \<open>str_limit\<close> bytes, what its
  32-bit chunk index addresses, and at most \<open>2 ^ 60\<close>. \<open>clock_sane\<close> says that the version counter can
  still advance. Loops are structural or have a termination proof; the glob matcher is
  proved to end. The rounds of an eviction are bounded in the source, and the model keeps that bound.

  \<^bold>\<open>Not modelled.\<close> The float commands (INCRBYFLOAT, HINCRBYFLOAT) and the text of a score bound parse and print \<open>f64\<close>.
  Streams, Bloom filters, HyperLogLog and JSON have rows modelled but not their commands. The
  wire protocol, the network and thread code of the server, the proxy and the control plane, the
  RocksDB bindings and the replication log, TLS, backup and journal I/O, and the vector search with its
  floating-point and SIMD kernels are input and output, third-party code or floating point. A lock is
  never poisoned and an allocation never fails.
\<close>

section \<open>Notions the properties use\<close>

text \<open>A command that answered \<open>WRONGTYPE\<close> and left every row as it was.\<close>

definition refused :: "('s \<Rightarrow> bytes \<rightharpoonup> bytes) \<Rightarrow> 's world \<Rightarrow> (StoreError + 'a) \<times> 's world \<Rightarrow> bool" where
  "refused \<alpha> w answer \<longleftrightarrow> fst answer = Inl WrongType \<and> \<alpha> (w_kv (snd answer)) = \<alpha> (w_kv w)"

section \<open>Lemmas: one type to a key\<close>

lemma typed_row_other:
  assumes "live_row m now mk = Some (h, row)" "mh_value_type h = Some t" "t \<noteq> t'"
  shows "typed_row t' decode m now mk = Inl WrongType"
  using assms by (auto simp: live_row_def typed_row_def split: option.splits if_splits)

lemma str_view_other:
  assumes "live_row m now (str_meta_key S slot key) = Some (h, row)" "mh_value_type h = Some t"
    and "t \<noteq> StringT" "t \<noteq> ChunkedString"
  shows "str_view S slot key m now = Inl WrongType"
  using assms by (auto simp: live_row_def str_view_def classify_def split: option.splits if_splits)

section \<open>Lemmas: the sweep and the views\<close>

lemma expired_later: "mh_is_expired h now \<Longrightarrow> now \<le> now' \<Longrightarrow> mh_is_expired h now'"
  by (auto simp: mh_is_expired_iff)

text \<open>What a reader at the time of the sweep or later can tell of the row of a key and of its version.\<close>

lemma swept_meta:
  assumes "ns_ok ns" "key_framed key" "now \<le> now'"
  shows "live_row (swept now m) now' (envelope Metadata ns slot key) = live_row m now' (envelope Metadata ns slot key)"
proof -
  let ?mk = "envelope Metadata ns slot key"
  have p: "parse_subkey_envelope ?mk = None" by simp
  show ?thesis
  proof (cases "dead now m ?mk")
    case True
    then have "row_expired now (m ?mk)" by (simp add: dead_def dead_meta_def dead_sub_def p)
    then show ?thesis
      using True expired_later[OF _ assms(3)]
      by (auto simp: swept_def live_row_def row_expired_def split: option.splits)
  qed (simp add: swept_def live_row_def)
qed

lemma swept_row:
  assumes "ns_ok ns" "key_framed key" "now \<le> now'"
    and "live_row m now' (envelope Metadata ns slot key) = Some (h, row)" "cm_decode row = Some cm"
  shows "swept now m (subkey_envelope ns slot key (cm_version cm) f) = m (subkey_envelope ns slot key (cm_version cm) f)"
proof -
  have "live_version now (m (envelope Metadata ns slot key)) = Some (cm_version cm)"
    using assms(4,5) expired_later[OF _ assms(3)]
    by (auto simp: live_row_def live_version_def split: option.splits if_splits)
  moreover have p: "parse_subkey_envelope (subkey_envelope ns slot key (cm_version cm) f) = Some (ns, slot, key, cm_version cm)"
    using assms(1,2) by simp
  ultimately have "\<not> dead now m (subkey_envelope ns slot key (cm_version cm) f)"
    using parse_subkey_head[OF p] parse_meta_envelope_head[of "subkey_envelope ns slot key (cm_version cm) f"]
    by (auto simp: dead_def dead_meta_def dead_sub_def)
  then show ?thesis by (simp add: swept_def)
qed

lemma typed_row_live:
  "typed_row t decode m now mk =
     (case live_row m now mk of
        None \<Rightarrow> Inr None
      | Some (h, row) \<Rightarrow>
          if mh_value_type h \<noteq> Some t then Inl WrongType
          else (case decode row of None \<Rightarrow> Inl WrongType | Some meta \<Rightarrow> Inr (Some meta)))"
  by (auto simp: typed_row_def live_row_def split: option.splits)

lemma str_view_row_live:
  "str_view S slot key m now =
     (case live_row m now (str_meta_key S slot key) of
        None \<Rightarrow> Inr None
      | Some (h, row) \<Rightarrow>
          (case classify 0 (Some row) of
             WrongTyped \<Rightarrow> Inl WrongType
           | Live s \<Rightarrow> Inr (Some (stored_expire s, stored_text S slot key m s))
           | _ \<Rightarrow> Inr None))"
  by (auto simp: str_view_def classify_def live_row_def split: option.splits)

section \<open>Lemmas: the store below a batch\<close>

lemma under_w [simp]:
  "bk_under (w_kv (w_put (batching_kv K) w k v)) = bk_under (w_kv w)"
  "bk_under (w_kv (snd (w_delete (batching_kv K) w k))) = bk_under (w_kv w)"
  by (simp_all add: w_put_def w_delete_def batching_kv_def bk_put_def bk_delete_def)

lemma under_put_chunks [simp]:
  "bk_under (w_kv (put_chunks (batching_kv K) S slot key v i parts w)) = bk_under (w_kv w)"
  by (induction parts arbitrary: i w) simp_all

lemma under_put_value [simp]: "bk_under (w_kv (put_value (batching_kv K) S slot key p e w)) = bk_under (w_kv w)"
  by (simp add: put_value_def Let_def read_clock_def next_version_def)

lemma under_str_set [simp]: "bk_under (w_kv (snd (str_set (batching_kv K) S slot key val opts w))) = bk_under (w_kv w)"
  by (auto simp: str_set_def read_live_header_def read_clock_def Let_def split: option.split)

lemma under_read_meta [simp]:
  "bk_under (w_kv (snd (read_typed_meta t decode (batching_kv K) S slot key w))) = bk_under (w_kv w)"
  by (auto simp: read_typed_meta_def read_clock_def Let_def split: option.split)

lemma under_hset_write [simp]:
  "bk_under (w_kv (hset_write (batching_kv K) S slot key v pairs w)) = bk_under (w_kv w)"
  by (induction pairs arbitrary: w) auto

lemma under_hset [simp]: "bk_under (w_kv (snd (hset (batching_kv K) S slot key pairs w))) = bk_under (w_kv w)"
proof (cases "read_typed_meta Hash cm_decode (batching_kv K) S slot key w")
  case (Pair r w1)
  then have "bk_under (w_kv w1) = bk_under (w_kv w)"
    using under_read_meta[of Hash cm_decode K S slot key w] by simp
  then show ?thesis
    using Pair
    by (auto simp: hset_def hash_read_meta_def found_or_new_def read_clock_def next_version_def Let_def
        split: sum.split option.split prod.splits)
qed

section \<open>Properties across components\<close>

text \<open>
  C9. A key has one type, and every store respects it. On a live key \<open>TYPE\<close> answers the type its row
  has, and the commands of the stores of every other type answer \<open>WRONGTYPE\<close> and change no row. The
  exceptions are those of the code: \<open>SET\<close>, \<open>sreplace\<close> and \<open>zreplace\<close> (the destination of a \<open>STORE\<close> command)
  overwrite any type and are not listed, \<open>SPOP\<close> of no members and the reads of an empty list of members do not look at the
  key, \<open>SMOVE\<close> is listed for its source and the set algebra for its first key.
\<close>

theorem type_guards_every_store:
  assumes "kv_store K \<alpha> ok" "ok (w_kv w)" "ss_store SS = S"
    and "live_row (\<alpha> (w_kv w)) (st_clock S (w_ticks w)) (meta_key S slot key) = Some (h, row)" "mh_value_type h = Some t"
  shows "(\<exists>w1. ks_value_type K S slot key w = (Some t, w1) \<and> \<alpha> (w_kv w1) = \<alpha> (w_kv w)) \<and>
    (t \<noteq> Hash \<longrightarrow>
      refused \<alpha> w (hset K S slot key pairs w) \<and> refused \<alpha> w (hsetnx K S slot key f v w) \<and> refused \<alpha> w (hdel K S slot key fs w) \<and>
      refused \<alpha> w (hincr_by K S slot key f d w) \<and> refused \<alpha> w (hget K S slot key f w) \<and> refused \<alpha> w (hmget K S slot key fs w) \<and>
      refused \<alpha> w (hgetall K S slot key w) \<and> refused \<alpha> w (hlen K S slot key w) \<and> refused \<alpha> w (hexists K S slot key f w) \<and>
      refused \<alpha> w (hstrlen K S slot key f w) \<and> refused \<alpha> w (hash_stored_bytes K S slot key w)) \<and>
    (t \<noteq> Set \<longrightarrow>
      refused \<alpha> w (sadd K S slot key fs w) \<and> refused \<alpha> w (srem K S slot key fs w) \<and> refused \<alpha> w (sismember K S slot key f w) \<and>
      refused \<alpha> w (smismember K S slot key (f # fs) w) \<and> refused \<alpha> w (scard K S slot key w) \<and> refused \<alpha> w (smembers K S slot key w) \<and>
      refused \<alpha> w (set_stored_bytes K S slot key w) \<and> (n \<noteq> 0 \<longrightarrow> refused \<alpha> w (spop K S rnd slot key n w)) \<and>
      refused \<alpha> w (srandmember K S rnd slot key c w) \<and> refused \<alpha> w (smove K S slot key dst f w) \<and>
      refused \<alpha> w (sop K S slot op (key # keys) w)) \<and>
    (t \<noteq> List \<longrightarrow>
      refused \<alpha> w (push K S slot key fs left w) \<and> refused \<alpha> w (push_existing K S slot key fs left w) \<and>
      refused \<alpha> w (pop K S slot key left w) \<and> refused \<alpha> w (pop_n K S slot key cnt left w) \<and> refused \<alpha> w (llen K S slot key w) \<and>
      refused \<alpha> w (lindex K S slot key i w) \<and> refused \<alpha> w (lset K S slot key i v w) \<and> refused \<alpha> w (lrange K S slot key i j w) \<and>
      refused \<alpha> w (ltrim K S slot key i j w) \<and> refused \<alpha> w (lrem K S slot key i v w) \<and>
      refused \<alpha> w (linsert K S slot key before f v w) \<and> refused \<alpha> w (lpos K S slot key f rank found most w) \<and>
      refused \<alpha> w (range_bytes K S slot key i j w)) \<and>
    (t \<noteq> ZSet \<longrightarrow>
      refused \<alpha> w (zadd K S slot key scores w) \<and> refused \<alpha> w (zadd_with K S slot key scores flags w) \<and> refused \<alpha> w (zrem K S slot key fs w) \<and>
      refused \<alpha> w (zincr_by K S slot key sc f w) \<and> refused \<alpha> w (zscore K S slot key f w) \<and> refused \<alpha> w (zmscore K S slot key (f # fs) w) \<and>
      refused \<alpha> w (zcard K S slot key w) \<and> refused \<alpha> w (zset_stored_bytes K S slot key w) \<and> refused \<alpha> w (zset_read_bytes K S slot key wanted w) \<and>
      refused \<alpha> w (zcount K S slot key mn mx w) \<and> refused \<alpha> w (zlexcount K S slot key lmn lmx w) \<and> refused \<alpha> w (zrank K S slot key f desc w) \<and>
      refused \<alpha> w (zpop K S slot key m desc w) \<and> refused \<alpha> w (zrange K S slot key i j w) \<and> refused \<alpha> w (zrange_rev K S slot key i j desc w) \<and>
      refused \<alpha> w (zrange_by_score K S slot key mn mx desc i j w) \<and> refused \<alpha> w (zrange_by_lex K S slot key lmn lmx desc i j w) \<and>
      refused \<alpha> w (zremrangebyscore K S slot key mn mx w) \<and> refused \<alpha> w (zremrangebylex K S slot key lmn lmx w) \<and>
      refused \<alpha> w (zremrangebyrank K S slot key i j w)) \<and>
    (t \<noteq> StringT \<longrightarrow> t \<noteq> ChunkedString \<longrightarrow>
      refused \<alpha> w (str_get K SS slot key w) \<and> refused \<alpha> w (get_del K SS slot key w) \<and> refused \<alpha> w (getex K SS slot key x w) \<and>
      refused \<alpha> w (incr_by K SS slot key d w) \<and> refused \<alpha> w (str_append K SS slot key v w) \<and> refused \<alpha> w (strlen K SS slot key w) \<and>
      refused \<alpha> w (getrange K SS slot key i j w) \<and> refused \<alpha> w (setrange K SS slot key off v w) \<and>
      refused \<alpha> w (setbit K SS slot key boff on w) \<and> refused \<alpha> w (getbit K SS slot key boff w) \<and> refused \<alpha> w (bitfield K SS slot key ops w) \<and>
      refused \<alpha> w (bitcount K SS slot key r w) \<and> refused \<alpha> w (bitpos K SS slot key on r' w))"
    (is "?tp \<and> (_ \<longrightarrow> ?hashes) \<and> (_ \<longrightarrow> ?sets) \<and> (_ \<longrightarrow> ?lists) \<and> (_ \<longrightarrow> ?zsets) \<and> (_ \<longrightarrow> _ \<longrightarrow> ?strings)")
proof -
  let ?now = "st_clock S (w_ticks w)"
  note K = kv_store.read_live_row[OF assms(1,2), of S slot key]
  have "reaped (\<alpha> (w_kv w)) ?now (meta_key S slot key) = \<alpha> (w_kv w)"
    using assms(4) by (auto simp: reaped_def live_row_def split: option.splits if_splits)
  then have tp: ?tp
    using assms(4,5) by (rule_tac K) (simp add: ks_value_type_def)
  have view: "coll_view t' S slot key (\<alpha> (w_kv w)) ?now = Inl WrongType" if "t \<noteq> t'" for t'
    using typed_row_other[OF assms(4,5) that, of cm_decode] by (simp add: coll_view_def)
  have hashes: ?hashes if "t \<noteq> Hash"
    by (rule kv_store.hash_wrongtype[OF assms(1,2) view[OF that]]) (simp add: refused_def)
  have sets: ?sets if "t \<noteq> Set"
    by (rule kv_store.set_wrongtype[OF assms(1,2) view[OF that]]) (simp add: refused_def)
  have lists: ?lists if "t \<noteq> List"
  proof -
    have "val_view list_kind S slot key (\<alpha> (w_kv w)) ?now = Inl WrongType"
      using typed_row_other[OF assms(4,5) that, of lm_decode] by (simp add: val_view_def list_kind_def)
    then show ?thesis by (rule kv_store.list_wrongtype[OF assms(1,2)]) (simp add: refused_def)
  qed
  have zsets: ?zsets if "t \<noteq> ZSet"
  proof -
    have "val_view zset_kind S slot key (\<alpha> (w_kv w)) ?now = Inl WrongType"
      using typed_row_other[OF assms(4,5) that, of cm_decode] by (simp add: val_view_def)
    then show ?thesis by (rule kv_store.zset_wrongtype[OF assms(1,2)]) (simp add: refused_def)
  qed
  have strings: ?strings if "t \<noteq> StringT" "t \<noteq> ChunkedString"
  proof -
    have "str_view SS slot key (\<alpha> (w_kv w)) (st_clock (ss_store SS) (w_ticks w)) = Inl WrongType"
      using str_view_other[of _ _ SS] assms(3-5) that by simp
    then show ?thesis by (rule kv_store.str_wrong_type[OF assms(1,2)]) (simp add: refused_def)
  qed
  from tp hashes sets lists zsets strings show ?thesis by blast
qed

theorem type_guards_every_store_witness:
  "fst (ks_value_type mem_kv test_store 0 [97] one_hash) = Some Hash \<and>
   refused map_of one_hash (push mem_kv test_store 0 [97] [[1]] True one_hash) \<and>
   refused map_of one_hash (spop mem_kv test_store (\<lambda>_. 0) 0 [97] 2 one_hash) \<and>
   refused map_of one_hash (zrange mem_kv test_store 0 [97] 0 3 one_hash) \<and>
   refused map_of one_hash (str_append mem_kv (test_strings\<lparr>ss_store := test_store\<rparr>) 0 [97] [1] one_hash)"
proof -
  let ?SS = "test_strings\<lparr>ss_store := test_store\<rparr>"
  have t: "mh_value_type (cm_header (cm_v2 (cm_new Hash 5))) = Some Hash" by code_simp
  have s: "ss_store ?SS = test_store" by simp
  note p = type_guards_every_store[OF mem.kv_store_axioms one_hash(1) s one_hash(3) t]
  have "fst (ks_value_type mem_kv test_store 0 [97] one_hash) = Some Hash"
    using p[THEN conjunct1] by auto
  moreover have "refused map_of one_hash (push mem_kv test_store 0 [97] [[1]] True one_hash)"
    using p[where fs = "[[1]]" and left = True] by simp
  moreover have "refused map_of one_hash (spop mem_kv test_store (\<lambda>_. 0) 0 [97] 2 one_hash)"
    using p[where rnd = "\<lambda>_. 0" and n = 2] by simp
  moreover have "refused map_of one_hash (zrange mem_kv test_store 0 [97] 0 3 one_hash)"
    using p[where i = 0 and j = 3] by simp
  moreover have "refused map_of one_hash (str_append mem_kv ?SS 0 [97] [1] one_hash)"
    using p[where v = "[1]"] by simp
  ultimately show ?thesis by blast
qed

text \<open>
  C7. A sweep hides nothing: whatever the store holds, every reader at the time of the sweep or later
  sees at every key the hash, the set, the list or the string it would have seen without the sweep,
  although the expired rows and the rows of replaced versions are gone.
\<close>

theorem sweep_hides_nothing:
  assumes "kv_store K \<alpha> ok" "ok s" "ns_ok (st_ns S)" "key_framed key" "now \<le> now'" "ss_store SS = S"
  shows "\<exists>report s'. sweep K now unguarded s = (report, s') \<and> ok s' \<and>
    live_row (\<alpha> s') now' (meta_key S slot key) = live_row (\<alpha> s) now' (meta_key S slot key) \<and>
    coll_view t S slot key (\<alpha> s') now' = coll_view t S slot key (\<alpha> s) now' \<and>
    val_view list_kind S slot key (\<alpha> s') now' = val_view list_kind S slot key (\<alpha> s) now' \<and>
    str_view SS slot key (\<alpha> s') now' = str_view SS slot key (\<alpha> s) now'"
proof -
  let ?m = "\<alpha> s" and ?m' = "swept now (\<alpha> s)" and ?mk = "envelope Metadata (st_ns S) slot key"
  obtain report s' where s': "sweep K now unguarded s = (report, s')" "ok s'" "\<alpha> s' = ?m'"
    by (rule kv_store.sweep_alone[OF assms(1,2)]) blast
  note mk = swept_meta[OF assms(3-5), of ?m slot]
  have sub: "?m' (subkey_envelope (st_ns S) slot key (cm_version cm) f) = ?m (subkey_envelope (st_ns S) slot key (cm_version cm) f)"
    if "live_row ?m now' ?mk = Some (h, row)" "cm_decode row = Some cm" for h row cm f
    using swept_row[OF assms(3-5) that] .
  have "coll_view t S slot key ?m' now' = coll_view t S slot key ?m now'"
    using sub by (auto simp: coll_view_def typed_row_live meta_key_def mk coll_def split: option.splits)
  moreover have "val_view list_kind S slot key ?m' now' = val_view list_kind S slot key ?m now'"
    using sub by (auto simp: val_view_def list_kind_def typed_row_live meta_key_def mk list_rows_def coll_def lm_decode_def Let_def
        split: option.splits if_splits)
  moreover have "str_view SS slot key ?m' now' = str_view SS slot key ?m now'"
    using sub assms(6)
    by (auto simp: str_view_row_live meta_key_def mk classify_def stored_text_def chunk_text_def row_byte_def chunk_row_def chunk_key_def
        fun_eq_iff split: option.splits if_splits)
  ultimately show ?thesis using s' mk by (simp add: meta_key_def)
qed

theorem sweep_hides_nothing_witness:
  "live_row (map_of (snd (sweep mem_kv 3 unguarded (w_kv one_hash)))) 7 (meta_key test_store 0 [97]) =
     Some (cm_header (cm_v2 (cm_new Hash 5)), cm_encode (cm_new Hash 5))"
proof -
  have "ns_ok (st_ns test_store)" "key_framed [97]" "(3 :: u64) \<le> 7" "ss_store (test_strings\<lparr>ss_store := test_store\<rparr>) = test_store"
    by (simp_all add: test_store_def store_new_def with_max_value_bytes_def ns_ok_def key_framed_def word_le_nat_alt)
  from sweep_hides_nothing[OF mem.kv_store_axioms one_hash(1) this, of 0 Hash] show ?thesis using one_hash(3)[of 7] by auto
qed

text \<open>
  C11. A batched command takes effect at its commit and not before. SET and HSET run through the
  batching overlay over any store leave that store as it was; applying the buffered mutations to it
  gives a store in which the key holds the value, or the hash its updated fields, and nothing else has
  changed, exactly as when the command runs on the store itself.
\<close>

theorem batched_command_commits:
  assumes "kv_store K \<alpha> ok" "ok s" "w = \<lparr>w_kv = bk_new s, w_last = l, w_ticks = n\<rparr>" "clock_sane S l" "ss_store SS = S"
  shows "(str_ready SS slot key (\<alpha> s) l \<and> length val \<le> unat (st_max_value_bytes S) \<longrightarrow>
    (\<exists>w'. str_set (batching_kv K) SS slot key val \<lparr>so_nx = False, so_xx = False, so_expiry = AtMs e\<rparr> w = (Inr Done, w') \<and>
      bk_under (w_kv w') = s \<and>
      (let s' = apply_writes K (into_ops (w_kv w')) s
       in ok s' \<and> str_post SS slot key (\<alpha> s) l (\<alpha> s') (w_last w') (Some (e, val))))) \<and>
    (coll_ready Hash hash_cost S slot key (\<alpha> s) l \<and> coll_view Hash S slot key (\<alpha> s) (st_clock S n) = Inr (e, F) \<and> pairs \<noteq> [] \<and> card (dom F) + length pairs < 2 ^ 32 \<and> total hash_cost F + pairs_cost pairs < 2 ^ 64 \<and> total hash_cost (F ++ map_of (rev pairs)) \<le> unat (st_max_value_bytes S) \<longrightarrow>
    (\<exists>w'. hset (batching_kv K) S slot key pairs w = (Inr (word_of_nat (card (dom (F ++ map_of (rev pairs))) - card (dom F))), w') \<and>
      bk_under (w_kv w') = s \<and>
      (let s' = apply_writes K (into_ops (w_kv w')) s
       in ok s' \<and> coll_post Hash hash_cost S slot key (\<alpha> s) l (\<alpha> s') (w_last w') (e, F ++ map_of (rev pairs)))))" (is "(_ \<longrightarrow> ?set) \<and> (_ \<longrightarrow> ?hset)")
proof -
  let ?B = "batching_kv K" and ?abs = "\<lambda>b. overlay (bk_buf b) (\<alpha> (bk_under b))" and ?ok = "\<lambda>b. ok (bk_under b) \<and> buf_ok (bk_buf b)"
  note B = kv_reader.batching_store[OF kv_store.axioms(1)[OF assms(1)]]
  have w: "?ok (w_kv w)" "?abs (w_kv w) = \<alpha> s" "w_last w = l" "w_ticks w = n" "bk_under (w_kv w) = s"
    using assms(2,3) by (simp_all add: bk_new_def buf_ok_def overlay_empty)
  have commit: "ok (apply_writes K (into_ops b) s) \<and> \<alpha> (apply_writes K (into_ops b) s) = ?abs b"
    if "?ok b" "bk_under b = s" for b
    using kv_store.apply_writes_overlay[OF assms(1,2), of "bk_buf b"] that by (simp add: into_ops_def)
  have set: ?set
    if T: "str_ready SS slot key (\<alpha> s) l" "length val \<le> unat (st_max_value_bytes S)"
  proof -
    have "length val < 2 ^ 64" using T(2) unsigned_less[of "st_max_value_bytes S", where 'a = nat] by simp
    then obtain w' where w': "str_set ?B SS slot key val \<lparr>so_nx = False, so_xx = False, so_expiry = AtMs e\<rparr> w = (Inr Done, w')"
        "?ok (w_kv w')" "str_post SS slot key (\<alpha> s) l (?abs (w_kv w')) (w_last w') (Some (e, val))"
      using kv_store.str_set(3)[OF B w(1), of SS slot key val "\<lparr>so_nx = False, so_xx = False, so_expiry = AtMs e\<rparr>"] T assms(4,5) w
      by auto
    have "bk_under (w_kv w') = s" using under_str_set[of K SS slot key val _ w] w'(1) w(5) by (metis snd_conv)
    then show ?thesis using w' commit[of "w_kv w'"] by (simp add: Let_def)
  qed
  have hset: ?hset
    if H: "coll_ready Hash hash_cost S slot key (\<alpha> s) l" "coll_view Hash S slot key (\<alpha> s) (st_clock S n) = Inr (e, F)" "pairs \<noteq> []"
    "card (dom F) + length pairs < 2 ^ 32" "total hash_cost F + pairs_cost pairs < 2 ^ 64"
    "total hash_cost (F ++ map_of (rev pairs)) \<le> unat (st_max_value_bytes S)"
  proof -
    obtain w' where w': "hset ?B S slot key pairs w = (Inr (word_of_nat (card (dom (F ++ map_of (rev pairs))) - card (dom F))), w')"
        "?ok (w_kv w')" "coll_post Hash hash_cost S slot key (\<alpha> s) l (?abs (w_kv w')) (w_last w') (e, F ++ map_of (rev pairs))"
      using kv_store.hset_spec[OF B w(1), of S slot key e F pairs] H assms(4) w by (auto simp: not_less)
    have "bk_under (w_kv w') = s" using under_hset[of K S slot key pairs w] w'(1) w(5) by simp
    then show ?thesis
      using w' commit[of "w_kv w'"] by (simp add: Let_def)
  qed
  from set hset show ?thesis by blast
qed

theorem batched_command_commits_witness:
  "\<exists>w'. str_set (batching_kv mem_kv) test_strings 0 [107] [1, 2, 3, 4] \<lparr>so_nx = False, so_xx = False, so_expiry = AtMs 9\<rparr>
       \<lparr>w_kv = bk_new [], w_last = 0, w_ticks = 0\<rparr> = (Inr Done, w') \<and> bk_under (w_kv w') = [] \<and>
     str_view test_strings 0 [107] (map_of (apply_writes mem_kv (into_ops (w_kv w')) [])) 7 = Inr (Some (9, [1, 2, 3, 4]))"
proof -
  let ?w = "\<lparr>w_kv = bk_new [], w_last = 0, w_ticks = 0\<rparr> :: MemKv BatchingKv world"
  let ?set = "str_set (batching_kv mem_kv) test_strings 0 [107] [1, 2, 3, 4] \<lparr>so_nx = False, so_xx = False, so_expiry = AtMs 9\<rparr> ?w"
  have "mem_ok []" "clock_sane (ss_store test_strings) 0" using test_strings(2) by (simp_all add: mem_ok_def empty_world_def)
  from batched_command_commits[OF mem.kv_store_axioms this(1) refl this(2) refl, THEN conjunct1, rule_format, of 0 "[107]" "[1, 2, 3, 4]" 9 0]
  obtain w' where w': "?set = (Inr Done, w')" "bk_under (w_kv w') = []"
      "str_post test_strings 0 [107] Map.empty 0 (map_of (apply_writes mem_kv (into_ops (w_kv w')) [])) (w_last w') (Some (9, [1, 2, 3, 4]))"
    by (auto simp: test_strings Let_def)
  show ?thesis
    using w'(1,2) str_post_next(2)[OF w'(3), of 7] by (intro exI[of _ w']) (simp add: str_aged_def word_le_nat_alt)
qed

end
